(* ===== verification/Prelude.thy ===== *)
theory Prelude
  imports
    Main
    "HOL-Library.Word"
    "HOL-Library.AList"
    "HOL-Library.Char_ord"
    "HOL-Library.List_Lexorder"
begin

text \<open>
  Shared vocabulary of the development: the names of the machine types, the collections of rewrite
  rules the component theories extend, and the generic facts on lists and sums that several
  components use.

  A byte is a \<^typ>\<open>char\<close>, which has exactly 256 values, so \<open>Vec<u8>\<close> and \<open>&[u8]\<close> are
  \<^typ>\<open>char list\<close>; the order of the libraries \<open>Char_ord\<close> and \<open>List_Lexorder\<close> on them is
  the lexicographic order of unsigned bytes that Rust's \<open>Ord for Vec<u8>\<close> has.  A Rust \<open>String\<close>
  is the list of its UTF-8 bytes, so that it has the same type.  A fallible operation returns
  \<open>error + value\<close>.
\<close>

type_synonym bytes = "char list"
type_synonym u64 = "64 word"
type_synonym u32 = "32 word"
type_synonym u16 = "16 word"

named_theorems store_defs \<open>definitions of the store operations, unfolded by case analysis\<close>
named_theorems lookup_simps \<open>what a lookup returns after an update of a store\<close>
named_theorems frame_simps \<open>what an update leaves unchanged\<close>

section \<open>Sums as results\<close>

text \<open>The \<open>?\<close> operator of Rust: stop at an error, go on with a value.\<close>

definition bind_res :: "'e + 'a \<Rightarrow> ('a \<Rightarrow> 'e + 'b) \<Rightarrow> 'e + 'b" where
  "bind_res r f = (case r of Inl e \<Rightarrow> Inl e | Inr a \<Rightarrow> f a)"

lemma bind_res_simps [simp]:
  "bind_res (Inl e) f = Inl e"
  "bind_res (Inr a) f = f a"
  by (simp_all add: bind_res_def)

lemma bind_res_Inr_iff:
  "bind_res r f = Inr b \<longleftrightarrow> (\<exists>a. r = Inr a \<and> f a = Inr b)"
  by (cases r) auto

definition map_res :: "('a \<Rightarrow> 'b) \<Rightarrow> 'e + 'a \<Rightarrow> 'e + 'b" where
  "map_res f r = (case r of Inl e \<Rightarrow> Inl e | Inr a \<Rightarrow> Inr (f a))"

lemma map_res_simps [simp]:
  "map_res f (Inl e) = Inl e"
  "map_res f (Inr a) = Inr (f a)"
  by (simp_all add: map_res_def)

section \<open>Words\<close>

lemma word_less_Suc: "x \<noteq> - 1 \<Longrightarrow> x < x + 1" for x :: "'a::len word"
  by (meson inc_less_eq_triv_imp linorder_not_le)

section \<open>Lists\<close>

lemma list_update_id_nth: "i < length xs \<Longrightarrow> xs[i := xs ! i] = xs"
  by simp

lemma nth_list_update_in:
  "j < length xs \<Longrightarrow> xs[i := v] ! j = (if j = i then v else xs ! j)"
  by simp

lemma filter_neq_id: "x \<notin> set xs \<Longrightarrow> filter (\<lambda>y. y \<noteq> x) xs = xs"
  by (induction xs) auto

lemma length_filter_neq_distinct:
  "distinct xs \<Longrightarrow> length (filter (\<lambda>y. y \<noteq> x) xs) = length xs - (if x \<in> set xs then 1 else 0)"
proof (induction xs)
  case Nil
  then show ?case by simp
next
  case (Cons a xs)
  show ?case
  proof (cases "a = x")
    case True
    with Cons.prems have "filter (\<lambda>y. y \<noteq> x) xs = xs" by (auto intro: filter_neq_id)
    with True show ?thesis by simp
  next
    case False
    with Cons show ?thesis by (cases xs) auto
  qed
qed

lemma foldl_Cons_rev: "foldl (\<lambda>l v. v # l) acc vs = rev vs @ acc"
  by (induction vs arbitrary: acc) auto

lemma foldl_snoc: "foldl (\<lambda>l v. l @ [v]) acc vs = acc @ vs"
  by (induction vs arbitrary: acc) auto

lemma sorted_wrt_filter: "sorted_wrt R xs \<Longrightarrow> sorted_wrt R (filter P xs)"
  by (induction xs) auto

lemma sorted_wrt_snoc:
  "sorted_wrt R (xs @ [x]) \<longleftrightarrow> sorted_wrt R xs \<and> (\<forall>y\<in>set xs. R y x)"
  by (auto simp: sorted_wrt_append)

lemma sorted_wrt_take: "sorted_wrt R xs \<Longrightarrow> sorted_wrt R (take n xs)"
  by (metis append_take_drop_id sorted_wrt_append)

lemma sorted_wrt_drop: "sorted_wrt R xs \<Longrightarrow> sorted_wrt R (drop n xs)"
  by (metis append_take_drop_id sorted_wrt_append)

lemma sum_list_map_filter_le:
  fixes f :: "'a \<Rightarrow> nat"
  shows "sum_list (map f (filter P xs)) \<le> sum_list (map f xs)"
  by (induction xs) auto

lemma count_filter_compl:
  "length (filter P xs) + length (filter (\<lambda>x. \<not> P x) xs) = length xs"
  by (induction xs) auto

end
