(* ===== verification/RustStd.thy ===== *)
theory RustStd
  imports Prelude
begin

text \<open>
  The parts of Rust's standard library that the sources use on strings and integers: printing and
  parsing decimal integers (\<open>to_string\<close>, \<open>parse::<i64>()\<close>, \<open>parse::<u64>()\<close>,
  \<open>parse::<usize>()\<close>), \<open>String::from_utf8_lossy\<close>, \<open>str::to_uppercase\<close>,
  \<open>to_lowercase\<close>, \<open>splitn(2, c)\<close>, \<open>chunks(2)\<close>, and the saturating and checked integer
  operations.  \<open>usize\<close> is 64 bits wide.
\<close>

section \<open>Integer bounds and arithmetic\<close>

definition u64_max :: nat where "u64_max = 2 ^ 64 - 1"
definition i64_max :: int where "i64_max = 2 ^ 63 - 1"
definition i64_min :: int where "i64_min = - (2 ^ 63)"

definition in_i64 :: "int \<Rightarrow> bool" where
  "in_i64 i \<longleftrightarrow> i64_min \<le> i \<and> i \<le> i64_max"

text \<open>\<open>i64::checked_add\<close>: \<open>None\<close> on overflow.\<close>

definition checked_add_i64 :: "int \<Rightarrow> int \<Rightarrow> int option" where
  "checked_add_i64 a b = (if in_i64 (a + b) then Some (a + b) else None)"

text \<open>The value an \<open>i64\<close> operation wraps to in a build without overflow checks.\<close>

definition wrap_i64 :: "int \<Rightarrow> int" where
  "wrap_i64 i = (i + 2 ^ 63) mod 2 ^ 64 - 2 ^ 63"

text \<open>\<open>x as usize\<close> for an \<open>i64\<close>: two's complement.\<close>

definition i64_as_usize :: "int \<Rightarrow> nat" where
  "i64_as_usize i = nat (i mod 2 ^ 64)"

definition i64_as_u64 :: "int \<Rightarrow> u64" where
  "i64_as_u64 i = word_of_int i"

text \<open>\<open>u64::saturating_sub\<close>.\<close>

definition saturating_sub :: "u64 \<Rightarrow> u64 \<Rightarrow> u64" where
  "saturating_sub a b = (if a < b then 0 else a - b)"

lemma wrap_i64_id: "in_i64 i \<Longrightarrow> wrap_i64 i = i"
  by (simp add: wrap_i64_def in_i64_def i64_min_def i64_max_def)

lemma in_i64_wrap: "in_i64 (wrap_i64 i)"
proof -
  have "0 \<le> (i + 2 ^ 63) mod 2 ^ 64" and "(i + 2 ^ 63) mod 2 ^ 64 < (2::int) ^ 64" by simp_all
  then show ?thesis by (simp add: in_i64_def wrap_i64_def i64_min_def i64_max_def)
qed

lemma i64_as_usize_nonneg: "0 \<le> i \<Longrightarrow> in_i64 i \<Longrightarrow> i64_as_usize i = nat i"
  by (simp add: i64_as_usize_def in_i64_def i64_max_def)

section \<open>Decimal printing and parsing\<close>

definition digit_char :: "nat \<Rightarrow> char" where
  "digit_char d = char_of (48 + d)"

definition digit_val :: "char \<Rightarrow> nat option" where
  "digit_val c =
     (let n = of_char c :: nat in if 48 \<le> n \<and> n \<le> 57 then Some (n - 48) else None)"

fun nat_to_string :: "nat \<Rightarrow> bytes" where
  "nat_to_string n =
     (if n < 10 then [digit_char n] else nat_to_string (n div 10) @ [digit_char (n mod 10)])"

declare nat_to_string.simps [simp del]

definition int_to_string :: "int \<Rightarrow> bytes" where
  "int_to_string i =
     (if i < 0 then CHR ''-'' # nat_to_string (nat (- i)) else nat_to_string (nat i))"

fun parse_digits :: "nat \<Rightarrow> bytes \<Rightarrow> nat option" where
  "parse_digits acc [] = Some acc"
| "parse_digits acc (c # cs) =
     (case digit_val c of None \<Rightarrow> None | Some d \<Rightarrow> parse_digits (acc * 10 + d) cs)"

text \<open>A nonempty run of digits.\<close>

definition parse_nat :: "bytes \<Rightarrow> nat option" where
  "parse_nat s = (if s = [] then None else parse_digits 0 s)"

text \<open>\<open>parse::<u64>()\<close>: an optional plus sign, digits, at most \<open>u64::MAX\<close>.\<close>

definition parse_u64_nat :: "bytes \<Rightarrow> nat option" where
  "parse_u64_nat s =
     (let digits = (case s of [] \<Rightarrow> [] | c # cs \<Rightarrow> if c = CHR ''+'' then cs else s)
      in case parse_nat digits of
           None \<Rightarrow> None
         | Some n \<Rightarrow> if n \<le> u64_max then Some n else None)"

definition parse_u64 :: "bytes \<Rightarrow> u64 option" where
  "parse_u64 s = map_option of_nat (parse_u64_nat s)"

definition parse_usize :: "bytes \<Rightarrow> nat option" where
  "parse_usize s = parse_u64_nat s"

text \<open>\<open>parse::<i64>()\<close>: an optional sign, digits, within the range.\<close>

definition parse_i64 :: "bytes \<Rightarrow> int option" where
  "parse_i64 s =
     (let (neg, digits) =
        (case s of [] \<Rightarrow> (False, [])
         | c # cs \<Rightarrow> if c = CHR ''-'' then (True, cs)
                     else if c = CHR ''+'' then (False, cs) else (False, s))
      in case parse_nat digits of
           None \<Rightarrow> None
         | Some n \<Rightarrow>
             (let i = (if neg then - int n else int n) in if in_i64 i then Some i else None))"

lemma of_char_digit_char: "d < 10 \<Longrightarrow> of_char (digit_char d) = (48 + d :: nat)"
  by (simp add: digit_char_def)

lemma digit_val_digit_char [simp]: "d < 10 \<Longrightarrow> digit_val (digit_char d) = Some d"
  by (simp add: digit_val_def of_char_digit_char)

lemma parse_digits_append:
  "parse_digits acc (xs @ ys) =
     (case parse_digits acc xs of None \<Rightarrow> None | Some n \<Rightarrow> parse_digits n ys)"
  by (induction xs arbitrary: acc) (auto split: option.splits)

lemma nat_to_string_not_Nil [simp]: "nat_to_string n \<noteq> []"
  by (subst nat_to_string.simps) simp

lemma parse_digits_nat_to_string: "parse_digits 0 (nat_to_string n) = Some n"
proof (induction n rule: nat_to_string.induct)
  case (1 n)
  show ?case
  proof (cases "n < 10")
    case True
    then show ?thesis by (subst nat_to_string.simps) simp
  next
    case False
    with 1 have "parse_digits 0 (nat_to_string (n div 10)) = Some (n div 10)" by simp
    with False show ?thesis
      by (subst nat_to_string.simps) (simp add: parse_digits_append)
  qed
qed

lemma parse_nat_nat_to_string [simp]: "parse_nat (nat_to_string n) = Some n"
  by (simp add: parse_nat_def parse_digits_nat_to_string)

lemma set_nat_to_string: "set (nat_to_string n) \<subseteq> digit_char ` {..<10}"
proof (induction n rule: nat_to_string.induct)
  case (1 n)
  show ?case
  proof (cases "n < 10")
    case True
    then show ?thesis by (subst nat_to_string.simps) auto
  next
    case False
    with 1 have "set (nat_to_string (n div 10)) \<subseteq> digit_char ` {..<10}" by simp
    with False show ?thesis by (subst nat_to_string.simps) auto
  qed
qed

lemma nat_to_string_digits: "c \<in> set (nat_to_string n) \<Longrightarrow> \<exists>d. digit_val c = Some d"
  using set_nat_to_string [of n] by auto

lemma not_in_nat_to_string: "digit_val c = None \<Longrightarrow> c \<notin> set (nat_to_string n)"
  using nat_to_string_digits [of c n] by auto

lemma hd_nat_to_string_digit: "nat_to_string n = c # cs \<Longrightarrow> digit_val c \<noteq> None"
  using nat_to_string_digits [of c n] by auto

lemma digit_val_signs [simp]: "digit_val (CHR ''-'') = None" "digit_val (CHR ''+'') = None"
  by (simp_all add: digit_val_def)

lemma parse_u64_nat_to_string: "n \<le> u64_max \<Longrightarrow> parse_u64_nat (nat_to_string n) = Some n"
proof -
  assume n: "n \<le> u64_max"
  obtain c cs where s: "nat_to_string n = c # cs"
    by (cases "nat_to_string n") auto
  then have "c \<noteq> CHR ''+''" using hd_nat_to_string_digit [OF s] by auto
  moreover have "parse_nat (c # cs) = Some n" by (metis s parse_nat_nat_to_string)
  ultimately show ?thesis using n by (simp add: parse_u64_nat_def s)
qed

lemma parse_i64_int_to_string: "in_i64 i \<Longrightarrow> parse_i64 (int_to_string i) = Some i"
proof (cases "i < 0")
  case True
  assume "in_i64 i"
  with True show ?thesis by (simp add: parse_i64_def int_to_string_def)
next
  case False
  assume i: "in_i64 i"
  obtain c cs where s: "nat_to_string (nat i) = c # cs"
    by (cases "nat_to_string (nat i)") auto
  then have "c \<noteq> CHR ''+''" "c \<noteq> CHR ''-''" using hd_nat_to_string_digit [OF s] by auto
  moreover have "parse_nat (c # cs) = Some (nat i)" by (metis s parse_nat_nat_to_string)
  ultimately show ?thesis using i False by (simp add: parse_i64_def int_to_string_def s)
qed

lemma parse_i64_range: "parse_i64 s = Some i \<Longrightarrow> in_i64 i"
  by (auto simp: parse_i64_def Let_def split: option.splits if_splits prod.splits)

lemma nat_to_string_inject [simp]: "nat_to_string m = nat_to_string n \<longleftrightarrow> m = n"
  by (metis option.inject parse_nat_nat_to_string)

section \<open>UTF-8\<close>

text \<open>
  \<open>String::from_utf8_lossy\<close>: every maximal ill-formed prefix of a character becomes U+FFFD.
  \<open>utf8_step\<close> looks at the front of the input: whether a well-formed character is there, and how
  many bytes it, or the ill-formed prefix, takes (the decoder of \<open>core::str::Utf8Chunks\<close>).
\<close>

definition byte_in :: "nat \<Rightarrow> nat \<Rightarrow> char \<Rightarrow> bool" where
  "byte_in lo hi c \<longleftrightarrow> lo \<le> of_char c \<and> of_char c \<le> hi"

abbreviation is_cont :: "char \<Rightarrow> bool" where
  "is_cont \<equiv> byte_in 128 191"

definition second_ok :: "char \<Rightarrow> char \<Rightarrow> bool" where
  "second_ok b c =
     (let n = of_char b :: nat in
      if n = 224 then byte_in 160 191 c
      else if n = 237 then byte_in 128 159 c
      else if n = 240 then byte_in 144 191 c
      else if n = 244 then byte_in 128 143 c
      else is_cont c)"

definition utf8_step :: "char \<Rightarrow> bytes \<Rightarrow> bool \<times> nat" where
  "utf8_step b rest =
     (if byte_in 0 127 b then (True, 1)
      else if byte_in 194 223 b then
        (case rest of c # _ \<Rightarrow> if is_cont c then (True, 2) else (False, 1) | [] \<Rightarrow> (False, 1))
      else if byte_in 224 239 b then
        (case rest of
           c # d # _ \<Rightarrow> if \<not> second_ok b c then (False, 1)
                         else if is_cont d then (True, 3) else (False, 2)
         | [c] \<Rightarrow> if second_ok b c then (False, 2) else (False, 1)
         | [] \<Rightarrow> (False, 1))
      else if byte_in 240 244 b then
        (case rest of
           c # d # e # _ \<Rightarrow> if \<not> second_ok b c then (False, 1)
                             else if \<not> is_cont d then (False, 2)
                             else if is_cont e then (True, 4) else (False, 3)
         | [c, d] \<Rightarrow> if \<not> second_ok b c then (False, 1)
                     else if is_cont d then (False, 3) else (False, 2)
         | [c] \<Rightarrow> if second_ok b c then (False, 2) else (False, 1)
         | [] \<Rightarrow> (False, 1))
      else (False, 1))"

definition replacement_char :: bytes where
  "replacement_char = [char_of (239::nat), char_of (191::nat), char_of (189::nat)]"

fun utf8_lossy :: "bytes \<Rightarrow> bytes" where
  "utf8_lossy [] = []"
| "utf8_lossy (b # bs) =
     (let (ok, n) = utf8_step b bs
      in (if ok then b # take (n - 1) bs else replacement_char) @ utf8_lossy (drop (n - 1) bs))"

definition ascii :: "bytes \<Rightarrow> bool" where
  "ascii s = list_all (byte_in 0 127) s"

lemma ascii_simps [simp]:
  "ascii []"
  "ascii (c # cs) \<longleftrightarrow> byte_in 0 127 c \<and> ascii cs"
  "ascii (xs @ ys) \<longleftrightarrow> ascii xs \<and> ascii ys"
  by (simp_all add: ascii_def)

lemma utf8_lossy_ascii: "ascii s \<Longrightarrow> utf8_lossy s = s"
  by (induction s) (auto simp: utf8_step_def)

lemma byte_in_digit: "digit_val c = Some d \<Longrightarrow> byte_in 0 127 c"
  by (auto simp: digit_val_def byte_in_def Let_def split: if_splits)

lemma ascii_nat_to_string [simp]: "ascii (nat_to_string n)"
  unfolding ascii_def list_all_iff
  using nat_to_string_digits byte_in_digit by blast

lemma ascii_int_to_string [simp]: "ascii (int_to_string i)"
  by (simp add: int_to_string_def byte_in_def)

section \<open>Letter case\<close>

text \<open>
  \<open>str::to_uppercase\<close> on UTF-8 bytes.  The sources use the result only to compare it with words
  of capital ASCII letters, so the mapping is exact where the upper-case form of a character is
  made of ASCII letters: the ASCII letters, and the ten other characters of Unicode with such a form
  (sharp s, dotless i, long s and the Latin ligatures).  Every other character keeps its
  bytes, so that it stays different from every ASCII word.
\<close>

definition upper_char :: "char \<Rightarrow> char" where
  "upper_char c = (if byte_in 97 122 c then char_of ((of_char c :: nat) - 32) else c)"

definition lower_char :: "char \<Rightarrow> char" where
  "lower_char c = (if byte_in 65 90 c then char_of ((of_char c :: nat) + 32) else c)"

definition upper_special :: "bytes \<Rightarrow> (bytes \<times> nat) option" where
  "upper_special s =
     (let codes = map of_char (take 3 s) :: nat list in
      if take 2 codes = [195, 159] then Some (''SS'', 2)
      else if take 2 codes = [196, 177] then Some (''I'', 2)
      else if take 2 codes = [197, 191] then Some (''S'', 2)
      else if codes = [239, 172, 128] then Some (''FF'', 3)
      else if codes = [239, 172, 129] then Some (''FI'', 3)
      else if codes = [239, 172, 130] then Some (''FL'', 3)
      else if codes = [239, 172, 131] then Some (''FFI'', 3)
      else if codes = [239, 172, 132] then Some (''FFL'', 3)
      else if codes = [239, 172, 133] \<or> codes = [239, 172, 134] then Some (''ST'', 3)
      else None)"

fun to_uppercase :: "bytes \<Rightarrow> bytes" where
  "to_uppercase [] = []"
| "to_uppercase (c # cs) =
     (case upper_special (c # cs) of
        None \<Rightarrow> upper_char c # to_uppercase cs
      | Some (u, n) \<Rightarrow> u @ to_uppercase (drop (n - 1) cs))"

definition to_lowercase :: "bytes \<Rightarrow> bytes" where
  "to_lowercase s = map lower_char s"

section \<open>Splitting\<close>

text \<open>\<open>s.splitn(2, c)\<close>: one piece without the separator, two around its first occurrence.\<close>

definition splitn2 :: "char \<Rightarrow> bytes \<Rightarrow> bytes list" where
  "splitn2 c s =
     (let pre = takeWhile (\<lambda>x. x \<noteq> c) s; post = dropWhile (\<lambda>x. x \<noteq> c) s
      in case post of [] \<Rightarrow> [s] | _ # rest \<Rightarrow> [pre, rest])"

lemma splitn2_no_sep: "c \<notin> set s \<Longrightarrow> splitn2 c s = [s]"
proof -
  assume "c \<notin> set s"
  then have "dropWhile (\<lambda>x. x \<noteq> c) s = []" by (auto simp: dropWhile_eq_Nil_conv)
  then show ?thesis unfolding splitn2_def Let_def by (simp only: list.case)
qed

lemma splitn2_sep: "c \<notin> set xs \<Longrightarrow> splitn2 c (xs @ c # ys) = [xs, ys]"
proof -
  assume c: "c \<notin> set xs"
  then have "takeWhile (\<lambda>x. x \<noteq> c) (xs @ c # ys) = xs" "dropWhile (\<lambda>x. x \<noteq> c) (xs @ c # ys) = c # ys"
    by (auto simp: takeWhile_append dropWhile_append3)
  then show ?thesis by (simp add: splitn2_def)
qed

text \<open>\<open>args.chunks(2)\<close> with the chunks of length 2 kept, as pairs.\<close>

fun pairs_of :: "'a list \<Rightarrow> ('a \<times> 'a) list" where
  "pairs_of (x # y # zs) = (x, y) # pairs_of zs"
| "pairs_of _ = []"

fun flatten_pairs :: "('a \<times> 'a) list \<Rightarrow> 'a list" where
  "flatten_pairs [] = []"
| "flatten_pairs ((x, y) # ps) = x # y # flatten_pairs ps"

lemma pairs_of_flatten [simp]: "pairs_of (flatten_pairs ps) = ps"
  by (induction ps rule: flatten_pairs.induct) auto

text \<open>\<open>iter().position(p)\<close>: the index of the first element that satisfies \<open>p\<close>.\<close>

fun position :: "('a \<Rightarrow> bool) \<Rightarrow> 'a list \<Rightarrow> nat option" where
  "position p [] = None"
| "position p (x # xs) = (if p x then Some 0 else map_option Suc (position p xs))"

text \<open>\<open>v.remove(i)\<close>.\<close>

definition remove_at :: "nat \<Rightarrow> 'a list \<Rightarrow> 'a list" where
  "remove_at i xs = take i xs @ drop (Suc i) xs"

lemma remove_at_simps [simp]:
  "remove_at 0 (x # xs) = xs"
  "remove_at (Suc i) (x # xs) = x # remove_at i xs"
  by (simp_all add: remove_at_def)

lemma position_None: "position p xs = None \<longleftrightarrow> (\<forall>x\<in>set xs. \<not> p x)"
  by (induction xs) auto

lemma position_Some_split:
  "position p xs = Some i \<Longrightarrow>
     i < length xs \<and> p (xs ! i) \<and> (\<forall>x\<in>set (take i xs). \<not> p x)"
  by (induction xs arbitrary: i) (auto split: if_splits)

lemma remove_at_position:
  "position ((=) v) xs = Some i \<Longrightarrow> remove_at i xs = remove1 v xs"
  by (induction xs arbitrary: i) (auto split: if_splits)

lemma length_remove_at: "i < length xs \<Longrightarrow> length (remove_at i xs) = length xs - 1"
  by (simp add: remove_at_def)

lemma set_remove_at: "set (remove_at i xs) \<subseteq> set xs"
  by (auto simp: remove_at_def dest: in_set_takeD in_set_dropD)

lemma sorted_wrt_remove_at: "sorted_wrt R xs \<Longrightarrow> sorted_wrt R (remove_at i xs)"
proof -
  assume R: "sorted_wrt R xs"
  then have "sorted_wrt R (take i xs @ drop i xs)" by simp
  then have "\<forall>x\<in>set (take i xs). \<forall>y\<in>set (drop (Suc i) xs). R x y"
    using set_drop_subset_set_drop [of i "Suc i" xs] by (auto simp: sorted_wrt_append simp del: append_take_drop_id)
  with R show ?thesis
    by (simp add: remove_at_def sorted_wrt_append sorted_wrt_take sorted_wrt_drop)
qed

end
