(* ===== verification/Errors.thy ===== *)
theory Errors
  imports RustStd
begin

text \<open>
  \<open>error.rs\<close>: the error type every fallible operation returns, and its \<open>Display\<close> text, which is
  what a client sees after the minus sign of an error reply.  The payload of \<open>Io\<close> is the text of
  the operating system's error.
\<close>

datatype velodb_error =
    UnknownCommand bytes
  | WrongNumberOfArgs bytes
  | SyntaxError
  | WrongType
  | KeyNotFound
  | NotInteger
  | Overflow
  | IndexOutOfRange
  | MinOrMaxNotValidFloat
  | StreamIDTooSmall
  | AofError bytes
  | RdbError bytes
  | ReplError bytes
  | ProtocolError bytes
  | Io bytes
  | LuaError bytes
  | Internal bytes

type_synonym 'a res = "velodb_error + 'a"

fun error_text :: "velodb_error \<Rightarrow> bytes" where
  "error_text (UnknownCommand c) = ''ERR unknown command '' @ [CHR 0x27] @ c @ [CHR 0x27]"
| "error_text (WrongNumberOfArgs c) =
     ''ERR wrong number of arguments for '' @ [CHR 0x27] @ c @ [CHR 0x27] @ '' command''"
| "error_text SyntaxError = ''ERR syntax error''"
| "error_text WrongType = ''WRONGTYPE Operation against a key holding the wrong kind of value''"
| "error_text KeyNotFound = ''ERR no such key''"
| "error_text NotInteger = ''ERR value is not an integer or out of range''"
| "error_text Overflow = ''ERR increment or decrement would overflow''"
| "error_text IndexOutOfRange = ''ERR index out of range''"
| "error_text MinOrMaxNotValidFloat = ''ERR min or max not a valid float''"
| "error_text StreamIDTooSmall =
     ''ERR The ID specified in XADD is equal or smaller than the target stream top item''"
| "error_text (AofError m) = ''ERR AOF error: '' @ m"
| "error_text (RdbError m) = ''ERR RDB error: '' @ m"
| "error_text (ReplError m) = ''ERR replication error: '' @ m"
| "error_text (ProtocolError m) = ''ERR protocol error: '' @ m"
| "error_text (Io m) = m"
| "error_text (LuaError m) = ''Lua error: '' @ m"
| "error_text (Internal m) = m"

text \<open>\<open>VeloDBError::unknown_command\<close> upper-cases the name it is given.\<close>

definition unknown_command :: "bytes \<Rightarrow> velodb_error" where
  "unknown_command c = UnknownCommand (to_uppercase c)"

end
