(* ===== verification/Containers.thy ===== *)
theory Containers
  imports RustStd
begin

text \<open>
  The containers of the sources.  A \<open>HashMap\<close> or \<open>DashMap\<close> is an association list with distinct
  keys and a \<open>HashSet\<close> a list with distinct elements: the order of the list stands for the
  iteration order, which the library leaves unspecified.  A property of the development never
  says in which order a fresh element is placed; it quantifies over the lists that represent the
  containers before an operation, and so over their iteration orders.

  The interface the components rely on is a locale per container: what a lookup returns after an
  insertion or a removal, what the length is, and that every operation keeps the keys distinct.
  The association list and the distinct list are interpretations of them.
\<close>

section \<open>Interfaces\<close>

locale map_interface =
  fixes empty :: "'m"
    and insert_kv :: "'k \<Rightarrow> 'v \<Rightarrow> 'm \<Rightarrow> 'm"
    and remove_k :: "'k \<Rightarrow> 'm \<Rightarrow> 'm"
    and get :: "'m \<Rightarrow> 'k \<Rightarrow> 'v option"
    and len :: "'m \<Rightarrow> nat"
    and invar :: "'m \<Rightarrow> bool"
  assumes get_empty: "get empty k = None"
    and get_insert: "invar m \<Longrightarrow> get (insert_kv k v m) = (get m)(k \<mapsto> v)"
    and get_remove: "invar m \<Longrightarrow> get (remove_k k m) = (get m)(k := None)"
    and len_empty: "len empty = 0"
    and len_insert: "invar m \<Longrightarrow>
          len (insert_kv k v m) = (if get m k = None then Suc (len m) else len m)"
    and len_remove: "invar m \<Longrightarrow>
          len (remove_k k m) = (if get m k = None then len m else len m - 1)"
    and len_pos: "invar m \<Longrightarrow> get m k \<noteq> None \<Longrightarrow> 0 < len m"
    and invar_empty: "invar empty"
    and invar_insert: "invar m \<Longrightarrow> invar (insert_kv k v m)"
    and invar_remove: "invar m \<Longrightarrow> invar (remove_k k m)"
begin

lemmas map_laws =
  get_empty get_insert get_remove len_empty len_insert len_remove
  invar_empty invar_insert invar_remove

text \<open>
  The loop \<open>for (k, v) in pairs { if m.insert(k, v).is_none() { added += 1 } }\<close> and the loop
  \<open>for k in keys { if m.remove(k).is_some() { removed += 1 } }\<close>.
\<close>

primrec insert_all :: "('k \<times> 'v) list \<Rightarrow> 'm \<Rightarrow> nat \<Rightarrow> 'm \<times> nat" where
  "insert_all [] m added = (m, added)"
| "insert_all (p # ps) m added =
     insert_all ps (insert_kv (fst p) (snd p) m)
       (if get m (fst p) = None then Suc added else added)"

primrec remove_all :: "'k list \<Rightarrow> 'm \<Rightarrow> nat \<Rightarrow> 'm \<times> nat" where
  "remove_all [] m removed = (m, removed)"
| "remove_all (k # ks) m removed =
     remove_all ks (remove_k k m) (if get m k = None then removed else Suc removed)"

lemma insert_all_spec:
  assumes "invar m"
  shows "invar (fst (insert_all ps m n)) \<and>
         get (fst (insert_all ps m n)) = get m ++ map_of (rev ps) \<and>
         len (fst (insert_all ps m n)) + n = len m + snd (insert_all ps m n)"
  using assms
proof (induction ps arbitrary: m n)
  case Nil
  then show ?case by simp
next
  case (Cons p ps)
  let ?m = "insert_kv (fst p) (snd p) m"
  let ?n = "if get m (fst p) = None then Suc n else n"
  from Cons.prems have inv: "invar ?m" by (rule invar_insert)
  note IH = Cons.IH [OF inv, of ?n]
  have "get ?m ++ map_of (rev ps) = get m ++ map_of (rev (p # ps))"
    using get_insert [OF Cons.prems] by (cases p) (simp add: map_add_assoc [symmetric])
  moreover have "len ?m + n = len m + ?n"
    using len_insert [OF Cons.prems] by simp
  ultimately show ?case using IH by (simp split: if_splits)
qed

lemma remove_all_spec:
  assumes "invar m"
  shows "invar (fst (remove_all ks m n)) \<and>
         get (fst (remove_all ks m n)) = (get m) |` (- set ks) \<and>
         len m + n = len (fst (remove_all ks m n)) + snd (remove_all ks m n)"
  using assms
proof (induction ks arbitrary: m n)
  case Nil
  then show ?case by simp
next
  case (Cons k ks)
  let ?m = "remove_k k m"
  let ?n = "if get m k = None then n else Suc n"
  from Cons.prems have inv: "invar ?m" by (rule invar_remove)
  note IH = Cons.IH [OF inv, of ?n]
  have "(get ?m) |` (- set ks) = (get m) |` (- set (k # ks))"
    using get_remove [OF Cons.prems] by (auto simp: restrict_map_def fun_eq_iff)
  moreover have "len m + n = len ?m + ?n"
    using len_remove [OF Cons.prems, of k] len_pos [OF Cons.prems, of k] by auto
  ultimately show ?case using IH by (simp split: if_splits)
qed

end

locale set_interface =
  fixes empty :: "'s"
    and insert_e :: "'a \<Rightarrow> 's \<Rightarrow> 's"
    and remove_e :: "'a \<Rightarrow> 's \<Rightarrow> 's"
    and contains :: "'s \<Rightarrow> 'a \<Rightarrow> bool"
    and elems :: "'s \<Rightarrow> 'a set"
    and len :: "'s \<Rightarrow> nat"
    and invar :: "'s \<Rightarrow> bool"
  assumes elems_empty: "elems empty = {}"
    and elems_insert: "invar s \<Longrightarrow> elems (insert_e x s) = insert x (elems s)"
    and elems_remove: "invar s \<Longrightarrow> elems (remove_e x s) = elems s - {x}"
    and contains_iff: "contains s x \<longleftrightarrow> x \<in> elems s"
    and len_card: "invar s \<Longrightarrow> len s = card (elems s)"
    and finite_elems: "invar s \<Longrightarrow> finite (elems s)"
    and invar_empty: "invar empty"
    and invar_insert: "invar s \<Longrightarrow> invar (insert_e x s)"
    and invar_remove: "invar s \<Longrightarrow> invar (remove_e x s)"
begin

lemmas set_laws =
  elems_empty elems_insert elems_remove contains_iff invar_empty invar_insert invar_remove

primrec insert_each :: "'a list \<Rightarrow> 's \<Rightarrow> nat \<Rightarrow> 's \<times> nat" where
  "insert_each [] s added = (s, added)"
| "insert_each (x # xs) s added =
     insert_each xs (insert_e x s) (if contains s x then added else Suc added)"

primrec remove_each :: "'a list \<Rightarrow> 's \<Rightarrow> nat \<Rightarrow> 's \<times> nat" where
  "remove_each [] s removed = (s, removed)"
| "remove_each (x # xs) s removed =
     remove_each xs (remove_e x s) (if contains s x then Suc removed else removed)"

lemma insert_each_spec:
  assumes "invar s"
  shows "invar (fst (insert_each xs s n)) \<and>
         elems (fst (insert_each xs s n)) = elems s \<union> set xs \<and>
         snd (insert_each xs s n) = n + card (set xs - elems s)"
  using assms
proof (induction xs arbitrary: s n)
  case Nil
  then show ?case by simp
next
  case (Cons x xs)
  from Cons.prems have inv: "invar (insert_e x s)" by (rule invar_insert)
  have card: "card (set (x # xs) - elems s) =
        (if x \<in> elems s then 0 else 1) + card (set xs - insert x (elems s))"
  proof (cases "x \<in> elems s")
    case True
    then have eq: "set (x # xs) - elems s = set xs - insert x (elems s)" by auto
    show ?thesis unfolding eq using True by simp
  next
    case False
    then have eq: "set (x # xs) - elems s = insert x (set xs - insert x (elems s))" by auto
    show ?thesis unfolding eq using False by (simp add: card_insert_if)
  qed
  note IH = Cons.IH [OF inv, of "if contains s x then n else Suc n", unfolded elems_insert [OF Cons.prems]]
  show ?case
  proof (intro conjI)
    show "invar (fst (insert_each (x # xs) s n))" using IH by simp
    show "elems (fst (insert_each (x # xs) s n)) = elems s \<union> set (x # xs)" using IH by auto
    show "snd (insert_each (x # xs) s n) = n + card (set (x # xs) - elems s)"
      unfolding card insert_each.simps using IH contains_iff [of s x] by simp
  qed
qed

lemma remove_each_spec:
  assumes "invar s"
  shows "invar (fst (remove_each xs s n)) \<and>
         elems (fst (remove_each xs s n)) = elems s - set xs \<and>
         snd (remove_each xs s n) = n + card (set xs \<inter> elems s)"
  using assms
proof (induction xs arbitrary: s n)
  case Nil
  then show ?case by simp
next
  case (Cons x xs)
  from Cons.prems have inv: "invar (remove_e x s)" by (rule invar_remove)
  have card: "card (set (x # xs) \<inter> elems s) =
        (if x \<in> elems s then 1 else 0) + card (set xs \<inter> (elems s - {x}))"
  proof (cases "x \<in> elems s")
    case True
    then have eq: "set (x # xs) \<inter> elems s = insert x (set xs \<inter> (elems s - {x}))" by auto
    show ?thesis unfolding eq using True by (simp add: card_insert_if)
  next
    case False
    then have eq: "set (x # xs) \<inter> elems s = set xs \<inter> (elems s - {x})" by auto
    show ?thesis unfolding eq using False by simp
  qed
  note IH = Cons.IH [OF inv, of "if contains s x then Suc n else n", unfolded elems_remove [OF Cons.prems]]
  show ?case
  proof (intro conjI)
    show "invar (fst (remove_each (x # xs) s n))" using IH by simp
    show "elems (fst (remove_each (x # xs) s n)) = elems s - set (x # xs)" using IH by auto
    show "snd (remove_each (x # xs) s n) = n + card (set (x # xs) \<inter> elems s)"
      unfolding card remove_each.simps using IH contains_iff [of s x] by simp
  qed
qed

end

section \<open>HashMap and DashMap\<close>

type_synonym ('k, 'v) hmap = "('k \<times> 'v) list"

definition hm_insert :: "'k \<Rightarrow> 'v \<Rightarrow> ('k, 'v) hmap \<Rightarrow> ('k, 'v) hmap" where
  "hm_insert k v m = AList.update k v m"

definition hm_remove :: "'k \<Rightarrow> ('k, 'v) hmap \<Rightarrow> ('k, 'v) hmap" where
  "hm_remove k m = AList.delete k m"

abbreviation hm_get :: "('k, 'v) hmap \<Rightarrow> 'k \<Rightarrow> 'v option" where
  "hm_get \<equiv> map_of"

definition hm_wf :: "('k, 'v) hmap \<Rightarrow> bool" where
  "hm_wf m = distinct (map fst m)"

lemma hm_get_insert [simp]: "hm_get (hm_insert k v m) = (hm_get m)(k \<mapsto> v)"
  by (simp add: hm_insert_def update_conv')

lemma hm_get_remove [simp]: "hm_get (hm_remove k m) = (hm_get m)(k := None)"
  by (simp add: hm_remove_def delete_conv')

lemma hm_wf_Nil [simp]: "hm_wf []"
  by (simp add: hm_wf_def)

lemma hm_wf_insert [simp]: "hm_wf m \<Longrightarrow> hm_wf (hm_insert k v m)"
  by (simp add: hm_wf_def hm_insert_def distinct_update)

lemma hm_wf_remove [simp]: "hm_wf m \<Longrightarrow> hm_wf (hm_remove k m)"
  by (simp add: hm_wf_def hm_remove_def distinct_delete)

lemma hm_wf_filter: "hm_wf m \<Longrightarrow> hm_wf (filter P m)"
  by (simp add: hm_wf_def distinct_map_filter)

lemma hm_get_filter:
  "hm_wf m \<Longrightarrow>
     hm_get (filter P m) k = (case hm_get m k of None \<Rightarrow> None | Some v \<Rightarrow> if P (k, v) then Some v else None)"
proof (induction m)
  case Nil
  then show ?case by simp
next
  case (Cons a m)
  obtain k' v' where a: "a = (k', v')" by (cases a)
  from Cons.prems a have "hm_wf m" and notin: "k' \<notin> fst ` set m" by (auto simp: hm_wf_def)
  then have "hm_get m k' = None" by (simp add: map_of_eq_None_iff)
  with Cons.IH [OF \<open>hm_wf m\<close>] a show ?case by (auto split: option.splits)
qed

lemma length_hm_insert:
  "length (hm_insert k v m) = (if hm_get m k = None then Suc (length m) else length m)"
  by (induction m) (auto simp: hm_insert_def)

lemma hm_remove_absent: "hm_get m k = None \<Longrightarrow> hm_remove k m = m"
  by (simp add: hm_remove_def map_of_eq_None_iff)

lemma length_hm_remove:
  "hm_wf m \<Longrightarrow> length (hm_remove k m) = (if hm_get m k = None then length m else length m - 1)"
proof (induction m)
  case Nil
  then show ?case by (simp add: hm_remove_def)
next
  case (Cons a m)
  obtain k' v' where a: "a = (k', v')" by (cases a)
  from Cons.prems a have wf: "hm_wf m" and notin: "k' \<notin> fst ` set m" by (auto simp: hm_wf_def)
  show ?case
  proof (cases "k' = k")
    case True
    with notin a show ?thesis by (simp add: hm_remove_def)
  next
    case False
    have "hm_get m k \<noteq> None \<Longrightarrow> 0 < length m" by (cases m) auto
    with False a Cons.IH [OF wf] show ?thesis by (auto simp: hm_remove_def)
  qed
qed

lemma hm_insert_same: "hm_get m k = Some v \<Longrightarrow> hm_insert k v m = m"
  by (induction m) (auto simp: hm_insert_def split: if_splits)

lemma set_hm_iff: "hm_wf m \<Longrightarrow> (k, v) \<in> set m \<longleftrightarrow> hm_get m k = Some v"
  by (simp add: hm_wf_def)

interpretation hm: map_interface "[]" hm_insert hm_remove hm_get length hm_wf
proof (unfold_locales, goal_cases)
  case (7 m k)
  then show ?case by (cases m) auto
qed (auto simp: length_hm_insert length_hm_remove)

section \<open>HashSet\<close>

type_synonym 'a hset = "'a list"

definition hs_insert :: "'a \<Rightarrow> 'a hset \<Rightarrow> 'a hset" where
  "hs_insert x s = (if x \<in> set s then s else s @ [x])"

definition hs_remove :: "'a \<Rightarrow> 'a hset \<Rightarrow> 'a hset" where
  "hs_remove x s = filter (\<lambda>y. y \<noteq> x) s"

abbreviation hs_contains :: "'a hset \<Rightarrow> 'a \<Rightarrow> bool" where
  "hs_contains s x \<equiv> x \<in> set s"

lemma hs_insert_present: "x \<in> set s \<Longrightarrow> hs_insert x s = s"
  by (simp add: hs_insert_def)

lemma hs_remove_absent: "x \<notin> set s \<Longrightarrow> hs_remove x s = s"
  by (simp add: hs_remove_def filter_neq_id)

interpretation hs: set_interface "[]" hs_insert hs_remove hs_contains set length distinct
  by unfold_locales (auto simp: hs_insert_def hs_remove_def distinct_card)

text \<open>The loops over a map and a set, for the concrete containers.\<close>

lemmas hm_insert_all_spec = hm.insert_all_spec
lemmas hm_remove_all_spec = hm.remove_all_spec
lemmas hs_insert_each_spec = hs.insert_each_spec
lemmas hs_remove_each_spec = hs.remove_each_spec

end
