(* ===== verification/Glob.thy ===== *)
theory Glob
  imports RustStd
begin

text \<open>
  \<open>simple_match\<close> of \<open>store/memory.rs\<close>, the glob matcher behind KEYS, SCAN MATCH and the pattern
  subscriptions: a loop with one backtracking point.  \<open>glob\<close> is the reference meaning of a
  pattern (\<open>?\<close> matches one byte, \<open>*\<close> any run of bytes, every other byte itself).  The loop decides
  \<open>glob\<close> for every subject that holds no asterisk; on a subject with one the test for a literal
  match comes before the test for a star, and the two differ.
\<close>

section \<open>The loop\<close>

text \<open>
  The first \<open>while\<close>: \<open>None\<close> is the early \<open>return false\<close>, \<open>Some pi\<close> the value of \<open>pi\<close> when the
  subject is used up.
\<close>

function match_loop ::
  "bytes \<Rightarrow> bytes \<Rightarrow> nat \<Rightarrow> nat \<Rightarrow> nat option \<Rightarrow> nat \<Rightarrow> nat option" where
  "match_loop s p si pi star match_idx =
     (if si < length s then
        if pi < length p \<and> (p ! pi = CHR ''?'' \<or> p ! pi = s ! si)
          then match_loop s p (si + 1) (pi + 1) star match_idx
        else if pi < length p \<and> p ! pi = CHR ''*''
          then match_loop s p si (pi + 1) (Some pi) si
        else (case star of
                Some idx \<Rightarrow> match_loop s p (match_idx + 1) (idx + 1) star (match_idx + 1)
              | None \<Rightarrow> None)
      else Some pi)"
  by pat_completeness auto

text \<open>
  The position of the star grows; while it stays, so does the place in the subject where the run
  the star covers ends; while both stay, the subject index grows.
\<close>

termination
  by (relation "measures
       [\<lambda>(s, p, si, pi, star, mi).
          (case star of None \<Rightarrow> length p + 1
           | Some idx \<Rightarrow> if idx < pi then length p - idx else length p + 2),
        \<lambda>(s, p, si, pi, star, mi). length s - mi,
        \<lambda>(s, p, si, pi, star, mi). length s - si]")
     (auto split: option.splits)

declare match_loop.simps [simp del]

text \<open>The second \<open>while\<close>, which skips the stars at the end of the pattern.\<close>

function skip_stars :: "bytes \<Rightarrow> nat \<Rightarrow> nat" where
  "skip_stars p pi =
     (if pi < length p \<and> p ! pi = CHR ''*'' then skip_stars p (pi + 1) else pi)"
  by pat_completeness auto

termination
  by (relation "measure (\<lambda>(p, pi). length p - pi)") auto

declare skip_stars.simps [simp del]

definition simple_match :: "bytes \<Rightarrow> bytes \<Rightarrow> bool" where
  "simple_match s p =
     (case match_loop s p 0 0 None 0 of
        None \<Rightarrow> False
      | Some pi \<Rightarrow> skip_stars p pi = length p)"

section \<open>The reference\<close>

fun glob :: "bytes \<Rightarrow> bytes \<Rightarrow> bool" where
  "glob [] s = (s = [])"
| "glob (c # p) [] = (c = CHR ''*'' \<and> glob p [])"
| "glob (c # p) (x # t) =
     (if c = CHR ''*'' then glob p (x # t) \<or> glob (c # p) t
      else (c = CHR ''?'' \<or> c = x) \<and> glob p t)"

lemma glob_Nil: "glob p [] \<longleftrightarrow> (\<forall>c\<in>set p. c = CHR ''*'')"
  by (induction p) auto

lemma glob_star: "glob (CHR ''*'' # q) s \<longleftrightarrow> (\<exists>j\<le>length s. glob q (drop j s))"
proof (induction s)
  case Nil
  then show ?case by simp
next
  case (Cons x t)
  have "(\<exists>j\<le>length (x # t). glob q (drop j (x # t))) \<longleftrightarrow>
        glob q (x # t) \<or> (\<exists>j\<le>length t. glob q (drop j t))" (is "?L \<longleftrightarrow> ?R")
  proof
    assume ?L
    then obtain j where j: "j \<le> length (x # t)" "glob q (drop j (x # t))" by blast
    then show ?R by (cases j) auto
  next
    assume ?R
    then show ?L
    proof
      assume "glob q (x # t)"
      then show ?L by (intro exI [of _ 0]) simp
    next
      assume "\<exists>j\<le>length t. glob q (drop j t)"
      then obtain j where "j \<le> length t" "glob q (drop j t)" by blast
      then show ?L by (intro exI [of _ "Suc j"]) simp
    qed
  qed
  with Cons.IH show ?case by simp
qed

lemma glob_segment:
  "CHR ''*'' \<notin> set seg \<Longrightarrow>
     glob (seg @ q) s \<longleftrightarrow>
       length seg \<le> length s \<and> list_all2 (\<lambda>c x. c = CHR ''?'' \<or> c = x) seg (take (length seg) s)
       \<and> glob q (drop (length seg) s)"
proof (induction seg arbitrary: s)
  case Nil
  then show ?case by simp
next
  case (Cons c seg)
  then show ?case by (cases s) auto
qed

section \<open>The loop decides the reference\<close>

text \<open>The stretch of the pattern between the last star and \<open>pi\<close>.\<close>

definition seg :: "bytes \<Rightarrow> nat \<Rightarrow> nat \<Rightarrow> bytes" where
  "seg p idx pi = take (pi - Suc idx) (drop (Suc idx) p)"

lemma drop_seg: "idx < pi \<Longrightarrow> drop (Suc idx) p = seg p idx pi @ drop pi p"
  unfolding seg_def by (metis add_diff_inverse_nat append_take_drop_id drop_drop less_Suc_eq
      not_less_eq add.commute)

lemma length_seg: "idx < pi \<Longrightarrow> pi \<le> length p \<Longrightarrow> length (seg p idx pi) = pi - Suc idx"
  by (simp add: seg_def)

lemma seg_Suc: "idx < pi \<Longrightarrow> pi < length p \<Longrightarrow> seg p idx (Suc pi) = seg p idx pi @ [p ! pi]"
  by (simp add: seg_def Suc_diff_Suc take_Suc_conv_app_nth flip: Suc_diff_Suc)

text \<open>
  The loop invariant: \<open>pi\<close> lies after the star, the stretch after the star is free of stars and as
  long as the stretch of the subject from \<open>match_idx\<close> to \<open>si\<close>.
\<close>

definition match_inv :: "bytes \<Rightarrow> bytes \<Rightarrow> nat \<Rightarrow> nat \<Rightarrow> nat option \<Rightarrow> nat \<Rightarrow> bool" where
  "match_inv s p si pi star mi \<longleftrightarrow>
     si \<le> length s \<and> pi \<le> length p \<and>
     (case star of None \<Rightarrow> True
      | Some idx \<Rightarrow> idx < pi \<and> mi + (pi - Suc idx) = si \<and> CHR ''*'' \<notin> set (seg p idx pi))"

text \<open>What the rest of the loop still has to decide.\<close>

definition match_goal :: "bytes \<Rightarrow> bytes \<Rightarrow> nat \<Rightarrow> nat \<Rightarrow> nat option \<Rightarrow> nat \<Rightarrow> bool" where
  "match_goal s p si pi star mi \<longleftrightarrow>
     glob (drop pi p) (drop si s) \<or>
     (case star of None \<Rightarrow> False
      | Some idx \<Rightarrow> \<exists>j. mi < j \<and> j \<le> length s \<and> glob (drop (Suc idx) p) (drop j s))"

lemma glob_drop_step:
  assumes "pi < length p" "si < length s" "p ! pi \<noteq> CHR ''*''"
  shows "glob (drop pi p) (drop si s) \<longleftrightarrow>
         (p ! pi = CHR ''?'' \<or> p ! pi = s ! si) \<and> glob (drop (Suc pi) p) (drop (Suc si) s)"
  using assms by (simp flip: Cons_nth_drop_Suc)

lemma match_inv_advance:
  assumes "match_inv s p si pi star mi" "pi < length p" "si < length s" "p ! pi \<noteq> CHR ''*''"
  shows "match_inv s p (Suc si) (Suc pi) star mi"
  using assms by (auto simp: match_inv_def seg_Suc split: option.splits)

lemma match_inv_star:
  assumes "match_inv s p si pi star mi" "pi < length p"
  shows "match_inv s p si (Suc pi) (Some pi) si"
  using assms by (simp add: match_inv_def seg_def)

lemma match_inv_backtrack:
  assumes "match_inv s p si pi (Some idx) mi" "si < length s"
  shows "match_inv s p (Suc mi) (Suc idx) (Some idx) (Suc mi)"
  using assms by (simp add: match_inv_def seg_def)

text \<open>A later match of an earlier star is covered by the next star.\<close>

lemma earlier_star_subsumed:
  assumes inv: "match_inv s p si pi (Some idx) mi" and pi: "pi < length p" "p ! pi = CHR ''*''"
    and j: "mi < j" "j \<le> length s" "glob (drop (Suc idx) p) (drop j s)"
  shows "glob (drop pi p) (drop si s)"
proof -
  let ?L = "pi - Suc idx"
  from inv have idx: "idx < pi" and si: "mi + ?L = si" and free: "CHR ''*'' \<notin> set (seg p idx pi)"
    by (auto simp: match_inv_def)
  have len: "length (seg p idx pi) = ?L" using idx pi by (simp add: length_seg)
  from j(3) have "glob (seg p idx pi @ drop pi p) (drop j s)" by (simp add: drop_seg [OF idx])
  then have g: "?L \<le> length (drop j s)" "glob (drop pi p) (drop ?L (drop j s))"
    by (simp_all only: glob_segment [OF free] len)
  have dp: "drop pi p = CHR ''*'' # drop (Suc pi) p"
    using pi by (metis Cons_nth_drop_Suc)
  from g(2) obtain k where k: "k \<le> length (drop ?L (drop j s))"
      "glob (drop (Suc pi) p) (drop k (drop ?L (drop j s)))"
    unfolding dp glob_star by blast
  have shift: "k + (?L + j) = k + (j - mi) + si" using si j(1) by arith
  have "drop k (drop ?L (drop j s)) = drop (k + (j - mi)) (drop si s)"
    unfolding drop_drop shift ..
  moreover have "k + (j - mi) \<le> length (drop si s)"
    using k(1) g(1) si j by simp
  ultimately show ?thesis unfolding dp glob_star using k(2) by auto
qed

lemma match_goal_star:
  assumes inv: "match_inv s p si pi star mi" and pi: "pi < length p" "p ! pi = CHR ''*''"
    and si: "si < length s"
  shows "match_goal s p si pi star mi \<longleftrightarrow> match_goal s p si (Suc pi) (Some pi) si"
proof -
  have dp: "drop pi p = CHR ''*'' # drop (Suc pi) p"
    using pi by (metis Cons_nth_drop_Suc)
  have here: "glob (drop pi p) (drop si s) \<longleftrightarrow> match_goal s p si (Suc pi) (Some pi) si"
    (is "?L \<longleftrightarrow> ?R")
  proof
    assume ?L
    then obtain j where j: "j \<le> length (drop si s)" "glob (drop (Suc pi) p) (drop j (drop si s))"
      unfolding dp glob_star by blast
    show ?R
    proof (cases j)
      case 0
      with j show ?thesis by (simp add: match_goal_def)
    next
      case (Suc j')
      with j show ?thesis unfolding match_goal_def
        by (intro disjI2) (auto intro!: exI [of _ "si + j"] simp: algebra_simps)
    qed
  next
    assume ?R
    then consider "glob (drop (Suc pi) p) (drop si s)"
      | j where "si < j" "j \<le> length s" "glob (drop (Suc pi) p) (drop j s)"
      by (auto simp: match_goal_def)
    then show ?L
    proof cases
      case 1
      then show ?thesis unfolding dp glob_star by (intro exI [of _ 0]) simp
    next
      case 2
      then show ?thesis unfolding dp glob_star by (intro exI [of _ "j - si"]) simp
    qed
  qed
  show ?thesis
    using here earlier_star_subsumed [OF _ pi] inv
    by (cases star) (auto simp: match_goal_def)
qed

lemma match_goal_backtrack:
  assumes inv: "match_inv s p si pi (Some idx) mi" and si: "si < length s"
    and no: "\<not> glob (drop pi p) (drop si s)"
  shows "match_goal s p si pi (Some idx) mi \<longleftrightarrow>
         match_goal s p (Suc mi) (Suc idx) (Some idx) (Suc mi)"
proof -
  from inv si have mi: "Suc mi \<le> length s" by (auto simp: match_inv_def)
  have "(\<exists>j. mi < j \<and> j \<le> length s \<and> glob (drop (Suc idx) p) (drop j s)) \<longleftrightarrow>
        glob (drop (Suc idx) p) (drop (Suc mi) s) \<or>
        (\<exists>j. Suc mi < j \<and> j \<le> length s \<and> glob (drop (Suc idx) p) (drop j s))"
    using mi by (metis Suc_lessI lessI less_trans)
  with no show ?thesis by (simp add: match_goal_def)
qed

lemma match_goal_end:
  assumes inv: "match_inv s p si pi star mi" and si: "\<not> si < length s"
  shows "match_goal s p si pi star mi \<longleftrightarrow> glob (drop pi p) []"
proof (cases star)
  case None
  with si show ?thesis by (simp add: match_goal_def)
next
  case (Some idx)
  from inv Some si have idx: "idx < pi" and len: "mi + (pi - Suc idx) = length s"
    and free: "CHR ''*'' \<notin> set (seg p idx pi)" and pi: "pi \<le> length p"
    by (auto simp: match_inv_def)
  have "\<not> glob (drop (Suc idx) p) (drop j s)" if "mi < j" "j \<le> length s" for j
  proof -
    have "\<not> length (seg p idx pi) \<le> length (drop j s)"
      using that len by (simp add: length_seg [OF idx pi])
    then show ?thesis unfolding drop_seg [OF idx] glob_segment [OF free] by blast
  qed
  with Some si show ?thesis by (auto simp: match_goal_def)
qed

lemma skip_stars_end: "pi \<le> length p \<Longrightarrow> skip_stars p pi = length p \<longleftrightarrow> glob (drop pi p) []"
proof (induction p pi rule: skip_stars.induct)
  case (1 p pi)
  show ?case
  proof (cases "pi < length p")
    case True
    then have "drop pi p = p ! pi # drop (Suc pi) p" by (simp add: Cons_nth_drop_Suc)
    with True 1 show ?thesis by (subst skip_stars.simps) (auto simp: glob_Nil)
  next
    case False
    with 1 show ?thesis by (subst skip_stars.simps) simp
  qed
qed

lemma match_loop_decides:
  assumes "CHR ''*'' \<notin> set s" "match_inv s p si pi star mi"
  shows "(case match_loop s p si pi star mi of None \<Rightarrow> False | Some pi' \<Rightarrow> skip_stars p pi' = length p)
         \<longleftrightarrow> match_goal s p si pi star mi"
  using assms
proof (induction s p si pi star mi rule: match_loop.induct)
  case (1 s p si pi star mi)
  note inv = "1.prems"(2)
  let ?lit = "pi < length p \<and> (p ! pi = CHR ''?'' \<or> p ! pi = s ! si)"
  let ?star = "pi < length p \<and> p ! pi = CHR ''*''"
  consider (fin) "\<not> si < length s" | (lit) "si < length s" ?lit
    | (star) "si < length s" "\<not> ?lit" ?star | (none) "si < length s" "\<not> ?lit" "\<not> ?star" by blast
  then show ?case
  proof cases
    case fin
    have "pi \<le> length p" using inv by (simp add: match_inv_def)
    with fin show ?thesis
      by (subst match_loop.simps) (simp add: match_goal_end [OF inv] skip_stars_end)
  next
    case lit
    have ns: "p ! pi \<noteq> CHR ''*''" using lit "1.prems"(1) by (auto simp: in_set_conv_nth)
    have "match_goal s p si pi star mi \<longleftrightarrow> match_goal s p (Suc si) (Suc pi) star mi"
      using lit ns by (simp add: match_goal_def glob_drop_step)
    with "1.IH"(1) [OF lit "1.prems"(1)] match_inv_advance [OF inv _ _ ns] lit show ?thesis
      by (subst match_loop.simps) simp
  next
    case star
    with "1.IH"(2) [OF star "1.prems"(1)] match_inv_star [OF inv] show ?thesis
      by (subst match_loop.simps) (simp add: match_goal_star [OF inv])
  next
    case none
    have no: "\<not> glob (drop pi p) (drop si s)"
    proof (cases "pi < length p")
      case True
      with none show ?thesis by (simp add: glob_drop_step)
    next
      case False
      with none show ?thesis by simp
    qed
    show ?thesis
    proof (cases star)
      case None
      with none no show ?thesis by (subst match_loop.simps) (auto simp: match_goal_def)
    next
      case (Some idx)
      with "1.IH"(3) [OF none Some "1.prems"(1)] match_inv_backtrack [of s p si pi idx mi] inv none
        match_goal_backtrack [of s p si pi idx mi] no
      show ?thesis by (subst match_loop.simps) auto
    qed
  qed
qed

lemma simple_match_decides:
  assumes "CHR ''*'' \<notin> set s"
  shows "simple_match s p \<longleftrightarrow> glob p s"
  using match_loop_decides [OF assms, of p 0 0 None 0]
  by (simp add: simple_match_def match_inv_def match_goal_def)

section \<open>Properties\<close>

text \<open>
  C32: The glob matcher behind KEYS, SCAN and PSUBSCRIBE.  On a name without a star the loop with
  its single backtracking point decides exactly the language of the pattern (question mark for
  one byte, star for any bytes), and it always ends (its recursion is total).
\<close>

theorem simple_match_correct:
  assumes "CHR ''*'' \<notin> set s"
  shows "simple_match s p \<longleftrightarrow> glob p s"
  using simple_match_decides [OF assms] .

theorem simple_match_correct_witness: "simple_match ''user:42'' ''u*:4?'' \<longleftrightarrow> glob ''u*:4?'' ''user:42''"
  by (rule simple_match_correct) simp

text \<open>
  The hypothesis of the previous property is needed: the matcher compares the pattern byte
  with the name before it looks whether the pattern byte is a star, so the pattern \<open>*\<close> does not
  match a name of two bytes or more that begins with a star.
\<close>

theorem star_misses_star_name: "\<not> simple_match (CHR ''*'' # c # cs) ''*'' \<and> glob ''*'' (CHR ''*'' # c # cs)"
proof
  show "\<not> simple_match (CHR ''*'' # c # cs) ''*''"
    unfolding simple_match_def
    by (subst match_loop.simps, simp, subst match_loop.simps, simp)
  show "glob ''*'' (CHR ''*'' # c # cs)"
    unfolding glob_star by (rule exI [of _ "Suc (Suc (length cs))"]) simp
qed

end
