(* ===== verification/Registry.thy ===== *)
theory Registry
  imports Containers Glob
begin

text \<open>
  The two registries of \<open>store/memory.rs\<close>: \<open>BlockRegistry\<close>, which connections blocked in BLPOP
  and BRPOP register with and which a push notifies, and \<open>PubSubRegistry\<close>.

  A \<open>tokio::sync::Notify\<close> and an \<open>mpsc::UnboundedSender\<close> are named by a number.  The field
  \<open>woken\<close> records the objects whose \<open>notify_waiters\<close> was called, oldest first.  Whether the
  receiver of a channel still exists is not known to the registry: it is the argument
  \<open>is_open\<close> of the operations that send, and \<open>send\<close> fails exactly on a channel that is not open.
  The messages a publication sends are part of its result.
\<close>

section \<open>BlockRegistry\<close>

type_synonym notify_id = nat

record block_registry =
  waiters :: "(bytes, (u64 \<times> notify_id) list) hmap"
  next_id :: u64
  woken :: "notify_id list"

definition block_registry_new :: block_registry where
  "block_registry_new = \<lparr>waiters = [], next_id = 1, woken = []\<rparr>"

definition waiters_of :: "block_registry \<Rightarrow> bytes \<Rightarrow> (u64 \<times> notify_id) list" where
  "waiters_of r key = (case hm_get (waiters r) key of None \<Rightarrow> [] | Some ws \<Rightarrow> ws)"

fun register_keys ::
  "u64 \<Rightarrow> notify_id \<Rightarrow> bytes list \<Rightarrow> (bytes, (u64 \<times> notify_id) list) hmap \<Rightarrow>
   (bytes, (u64 \<times> notify_id) list) hmap" where
  "register_keys i n [] w = w"
| "register_keys i n (key # keys) w =
     register_keys i n keys
       (hm_insert key ((case hm_get w key of None \<Rightarrow> [] | Some ws \<Rightarrow> ws) @ [(i, n)]) w)"

definition register :: "block_registry \<Rightarrow> bytes list \<Rightarrow> notify_id \<Rightarrow> block_registry \<times> u64" where
  "register r keys n =
     (let i = next_id r
      in (r\<lparr>next_id := i + 1, waiters := register_keys i n keys (waiters r)\<rparr>, i))"

fun unregister_keys ::
  "u64 \<Rightarrow> bytes list \<Rightarrow> (bytes, (u64 \<times> notify_id) list) hmap \<Rightarrow>
   (bytes, (u64 \<times> notify_id) list) hmap" where
  "unregister_keys i [] w = w"
| "unregister_keys i (key # keys) w =
     unregister_keys i keys
       (case hm_get w key of
          None \<Rightarrow> w
        | Some ws \<Rightarrow> hm_insert key (filter (\<lambda>x. fst x \<noteq> i) ws) w)"

definition unregister :: "block_registry \<Rightarrow> u64 \<Rightarrow> bytes list \<Rightarrow> block_registry" where
  "unregister r i keys = r\<lparr>waiters := unregister_keys i keys (waiters r)\<rparr>"

definition notify :: "block_registry \<Rightarrow> bytes \<Rightarrow> block_registry" where
  "notify r key =
     (case hm_get (waiters r) key of
        None \<Rightarrow> r
      | Some ws \<Rightarrow> r\<lparr>waiters := hm_insert key [] (waiters r), woken := woken r @ map snd ws\<rparr>)"

lemma register_keys_get:
  "(case hm_get (register_keys i n keys w) key of None \<Rightarrow> [] | Some ws \<Rightarrow> ws) =
   (case hm_get w key of None \<Rightarrow> [] | Some ws \<Rightarrow> ws) @ replicate (count_list keys key) (i, n)"
  by (induction keys arbitrary: w) (auto split: option.splits simp: replicate_append_same)

lemma waiters_of_register:
  "waiters_of (fst (register r keys n)) key =
     waiters_of r key @ replicate (count_list keys key) (next_id r, n)"
  by (simp add: waiters_of_def register_def Let_def register_keys_get)

lemma unregister_keys_get:
  "(case hm_get (unregister_keys i keys w) key of None \<Rightarrow> [] | Some ws \<Rightarrow> ws) =
   (if key \<in> set keys
    then filter (\<lambda>x. fst x \<noteq> i) (case hm_get w key of None \<Rightarrow> [] | Some ws \<Rightarrow> ws)
    else (case hm_get w key of None \<Rightarrow> [] | Some ws \<Rightarrow> ws))"
  by (induction keys arbitrary: w) (auto split: option.splits)

lemma waiters_of_unregister:
  "waiters_of (unregister r i keys) key =
     (if key \<in> set keys then filter (\<lambda>x. fst x \<noteq> i) (waiters_of r key) else waiters_of r key)"
  by (simp add: waiters_of_def unregister_def unregister_keys_get)

lemma waiters_of_notify:
  "waiters_of (notify r key) key' = (if key' = key then [] else waiters_of r key')"
  by (auto simp: waiters_of_def notify_def split: option.splits)

lemma woken_notify: "woken (notify r key) = woken r @ map snd (waiters_of r key)"
  by (auto simp: waiters_of_def notify_def split: option.splits)

text \<open>The identifiers in use: every waiter was given a number below \<open>next_id\<close>.\<close>

definition ids_fresh :: "block_registry \<Rightarrow> bool" where
  "ids_fresh r \<longleftrightarrow> (\<forall>key. \<forall>x\<in>set (waiters_of r key). fst x < next_id r)"

lemma ids_fresh_new: "ids_fresh block_registry_new"
  by (simp add: ids_fresh_def block_registry_new_def waiters_of_def)

lemma ids_fresh_register:
  assumes "ids_fresh r" and "next_id r \<noteq> - 1"
  shows "ids_fresh (fst (register r keys n))"
proof -
  from assms(2) have "next_id r < next_id r + 1" by (rule word_less_Suc)
  then show ?thesis
    using assms(1) unfolding ids_fresh_def waiters_of_register
    by (auto simp: register_def Let_def intro: less_trans split: if_splits)
qed

section \<open>PubSubRegistry\<close>

type_synonym sender = nat

record pubsub_registry =
  channels :: "(bytes, sender list) hmap"
  patterns :: "(bytes, sender list) hmap"

definition pubsub_registry_new :: pubsub_registry where
  "pubsub_registry_new = \<lparr>channels = [], patterns = []\<rparr>"

definition subscribe_channel :: "pubsub_registry \<Rightarrow> bytes \<Rightarrow> sender \<Rightarrow> pubsub_registry" where
  "subscribe_channel r channel tx =
     r\<lparr>channels := hm_insert channel
         ((case hm_get (channels r) channel of None \<Rightarrow> [] | Some ts \<Rightarrow> ts) @ [tx]) (channels r)\<rparr>"

definition unsubscribe_channel :: "pubsub_registry \<Rightarrow> bytes \<Rightarrow> pubsub_registry" where
  "unsubscribe_channel r channel = r\<lparr>channels := hm_remove channel (channels r)\<rparr>"

definition subscribe_pattern :: "pubsub_registry \<Rightarrow> bytes \<Rightarrow> sender \<Rightarrow> pubsub_registry" where
  "subscribe_pattern r pattern tx =
     r\<lparr>patterns := hm_insert pattern
         ((case hm_get (patterns r) pattern of None \<Rightarrow> [] | Some ts \<Rightarrow> ts) @ [tx]) (patterns r)\<rparr>"

definition unsubscribe_pattern :: "pubsub_registry \<Rightarrow> bytes \<Rightarrow> pubsub_registry" where
  "unsubscribe_pattern r pattern = r\<lparr>patterns := hm_remove pattern (patterns r)\<rparr>"

text \<open>\<open>for &i in dead.iter().rev() { s.remove(i); }\<close>\<close>

definition remove_indices :: "nat list \<Rightarrow> 'a list \<Rightarrow> 'a list" where
  "remove_indices dead xs = foldl (\<lambda>s i. remove_at i s) xs (rev dead)"

definition dead_indices :: "(sender \<Rightarrow> bool) \<Rightarrow> sender list \<Rightarrow> nat list" where
  "dead_indices is_open senders = filter (\<lambda>i. \<not> is_open (senders ! i)) [0..<length senders]"

text \<open>A delivery: the channel it went to and the published pair.\<close>

type_synonym delivery = "sender \<times> bytes \<times> bytes"

definition publish_channel ::
  "(sender \<Rightarrow> bool) \<Rightarrow> pubsub_registry \<Rightarrow> bytes \<Rightarrow> bytes \<Rightarrow> pubsub_registry \<times> delivery list \<times> nat" where
  "publish_channel is_open r channel message =
     (case hm_get (channels r) channel of
        Some senders \<Rightarrow>
          (let dead = dead_indices is_open senders;
               sent = map (\<lambda>tx. (tx, channel, message)) (filter is_open senders);
               r' = (if dead = [] then r
                     else r\<lparr>channels := hm_insert channel (remove_indices dead senders) (channels r)\<rparr>)
           in (r', sent, length senders - length dead))
      | None \<Rightarrow> (r, [], 0))"

definition publish_patterns ::
  "(sender \<Rightarrow> bool) \<Rightarrow> pubsub_registry \<Rightarrow> bytes \<Rightarrow> bytes \<Rightarrow> delivery list \<times> nat" where
  "publish_patterns is_open r channel message =
     (let ch_str = utf8_lossy channel;
          senders = concat (map snd (filter (\<lambda>e. simple_match ch_str (fst e)) (patterns r)))
      in (map (\<lambda>tx. (tx, channel, message)) (filter is_open senders), length senders))"

definition publish_all ::
  "(sender \<Rightarrow> bool) \<Rightarrow> pubsub_registry \<Rightarrow> bytes \<Rightarrow> bytes \<Rightarrow> pubsub_registry \<times> delivery list \<times> nat" where
  "publish_all is_open r channel message =
     (let (r', sent, count) = publish_channel is_open r channel message;
          (psent, pcount) = publish_patterns is_open r' channel message
      in (r', sent @ psent, count + pcount))"

lemma remove_indices_snoc: "remove_indices (dead @ [i]) xs = remove_indices dead (remove_at i xs)"
  by (simp add: remove_indices_def)

lemma remove_at_length_snoc: "remove_at (length xs) (xs @ [x]) = xs"
  by (simp add: remove_at_def)

lemma remove_at_append: "i < length xs \<Longrightarrow> remove_at i (xs @ ys) = remove_at i xs @ ys"
  by (simp add: remove_at_def)

lemma remove_indices_append:
  assumes "sorted_wrt (<) dead" and "\<forall>i\<in>set dead. i < length xs"
  shows "remove_indices dead (xs @ ys) = remove_indices dead xs @ ys"
  using assms
proof (induction dead arbitrary: xs rule: rev_induct)
  case Nil
  then show ?case by (simp add: remove_indices_def)
next
  case (snoc i dead)
  then have "sorted_wrt (<) dead" "\<forall>j\<in>set dead. j < length (remove_at i xs)"
    by (auto simp: sorted_wrt_snoc length_remove_at)
  then have "remove_indices dead (remove_at i xs @ ys) = remove_indices dead (remove_at i xs) @ ys"
    by (rule snoc.IH)
  with snoc.prems show ?case by (simp add: remove_indices_snoc remove_at_append)
qed

lemma dead_indices_snoc:
  "dead_indices is_open (xs @ [x]) =
     dead_indices is_open xs @ (if is_open x then [] else [length xs])"
  by (auto simp: dead_indices_def nth_append intro: filter_cong)

lemma dead_indices_sorted: "sorted_wrt (<) (dead_indices is_open xs)"
  unfolding dead_indices_def by (rule sorted_wrt_filter) simp

lemma remove_dead_indices:
  "remove_indices (dead_indices is_open xs) xs = filter is_open xs"
proof (induction xs rule: rev_induct)
  case Nil
  then show ?case by (simp add: dead_indices_def remove_indices_def)
next
  case (snoc x xs)
  have "\<forall>i\<in>set (dead_indices is_open xs). i < length xs" by (simp add: dead_indices_def)
  note app = remove_indices_append [OF dead_indices_sorted this]
  from snoc show ?case
    by (cases "is_open x")
       (simp_all add: dead_indices_snoc remove_indices_snoc remove_at_length_snoc app)
qed

lemma length_dead_indices: "length (dead_indices is_open xs) = length (filter (\<lambda>x. \<not> is_open x) xs)"
  by (induction xs rule: rev_induct) (simp_all add: dead_indices_snoc, simp add: dead_indices_def)

lemma dead_indices_Nil_iff: "dead_indices is_open xs = [] \<longleftrightarrow> filter is_open xs = xs"
  by (metis filter_True length_0_conv length_dead_indices filter_False filter_empty_conv
      filter_id_conv)

text \<open>The senders subscribed to a channel.\<close>

definition senders_of :: "pubsub_registry \<Rightarrow> bytes \<Rightarrow> sender list" where
  "senders_of r channel = (case hm_get (channels r) channel of None \<Rightarrow> [] | Some ts \<Rightarrow> ts)"

lemma publish_channel_sent:
  "fst (snd (publish_channel is_open r channel message)) =
     map (\<lambda>tx. (tx, channel, message)) (filter is_open (senders_of r channel))"
  by (auto simp: publish_channel_def senders_of_def Let_def split: option.splits)

lemma publish_channel_count:
  "snd (snd (publish_channel is_open r channel message)) = length (filter is_open (senders_of r channel))"
proof -
  have "length xs - length (dead_indices is_open xs) = length (filter is_open xs)" for xs
    using count_filter_compl [of is_open xs] by (simp add: length_dead_indices)
  then show ?thesis
    by (auto simp: publish_channel_def senders_of_def Let_def split: option.splits)
qed

lemma publish_channel_senders:
  "senders_of (fst (publish_channel is_open r channel message)) c =
     (if c = channel then filter is_open (senders_of r c) else senders_of r c)"
  by (auto simp: publish_channel_def senders_of_def Let_def remove_dead_indices dead_indices_Nil_iff
      split: option.splits)

lemma publish_channel_patterns [simp]:
  "patterns (fst (publish_channel is_open r channel message)) = patterns r"
  by (auto simp: publish_channel_def Let_def split: option.splits)

lemma senders_of_subscribe:
  "senders_of (subscribe_channel r channel tx) c =
     (if c = channel then senders_of r c @ [tx] else senders_of r c)"
  by (auto simp: senders_of_def subscribe_channel_def split: option.splits)

section \<open>Properties\<close>

text \<open>
  A blocked client is woken by the first notification of any key it registered, after the
  clients that registered before it and once per registration; the key then has no waiter left.
  Unregistering the number \<open>register\<close> gave restores the waiters of every key.
\<close>

theorem register_notify_unregister:
  assumes "ids_fresh r" and "register r keys n = (r', i)"
  shows "(\<forall>key. woken (notify r' key) =
            woken r @ map snd (waiters_of r key) @ replicate (count_list keys key) n) \<and>
         (\<forall>key. waiters_of (notify r' key) key = []) \<and>
         (\<forall>key. waiters_of (unregister r' i keys) key = waiters_of r key)"
proof (intro conjI allI)
  fix key
  have r': "r' = fst (register r keys n)" and i: "i = next_id r"
    using assms(2) by (auto simp: register_def Let_def)
  have w: "waiters_of r' key = waiters_of r key @ replicate (count_list keys key) (i, n)"
    unfolding r' i by (rule waiters_of_register)
  have "woken r' = woken r" unfolding r' by (simp add: register_def Let_def)
  then show "woken (notify r' key) =
      woken r @ map snd (waiters_of r key) @ replicate (count_list keys key) n"
    by (simp add: woken_notify w)
  show "waiters_of (notify r' key) key = []" by (simp add: waiters_of_notify)
  have "\<forall>x\<in>set (waiters_of r key). fst x \<noteq> i"
    using assms(1) unfolding i ids_fresh_def by (metis order_less_irrefl)
  then have "filter (\<lambda>x. fst x \<noteq> i) (waiters_of r key) = waiters_of r key" by simp
  then show "waiters_of (unregister r' i keys) key = waiters_of r key"
    using count_notin [of key keys] by (simp add: waiters_of_unregister w del: count_notin)
qed

theorem register_notify_unregister_witness:
  "woken (notify (fst (register block_registry_new [''a'', ''b''] 7)) ''b'') = [7]"
proof -
  obtain r' i where r: "register block_registry_new [''a'', ''b''] 7 = (r', i)" by fastforce
  with register_notify_unregister [OF ids_fresh_new r] show ?thesis
    by (simp add: block_registry_new_def waiters_of_def)
qed

text \<open>
  PUBLISH sends the message to every subscriber of the channel that is still connected, once
  per subscription and in the order of subscription, then to the connected subscribers of the
  matching patterns; the subscribers of the channel that are gone are dropped.  The number it
  returns counts the deliveries on the channel, and for the patterns it counts gone subscribers
  too.
\<close>

theorem publish_delivers:
  "publish_all is_open r channel message = (r', sent, n) \<Longrightarrow>
     sent =
       map (\<lambda>tx. (tx, channel, message))
         (filter is_open (senders_of r channel @
            concat (map snd (filter (\<lambda>e. simple_match (utf8_lossy channel) (fst e)) (patterns r))))) \<and>
     n = length (filter is_open (senders_of r channel)) +
         length (concat (map snd (filter (\<lambda>e. simple_match (utf8_lossy channel) (fst e)) (patterns r)))) \<and>
     senders_of r' channel = filter is_open (senders_of r channel)"
proof (cases "publish_channel is_open r channel message")
  fix q sent1 count1
  assume p: "publish_channel is_open r channel message = (q, sent1, count1)"
    and all: "publish_all is_open r channel message = (r', sent, n)"
  have "patterns q = patterns r" using publish_channel_patterns [of is_open r channel message] p by simp
  moreover have "r' = q" using p all by (simp add: publish_all_def Let_def split: prod.splits)
  ultimately show ?thesis
    using p all publish_channel_sent [of is_open r channel message]
      publish_channel_count [of is_open r channel message]
      publish_channel_senders [of is_open r channel message channel]
    by (auto simp: publish_all_def publish_patterns_def Let_def)
qed

theorem publish_delivers_witness:
  "senders_of (fst (publish_all (\<lambda>tx. tx \<noteq> 3) (subscribe_channel pubsub_registry_new ''c'' 3) ''c'' ''m'')) ''c'' = []"
proof -
  obtain r' sent n where
    p: "publish_all (\<lambda>tx. tx \<noteq> 3) (subscribe_channel pubsub_registry_new ''c'' 3) ''c'' ''m'' = (r', sent, n)"
    using prod_cases3 by blast
  from publish_delivers [OF p] p show ?thesis
    by (simp add: senders_of_subscribe) (simp add: senders_of_def pubsub_registry_new_def)
qed

end
