(* ===== verification/OrderedMap.thy ===== *)
theory OrderedMap
  imports Containers "HOL-Library.Product_Lexorder"
begin

text \<open>
  \<open>f64\<close> scores and the ordered maps of \<open>store/memory.rs\<close>.

  A double is its IEEE 754 bit pattern, a 64-bit word; comparisons are computed from the bits.  A
  number that is not a NaN has a rank, the signed magnitude of the pattern, and the numbers are
  ordered as their ranks are (both zeros have rank 0).

  A \<open>BTreeMap\<close> is an association list in key order, searched from the front with the comparison
  function of its key type, which is an argument of the operations.  \<open>OrderedF64\<close> compares a NaN
  as equal to everything, so its comparison is an order on the other numbers only; the locale
  \<open>ordered_keys\<close> states what the map operations need, for the keys that satisfy \<open>valid\<close>, and is
  interpreted by \<open>OrderedF64\<close> and by the stream identifiers.
\<close>

section \<open>Doubles\<close>

type_synonym f64 = "64 word"

definition f64_mag :: "f64 \<Rightarrow> nat" where
  "f64_mag x = unat x mod 2 ^ 63"

definition f64_neg :: "f64 \<Rightarrow> bool" where
  "f64_neg x \<longleftrightarrow> 2 ^ 63 \<le> unat x"

definition f64_inf :: f64 where "f64_inf = 0x7FF0000000000000"
definition f64_neg_inf :: f64 where "f64_neg_inf = 0xFFF0000000000000"

definition f64_is_nan :: "f64 \<Rightarrow> bool" where
  "f64_is_nan x \<longleftrightarrow> 0x7FF0000000000000 < f64_mag x"

definition f64_rank :: "f64 \<Rightarrow> int" where
  "f64_rank x = (if f64_neg x then - int (f64_mag x) else int (f64_mag x))"

definition f64_lt :: "f64 \<Rightarrow> f64 \<Rightarrow> bool" where
  "f64_lt a b \<longleftrightarrow> \<not> f64_is_nan a \<and> \<not> f64_is_nan b \<and> f64_rank a < f64_rank b"

definition f64_eq :: "f64 \<Rightarrow> f64 \<Rightarrow> bool" where
  "f64_eq a b \<longleftrightarrow> \<not> f64_is_nan a \<and> \<not> f64_is_nan b \<and> f64_rank a = f64_rank b"

definition f64_le :: "f64 \<Rightarrow> f64 \<Rightarrow> bool" where
  "f64_le a b \<longleftrightarrow> f64_lt a b \<or> f64_eq a b"

datatype ordering = Less | Equal | Greater

definition partial_cmp :: "f64 \<Rightarrow> f64 \<Rightarrow> ordering option" where
  "partial_cmp a b =
     (if f64_lt a b then Some Less else if f64_eq a b then Some Equal
      else if f64_lt b a then Some Greater else None)"

text \<open>\<open>impl Ord for OrderedF64\<close>.\<close>

definition ordered_f64_cmp :: "f64 \<Rightarrow> f64 \<Rightarrow> ordering" where
  "ordered_f64_cmp a b = (case partial_cmp a b of Some c \<Rightarrow> c | None \<Rightarrow> Equal)"

lemma f64_inf_facts [simp]:
  "\<not> f64_is_nan f64_inf" "\<not> f64_is_nan f64_neg_inf"
  "f64_rank f64_inf = 0x7FF0000000000000" "f64_rank f64_neg_inf = - 0x7FF0000000000000"
  by (simp_all add: f64_is_nan_def f64_mag_def f64_inf_def f64_neg_inf_def f64_rank_def f64_neg_def)

lemma f64_rank_bounds:
  "\<not> f64_is_nan x \<Longrightarrow> - 0x7FF0000000000000 \<le> f64_rank x \<and> f64_rank x \<le> 0x7FF0000000000000"
  by (auto simp: f64_rank_def f64_is_nan_def)

section \<open>Ordered maps\<close>

type_synonym ('k, 'v) btmap = "('k \<times> 'v) list"

fun bt_get :: "('k \<Rightarrow> 'k \<Rightarrow> ordering) \<Rightarrow> 'k \<Rightarrow> ('k, 'v) btmap \<Rightarrow> 'v option" where
  "bt_get cmp k [] = None"
| "bt_get cmp k ((k', v) # m) =
     (case cmp k k' of Less \<Rightarrow> None | Equal \<Rightarrow> Some v | Greater \<Rightarrow> bt_get cmp k m)"

text \<open>Insertion; where an equal key is present the key stays and the value is replaced.\<close>

fun bt_insert :: "('k \<Rightarrow> 'k \<Rightarrow> ordering) \<Rightarrow> 'k \<Rightarrow> 'v \<Rightarrow> ('k, 'v) btmap \<Rightarrow> ('k, 'v) btmap" where
  "bt_insert cmp k v [] = [(k, v)]"
| "bt_insert cmp k v ((k', v') # m) =
     (case cmp k k' of
        Less \<Rightarrow> (k, v) # (k', v') # m
      | Equal \<Rightarrow> (k', v) # m
      | Greater \<Rightarrow> (k', v') # bt_insert cmp k v m)"

fun bt_remove :: "('k \<Rightarrow> 'k \<Rightarrow> ordering) \<Rightarrow> 'k \<Rightarrow> ('k, 'v) btmap \<Rightarrow> ('k, 'v) btmap" where
  "bt_remove cmp k [] = []"
| "bt_remove cmp k ((k', v) # m) =
     (case cmp k k' of Less \<Rightarrow> (k', v) # m | Equal \<Rightarrow> m | Greater \<Rightarrow> (k', v) # bt_remove cmp k m)"

text \<open>\<open>m.range(lo..=hi)\<close>, for bounds with \<open>lo \<le> hi\<close>.\<close>

definition bt_range ::
  "('k \<Rightarrow> 'k \<Rightarrow> ordering) \<Rightarrow> 'k \<Rightarrow> 'k \<Rightarrow> ('k, 'v) btmap \<Rightarrow> ('k, 'v) btmap" where
  "bt_range cmp lo hi m =
     takeWhile (\<lambda>e. cmp hi (fst e) \<noteq> Less) (dropWhile (\<lambda>e. cmp lo (fst e) = Greater) m)"

locale ordered_keys =
  fixes cmp :: "'k \<Rightarrow> 'k \<Rightarrow> ordering"
    and valid :: "'k \<Rightarrow> bool"
    and rank :: "'k \<Rightarrow> 'o::linorder"
  assumes cmp_rank: "valid a \<Longrightarrow> valid b \<Longrightarrow>
     cmp a b = (if rank a < rank b then Less else if rank a = rank b then Equal else Greater)"
begin

definition bt_wf :: "('k, 'v) btmap \<Rightarrow> bool" where
  "bt_wf m \<longleftrightarrow> (\<forall>e\<in>set m. valid (fst e)) \<and> sorted_wrt (\<lambda>a b. rank (fst a) < rank (fst b)) m"

text \<open>The map as a function of the rank.\<close>

fun bt_fun :: "('k, 'v) btmap \<Rightarrow> 'o \<Rightarrow> 'v option" where
  "bt_fun [] r = None"
| "bt_fun ((k, v) # m) r = (if rank k = r then Some v else bt_fun m r)"

lemma bt_wf_Nil [simp]: "bt_wf []"
  by (simp add: bt_wf_def)

lemma bt_wf_Cons:
  "bt_wf ((k, v) # m) \<longleftrightarrow> valid k \<and> (\<forall>e\<in>set m. rank k < rank (fst e)) \<and> bt_wf m"
  by (auto simp: bt_wf_def)

lemma bt_fun_above: "\<forall>e\<in>set m. r < rank (fst e) \<Longrightarrow> bt_fun m r = None"
  by (induction m r rule: bt_fun.induct) auto

lemma bt_get_fun: "bt_wf m \<Longrightarrow> valid k \<Longrightarrow> bt_get cmp k m = bt_fun m (rank k)"
proof (induction m)
  case Nil
  then show ?case by simp
next
  case (Cons e m)
  obtain k' v where e: "e = (k', v)" by (cases e)
  with Cons.prems have wf: "bt_wf m" "valid k'" "\<forall>e\<in>set m. rank k' < rank (fst e)"
    by (auto simp: bt_wf_Cons)
  consider "rank k < rank k'" | "rank k = rank k'" | "rank k' < rank k" by (rule linorder_cases)
  then show ?case
  proof cases
    case 1
    with wf have "bt_fun m (rank k) = None" by (intro bt_fun_above) (auto intro: less_trans)
    with 1 e wf Cons.prems show ?thesis by (simp add: cmp_rank)
  next
    case 2
    with e wf Cons.prems show ?thesis by (simp add: cmp_rank)
  next
    case 3
    with e wf Cons.prems Cons.IH show ?thesis by (auto simp: cmp_rank)
  qed
qed

lemma bt_insert_keys:
  "valid k \<Longrightarrow> bt_wf m \<Longrightarrow>
     (\<lambda>e. rank (fst e)) ` set (bt_insert cmp k v m) = insert (rank k) ((\<lambda>e. rank (fst e)) ` set m)
     \<and> (\<forall>e\<in>set (bt_insert cmp k v m). valid (fst e))"
proof (induction m)
  case Nil
  then show ?case by simp
next
  case (Cons e m)
  obtain k' v' where e: "e = (k', v')" by (cases e)
  with Cons.prems have "bt_wf m" "valid k'" by (auto simp: bt_wf_Cons)
  with Cons e show ?case by (auto simp: cmp_rank bt_wf_def)
qed

lemma bt_wf_insert: "valid k \<Longrightarrow> bt_wf m \<Longrightarrow> bt_wf (bt_insert cmp k v m)"
proof (induction m)
  case Nil
  then show ?case by (simp add: bt_wf_def)
next
  case (Cons e m)
  obtain k' v' where e: "e = (k', v')" by (cases e)
  with Cons.prems have wf: "bt_wf m" "valid k'" "\<forall>e\<in>set m. rank k' < rank (fst e)"
    by (auto simp: bt_wf_Cons)
  consider "rank k < rank k'" | "rank k = rank k'" | "rank k' < rank k" by (rule linorder_cases)
  then show ?case
  proof cases
    case 1
    with e wf Cons.prems show ?thesis by (auto simp: cmp_rank bt_wf_Cons intro: less_trans)
  next
    case 2
    with e wf Cons.prems show ?thesis by (auto simp: cmp_rank bt_wf_Cons)
  next
    case 3
    have "\<forall>x\<in>set (bt_insert cmp k v m). rank k' < rank (fst x)"
    proof
      fix x assume "x \<in> set (bt_insert cmp k v m)"
      then have "rank (fst x) \<in> insert (rank k) ((\<lambda>e. rank (fst e)) ` set m)"
        using bt_insert_keys [OF Cons.prems(1) wf(1), of v] by blast
      with 3 wf(3) show "rank k' < rank (fst x)" by auto
    qed
    with 3 e wf Cons show ?thesis by (auto simp: cmp_rank bt_wf_Cons)
  qed
qed

lemma bt_fun_insert:
  "valid k \<Longrightarrow> bt_wf m \<Longrightarrow> bt_fun (bt_insert cmp k v m) = (bt_fun m)(rank k \<mapsto> v)"
proof (induction m)
  case Nil
  then show ?case by (auto simp: fun_eq_iff)
next
  case (Cons e m)
  obtain k' v' where e: "e = (k', v')" by (cases e)
  with Cons.prems have wf: "bt_wf m" "valid k'" by (auto simp: bt_wf_Cons)
  with Cons e show ?case by (auto simp: cmp_rank fun_eq_iff)
qed

lemma bt_remove_subset: "set (bt_remove cmp k m) \<subseteq> set m"
  by (induction m) (auto split: ordering.splits)

lemma bt_wf_remove: "bt_wf m \<Longrightarrow> bt_wf (bt_remove cmp k m)"
proof (induction m)
  case Nil
  then show ?case by simp
next
  case (Cons e m)
  obtain k' v' where e: "e = (k', v')" by (cases e)
  with Cons bt_remove_subset [of k m] show ?case
    by (auto simp: bt_wf_Cons split: ordering.splits)
qed

lemma bt_fun_remove:
  "valid k \<Longrightarrow> bt_wf m \<Longrightarrow> bt_fun (bt_remove cmp k m) = (bt_fun m)(rank k := None)"
proof (induction m)
  case Nil
  then show ?case by (auto simp: fun_eq_iff)
next
  case (Cons e m)
  obtain k' v' where e: "e = (k', v')" by (cases e)
  with Cons.prems have wf: "bt_wf m" "valid k'" "\<forall>e\<in>set m. rank k' < rank (fst e)"
    by (auto simp: bt_wf_Cons)
  have gone: "bt_fun m r = None" if "r \<le> rank k'" for r
    using that wf(3) by (intro bt_fun_above) (auto intro: le_less_trans)
  from gone e wf Cons show ?case by (auto simp: cmp_rank fun_eq_iff)
qed

lemma bt_fun_Some_iff: "bt_wf m \<Longrightarrow> bt_fun m r = Some v \<longleftrightarrow> (\<exists>k. (k, v) \<in> set m \<and> rank k = r)"
proof (induction m)
  case Nil
  then show ?case by simp
next
  case (Cons e m)
  obtain k' v' where e: "e = (k', v')" by (cases e)
  with Cons.prems have wf: "bt_wf m" "\<forall>e\<in>set m. rank k' < rank (fst e)"
    by (auto simp: bt_wf_Cons)
  have "rank k \<noteq> rank k'" if "(k, w) \<in> set m" for k w
    using wf(2) that by fastforce
  with Cons.IH [OF wf(1)] e show ?case by auto
qed

lemma bt_range_filter:
  assumes "bt_wf m" "valid lo" "valid hi"
  shows "bt_range cmp lo hi m = filter (\<lambda>e. rank lo \<le> rank (fst e) \<and> rank (fst e) \<le> rank hi) m"
proof -
  have take: "takeWhile (\<lambda>e. cmp hi (fst e) \<noteq> Less) xs = filter (\<lambda>e. rank (fst e) \<le> rank hi) xs"
    if "bt_wf xs" for xs :: "('k, 'v) btmap"
    using that
  proof (induction xs)
    case Nil
    then show ?case by simp
  next
    case (Cons e xs)
    obtain k' v' where e: "e = (k', v')" by (cases e)
    with Cons.prems have wf: "bt_wf xs" "valid k'" "\<forall>x\<in>set xs. rank k' < rank (fst x)"
      by (auto simp: bt_wf_Cons)
    have "filter (\<lambda>x. rank (fst x) \<le> rank hi) xs = []" if "rank hi < rank k'"
      using that wf(3) by (fastforce simp: filter_empty_conv)
    with Cons.IH [OF wf(1)] wf e assms(3) show ?case by (auto simp: cmp_rank not_le)
  qed
  have drop: "dropWhile (\<lambda>e. cmp lo (fst e) = Greater) xs = filter (\<lambda>e. rank lo \<le> rank (fst e)) xs"
    if "bt_wf xs" for xs :: "('k, 'v) btmap"
    using that
  proof (induction xs)
    case Nil
    then show ?case by simp
  next
    case (Cons e xs)
    obtain k' v' where e: "e = (k', v')" by (cases e)
    with Cons.prems have wf: "bt_wf xs" "valid k'" "\<forall>x\<in>set xs. rank k' < rank (fst x)"
      by (auto simp: bt_wf_Cons)
    have "filter (\<lambda>x. rank lo \<le> rank (fst x)) xs = xs" if "rank lo \<le> rank k'"
      using that wf(3) by (fastforce simp: filter_id_conv)
    with Cons.IH [OF wf(1)] wf e assms(2) show ?case by (auto simp: cmp_rank)
  qed
  have "bt_wf (filter (\<lambda>e. rank lo \<le> rank (fst e)) m)"
    using assms(1) by (auto simp: bt_wf_def intro: sorted_wrt_filter)
  then show ?thesis by (simp add: bt_range_def drop [OF assms(1)] take conj_commute)
qed

end

interpretation f64_keys: ordered_keys ordered_f64_cmp "\<lambda>x. \<not> f64_is_nan x" f64_rank
  by unfold_locales (auto simp: ordered_f64_cmp_def partial_cmp_def f64_lt_def f64_eq_def)

text \<open>The order of a tuple of two words, as \<open>(u64, u64)\<close> has it.\<close>

definition id_cmp :: "u64 \<times> u64 \<Rightarrow> u64 \<times> u64 \<Rightarrow> ordering" where
  "id_cmp a b = (if a < b then Less else if a = b then Equal else Greater)"

interpretation id_keys: ordered_keys id_cmp "\<lambda>_. True" "\<lambda>x :: u64 \<times> u64. x"
  by unfold_locales (simp add: id_cmp_def)

end
