(* ===== verification/Store.thy ===== *)
theory Store
  imports Errors Registry OrderedMap
begin

text \<open>
  The keyspace of \<open>store/memory.rs\<close>: the value type, the entries, the \<open>Store\<close> record, access to a
  database and to a live entry, and the operations that do not depend on the type of the value
  (GET and SET at the store level, DEL, EXISTS, expiry, TYPE, RENAME, KEYS, DBSIZE, FLUSH, the
  version counter).  An operation that reads the clock takes the reading \<open>now\<close>, in milliseconds,
  as its first argument.  An operation with an effect returns the new store and its result.

  The contract the mutating operations share is the locale \<open>keyed_update\<close>: an operation on one
  key of one database leaves every other entry of the store alone and keeps the containers well
  formed.  What it gives a client, that no read of another key can tell the difference, is proved
  once there.
\<close>

section \<open>Data\<close>

record stream_entry =
  id_ms :: u64
  id_seq :: u64
  se_fields :: "(bytes \<times> bytes) list"

datatype storage_value =
    StringV bytes
  | ListV "bytes list"
  | SetV "bytes hset"
  | HashV "(bytes, bytes) hmap"
  | ZSetV "(bytes, f64) hmap" "(f64, bytes hset) btmap"
  | StreamV "stream_entry list" u64 u64
  | NestedHashV "(bytes, (bytes, bytes) hmap) hmap"

record entry =
  ent_value :: storage_value
  ent_expire_at :: "u64 option"
  ent_version :: u64

record pending_entry =
  consumer :: bytes
  delivery_time_ms :: u64
  delivery_count :: u64

record consumer_group =
  last_delivered_ms :: u64
  last_delivered_seq :: u64
  consumers :: "bytes hset"
  pending :: "(u64 \<times> u64, pending_entry) btmap"

datatype eviction_policy = NoEviction | AllKeysRandom | VolatileRandom

type_synonym database = "(bytes, entry) hmap"

record store =
  databases :: "database list"
  block_reg :: block_registry
  pubsub_reg :: pubsub_registry
  lua_scripts :: "(bytes, bytes) hmap"
  maxmemory :: nat
  eviction_policy :: eviction_policy
  cached_memory_usage :: nat
  scan_cursors :: "(u64, bytes) hmap"
  next_scan_cursor :: u64
  consumer_groups :: "(nat \<times> bytes \<times> bytes, consumer_group) hmap"

definition consumer_group_new :: "u64 \<Rightarrow> u64 \<Rightarrow> consumer_group" where
  "consumer_group_new start_ms start_seq =
     \<lparr>last_delivered_ms = start_ms, last_delivered_seq = start_seq, consumers = [], pending = []\<rparr>"

definition eviction_policy_parse :: "bytes \<Rightarrow> eviction_policy option" where
  "eviction_policy_parse s =
     (if s = ''noeviction'' then Some NoEviction
      else if s = ''allkeys-random'' then Some AllKeysRandom
      else if s = ''volatile-random'' then Some VolatileRandom
      else None)"

fun estimated_size :: "storage_value \<Rightarrow> nat" where
  "estimated_size (StringV v) = length v"
| "estimated_size (ListV l) = sum_list (map (\<lambda>v. length v + 24) l)"
| "estimated_size (SetV s) = sum_list (map (\<lambda>v. length v + 48) s)"
| "estimated_size (HashV h) = sum_list (map (\<lambda>(k, v). length k + length v + 48) h)"
| "estimated_size (ZSetV members _) = sum_list (map (\<lambda>(m, _). length m * 2 + 64) members)"
| "estimated_size (StreamV entries _ _) =
     sum_list (map (\<lambda>e. 16 + sum_list (map (\<lambda>(k, v). length k + length v + 48) (se_fields e))) entries)"
| "estimated_size (NestedHashV nh) =
     sum_list (map (\<lambda>(k, inner). length k + 48 +
       sum_list (map (\<lambda>(ik, iv). length ik + length iv + 48) inner)) nh)"

fun type_name :: "storage_value \<Rightarrow> bytes" where
  "type_name (StringV _) = ''string''"
| "type_name (ListV _) = ''list''"
| "type_name (SetV _) = ''set''"
| "type_name (HashV _) = ''hash''"
| "type_name (ZSetV _ _) = ''zset''"
| "type_name (StreamV _ _ _) = ''stream''"
| "type_name (NestedHashV _) = ''nh''"

definition store_new :: "nat \<Rightarrow> store" where
  "store_new num =
     \<lparr>databases = replicate num [], block_reg = block_registry_new,
      pubsub_reg = pubsub_registry_new, lua_scripts = [], maxmemory = 0,
      eviction_policy = NoEviction, cached_memory_usage = 0, scan_cursors = [],
      next_scan_cursor = 1, consumer_groups = []\<rparr>"

section \<open>Access\<close>

definition db :: "store \<Rightarrow> nat \<Rightarrow> database res" where
  "db s idx =
     (if idx < length (databases s) then Inr (databases s ! idx)
      else Inl (Internal (''db '' @ nat_to_string idx @ '' out of range'')))"

definition expired :: "u64 \<Rightarrow> entry \<Rightarrow> bool" where
  "expired now e = (case ent_expire_at e of None \<Rightarrow> False | Some at \<Rightarrow> at \<le> now)"

definition entry_ref :: "u64 \<Rightarrow> store \<Rightarrow> nat \<Rightarrow> bytes \<Rightarrow> entry option res" where
  "entry_ref now s db_idx key =
     (case db s db_idx of
        Inl err \<Rightarrow> Inl err
      | Inr d \<Rightarrow>
          (case hm_get d key of
             Some e \<Rightarrow> if \<not> expired now e then Inr (Some e) else Inr None
           | None \<Rightarrow> Inr None))"

text \<open>\<open>entry_mut\<close> finds the entry in the same way; what is written through it goes to \<open>put_entry\<close>.\<close>

definition entry_mut :: "u64 \<Rightarrow> store \<Rightarrow> nat \<Rightarrow> bytes \<Rightarrow> entry option res" where
  "entry_mut now s db_idx key =
     (case db s db_idx of
        Inl err \<Rightarrow> Inl err
      | Inr d \<Rightarrow>
          (case hm_get d key of
             Some e \<Rightarrow> if \<not> expired now e then Inr (Some e) else Inr None
           | None \<Rightarrow> Inr None))"

definition set_db :: "store \<Rightarrow> nat \<Rightarrow> database \<Rightarrow> store" where
  "set_db s db_idx d = s\<lparr>databases := (databases s)[db_idx := d]\<rparr>"

definition put_entry :: "store \<Rightarrow> nat \<Rightarrow> bytes \<Rightarrow> entry \<Rightarrow> store" where
  "put_entry s db_idx key e = set_db s db_idx (hm_insert key e (databases s ! db_idx))"

definition remove_entry :: "store \<Rightarrow> nat \<Rightarrow> bytes \<Rightarrow> store" where
  "remove_entry s db_idx key = set_db s db_idx (hm_remove key (databases s ! db_idx))"

text \<open>\<open>db.entry(key).or_insert_with(|| Entry { value, expire_at: None, version: 0 })\<close>\<close>

definition new_entry :: "storage_value \<Rightarrow> entry" where
  "new_entry v = \<lparr>ent_value = v, ent_expire_at = None, ent_version = 0\<rparr>"

definition entry_or_insert :: "database \<Rightarrow> bytes \<Rightarrow> storage_value \<Rightarrow> entry" where
  "entry_or_insert d key v = (case hm_get d key of Some e \<Rightarrow> e | None \<Rightarrow> new_entry v)"

section \<open>Generic operations\<close>

definition store_get :: "u64 \<Rightarrow> store \<Rightarrow> nat \<Rightarrow> bytes \<Rightarrow> bytes option res" where
  "store_get now s db_idx key =
     (case entry_ref now s db_idx key of
        Inl err \<Rightarrow> Inl err
      | Inr (Some e) \<Rightarrow> (case ent_value e of StringV v \<Rightarrow> Inr (Some v) | _ \<Rightarrow> Inl WrongType)
      | Inr None \<Rightarrow> Inr None)"

definition store_set :: "store \<Rightarrow> nat \<Rightarrow> bytes \<Rightarrow> bytes \<Rightarrow> u64 option \<Rightarrow> store \<times> unit res" where
  "store_set s db_idx key val expire_ms =
     (case db s db_idx of
        Inl err \<Rightarrow> (s, Inl err)
      | Inr d \<Rightarrow>
          (let e = entry_or_insert d key (StringV []);
               e = e\<lparr>ent_value := StringV val, ent_expire_at := expire_ms,
                     ent_version := ent_version e + 1\<rparr>
           in (put_entry s db_idx key e, Inr ())))"

definition store_del :: "store \<Rightarrow> nat \<Rightarrow> bytes \<Rightarrow> store \<times> bool res" where
  "store_del s db_idx key =
     (case db s db_idx of
        Inl err \<Rightarrow> (s, Inl err)
      | Inr d \<Rightarrow> (remove_entry s db_idx key, Inr (hm_get d key \<noteq> None)))"

definition store_exists :: "u64 \<Rightarrow> store \<Rightarrow> nat \<Rightarrow> bytes \<Rightarrow> bool res" where
  "store_exists now s db_idx key = map_res (\<lambda>e. e \<noteq> None) (entry_ref now s db_idx key)"

definition set_expire :: "store \<Rightarrow> nat \<Rightarrow> bytes \<Rightarrow> u64 \<Rightarrow> store \<times> bool res" where
  "set_expire s db_idx key at_ms =
     (case db s db_idx of
        Inl err \<Rightarrow> (s, Inl err)
      | Inr d \<Rightarrow>
          (case hm_get d key of
             Some e \<Rightarrow> (put_entry s db_idx key (e\<lparr>ent_expire_at := Some at_ms\<rparr>), Inr True)
           | None \<Rightarrow> (s, Inr False)))"

definition get_expire :: "u64 \<Rightarrow> store \<Rightarrow> nat \<Rightarrow> bytes \<Rightarrow> u64 option res" where
  "get_expire now s db_idx key =
     (case entry_ref now s db_idx key of
        Inl err \<Rightarrow> Inl err
      | Inr (Some e) \<Rightarrow> Inr (ent_expire_at e)
      | Inr None \<Rightarrow> Inr None)"

definition remove_expire :: "store \<Rightarrow> nat \<Rightarrow> bytes \<Rightarrow> store \<times> bool res" where
  "remove_expire s db_idx key =
     (case db s db_idx of
        Inl err \<Rightarrow> (s, Inl err)
      | Inr d \<Rightarrow>
          (case hm_get d key of
             Some e \<Rightarrow> (put_entry s db_idx key (e\<lparr>ent_expire_at := None\<rparr>), Inr True)
           | None \<Rightarrow> (s, Inr False)))"

definition get_type :: "u64 \<Rightarrow> store \<Rightarrow> nat \<Rightarrow> bytes \<Rightarrow> bytes option res" where
  "get_type now s db_idx key =
     (case entry_ref now s db_idx key of
        Inl err \<Rightarrow> Inl err
      | Inr (Some e) \<Rightarrow> Inr (Some (type_name (ent_value e)))
      | Inr None \<Rightarrow> Inr None)"

definition store_rename :: "store \<Rightarrow> nat \<Rightarrow> bytes \<Rightarrow> bytes \<Rightarrow> store \<times> unit res" where
  "store_rename s db_idx old new =
     (case db s db_idx of
        Inl err \<Rightarrow> (s, Inl err)
      | Inr d \<Rightarrow>
          (case hm_get d old of
             None \<Rightarrow> (s, Inl KeyNotFound)
           | Some e \<Rightarrow> (put_entry (remove_entry s db_idx old) db_idx new e, Inr ())))"

definition store_keys :: "u64 \<Rightarrow> store \<Rightarrow> nat \<Rightarrow> bytes \<Rightarrow> bytes list res" where
  "store_keys now s db_idx pattern =
     (case db s db_idx of
        Inl err \<Rightarrow> Inl err
      | Inr d \<Rightarrow>
          Inr (map fst (filter (\<lambda>(k, e). \<not> expired now e \<and> simple_match (utf8_lossy k) pattern) d)))"

definition dbsize :: "u64 \<Rightarrow> store \<Rightarrow> nat \<Rightarrow> store \<times> nat res" where
  "dbsize now s db_idx =
     (case db s db_idx of
        Inl err \<Rightarrow> (s, Inl err)
      | Inr d \<Rightarrow>
          (let to_remove = map fst (filter (\<lambda>(k, e). expired now e) d);
               count = length (filter (\<lambda>(k, e). \<not> expired now e) d)
           in (foldl (\<lambda>s k. remove_entry s db_idx k) s to_remove, Inr count)))"

definition expires_count :: "u64 \<Rightarrow> store \<Rightarrow> nat \<Rightarrow> nat res" where
  "expires_count now s db_idx =
     map_res (\<lambda>d. length (filter (\<lambda>(k, e). \<not> expired now e \<and> ent_expire_at e \<noteq> None) d))
       (db s db_idx)"

definition flushdb :: "store \<Rightarrow> nat \<Rightarrow> store \<times> unit res" where
  "flushdb s db_idx =
     (case db s db_idx of Inl err \<Rightarrow> (s, Inl err) | Inr d \<Rightarrow> (set_db s db_idx [], Inr ()))"

definition flushall :: "store \<Rightarrow> store \<times> unit res" where
  "flushall s = (s\<lparr>databases := map (\<lambda>_. []) (databases s)\<rparr>, Inr ())"

text \<open>\<open>nanos\<close> is the sub-second part of the clock reading that picks the key.\<close>

definition random_key :: "u64 \<Rightarrow> nat \<Rightarrow> store \<Rightarrow> nat \<Rightarrow> bytes option res" where
  "random_key now nanos s db_idx =
     (case db s db_idx of
        Inl err \<Rightarrow> Inl err
      | Inr d \<Rightarrow>
          (let keys = map fst (filter (\<lambda>(k, e). \<not> expired now e) d)
           in if keys = [] then Inr None else Inr (Some (keys ! (nanos mod length keys)))))"

definition iterate_db :: "u64 \<Rightarrow> store \<Rightarrow> nat \<Rightarrow> (bytes \<times> entry) list res" where
  "iterate_db now s db_idx = map_res (filter (\<lambda>(k, e). \<not> expired now e)) (db s db_idx)"

definition set_with_entry ::
  "store \<Rightarrow> nat \<Rightarrow> bytes \<Rightarrow> storage_value \<Rightarrow> u64 option \<Rightarrow> store \<times> unit res" where
  "set_with_entry s db_idx key val expire_ms =
     (case db s db_idx of
        Inl err \<Rightarrow> (s, Inl err)
      | Inr d \<Rightarrow>
          (case hm_get d key of
             Some e \<Rightarrow>
               (put_entry s db_idx key
                  (e\<lparr>ent_value := val, ent_expire_at := expire_ms, ent_version := ent_version e + 1\<rparr>),
                Inr ())
           | None \<Rightarrow>
               (put_entry s db_idx key
                  \<lparr>ent_value = val, ent_expire_at = expire_ms, ent_version = 0\<rparr>, Inr ())))"

definition get_version :: "u64 \<Rightarrow> store \<Rightarrow> nat \<Rightarrow> bytes \<Rightarrow> u64 res" where
  "get_version now s db_idx key =
     (case entry_ref now s db_idx key of
        Inl err \<Rightarrow> Inl err
      | Inr (Some e) \<Rightarrow> Inr (ent_version e)
      | Inr None \<Rightarrow> Inr 0)"

text \<open>\<open>pubsub_publish\<close> and the subscriptions go to the registry of the store.\<close>

definition pubsub_publish ::
  "(sender \<Rightarrow> bool) \<Rightarrow> store \<Rightarrow> bytes \<Rightarrow> bytes \<Rightarrow> store \<times> delivery list \<times> nat" where
  "pubsub_publish is_open s channel message =
     (let (r, sent, count) = publish_all is_open (pubsub_reg s) channel message
      in (s\<lparr>pubsub_reg := r\<rparr>, sent, count))"

definition pubsub_subscribe_channel :: "store \<Rightarrow> bytes \<Rightarrow> sender \<Rightarrow> store" where
  "pubsub_subscribe_channel s channel tx =
     s\<lparr>pubsub_reg := subscribe_channel (pubsub_reg s) channel tx\<rparr>"

definition pubsub_subscribe_pattern :: "store \<Rightarrow> bytes \<Rightarrow> sender \<Rightarrow> store" where
  "pubsub_subscribe_pattern s pattern tx =
     s\<lparr>pubsub_reg := subscribe_pattern (pubsub_reg s) pattern tx\<rparr>"

lemmas [store_defs] =
  store_get_def store_set_def store_del_def store_exists_def set_expire_def get_expire_def
  remove_expire_def get_type_def store_rename_def set_with_entry_def get_version_def

section \<open>What is stored under a key\<close>

text \<open>The entry a database holds for a key, expired or not, and the live entry.\<close>

definition raw :: "store \<Rightarrow> nat \<Rightarrow> bytes \<Rightarrow> entry option" where
  "raw s i k = (if i < length (databases s) then hm_get (databases s ! i) k else None)"

definition live :: "u64 \<Rightarrow> store \<Rightarrow> nat \<Rightarrow> bytes \<Rightarrow> entry option" where
  "live now s i k = (case raw s i k of None \<Rightarrow> None | Some e \<Rightarrow> if expired now e then None else Some e)"

definition valid_db :: "store \<Rightarrow> nat \<Rightarrow> bool" where
  "valid_db s i \<longleftrightarrow> i < length (databases s)"

text \<open>Every container of every value has distinct keys.\<close>

fun value_wf :: "storage_value \<Rightarrow> bool" where
  "value_wf (SetV s) = distinct s"
| "value_wf (HashV h) = hm_wf h"
| "value_wf (ZSetV m sc) = (hm_wf m \<and> (\<forall>e\<in>set sc. distinct (snd e)))"
| "value_wf (NestedHashV nh) = (hm_wf nh \<and> (\<forall>e\<in>set nh. hm_wf (snd e)))"
| "value_wf _ = True"

definition store_wf :: "store \<Rightarrow> bool" where
  "store_wf s \<longleftrightarrow>
     (\<forall>d\<in>set (databases s). hm_wf d \<and> (\<forall>ke\<in>set d. value_wf (ent_value (snd ke))))"

lemma entry_live: "valid_db s i \<Longrightarrow> entry_ref now s i k = Inr (live now s i k)"
  by (auto simp: entry_ref_def live_def raw_def db_def valid_db_def split: option.splits)

lemma entry_mut_live: "valid_db s i \<Longrightarrow> entry_mut now s i k = Inr (live now s i k)"
  by (auto simp: entry_mut_def live_def raw_def db_def valid_db_def split: option.splits)

lemma entry_out_of_range:
  "\<not> valid_db s i \<Longrightarrow>
     entry_ref now s i k = Inl (Internal (''db '' @ nat_to_string i @ '' out of range''))"
  by (simp add: entry_ref_def db_def valid_db_def)

lemma entry_mut_entry: "entry_mut now s i k = entry_ref now s i k"
  by (simp add: entry_mut_def entry_ref_def)

lemma db_valid: "valid_db s i \<Longrightarrow> db s i = Inr (databases s ! i)"
  by (simp add: db_def valid_db_def)

lemma db_invalid:
  "\<not> valid_db s i \<Longrightarrow> db s i = Inl (Internal (''db '' @ nat_to_string i @ '' out of range''))"
  by (simp add: db_def valid_db_def)

lemma hm_get_raw: "valid_db s i \<Longrightarrow> hm_get (databases s ! i) k = raw s i k"
  by (simp add: raw_def valid_db_def)

lemma entry_or_insert_raw:
  "valid_db s i \<Longrightarrow>
     entry_or_insert (databases s ! i) k v = (case raw s i k of Some e \<Rightarrow> e | None \<Rightarrow> new_entry v)"
  by (simp add: entry_or_insert_def hm_get_raw)

lemma live_cong: "raw s' i k = raw s i k \<Longrightarrow> live now s' i k = live now s i k"
  by (simp add: live_def)

lemma raw_put_entry [lookup_simps]:
  "raw (put_entry s i k e) i' k' =
     (if i' = i \<and> k' = k \<and> valid_db s i then Some e else raw s i' k')"
  by (auto simp: raw_def put_entry_def set_db_def nth_list_update_in valid_db_def)

lemma raw_remove_entry [lookup_simps]:
  "raw (remove_entry s i k) i' k' = (if i' = i \<and> k' = k then None else raw s i' k')"
  by (auto simp: raw_def remove_entry_def set_db_def nth_list_update_in)

lemma raw_set_db_empty [lookup_simps]:
  "raw (set_db s i []) i' k' = (if i' = i then None else raw s i' k')"
  by (auto simp: raw_def set_db_def nth_list_update_in)

lemma length_databases_update [simp]:
  "length (databases (set_db s i d)) = length (databases s)"
  "length (databases (put_entry s i k e)) = length (databases s)"
  "length (databases (remove_entry s i k)) = length (databases s)"
  by (simp_all add: set_db_def put_entry_def remove_entry_def)

lemma valid_db_update [simp]:
  "valid_db (set_db s i d) j = valid_db s j"
  "valid_db (put_entry s i k e) j = valid_db s j"
  "valid_db (remove_entry s i k) j = valid_db s j"
  by (simp_all add: valid_db_def)

lemma raw_more [lookup_simps]:
  "raw (s\<lparr>block_reg := r\<rparr>) i k = raw s i k"
  "raw (s\<lparr>pubsub_reg := p\<rparr>) i k = raw s i k"
  "raw (s\<lparr>consumer_groups := g\<rparr>) i k = raw s i k"
  "raw (s\<lparr>scan_cursors := c\<rparr>) i k = raw s i k"
  "raw (s\<lparr>next_scan_cursor := n\<rparr>) i k = raw s i k"
  "raw (s\<lparr>cached_memory_usage := u\<rparr>) i k = raw s i k"
  by (simp_all add: raw_def)

lemma valid_db_more [simp]:
  "valid_db (s\<lparr>block_reg := r\<rparr>) i = valid_db s i"
  "valid_db (s\<lparr>pubsub_reg := p\<rparr>) i = valid_db s i"
  "valid_db (s\<lparr>consumer_groups := g\<rparr>) i = valid_db s i"
  by (simp_all add: valid_db_def)

lemma raw_valid: "raw s i k = Some e \<Longrightarrow> valid_db s i"
  by (simp add: raw_def valid_db_def split: if_splits)

lemma store_wf_value:
  assumes "store_wf s" "raw s i k = Some e"
  shows "value_wf (ent_value e)"
proof -
  have i: "i < length (databases s)" using assms(2) by (simp add: raw_def split: if_splits)
  then have d: "databases s ! i \<in> set (databases s)" by simp
  have "(k, e) \<in> set (databases s ! i)"
    using assms(2) i by (auto simp: raw_def dest: map_of_SomeD)
  then show ?thesis using assms(1) d by (fastforce simp: store_wf_def)
qed

lemma set_hm_insert_subset: "set (hm_insert k v m) \<subseteq> insert (k, v) (set m)"
  by (induction m) (auto simp: hm_insert_def)

lemma set_hm_remove_subset: "set (hm_remove k m) \<subseteq> set m"
  by (auto simp: hm_remove_def AList.delete_eq)

lemma store_wf_set_db:
  assumes "store_wf s" "hm_wf d" "\<And>ke. ke \<in> set d \<Longrightarrow> value_wf (ent_value (snd ke))"
  shows "store_wf (set_db s i d)"
  using assms set_update_subset_insert [of "databases s" i d]
  unfolding store_wf_def set_db_def by auto

lemma store_wf_put [intro]:
  assumes "store_wf s" "value_wf (ent_value e)" "valid_db s i"
  shows "store_wf (put_entry s i k e)"
proof -
  have "databases s ! i \<in> set (databases s)" using assms(3) by (simp add: valid_db_def)
  with assms(1) have d: "hm_wf (databases s ! i)"
    "\<And>ke. ke \<in> set (databases s ! i) \<Longrightarrow> value_wf (ent_value (snd ke))"
    by (auto simp: store_wf_def)
  show ?thesis unfolding put_entry_def
  proof (rule store_wf_set_db [OF assms(1)])
    show "hm_wf (hm_insert k e (databases s ! i))" using d(1) by simp
    show "value_wf (ent_value (snd ke))" if "ke \<in> set (hm_insert k e (databases s ! i))" for ke
    proof -
      have "ke = (k, e) \<or> ke \<in> set (databases s ! i)"
        using that set_hm_insert_subset [of k e "databases s ! i"] by blast
      then show ?thesis using d(2) [of ke] assms(2) by auto
    qed
  qed
qed

lemma store_wf_remove [intro]:
  assumes "store_wf s"
  shows "store_wf (remove_entry s i k)"
proof (cases "valid_db s i")
  case True
  then have "databases s ! i \<in> set (databases s)" by (simp add: valid_db_def)
  with assms have d: "hm_wf (databases s ! i)"
    "\<And>ke. ke \<in> set (databases s ! i) \<Longrightarrow> value_wf (ent_value (snd ke))"
    by (auto simp: store_wf_def)
  show ?thesis unfolding remove_entry_def
    by (rule store_wf_set_db [OF assms]) (use d set_hm_remove_subset [of k "databases s ! i"] in auto)
next
  case False
  then show ?thesis
    using assms by (simp add: remove_entry_def set_db_def valid_db_def store_wf_def list_update_beyond)
qed

lemma store_wf_more [simp]:
  "store_wf (s\<lparr>block_reg := r\<rparr>) = store_wf s"
  "store_wf (s\<lparr>pubsub_reg := p\<rparr>) = store_wf s"
  "store_wf (s\<lparr>consumer_groups := g\<rparr>) = store_wf s"
  by (simp_all add: store_wf_def)

lemma store_wf_new: "store_wf (store_new n)"
  by (auto simp: store_wf_def store_new_def hm_wf_def)

lemma value_wf_or_insert:
  "store_wf s \<Longrightarrow> valid_db s i \<Longrightarrow> value_wf v \<Longrightarrow>
     value_wf (ent_value (entry_or_insert (databases s ! i) k v))"
  by (auto simp: entry_or_insert_raw new_entry_def split: option.splits dest: store_wf_value)

lemma live_raw: "live now s i k = Some e \<Longrightarrow> raw s i k = Some e"
  by (simp add: live_def split: option.splits if_splits)

lemma value_wf_live: "store_wf s \<Longrightarrow> live now s i k = Some e \<Longrightarrow> value_wf (ent_value e)"
  by (rule store_wf_value [OF _ live_raw])

lemma entry_mut_SomeD:
  "entry_mut now s i k = Inr (Some e) \<Longrightarrow> valid_db s i \<and> live now s i k = Some e"
  by (cases "valid_db s i") (simp_all add: entry_live entry_mut_entry entry_out_of_range)

section \<open>The contract of an update of one key\<close>

locale keyed_update =
  fixes upd :: "store \<Rightarrow> nat \<Rightarrow> bytes \<Rightarrow> store"
  assumes upd_other: "i' \<noteq> i \<or> k' \<noteq> k \<Longrightarrow> raw (upd s i k) i' k' = raw s i' k'"
    and upd_dbs: "length (databases (upd s i k)) = length (databases s)"
    and upd_wf: "store_wf s \<Longrightarrow> store_wf (upd s i k)"
begin

lemma upd_valid_db [simp]: "valid_db (upd s i k) j = valid_db s j"
  by (simp add: valid_db_def upd_dbs)

lemma upd_entry_other:
  "i' \<noteq> i \<or> k' \<noteq> k \<Longrightarrow> entry_ref now (upd s i k) i' k' = entry_ref now s i' k'"
  by (cases "valid_db s i'")
     (simp_all add: entry_live entry_out_of_range live_cong [OF upd_other])

lemma upd_reads_other:
  assumes "i' \<noteq> i \<or> k' \<noteq> k"
  shows "store_get now (upd s i k) i' k' = store_get now s i' k'"
    and "store_exists now (upd s i k) i' k' = store_exists now s i' k'"
    and "get_type now (upd s i k) i' k' = get_type now s i' k'"
    and "get_expire now (upd s i k) i' k' = get_expire now s i' k'"
    and "get_version now (upd s i k) i' k' = get_version now s i' k'"
  by (simp_all add: store_defs upd_entry_other [OF assms])

end

section \<open>The generic updates meet the contract\<close>

interpretation set_op: keyed_update "\<lambda>s i k. fst (store_set s i k v ex)" for v ex
  by unfold_locales
     (auto simp: store_set_def Let_def db_def lookup_simps valid_db_def [symmetric]
       intro!: store_wf_put split: sum.splits)

interpretation del_op: keyed_update "\<lambda>s i k. fst (store_del s i k)"
  by unfold_locales
     (auto simp: store_del_def db_def lookup_simps valid_db_def [symmetric] split: sum.splits)

interpretation set_expire_op: keyed_update "\<lambda>s i k. fst (set_expire s i k ms)" for ms
  by unfold_locales
     (auto simp: set_expire_def db_def lookup_simps valid_db_def [symmetric] hm_get_raw
       intro!: store_wf_put dest: store_wf_value split: sum.splits option.splits)

interpretation remove_expire_op: keyed_update "\<lambda>s i k. fst (remove_expire s i k)"
  by unfold_locales
     (auto simp: remove_expire_def db_def lookup_simps valid_db_def [symmetric] hm_get_raw
       intro!: store_wf_put dest: store_wf_value split: sum.splits option.splits)

lemma set_with_entry_wf:
  "value_wf v \<Longrightarrow> store_wf s \<Longrightarrow> store_wf (fst (set_with_entry s i k v ex))"
  by (auto simp: set_with_entry_def db_def valid_db_def [symmetric] intro!: store_wf_put
      split: sum.splits option.splits)

lemma set_with_entry_other:
  "i' \<noteq> i \<or> k' \<noteq> k \<Longrightarrow> raw (fst (set_with_entry s i k v ex)) i' k' = raw s i' k'"
  by (auto simp: set_with_entry_def db_def lookup_simps split: sum.splits option.splits)

lemma store_rename_wf: "store_wf s \<Longrightarrow> store_wf (fst (store_rename s i old new))"
  by (auto simp: store_rename_def db_def valid_db_def [symmetric] hm_get_raw intro!: store_wf_put
      dest: store_wf_value split: sum.splits option.splits)

lemma raw_rename:
  assumes "raw s i old = Some e"
  shows "raw (fst (store_rename s i old new)) j k =
     (if j = i \<and> k = new then Some e else if j = i \<and> k = old then None else raw s j k)"
  using assms raw_valid [OF assms]
  by (simp add: store_rename_def db_valid hm_get_raw lookup_simps)

section \<open>Removal of expired entries\<close>

lemma raw_foldl_remove:
  "raw (foldl (\<lambda>s k. remove_entry s i k) s ks) j k = (if j = i \<and> k \<in> set ks then None else raw s j k)"
  by (induction ks arbitrary: s) (auto simp: lookup_simps)

lemma valid_db_foldl_remove [simp]:
  "valid_db (foldl (\<lambda>s k. remove_entry s i k) s ks) j = valid_db s j"
  by (induction ks arbitrary: s) auto

lemma store_wf_foldl_remove: "store_wf s \<Longrightarrow> store_wf (foldl (\<lambda>s k. remove_entry s i k) s ks)"
  by (induction ks arbitrary: s) auto

lemma store_wf_db: "store_wf s \<Longrightarrow> valid_db s i \<Longrightarrow> hm_wf (databases s ! i)"
  by (simp add: store_wf_def valid_db_def)

lemma in_db_raw:
  "store_wf s \<Longrightarrow> valid_db s i \<Longrightarrow> (k, e) \<in> set (databases s ! i) \<longleftrightarrow> raw s i k = Some e"
  by (simp add: set_hm_iff store_wf_db hm_get_raw)

text \<open>Dropping entries that have expired cannot be seen through \<open>entry\<close>.\<close>

lemma live_foldl_remove:
  assumes "\<And>k e. k \<in> set ks \<Longrightarrow> raw s i k = Some e \<Longrightarrow> expired now e"
  shows "live now (foldl (\<lambda>s k. remove_entry s i k) s ks) j k = live now s j k"
  using assms by (auto simp: live_def raw_foldl_remove split: option.splits)

lemma live_dom_db:
  assumes "store_wf s" "valid_db s i"
  shows "dom (live now s i) = fst ` set (filter (\<lambda>(k, e). \<not> expired now e) (databases s ! i))"
  using in_db_raw [OF assms] by (force simp: live_def dom_def image_iff split: option.splits if_splits)

lemma length_live_db:
  assumes "store_wf s" "valid_db s i"
  shows "length (filter (\<lambda>(k, e). \<not> expired now e) (databases s ! i)) = card (dom (live now s i))"
  using distinct_card [of "map fst (filter (\<lambda>(k, e). \<not> expired now e) (databases s ! i))"]
    store_wf_db [OF assms] hm_wf_filter
  by (force simp: live_dom_db [OF assms] hm_wf_def)

section \<open>Properties\<close>

text \<open>
  C9: SET then GET.  In a database that exists, \<open>set\<close> succeeds on a key of any type and state; a
  \<open>get\<close> at a time the new expiry has not passed returns the value written, and the version
  counter of the entry has gone up by one (from 0 for a key that was not there).
\<close>

theorem set_then_get:
  assumes "valid_db s i" and "\<forall>at. ex = Some at \<longrightarrow> now < at"
  shows "snd (store_set s i k v ex) = Inr () \<and>
         store_get now (fst (store_set s i k v ex)) i k = Inr (Some v) \<and>
         get_expire now (fst (store_set s i k v ex)) i k = Inr ex \<and>
         get_version now (fst (store_set s i k v ex)) i k =
           Inr ((case raw s i k of None \<Rightarrow> 0 | Some e \<Rightarrow> ent_version e) + 1)"
proof -
  have "\<not> expired now (e\<lparr>ent_value := StringV v, ent_expire_at := ex, ent_version := n\<rparr>)" for e n
    using assms(2) by (auto simp: expired_def split: option.splits)
  then show ?thesis using assms(1)
    by (auto simp: store_defs db_valid entry_or_insert_raw entry_live live_def lookup_simps
        Let_def new_entry_def split: option.splits)
qed

theorem set_then_get_witness:
  "valid_db (store_new 1) 0 \<and>
   store_get 5 (fst (store_set (store_new 1) 0 ''k'' ''v'' (Some 9))) 0 ''k'' = Inr (Some ''v'')"
proof -
  have "valid_db (store_new 1) 0" by (simp add: valid_db_def store_new_def)
  with set_then_get [of "store_new 1" 0 "Some 9" 5 "''k''" "''v''"] show ?thesis by simp
qed

text \<open>
  Expiry is exact and lazy.  A key whose expiry time has been reached is absent for every read
  that goes through \<open>entry\<close>, although its entry is still stored.
\<close>

theorem expired_key_absent:
  assumes "raw s i k = Some e" and "ent_expire_at e = Some at" and "at \<le> now"
  shows "store_get now s i k = Inr None \<and> store_exists now s i k = Inr False \<and>
         get_type now s i k = Inr None \<and> get_expire now s i k = Inr None \<and>
         get_version now s i k = Inr 0"
  using assms raw_valid [OF assms(1)]
  by (simp add: store_defs entry_live live_def expired_def)

theorem expired_key_absent_witness:
  "store_get 9 (fst (store_set (store_new 1) 0 ''k'' ''v'' (Some 9))) 0 ''k'' = Inr None"
proof -
  let ?s = "fst (store_set (store_new 1) 0 ''k'' ''v'' (Some 9))"
  have "raw ?s 0 ''k'' = Some \<lparr>ent_value = StringV ''v'', ent_expire_at = Some 9, ent_version = 1\<rparr>"
    by (simp add: raw_def store_set_def db_def store_new_def put_entry_def set_db_def
        entry_or_insert_def new_entry_def)
  from expired_key_absent [OF this, of 9 9] show ?thesis by simp
qed

text \<open>
  DBSIZE returns the number of live keys and reaps the expired entries of the database, which
  no read of any key of any database can tell.
\<close>

theorem dbsize_counts_live:
  assumes "store_wf s" and "valid_db s i"
  shows "snd (dbsize now s i) = Inr (card (dom (live now s i))) \<and>
         (\<forall>j k. live now (fst (dbsize now s i)) j k = live now s j k) \<and>
         (\<forall>k. raw (fst (dbsize now s i)) i k = live now s i k) \<and>
         store_wf (fst (dbsize now s i))"
proof (intro conjI allI)
  let ?dead = "map fst (filter (\<lambda>(k, e). expired now e) (databases s ! i))"
  have st: "fst (dbsize now s i) = foldl (\<lambda>s k. remove_entry s i k) s ?dead"
    by (simp add: dbsize_def db_valid assms Let_def)
  have dead: "k \<in> set ?dead \<longleftrightarrow> (\<exists>e. raw s i k = Some e \<and> expired now e)" for k
    using in_db_raw [OF assms] by (force simp: image_iff)
  show "snd (dbsize now s i) = Inr (card (dom (live now s i)))"
    by (simp add: dbsize_def db_valid assms Let_def length_live_db)
  show "live now (fst (dbsize now s i)) j k = live now s j k" for j k
    unfolding st by (rule live_foldl_remove) (use dead in auto)
  show "raw (fst (dbsize now s i)) i k = live now s i k" for k
    unfolding st raw_foldl_remove dead by (auto simp: live_def split: option.splits)
  show "store_wf (fst (dbsize now s i))" unfolding st using assms(1) by (rule store_wf_foldl_remove)
qed

theorem dbsize_counts_live_witness:
  "snd (dbsize 9 (store_new 2) 1) = Inr (card (dom (live 9 (store_new 2) 1)))"
  by (rule dbsize_counts_live [THEN conjunct1, OF store_wf_new]) (simp add: valid_db_def store_new_def)

text \<open>
  KEYS returns each live key whose name the pattern matches exactly once, and nothing else.
\<close>

theorem keys_exact:
  assumes "store_wf s" and "valid_db s i"
  shows "\<exists>ks. store_keys now s i pat = Inr ks \<and> distinct ks \<and>
           set ks = {k \<in> dom (live now s i). simple_match (utf8_lossy k) pat}"
proof -
  let ?d = "filter (\<lambda>(k, e). \<not> expired now e \<and> simple_match (utf8_lossy k) pat) (databases s ! i)"
  have "hm_wf ?d" by (rule hm_wf_filter [OF store_wf_db [OF assms]])
  moreover have "fst ` set ?d = {k \<in> dom (live now s i). simple_match (utf8_lossy k) pat}"
    unfolding live_dom_db [OF assms] by force
  ultimately show ?thesis by (simp add: store_keys_def db_valid assms(2) hm_wf_def)
qed

theorem keys_exact_witness:
  "\<exists>ks. store_keys 9 (store_new 1) 0 ''*'' = Inr ks \<and> distinct ks \<and>
        set ks = {k \<in> dom (live 9 (store_new 1) 0). simple_match (utf8_lossy k) ''*''}"
  by (rule keys_exact [OF store_wf_new]) (simp add: valid_db_def store_new_def)

text \<open>
  RENAME moves the whole entry, value, expiry and version, to the new name, replacing what was
  there and nothing else; renaming a key to itself leaves the database as it was.
\<close>

theorem rename_moves_entry:
  assumes "raw s i old = Some e"
  shows "snd (store_rename s i old new) = Inr () \<and>
         raw (fst (store_rename s i old new)) =
           (raw s)(i := (raw s i)(old := None, new := Some e))"
proof -
  have "snd (store_rename s i old new) = Inr ()"
    using assms raw_valid [OF assms] by (simp add: store_rename_def db_valid hm_get_raw)
  then show ?thesis by (auto simp: raw_rename [OF assms] fun_eq_iff)
qed

theorem rename_moves_entry_witness:
  "let s = fst (store_set (store_new 1) 0 ''a'' ''v'' None) in
     snd (store_rename s 0 ''a'' ''b'') = Inr () \<and> raw (fst (store_rename s 0 ''a'' ''b'')) 0 ''a'' = None"
proof -
  let ?s = "fst (store_set (store_new 1) 0 ''a'' ''v'' None)"
  have "raw ?s 0 ''a'' = Some \<lparr>ent_value = StringV ''v'', ent_expire_at = None, ent_version = 1\<rparr>"
    by (simp add: raw_def store_set_def db_def store_new_def put_entry_def set_db_def
        entry_or_insert_def new_entry_def)
  from rename_moves_entry [OF this, of "''b''"] show ?thesis by simp
qed

text \<open>
  EXPIRE and PERSIST do not look whether the key has expired already: on a key that every read
  reports as absent they succeed and bring the old value back.
\<close>

theorem expire_revives:
  assumes "raw s i k = Some e" and "expired now e" and "now < at"
  shows "live now s i k = None \<and>
         snd (set_expire s i k at) = Inr True \<and>
         live now (fst (set_expire s i k at)) i k = Some (e\<lparr>ent_expire_at := Some at\<rparr>) \<and>
         snd (remove_expire s i k) = Inr True \<and>
         live now (fst (remove_expire s i k)) i k = Some (e\<lparr>ent_expire_at := None\<rparr>)"
  using assms raw_valid [OF assms(1)]
  by (simp add: set_expire_def remove_expire_def db_valid hm_get_raw live_def lookup_simps expired_def)

theorem expire_revives_witness:
  "let s = fst (store_set (store_new 1) 0 ''k'' ''v'' (Some 5)) in
     live 9 s 0 ''k'' = None \<and> snd (remove_expire s 0 ''k'') = Inr True \<and>
     live 9 (fst (remove_expire s 0 ''k'')) 0 ''k'' \<noteq> None"
proof -
  let ?s = "fst (store_set (store_new 1) 0 ''k'' ''v'' (Some 5))"
  have "raw ?s 0 ''k'' = Some \<lparr>ent_value = StringV ''v'', ent_expire_at = Some 5, ent_version = 1\<rparr>"
    by (simp add: raw_def store_set_def db_def store_new_def put_entry_def set_db_def
        entry_or_insert_def new_entry_def)
  from expire_revives [OF this, of 9 10] show ?thesis by (simp add: expired_def)
qed

end
