(* ===== verification/StoreList.thy ===== *)
theory StoreList
  imports Store
begin

text \<open>
  The list operations of \<open>store/memory.rs\<close>: LPUSH, RPUSH, LPOP, RPOP, LLEN, LRANGE, LINDEX, LSET,
  LTRIM and LREM at the store level.  \<open>list_at\<close> is the list a client sees under a key; the
  operations refine the operations of a double-ended queue on it (locale \<open>deque\<close>).
\<close>

section \<open>Operations\<close>

definition store_lpush :: "store \<Rightarrow> nat \<Rightarrow> bytes \<Rightarrow> bytes list \<Rightarrow> store \<times> nat res" where
  "store_lpush s db_idx key vals =
     (case db s db_idx of
        Inl err \<Rightarrow> (s, Inl err)
      | Inr d \<Rightarrow>
          (let e = entry_or_insert d key (ListV [])
           in case ent_value e of
                ListV list \<Rightarrow>
                  (let list' = foldl (\<lambda>l v. v # l) list (rev vals);
                       s' = put_entry s db_idx key (e\<lparr>ent_value := ListV list'\<rparr>)
                   in (s'\<lparr>block_reg := notify (block_reg s') key\<rparr>, Inr (length list')))
              | _ \<Rightarrow> (put_entry s db_idx key e, Inl WrongType)))"

definition store_rpush :: "store \<Rightarrow> nat \<Rightarrow> bytes \<Rightarrow> bytes list \<Rightarrow> store \<times> nat res" where
  "store_rpush s db_idx key vals =
     (case db s db_idx of
        Inl err \<Rightarrow> (s, Inl err)
      | Inr d \<Rightarrow>
          (let e = entry_or_insert d key (ListV [])
           in case ent_value e of
                ListV list \<Rightarrow>
                  (let list' = foldl (\<lambda>l v. l @ [v]) list vals;
                       s' = put_entry s db_idx key (e\<lparr>ent_value := ListV list'\<rparr>)
                   in (s'\<lparr>block_reg := notify (block_reg s') key\<rparr>, Inr (length list')))
              | _ \<Rightarrow> (put_entry s db_idx key e, Inl WrongType)))"

definition store_lpop_one :: "u64 \<Rightarrow> store \<Rightarrow> nat \<Rightarrow> bytes \<Rightarrow> store \<times> bytes option res" where
  "store_lpop_one now s db_idx key =
     (case entry_mut now s db_idx key of
        Inl err \<Rightarrow> (s, Inl err)
      | Inr None \<Rightarrow> (s, Inr None)
      | Inr (Some e) \<Rightarrow>
          (case ent_value e of
             ListV list \<Rightarrow>
               (case list of
                  [] \<Rightarrow> (s, Inr None)
                | x # rest \<Rightarrow> (put_entry s db_idx key (e\<lparr>ent_value := ListV rest\<rparr>), Inr (Some x)))
           | _ \<Rightarrow> (s, Inl WrongType)))"

definition store_rpop_one :: "u64 \<Rightarrow> store \<Rightarrow> nat \<Rightarrow> bytes \<Rightarrow> store \<times> bytes option res" where
  "store_rpop_one now s db_idx key =
     (case entry_mut now s db_idx key of
        Inl err \<Rightarrow> (s, Inl err)
      | Inr None \<Rightarrow> (s, Inr None)
      | Inr (Some e) \<Rightarrow>
          (case ent_value e of
             ListV list \<Rightarrow>
               (if list = [] then (s, Inr None)
                else (put_entry s db_idx key (e\<lparr>ent_value := ListV (butlast list)\<rparr>),
                      Inr (Some (last list))))
           | _ \<Rightarrow> (s, Inl WrongType)))"

definition store_llen :: "u64 \<Rightarrow> store \<Rightarrow> nat \<Rightarrow> bytes \<Rightarrow> nat res" where
  "store_llen now s db_idx key =
     (case entry_ref now s db_idx key of
        Inl err \<Rightarrow> Inl err
      | Inr None \<Rightarrow> Inr 0
      | Inr (Some e) \<Rightarrow> (case ent_value e of ListV list \<Rightarrow> Inr (length list) | _ \<Rightarrow> Inl WrongType))"

text \<open>
  The clamping of the index arguments in \<open>lrange\<close>, \<open>ltrim\<close> and \<open>zrange\<close>, with the casts to
  \<open>usize\<close>: on an empty sequence a nonnegative \<open>stop\<close> becomes \<open>-1 as usize\<close>.
\<close>

definition range_start :: "int \<Rightarrow> int \<Rightarrow> nat" where
  "range_start len start = i64_as_usize (if start < 0 then max (len + start) 0 else min start len)"

definition range_stop :: "int \<Rightarrow> int \<Rightarrow> nat" where
  "range_stop len stop = i64_as_usize (if stop < 0 then max (len + stop) 0 else min stop (len - 1))"

definition slice :: "'a list \<Rightarrow> int \<Rightarrow> int \<Rightarrow> 'a list" where
  "slice list start stop =
     (let len = int (length list); s = range_start len start; e = range_stop len stop
      in if e < s \<or> length list \<le> s then [] else take (e - s + 1) (drop s list))"

definition store_lrange :: "u64 \<Rightarrow> store \<Rightarrow> nat \<Rightarrow> bytes \<Rightarrow> int \<Rightarrow> int \<Rightarrow> bytes list res" where
  "store_lrange now s db_idx key start stop =
     (case entry_ref now s db_idx key of
        Inl err \<Rightarrow> Inl err
      | Inr None \<Rightarrow> Inr []
      | Inr (Some e) \<Rightarrow>
          (case ent_value e of ListV list \<Rightarrow> Inr (slice list start stop) | _ \<Rightarrow> Inl WrongType))"

definition store_lindex :: "u64 \<Rightarrow> store \<Rightarrow> nat \<Rightarrow> bytes \<Rightarrow> int \<Rightarrow> bytes option res" where
  "store_lindex now s db_idx key idx =
     (case entry_ref now s db_idx key of
        Inl err \<Rightarrow> Inl err
      | Inr None \<Rightarrow> Inr None
      | Inr (Some e) \<Rightarrow>
          (case ent_value e of
             ListV list \<Rightarrow>
               (let len = int (length list); i = (if idx < 0 then len + idx else idx)
                in if len = 0 then Inr None
                   else if i < 0 \<or> len \<le> i then Inr None else Inr (Some (list ! nat i)))
           | _ \<Rightarrow> Inl WrongType))"

definition store_lset ::
  "u64 \<Rightarrow> store \<Rightarrow> nat \<Rightarrow> bytes \<Rightarrow> int \<Rightarrow> bytes \<Rightarrow> store \<times> unit res" where
  "store_lset now s db_idx key idx val =
     (case entry_mut now s db_idx key of
        Inl err \<Rightarrow> (s, Inl err)
      | Inr None \<Rightarrow> (s, Inl KeyNotFound)
      | Inr (Some e) \<Rightarrow>
          (case ent_value e of
             ListV list \<Rightarrow>
               (let len = int (length list); i = (if idx < 0 then len + idx else idx)
                in if i < 0 \<or> len \<le> i then (s, Inl IndexOutOfRange)
                   else (put_entry s db_idx key (e\<lparr>ent_value := ListV (list[nat i := val])\<rparr>), Inr ()))
           | _ \<Rightarrow> (s, Inl WrongType)))"

definition store_ltrim ::
  "u64 \<Rightarrow> store \<Rightarrow> nat \<Rightarrow> bytes \<Rightarrow> int \<Rightarrow> int \<Rightarrow> store \<times> unit res" where
  "store_ltrim now s db_idx key start stop =
     (case entry_mut now s db_idx key of
        Inl err \<Rightarrow> (s, Inl err)
      | Inr None \<Rightarrow> (s, Inr ())
      | Inr (Some ent) \<Rightarrow>
          (case ent_value ent of
             ListV list \<Rightarrow>
               (let len = int (length list); b = range_start len start; e = range_stop len stop
                in if e < b \<or> length list \<le> b
                   then (put_entry s db_idx key (ent\<lparr>ent_value := ListV []\<rparr>), Inr ())
                   else (let new_len = e - b + 1
                         in (put_entry s db_idx key
                               (ent\<lparr>ent_value := ListV (take new_len (drop b list))\<rparr>), Inr ())))
           | _ \<Rightarrow> (s, Inl WrongType)))"

text \<open>The two loops of \<open>lrem\<close>: \<open>n\<close> rounds from the front, and the indices from the back.\<close>

fun lrem_front :: "nat \<Rightarrow> bytes \<Rightarrow> bytes list \<Rightarrow> nat \<Rightarrow> bytes list \<times> nat" where
  "lrem_front 0 val list removed = (list, removed)"
| "lrem_front (Suc n) val list removed =
     (case position (\<lambda>v. val = v) list of
        Some pos \<Rightarrow> lrem_front n val (remove_at pos list) (removed + 1)
      | None \<Rightarrow> lrem_front n val list removed)"

fun lrem_back :: "nat \<Rightarrow> nat \<Rightarrow> bytes \<Rightarrow> bytes list \<Rightarrow> nat \<Rightarrow> bytes list \<times> nat" where
  "lrem_back 0 limit val list removed = (list, removed)"
| "lrem_back (Suc idx) limit val list removed =
     (if list ! idx = val then
        (if limit \<le> removed + 1 then (remove_at idx list, removed + 1)
         else lrem_back idx limit val (remove_at idx list) (removed + 1))
      else lrem_back idx limit val list removed)"

definition lrem_list :: "int \<Rightarrow> bytes \<Rightarrow> bytes list \<Rightarrow> bytes list \<times> nat" where
  "lrem_list count val list =
     (if 0 \<le> count
      then lrem_front (if count = 0 then length list else i64_as_usize count) val list 0
      else lrem_back (length list) (i64_as_usize (wrap_i64 (- count))) val list 0)"

definition store_lrem ::
  "u64 \<Rightarrow> store \<Rightarrow> nat \<Rightarrow> bytes \<Rightarrow> int \<Rightarrow> bytes \<Rightarrow> store \<times> nat res" where
  "store_lrem now s db_idx key count val =
     (case entry_mut now s db_idx key of
        Inl err \<Rightarrow> (s, Inl err)
      | Inr None \<Rightarrow> (s, Inr 0)
      | Inr (Some e) \<Rightarrow>
          (case ent_value e of
             ListV list \<Rightarrow>
               (let (list', removed) = lrem_list count val list
                in (put_entry s db_idx key (e\<lparr>ent_value := ListV list'\<rparr>), Inr removed))
           | _ \<Rightarrow> (s, Inl WrongType)))"

lemmas list_op_defs =
  store_lpush_def store_rpush_def store_lpop_one_def store_rpop_one_def store_llen_def
  store_lrange_def store_lindex_def store_lset_def store_ltrim_def store_lrem_def

section \<open>Frame\<close>

interpretation lpush: keyed_update "\<lambda>s i k. fst (store_lpush s i k vals)" for vals
  by unfold_locales
     (auto simp: store_lpush_def Let_def db_def lookup_simps valid_db_def [symmetric]
       intro!: store_wf_put value_wf_or_insert split: sum.splits storage_value.splits)

interpretation rpush: keyed_update "\<lambda>s i k. fst (store_rpush s i k vals)" for vals
  by unfold_locales
     (auto simp: store_rpush_def Let_def db_def lookup_simps valid_db_def [symmetric]
       intro!: store_wf_put value_wf_or_insert split: sum.splits storage_value.splits)

interpretation lpop: keyed_update "\<lambda>s i k. fst (store_lpop_one now s i k)" for now
  by unfold_locales
     (auto simp: store_lpop_one_def lookup_simps dest!: entry_mut_SomeD
       intro!: store_wf_put split: sum.splits storage_value.splits option.splits list.splits)

interpretation rpop: keyed_update "\<lambda>s i k. fst (store_rpop_one now s i k)" for now
  by unfold_locales
     (auto simp: store_rpop_one_def lookup_simps dest!: entry_mut_SomeD
       intro!: store_wf_put split: sum.splits storage_value.splits option.splits)

interpretation lset: keyed_update "\<lambda>s i k. fst (store_lset now s i k idx val)" for now idx val
  by unfold_locales
     (auto simp: store_lset_def lookup_simps Let_def dest!: entry_mut_SomeD
       intro!: store_wf_put split: sum.splits storage_value.splits option.splits)

interpretation ltrim: keyed_update "\<lambda>s i k. fst (store_ltrim now s i k start stop)" for now start stop
  by unfold_locales
     (auto simp: store_ltrim_def lookup_simps Let_def dest!: entry_mut_SomeD
       intro!: store_wf_put split: sum.splits storage_value.splits option.splits)

interpretation lrem: keyed_update "\<lambda>s i k. fst (store_lrem now s i k count val)" for now count val
  by unfold_locales
     (auto simp: store_lrem_def lookup_simps Let_def dest!: entry_mut_SomeD
       intro!: store_wf_put split: sum.splits storage_value.splits option.splits prod.splits)

section \<open>The double-ended queue under a key\<close>

text \<open>
  What a client sees as the list under a key: the empty list where the key is absent, nothing
  where the entry has another type or is stale (expired and not yet removed).
\<close>

definition list_at :: "u64 \<Rightarrow> nat \<Rightarrow> bytes \<Rightarrow> store \<Rightarrow> bytes list option" where
  "list_at now i k s =
     (if \<not> valid_db s i then None
      else case raw s i k of
             None \<Rightarrow> Some []
           | Some e \<Rightarrow> if expired now e then None
                       else case ent_value e of ListV l \<Rightarrow> Some l | _ \<Rightarrow> None)"

locale deque =
  fixes content :: "'s \<Rightarrow> 'a list option"
    and push_front :: "'a \<Rightarrow> 's \<Rightarrow> 's"
    and push_back :: "'a \<Rightarrow> 's \<Rightarrow> 's"
    and pop_front :: "'s \<Rightarrow> 's \<times> 'a option"
    and pop_back :: "'s \<Rightarrow> 's \<times> 'a option"
  assumes content_push_front: "content s = Some l \<Longrightarrow> content (push_front x s) = Some (x # l)"
    and content_push_back: "content s = Some l \<Longrightarrow> content (push_back x s) = Some (l @ [x])"
    and pop_front_empty: "content s = Some [] \<Longrightarrow>
          content (fst (pop_front s)) = Some [] \<and> snd (pop_front s) = None"
    and pop_front_nonempty: "content s = Some (x # l) \<Longrightarrow>
          content (fst (pop_front s)) = Some l \<and> snd (pop_front s) = Some x"
    and pop_back_empty: "content s = Some [] \<Longrightarrow>
          content (fst (pop_back s)) = Some [] \<and> snd (pop_back s) = None"
    and pop_back_nonempty: "content s = Some (l @ [x]) \<Longrightarrow>
          content (fst (pop_back s)) = Some l \<and> snd (pop_back s) = Some x"
begin

text \<open>Popping \<open>n\<close> times from the front.\<close>

primrec drain :: "nat \<Rightarrow> 's \<Rightarrow> 's \<times> 'a option list" where
  "drain 0 s = (s, [])"
| "drain (Suc n) s =
     (let (s', x) = pop_front s; (s'', xs) = drain n s' in (s'', x # xs))"

lemma drain_content:
  "content s = Some (xs @ l) \<Longrightarrow>
     content (fst (drain (length xs) s)) = Some l \<and> snd (drain (length xs) s) = map Some xs"
proof (induction xs arbitrary: s)
  case Nil
  then show ?case by simp
next
  case (Cons x xs)
  then have c: "content (fst (pop_front s)) = Some (xs @ l)" and x: "snd (pop_front s) = Some x"
    using pop_front_nonempty [of s x "xs @ l"] by simp_all
  from Cons.IH [OF c] x show ?case by (auto simp: Let_def split: prod.splits)
qed

lemma push_back_all:
  "content s = Some l \<Longrightarrow> content (foldl (\<lambda>s x. push_back x s) s xs) = Some (l @ xs)"
  by (induction xs arbitrary: s l) (simp_all add: content_push_back)

lemma push_front_all:
  "content s = Some l \<Longrightarrow> content (foldl (\<lambda>s x. push_front x s) s xs) = Some (rev xs @ l)"
  by (induction xs arbitrary: s l) (simp_all add: content_push_front)

text \<open>First in, first out, and last in, first out.\<close>

lemma fifo:
  "content s = Some [] \<Longrightarrow>
     snd (drain (length xs) (foldl (\<lambda>s x. push_back x s) s xs)) = map Some xs"
  using drain_content [of _ xs "[]"] push_back_all [of s "[]" xs] by simp

lemma lifo:
  "content s = Some [] \<Longrightarrow>
     snd (drain (length xs) (foldl (\<lambda>s x. push_front x s) s xs)) = map Some (rev xs)"
  using drain_content [of _ "rev xs" "[]"] push_front_all [of s "[]" xs] by simp

end

lemma list_at_rpush:
  assumes "list_at now i k s = Some l"
  shows "list_at now i k (fst (store_rpush s i k vals)) = Some (l @ vals)"
    and "snd (store_rpush s i k vals) = Inr (length (l @ vals))"
  using assms
  by (auto simp: list_at_def store_rpush_def db_valid entry_or_insert_raw lookup_simps Let_def
      foldl_snoc new_entry_def expired_def split: option.splits if_splits storage_value.splits)

lemma list_at_lpush:
  assumes "list_at now i k s = Some l"
  shows "list_at now i k (fst (store_lpush s i k vals)) = Some (vals @ l)"
    and "snd (store_lpush s i k vals) = Inr (length (vals @ l))"
  using assms
  by (auto simp: list_at_def store_lpush_def db_valid entry_or_insert_raw lookup_simps Let_def
      foldl_Cons_rev new_entry_def expired_def split: option.splits if_splits storage_value.splits)

lemma list_at_Some_cases:
  assumes "list_at now i k s = Some l"
  obtains (absent) "valid_db s i" "live now s i k = None" "raw s i k = None" "l = []"
  | (there) e where "valid_db s i" "live now s i k = Some e" "ent_value e = ListV l"
      "raw s i k = Some e" "\<not> expired now e"
  using assms by (auto simp: list_at_def live_def split: option.splits if_splits storage_value.splits)

lemma list_at_put:
  "valid_db s i \<Longrightarrow> \<not> expired now e \<Longrightarrow>
     list_at now i k (put_entry s i k (e\<lparr>ent_value := ListV l\<rparr>)) = Some l"
  by (simp add: list_at_def lookup_simps expired_def)

lemma list_at_lpop:
  assumes "list_at now i k s = Some l"
  shows "list_at now i k (fst (store_lpop_one now s i k)) = Some (tl l)"
    and "snd (store_lpop_one now s i k) = Inr (case l of [] \<Rightarrow> None | x # _ \<Rightarrow> Some x)"
  using assms
  by (cases rule: list_at_Some_cases;
      auto simp: store_lpop_one_def entry_mut_live list_at_put split: list.splits)+

lemma list_at_rpop:
  assumes "list_at now i k s = Some l"
  shows "list_at now i k (fst (store_rpop_one now s i k)) = Some (butlast l)"
    and "snd (store_rpop_one now s i k) = Inr (if l = [] then None else Some (last l))"
  using assms
  by (cases rule: list_at_Some_cases; auto simp: store_rpop_one_def entry_mut_live list_at_put)+

interpretation list_queue: deque
  "list_at now i k"
  "\<lambda>x s. fst (store_lpush s i k [x])"
  "\<lambda>x s. fst (store_rpush s i k [x])"
  "\<lambda>s. (fst (store_lpop_one now s i k),
         case snd (store_lpop_one now s i k) of Inr r \<Rightarrow> r | Inl _ \<Rightarrow> None)"
  "\<lambda>s. (fst (store_rpop_one now s i k),
         case snd (store_rpop_one now s i k) of Inr r \<Rightarrow> r | Inl _ \<Rightarrow> None)"
  for now i k
  by unfold_locales
     (auto simp: list_at_rpush list_at_lpush list_at_lpop list_at_rpop)

section \<open>Ranges\<close>

text \<open>
  A sequence never has more than \<open>i64::MAX\<close> elements, and the index arguments are \<open>i64\<close> values.
\<close>

abbreviation small :: "'a list \<Rightarrow> bool" where
  "small l \<equiv> in_i64 (int (length l))"

text \<open>An index of the protocol as an offset from the front.\<close>

definition abs_index :: "int \<Rightarrow> int \<Rightarrow> int" where
  "abs_index len i = (if i < 0 then len + i else i)"

lemma range_start_eq:
  "0 \<le> len \<Longrightarrow> in_i64 len \<Longrightarrow> in_i64 start \<Longrightarrow>
     range_start len start = nat (min (max (abs_index len start) 0) len)"
  unfolding range_start_def abs_index_def
  by (auto simp: i64_as_usize_def in_i64_def i64_max_def i64_min_def max_def min_def)

lemma range_stop_eq:
  "0 < len \<Longrightarrow> in_i64 len \<Longrightarrow> in_i64 stop \<Longrightarrow>
     range_stop len stop = nat (min (max (abs_index len stop) 0) (len - 1))"
  unfolding range_stop_def abs_index_def
  by (auto simp: i64_as_usize_def in_i64_def i64_max_def i64_min_def max_def min_def)

lemma slice_Nil [simp]: "slice [] start stop = []"
  by (simp add: slice_def)

text \<open>
  The elements between the two offsets, in order; a \<open>stop\<close> that lies before the first element
  counts as the first element.
\<close>

lemma slice_eq:
  assumes "small l" "in_i64 start" "in_i64 stop"
  shows "slice l start stop =
    map (nth l) (filter (\<lambda>j. abs_index (int (length l)) start \<le> int j \<and>
                            int j \<le> max (abs_index (int (length l)) stop) 0) [0..<length l])"
proof (cases "l = []")
  case True
  then show ?thesis by simp
next
  case False
  let ?n = "int (length l)"
  let ?a = "nat (min (max (abs_index ?n start) 0) ?n)"
  let ?b = "nat (min (max (abs_index ?n stop) 0) (?n - 1))"
  have pos: "0 < ?n" using False by simp
  have s: "slice l start stop = (if ?b < ?a \<or> length l \<le> ?a then [] else take (?b - ?a + 1) (drop ?a l))"
    using assms pos by (simp add: slice_def Let_def range_start_eq range_stop_eq)
  have f: "filter (\<lambda>j. abs_index ?n start \<le> int j \<and> int j \<le> max (abs_index ?n stop) 0) [0..<length l]
        = filter (\<lambda>j. ?a \<le> j \<and> j \<le> ?b) [0..<length l]"
    by (rule filter_cong) (auto simp: max_def min_def)
  have g: "filter (\<lambda>j. a \<le> j \<and> j \<le> b) [0..<n] = [a..<min n (Suc b)]" for a b n :: nat
    by (induction n) (auto simp: min_def le_Suc_eq)
  have h: "take (b - a + 1) (drop a l) = map (nth l) [a..<min (length l) (Suc b)]"
    if "a \<le> b" "a < length l" for a b
  proof -
    have "map (nth l) [a..<length l] = drop a l" by (metis add_0 drop_map drop_upt map_nth)
    then have "take (b - a + 1) (drop a l) = map (nth l) (take (b - a + 1) [a..<length l])"
      by (metis take_map)
    also have "take (b - a + 1) [a..<length l] = [a..<min (length l) (Suc b)]"
      using that by (simp add: take_upt min_def)
    finally show ?thesis .
  qed
  show ?thesis
  proof (cases "?b < ?a \<or> length l \<le> ?a")
    case True
    then have "[?a..<min (length l) (Suc ?b)] = []" by (simp only: upt_eq_Nil_conv) linarith
    then show ?thesis unfolding s f g if_P [OF True] by (simp only: list.map)
  next
    case False
    then have ab: "?a \<le> ?b" "?a < length l" by linarith+
    show ?thesis unfolding s f g if_not_P [OF False] by (rule h [OF ab])
  qed
qed

section \<open>Removal of elements\<close>

text \<open>The list without the first \<open>n\<close> occurrences of a value.\<close>

fun remove_first :: "nat \<Rightarrow> 'a \<Rightarrow> 'a list \<Rightarrow> 'a list" where
  "remove_first n v [] = []"
| "remove_first n v (x # xs) =
     (if x = v \<and> 0 < n then remove_first (n - 1) v xs else x # remove_first n v xs)"

lemma remove_first_0 [simp]: "remove_first 0 v xs = xs"
  by (induction xs) auto

lemma remove_first_Suc: "remove_first (Suc n) v xs = remove_first n v (remove1 v xs)"
  by (induction xs arbitrary: n) auto

lemma length_remove_first: "length (remove_first n v xs) + min n (count_list xs v) = length xs"
  by (induction n v xs rule: remove_first.induct) auto

lemma remove_first_all: "count_list xs v \<le> n \<Longrightarrow> remove_first n v xs = filter (\<lambda>x. x \<noteq> v) xs"
  by (induction n v xs rule: remove_first.induct) auto

lemma count_list_remove1: "count_list (remove1 v xs) v = count_list xs v - 1"
  by (induction xs) auto

lemma lrem_front_eq:
  "lrem_front n v xs r = (remove_first n v xs, r + min n (count_list xs v))"
proof (induction n arbitrary: xs r)
  case 0
  then show ?case by simp
next
  case (Suc n)
  show ?case
  proof (cases "position ((=) v) xs")
    case None
    then have "v \<notin> set xs" by (auto simp: position_None)
    then have "remove1 v xs = xs" "count_list xs v = 0" by (simp_all add: remove1_idem count_list_0_iff)
    with Suc None show ?thesis by (simp add: remove_first_Suc)
  next
    case (Some pos)
    then have "v \<in> set xs" using position_None [of "(=) v" xs] by auto
    then have "0 < count_list xs v" by (metis count_list_0_iff gr_zeroI)
    with Suc Some show ?thesis
      by (simp add: remove_first_Suc remove_at_position count_list_remove1)
  qed
qed

lemma count_list_rev_snoc [simp]: "count_list (xs @ [x]) v = count_list xs v + (if x = v then 1 else 0)"
  by (induction xs) auto

lemma lrem_back_eq:
  "r < limit \<Longrightarrow> lrem_back (length xs) limit v (xs @ ys) r =
     (rev (remove_first (limit - r) v (rev xs)) @ ys, r + min (limit - r) (count_list xs v))"
proof (induction xs arbitrary: ys r rule: rev_induct)
  case Nil
  then show ?case by simp
next
  case (snoc x xs)
  have ra: "remove_at (length xs) (xs @ y # ys) = xs @ ys" for y by (simp add: remove_at_def)
  show ?case
  proof (cases "x = v")
    case False
    with snoc.IH [OF snoc.prems, of "x # ys"] show ?thesis by simp
  next
    case True
    show ?thesis
    proof (cases "limit \<le> r + 1")
      case True
      then have "limit - r = 1" using snoc.prems by simp
      with True \<open>x = v\<close> show ?thesis by (simp add: ra)
    next
      case False
      then have "Suc r < limit" by simp
      from snoc.IH [OF this, of ys] False \<open>x = v\<close> snoc.prems show ?thesis
        by (simp add: ra Suc_diff_Suc)
    qed
  qed
qed

lemma lrem_list_eq:
  assumes "in_i64 count"
  shows "lrem_list count v xs =
    (if count = 0 then (filter (\<lambda>x. x \<noteq> v) xs, count_list xs v)
     else if 0 < count
       then (remove_first (nat count) v xs, min (nat count) (count_list xs v))
     else (rev (remove_first (nat (- count)) v (rev xs)), min (nat (- count)) (count_list xs v)))"
proof -
  have neg: "i64_as_usize (wrap_i64 (- count)) = nat (- count)" if "count < 0"
  proof (cases "count = i64_min")
    case True
    then show ?thesis by (simp add: i64_min_def wrap_i64_def i64_as_usize_def)
  next
    case False
    with assms that have "in_i64 (- count)" by (auto simp: in_i64_def i64_min_def i64_max_def)
    then show ?thesis using that by (simp add: wrap_i64_id i64_as_usize_nonneg)
  qed
  have "count_list xs v \<le> length xs" by (induction xs) auto
  then show ?thesis
    using assms neg lrem_back_eq [of 0 "nat (- count)" xs v "[]"]
    by (auto simp: lrem_list_def lrem_front_eq i64_as_usize_nonneg remove_first_all)
qed

lemma list_at_lrem:
  assumes "list_at now i k s = Some l" "in_i64 count"
  shows "list_at now i k (fst (store_lrem now s i k count v)) = Some (fst (lrem_list count v l))"
    and "snd (store_lrem now s i k count v) = Inr (snd (lrem_list count v l))"
  using assms
  by (cases rule: list_at_Some_cases;
      auto simp: store_lrem_def entry_mut_live list_at_put lrem_list_eq assms(1) split: prod.splits)+

lemma list_at_ltrim:
  assumes "list_at now i k s = Some l"
  shows "list_at now i k (fst (store_ltrim now s i k start stop)) = Some (slice l start stop)"
    and "snd (store_ltrim now s i k start stop) = Inr ()"
  using assms
  by (cases rule: list_at_Some_cases;
      auto simp: store_ltrim_def entry_mut_live list_at_put slice_def Let_def assms(1))+

lemma list_at_lrange:
  "list_at now i k s = Some l \<Longrightarrow> store_lrange now s i k start stop = Inr (slice l start stop)"
  by (erule list_at_Some_cases) (auto simp: store_lrange_def entry_live)

lemma list_at_llen: "list_at now i k s = Some l \<Longrightarrow> store_llen now s i k = Inr (length l)"
  by (erule list_at_Some_cases) (auto simp: store_llen_def entry_live)

lemma list_at_lindex:
  "list_at now i k s = Some l \<Longrightarrow>
     store_lindex now s i k idx =
       Inr (let j = abs_index (int (length l)) idx
            in if 0 \<le> j \<and> j < int (length l) then Some (l ! nat j) else None)"
  by (erule list_at_Some_cases)
     (auto simp: store_lindex_def entry_live abs_index_def Let_def)

lemma list_at_lset:
  assumes "list_at now i k s = Some l" and j: "j = abs_index (int (length l)) idx"
    and "0 \<le> j" "j < int (length l)"
  shows "list_at now i k (fst (store_lset now s i k idx v)) = Some (l[nat j := v])"
    and "snd (store_lset now s i k idx v) = Inr ()"
  using assms
  by (cases rule: list_at_Some_cases;
      auto simp: store_lset_def entry_mut_live list_at_put abs_index_def Let_def split: if_splits)+

section \<open>Properties\<close>

text \<open>\<open>n\<close> times LPOP.\<close>

primrec lpop_times ::
  "u64 \<Rightarrow> nat \<Rightarrow> bytes \<Rightarrow> nat \<Rightarrow> store \<Rightarrow> store \<times> bytes option res list" where
  "lpop_times now i k 0 s = (s, [])"
| "lpop_times now i k (Suc n) s =
     (let (s', r) = store_lpop_one now s i k; (s'', rs) = lpop_times now i k n s' in (s'', r # rs))"

lemma lpop_times_drain:
  "list_at now i k s = Some l \<Longrightarrow>
     lpop_times now i k n s =
       (fst (list_queue.drain now i k n s), map Inr (snd (list_queue.drain now i k n s)))"
proof (induction n arbitrary: s l)
  case 0
  then show ?case by simp
next
  case (Suc n)
  obtain s' r where pop: "store_lpop_one now s i k = (s', r)" by fastforce
  have "\<exists>l' x. list_at now i k s' = Some l' \<and> r = Inr x"
    using list_at_lpop [OF Suc.prems] pop by auto
  with Suc.IH pop show ?case by (auto simp: Let_def split: prod.splits)
qed

text \<open>
  A list is a queue and a stack.  Values pushed one by one with RPUSH onto an empty or absent
  key come out of LPOP in the order they went in, values pushed with LPUSH in the reverse order,
  and the list is empty again afterwards.
\<close>

theorem list_fifo_lifo:
  assumes "list_at now i k s = Some []"
  shows "snd (lpop_times now i k (length xs) (foldl (\<lambda>s x. fst (store_rpush s i k [x])) s xs)) =
           map (\<lambda>x. Inr (Some x)) xs \<and>
         snd (lpop_times now i k (length xs) (foldl (\<lambda>s x. fst (store_lpush s i k [x])) s xs)) =
           map (\<lambda>x. Inr (Some x)) (rev xs)"
  using lpop_times_drain [OF list_queue.push_back_all [OF assms, of xs], of "length xs"]
    lpop_times_drain [OF list_queue.push_front_all [OF assms, of xs], of "length xs"]
    list_queue.fifo [OF assms, of xs] list_queue.lifo [OF assms, of xs]
  by simp

theorem list_fifo_lifo_witness:
  "snd (lpop_times 0 0 ''q'' 2 (fst (store_rpush (fst (store_rpush (store_new 1) 0 ''q'' [''a''])) 0 ''q'' [''b''])))
     = [Inr (Some ''a''), Inr (Some ''b'')]"
proof -
  have "list_at 0 0 ''q'' (store_new 1) = Some []"
    by (simp add: list_at_def valid_db_def raw_def store_new_def)
  from list_fifo_lifo [OF this, of "[''a'', ''b'']"] show ?thesis by (simp add: numeral_2_eq_2)
qed

text \<open>The elements between two indices, as a client means them.\<close>

definition elements_between :: "'a list \<Rightarrow> int \<Rightarrow> int \<Rightarrow> 'a list" where
  "elements_between l a b =
     map (nth l) (filter (\<lambda>j. (if a < 0 then int (length l) + a else a) \<le> int j \<and>
        int j \<le> max (if b < 0 then int (length l) + b else b) 0) [0..<length l])"

text \<open>
  C22: The effect and the reply of every list operation on the list a client sees.  A push of several values appends or prepends them in the
  order given and returns the new length; a pop takes the last or first element and returns it, nothing from an empty list.
  LRANGE returns, and LTRIM keeps, exactly the elements whose offset lies between the two indices, where a negative index counts from the end
  and a stop before the list is the first element.  LINDEX reads and LSET replaces the element at the index; out of range LINDEX finds nothing and LSET fails and changes nothing.
  LREM removes the first \<open>n\<close> occurrences, the last \<open>-n\<close> for a negative count, all of them for 0, and returns how many.
\<close>

theorem list_operations:
  assumes "list_at now i k s = Some l" "small l" "in_i64 a" "in_i64 b"
  shows "list_at now i k (fst (store_rpush s i k vs)) = Some (l @ vs) \<and> snd (store_rpush s i k vs) = Inr (length l + length vs) \<and>
    list_at now i k (fst (store_lpush s i k vs)) = Some (vs @ l) \<and> snd (store_lpush s i k vs) = Inr (length vs + length l) \<and>
    list_at now i k (fst (store_lpop_one now s i k)) = Some (tl l) \<and>
    snd (store_lpop_one now s i k) = Inr (if l = [] then None else Some (hd l)) \<and>
    list_at now i k (fst (store_rpop_one now s i k)) = Some (butlast l) \<and>
    snd (store_rpop_one now s i k) = Inr (if l = [] then None else Some (last l)) \<and>
    store_llen now s i k = Inr (length l) \<and>
    store_lrange now s i k a b = Inr (elements_between l a b) \<and>
    list_at now i k (fst (store_ltrim now s i k a b)) = Some (elements_between l a b) \<and> snd (store_ltrim now s i k a b) = Inr () \<and>
    (let j = (if a < 0 then int (length l) + a else a) in
     if 0 \<le> j \<and> j < int (length l)
     then store_lindex now s i k a = Inr (Some (l ! nat j)) \<and>
       list_at now i k (fst (store_lset now s i k a v)) = Some (l[nat j := v]) \<and> snd (store_lset now s i k a v) = Inr ()
     else store_lindex now s i k a = Inr None \<and>
       store_lset now s i k a v = (s, Inl (if raw s i k = None then KeyNotFound else IndexOutOfRange))) \<and>
    list_at now i k (fst (store_lrem now s i k a v)) =
      Some (if a = 0 then filter (\<lambda>x. x \<noteq> v) l
            else if 0 < a then remove_first (nat a) v l
            else rev (remove_first (nat (- a)) v (rev l))) \<and>
    snd (store_lrem now s i k a v) = Inr (if a = 0 then count_list l v else min (nat (abs a)) (count_list l v))"
proof -
  let ?j = "abs_index (int (length l)) a"
  have slice: "slice l a b = elements_between l a b" using slice_eq [OF assms(2-4)] by (simp only: elements_between_def abs_index_def)
  have "store_lset now s i k a v = (s, Inl (if raw s i k = None then KeyNotFound else IndexOutOfRange))"
    if "\<not> (0 \<le> ?j \<and> ?j < int (length l))"
    using assms(1) that
    by (cases rule: list_at_Some_cases)
       (auto simp: store_lset_def entry_mut_live abs_index_def Let_def)
  then have index: "let j = ?j in
     if 0 \<le> j \<and> j < int (length l)
     then store_lindex now s i k a = Inr (Some (l ! nat j)) \<and>
       list_at now i k (fst (store_lset now s i k a v)) = Some (l[nat j := v]) \<and> snd (store_lset now s i k a v) = Inr ()
     else store_lindex now s i k a = Inr None \<and>
       store_lset now s i k a v = (s, Inl (if raw s i k = None then KeyNotFound else IndexOutOfRange))"
    using list_at_lindex [OF assms(1), of a] list_at_lset [OF assms(1) refl, of a v]
    by (cases "0 \<le> ?j \<and> ?j < int (length l)") (simp_all add: Let_def)
  have pop: "(case l of [] \<Rightarrow> None | x # _ \<Rightarrow> Some x) = (if l = [] then None else Some (hd l))" by (cases l) simp_all
  have rem: "fst (lrem_list a v l) = (if a = 0 then filter (\<lambda>x. x \<noteq> v) l else if 0 < a then remove_first (nat a) v l
      else rev (remove_first (nat (- a)) v (rev l)))"
    "snd (lrem_list a v l) = (if a = 0 then count_list l v else min (nat (abs a)) (count_list l v))"
    using lrem_list_eq [OF assms(3), of v l] by (auto simp: abs_if)
  show ?thesis
    using list_at_rpush [OF assms(1), of vs] list_at_lpush [OF assms(1), of vs] list_at_lpop [OF assms(1)] list_at_rpop [OF assms(1)]
      list_at_llen [OF assms(1)] list_at_lrange [OF assms(1), of a b] list_at_ltrim [OF assms(1), of a b]
      list_at_lrem [OF assms(1,3), of v] index
    by (simp only: slice pop rem abs_index_def length_append simp_thms)
qed

theorem list_operations_witness:
  "let s = fst (store_rpush (store_new 1) 0 ''q'' [''a'', ''b'', ''a'']) in
   store_lrange 0 s 0 ''q'' (-2) 5 = Inr [''b'', ''a''] \<and> snd (store_rpop_one 0 s 0 ''q'') = Inr (Some ''a'') \<and>
   store_lindex 0 s 0 ''q'' (-2) = Inr (Some ''b'') \<and> snd (store_lrem 0 s 0 ''q'' (-2) ''a'') = Inr 2"
proof -
  let ?s = "fst (store_rpush (store_new 1) 0 ''q'' [''a'', ''b'', ''a''])"
  have "list_at 0 0 ''q'' ?s = Some [''a'', ''b'', ''a'']"
    using list_at_rpush(1) [of 0 0 "''q''" "store_new 1" "[]" "[''a'', ''b'', ''a'']"]
    by (simp add: list_at_def valid_db_def raw_def store_new_def)
  from list_operations [OF this, of "-2" 5 "[]" "''a''"] show ?thesis
    by (simp add: in_i64_def i64_min_def i64_max_def elements_between_def abs_index_def upt_rec Let_def)
qed

text \<open>
  LRANGE returns, in order, the elements whose offset lies between the two indices, where a
  negative index counts from the end.  A start before the list is the first element.  So is a
  stop before the list, where the protocol of Redis asks for an empty reply.
\<close>

theorem lrange_exact:
  assumes "list_at now i k s = Some l" and "small l" and "in_i64 start" and "in_i64 stop"
  shows "store_lrange now s i k start stop =
    Inr (map (nth l) (filter (\<lambda>j. abs_index (int (length l)) start \<le> int j \<and>
                                int j \<le> max (abs_index (int (length l)) stop) 0) [0..<length l]))"
  using list_at_lrange [OF assms(1)] slice_eq [OF assms(2-4)] by simp

theorem lrange_exact_witness:
  "store_lrange 0 (fst (store_rpush (store_new 1) 0 ''q'' [''a'', ''b''])) 0 ''q'' 0 (-5) = Inr [''a'']"
proof -
  have at: "list_at 0 0 ''q'' (fst (store_rpush (store_new 1) 0 ''q'' [''a'', ''b''])) = Some [''a'', ''b'']"
    using list_at_rpush(1) [of 0 0 "''q''" "store_new 1" "[]" "[''a'', ''b'']"]
    by (simp add: list_at_def valid_db_def raw_def store_new_def)
  from lrange_exact [OF at, of 0 "-5"] show ?thesis
    by (simp add: in_i64_def i64_min_def i64_max_def abs_index_def upt_rec)
qed

text \<open>
  LREM removes the first \<open>count\<close> occurrences of the value from the front, the last \<open>-count\<close>
  from the back for a negative count and all of them for 0, keeps the other elements in order,
  and returns how many it removed; this holds for every 64-bit count, the smallest included.
\<close>

theorem lrem_exact:
  assumes "list_at now i k s = Some l" and "in_i64 count"
  shows "list_at now i k (fst (store_lrem now s i k count v)) =
           Some (if count = 0 then filter (\<lambda>x. x \<noteq> v) l
                 else if 0 < count then remove_first (nat count) v l
                 else rev (remove_first (nat (- count)) v (rev l))) \<and>
         snd (store_lrem now s i k count v) =
           Inr (if count = 0 then count_list l v else min (nat (abs count)) (count_list l v))"
  using list_at_lrem [OF assms, of v] lrem_list_eq [OF assms(2), of v l] by (auto simp: abs_if)

theorem lrem_exact_witness:
  "snd (store_lrem 0 (fst (store_rpush (store_new 1) 0 ''q'' [''a'', ''b'', ''a''])) 0 ''q'' (- (2 ^ 63)) ''a'')
     = Inr 2"
proof -
  have at: "list_at 0 0 ''q'' (fst (store_rpush (store_new 1) 0 ''q'' [''a'', ''b'', ''a''])) = Some [''a'', ''b'', ''a'']"
    using list_at_rpush(1) [of 0 0 "''q''" "store_new 1" "[]" "[''a'', ''b'', ''a'']"]
    by (simp add: list_at_def valid_db_def raw_def store_new_def)
  from lrem_exact [OF at, of "- (2 ^ 63)" "''a''"] show ?thesis
    by (simp add: in_i64_def i64_min_def i64_max_def)
qed

text \<open>
  A push onto a list that has expired but has not been reaped is lost.  RPUSH finds the old
  entry without looking at its expiry time, appends to it and reports a length that counts the
  elements that have expired; for every read the key stays absent.
\<close>

theorem rpush_on_expired_lost:
  assumes "raw s i k = Some e" and "expired now e" and "ent_value e = ListV l"
  shows "snd (store_rpush s i k vs) = Inr (length l + length vs) \<and>
         store_llen now (fst (store_rpush s i k vs)) i k = Inr 0 \<and>
         store_lrange now (fst (store_rpush s i k vs)) i k a b = Inr [] \<and>
         store_exists now (fst (store_rpush s i k vs)) i k = Inr False"
  using assms raw_valid [OF assms(1)]
  by (simp add: store_rpush_def db_valid entry_or_insert_raw Let_def foldl_snoc store_llen_def
      store_lrange_def store_exists_def entry_live live_def lookup_simps expired_def)

theorem rpush_on_expired_lost_witness:
  "let s = fst (set_expire (fst (store_rpush (store_new 1) 0 ''q'' [''old''])) 0 ''q'' 5) in
     snd (store_rpush s 0 ''q'' [''new'']) = Inr 2 \<and>
     store_llen 9 (fst (store_rpush s 0 ''q'' [''new''])) 0 ''q'' = Inr 0"
proof -
  let ?s = "fst (set_expire (fst (store_rpush (store_new 1) 0 ''q'' [''old''])) 0 ''q'' 5)"
  have "raw ?s 0 ''q'' = Some \<lparr>ent_value = ListV [''old''], ent_expire_at = Some 5, ent_version = 0\<rparr>"
    by (simp add: raw_def set_expire_def store_rpush_def db_def store_new_def put_entry_def set_db_def
        entry_or_insert_def new_entry_def Let_def)
  from rpush_on_expired_lost [OF this, of 9 "[''old'']" "[''new'']"] show ?thesis
    by (simp add: expired_def)
qed

end
