(* ===== verification/StoreSet.thy ===== *)
theory StoreSet
  imports Store
begin

text \<open>
  The set operations of \<open>store/memory.rs\<close>.  \<open>set_at\<close> is the mathematical set a client sees under a
  key; SADD, SREM and SPOP refine the operations on it, SINTER, SUNION and SDIFF compute the
  operations of set algebra.  The loop of SRANDMEMBER with a positive count may not end, so it is
  a partial function; when it returns is characterised below.
\<close>

section \<open>Operations\<close>

fun sadd_loop :: "bytes list \<Rightarrow> bytes hset \<Rightarrow> nat \<Rightarrow> bytes hset \<times> nat" where
  "sadd_loop [] st added = (st, added)"
| "sadd_loop (m # ms) st added =
     (if hs_contains st m then sadd_loop ms st added
      else sadd_loop ms (hs_insert m st) (added + 1))"

definition store_sadd :: "store \<Rightarrow> nat \<Rightarrow> bytes \<Rightarrow> bytes list \<Rightarrow> store \<times> nat res" where
  "store_sadd s db_idx key members =
     (case db s db_idx of
        Inl err \<Rightarrow> (s, Inl err)
      | Inr d \<Rightarrow>
          (let e = entry_or_insert d key (SetV [])
           in case ent_value e of
                SetV st \<Rightarrow>
                  (let (st', added) = sadd_loop members st 0
                   in (put_entry s db_idx key (e\<lparr>ent_value := SetV st'\<rparr>), Inr added))
              | _ \<Rightarrow> (put_entry s db_idx key e, Inl WrongType)))"

fun srem_loop :: "bytes list \<Rightarrow> bytes hset \<Rightarrow> nat \<Rightarrow> bytes hset \<times> nat" where
  "srem_loop [] st removed = (st, removed)"
| "srem_loop (m # ms) st removed =
     (if hs_contains st m then srem_loop ms (hs_remove m st) (removed + 1)
      else srem_loop ms st removed)"

definition store_srem :: "u64 \<Rightarrow> store \<Rightarrow> nat \<Rightarrow> bytes \<Rightarrow> bytes list \<Rightarrow> store \<times> nat res" where
  "store_srem now s db_idx key members =
     (case entry_mut now s db_idx key of
        Inl err \<Rightarrow> (s, Inl err)
      | Inr None \<Rightarrow> (s, Inr 0)
      | Inr (Some e) \<Rightarrow>
          (case ent_value e of
             SetV st \<Rightarrow>
               (let (st', removed) = srem_loop members st 0
                in (put_entry s db_idx key (e\<lparr>ent_value := SetV st'\<rparr>), Inr removed))
           | _ \<Rightarrow> (s, Inl WrongType)))"

definition store_smembers :: "u64 \<Rightarrow> store \<Rightarrow> nat \<Rightarrow> bytes \<Rightarrow> bytes list res" where
  "store_smembers now s db_idx key =
     (case entry_ref now s db_idx key of
        Inl err \<Rightarrow> Inl err
      | Inr None \<Rightarrow> Inr []
      | Inr (Some e) \<Rightarrow> (case ent_value e of SetV st \<Rightarrow> Inr st | _ \<Rightarrow> Inl WrongType))"

definition store_sismember :: "u64 \<Rightarrow> store \<Rightarrow> nat \<Rightarrow> bytes \<Rightarrow> bytes \<Rightarrow> bool res" where
  "store_sismember now s db_idx key member =
     (case entry_ref now s db_idx key of
        Inl err \<Rightarrow> Inl err
      | Inr None \<Rightarrow> Inr False
      | Inr (Some e) \<Rightarrow>
          (case ent_value e of SetV st \<Rightarrow> Inr (hs_contains st member) | _ \<Rightarrow> Inl WrongType))"

definition store_scard :: "u64 \<Rightarrow> store \<Rightarrow> nat \<Rightarrow> bytes \<Rightarrow> nat res" where
  "store_scard now s db_idx key =
     (case entry_ref now s db_idx key of
        Inl err \<Rightarrow> Inl err
      | Inr None \<Rightarrow> Inr 0
      | Inr (Some e) \<Rightarrow> (case ent_value e of SetV st \<Rightarrow> Inr (length st) | _ \<Rightarrow> Inl WrongType))"

definition get_set :: "u64 \<Rightarrow> store \<Rightarrow> nat \<Rightarrow> bytes \<Rightarrow> bytes hset option res" where
  "get_set now s db_idx key =
     (case entry_ref now s db_idx key of
        Inl err \<Rightarrow> Inl err
      | Inr None \<Rightarrow> Inr None
      | Inr (Some e) \<Rightarrow> (case ent_value e of SetV st \<Rightarrow> Inr (Some st) | _ \<Rightarrow> Inl WrongType))"

fun sinter_loop :: "u64 \<Rightarrow> store \<Rightarrow> nat \<Rightarrow> bytes list \<Rightarrow> bytes hset \<Rightarrow> bytes list res" where
  "sinter_loop now s db_idx [] result = Inr result"
| "sinter_loop now s db_idx (key # keys) result =
     (case get_set now s db_idx key of
        Inl err \<Rightarrow> Inl err
      | Inr None \<Rightarrow> Inr []
      | Inr (Some st) \<Rightarrow>
          sinter_loop now s db_idx keys (filter (\<lambda>v. hs_contains st v) result))"

definition store_sinter :: "u64 \<Rightarrow> store \<Rightarrow> nat \<Rightarrow> bytes list \<Rightarrow> bytes list res" where
  "store_sinter now s db_idx keys =
     (case keys of
        [] \<Rightarrow> Inr []
      | key # rest \<Rightarrow>
          (case get_set now s db_idx key of
             Inl err \<Rightarrow> Inl err
           | Inr None \<Rightarrow> Inr []
           | Inr (Some first) \<Rightarrow> sinter_loop now s db_idx rest first))"

fun sunion_loop :: "u64 \<Rightarrow> store \<Rightarrow> nat \<Rightarrow> bytes list \<Rightarrow> bytes hset \<Rightarrow> bytes list res" where
  "sunion_loop now s db_idx [] result = Inr result"
| "sunion_loop now s db_idx (key # keys) result =
     (case get_set now s db_idx key of
        Inl err \<Rightarrow> Inl err
      | Inr None \<Rightarrow> sunion_loop now s db_idx keys result
      | Inr (Some st) \<Rightarrow>
          sunion_loop now s db_idx keys (foldl (\<lambda>r v. hs_insert v r) result st))"

definition store_sunion :: "u64 \<Rightarrow> store \<Rightarrow> nat \<Rightarrow> bytes list \<Rightarrow> bytes list res" where
  "store_sunion now s db_idx keys = sunion_loop now s db_idx keys []"

fun sdiff_loop :: "u64 \<Rightarrow> store \<Rightarrow> nat \<Rightarrow> bytes list \<Rightarrow> bytes hset \<Rightarrow> bytes list res" where
  "sdiff_loop now s db_idx [] result = Inr result"
| "sdiff_loop now s db_idx (key # keys) result =
     (case get_set now s db_idx key of
        Inl err \<Rightarrow> Inl err
      | Inr None \<Rightarrow> sdiff_loop now s db_idx keys result
      | Inr (Some st) \<Rightarrow>
          sdiff_loop now s db_idx keys (filter (\<lambda>v. \<not> hs_contains st v) result))"

definition store_sdiff :: "u64 \<Rightarrow> store \<Rightarrow> nat \<Rightarrow> bytes list \<Rightarrow> bytes list res" where
  "store_sdiff now s db_idx keys =
     (case keys of
        [] \<Rightarrow> Inr []
      | key # rest \<Rightarrow>
          (case get_set now s db_idx key of
             Inl err \<Rightarrow> Inl err
           | Inr None \<Rightarrow> sdiff_loop now s db_idx rest []
           | Inr (Some st) \<Rightarrow> sdiff_loop now s db_idx rest st))"

text \<open>\<open>while result.len() < n\<close>: an index that was used already is drawn again for ever.\<close>

partial_function (option) srandmember_loop ::
  "nat \<Rightarrow> bytes list \<Rightarrow> nat \<Rightarrow> nat hset \<Rightarrow> bytes list \<Rightarrow> bytes list option" where
  "srandmember_loop nano members n used result =
     (if length result < n then
        (let idx = (nano + length result * 31) mod length members
         in if hs_contains used idx
            then srandmember_loop nano members n used result
            else srandmember_loop nano members n (hs_insert idx used) (result @ [members ! idx]))
      else Some result)"

text \<open>\<open>None\<close> where the operation does not return.\<close>

definition store_srandmember ::
  "u64 \<Rightarrow> nat \<Rightarrow> store \<Rightarrow> nat \<Rightarrow> bytes \<Rightarrow> int option \<Rightarrow> bytes list res option" where
  "store_srandmember now nano s db_idx key cnt =
     (case entry_ref now s db_idx key of
        Inl err \<Rightarrow> Some (Inl err)
      | Inr None \<Rightarrow> Some (Inr [])
      | Inr (Some e) \<Rightarrow>
          (case ent_value e of
             SetV members \<Rightarrow>
               (if members = [] then Some (Inr [])
                else case cnt of
                  None \<Rightarrow> Some (Inr [members ! (nano mod length members)])
                | Some n \<Rightarrow>
                    (if n = 1 then Some (Inr [members ! (nano mod length members)])
                     else if 0 \<le> n then
                       map_option Inr
                         (srandmember_loop nano members (min (i64_as_usize n) (length members)) [] [])
                     else Some (Inr (map (\<lambda>i. members ! ((nano + i * 31) mod length members))
                                         [0..<i64_as_usize (wrap_i64 (- n))]))))
           | _ \<Rightarrow> Some (Inl WrongType)))"

text \<open>
  SPOP takes members in the order in which the hash set is iterated.  The code seeds the hash of each set at random, so this order, the order of the list here, is one of
  the possible ones; a property that holds for every list does not depend on it.
\<close>

definition store_spop :: "u64 \<Rightarrow> store \<Rightarrow> nat \<Rightarrow> bytes \<Rightarrow> nat option \<Rightarrow> store \<times> bytes list res" where
  "store_spop now s db_idx key cnt =
     (case entry_mut now s db_idx key of
        Inl err \<Rightarrow> (s, Inl err)
      | Inr None \<Rightarrow> (s, Inr [])
      | Inr (Some e) \<Rightarrow>
          (case ent_value e of
             SetV st \<Rightarrow>
               (let n = min (case cnt of None \<Rightarrow> 1 | Some c \<Rightarrow> c) (length st);
                    members = take n st;
                    st' = foldl (\<lambda>r m. hs_remove m r) st members
                in (put_entry s db_idx key (e\<lparr>ent_value := SetV st'\<rparr>), Inr members))
           | _ \<Rightarrow> (s, Inl WrongType)))"

section \<open>The loops\<close>

lemma sadd_loop_insert_each: "sadd_loop ms st n = hs.insert_each ms st n"
  by (induction ms st n rule: sadd_loop.induct) (auto simp: hs_insert_present)

lemma srem_loop_remove_each: "srem_loop ms st n = hs.remove_each ms st n"
  by (induction ms st n rule: srem_loop.induct) (auto simp: hs_remove_absent)

lemma sadd_loop_spec:
  "distinct st \<Longrightarrow> sadd_loop ms st n = (st', added) \<Longrightarrow>
     distinct st' \<and> set st' = set st \<union> set ms \<and> added = n + card (set ms - set st)"
  using hs_insert_each_spec [of st ms n] by (simp add: sadd_loop_insert_each)

lemma srem_loop_spec:
  "distinct st \<Longrightarrow> srem_loop ms st n = (st', removed) \<Longrightarrow>
     distinct st' \<and> set st' = set st - set ms \<and> removed = n + card (set ms \<inter> set st)"
  using hs_remove_each_spec [of st ms n] by (simp add: srem_loop_remove_each)

lemma foldl_hs_remove:
  "distinct st \<Longrightarrow>
     distinct (foldl (\<lambda>r m. hs_remove m r) st ms) \<and>
     set (foldl (\<lambda>r m. hs_remove m r) st ms) = set st - set ms"
  by (induction ms arbitrary: st) (auto simp: hs_remove_def)

lemma foldl_hs_insert:
  "distinct st \<Longrightarrow>
     distinct (foldl (\<lambda>r m. hs_insert m r) st ms) \<and>
     set (foldl (\<lambda>r m. hs_insert m r) st ms) = set st \<union> set ms"
  by (induction ms arbitrary: st) (auto simp: hs_insert_def)

section \<open>Frame\<close>

lemma sadd_loop_distinct: "sadd_loop ms st n = (st', r) \<Longrightarrow> distinct st \<Longrightarrow> distinct st'"
  by (blast dest: sadd_loop_spec)

lemma srem_loop_distinct: "srem_loop ms st n = (st', r) \<Longrightarrow> distinct st \<Longrightarrow> distinct st'"
  by (blast dest: srem_loop_spec)

lemma live_set_distinct:
  "ent_value e = SetV st \<Longrightarrow> live now s i k = Some e \<Longrightarrow> store_wf s \<Longrightarrow> distinct st"
  by (drule (1) value_wf_live [rotated]) simp

lemma or_insert_set_distinct:
  "ent_value (entry_or_insert (databases s ! i) k (SetV [])) = SetV st \<Longrightarrow>
     valid_db s i \<Longrightarrow> store_wf s \<Longrightarrow> distinct st"
  using value_wf_or_insert [of s i "SetV []" k] by simp

interpretation sadd: keyed_update "\<lambda>s i k. fst (store_sadd s i k members)" for members
  by unfold_locales
     (auto simp: store_sadd_def Let_def db_def lookup_simps valid_db_def [symmetric]
       intro!: store_wf_put value_wf_or_insert elim!: sadd_loop_distinct or_insert_set_distinct
       split: sum.splits storage_value.splits prod.splits)

interpretation srem: keyed_update "\<lambda>s i k. fst (store_srem now s i k members)" for now members
  by unfold_locales
     (auto simp: store_srem_def lookup_simps dest!: entry_mut_SomeD
       intro!: store_wf_put elim!: srem_loop_distinct live_set_distinct
       split: sum.splits storage_value.splits option.splits prod.splits)

interpretation spop: keyed_update "\<lambda>s i k. fst (store_spop now s i k cnt)" for now cnt
  by unfold_locales
     (auto simp: store_spop_def lookup_simps Let_def dest!: entry_mut_SomeD
       intro!: store_wf_put foldl_hs_remove [THEN conjunct1] elim!: live_set_distinct
       split: sum.splits storage_value.splits option.splits prod.splits)

section \<open>The set under a key\<close>

definition set_at :: "u64 \<Rightarrow> store \<Rightarrow> nat \<Rightarrow> bytes \<Rightarrow> bytes set option" where
  "set_at now s i k =
     (if \<not> valid_db s i then None
      else case raw s i k of
             None \<Rightarrow> Some {}
           | Some e \<Rightarrow> if expired now e then None
                       else case ent_value e of SetV st \<Rightarrow> Some (set st) | _ \<Rightarrow> None)"

lemma set_at_Some_cases:
  assumes "set_at now s i k = Some S"
  obtains (absent) "valid_db s i" "live now s i k = None" "raw s i k = None" "S = {}"
  | (there) e st where "valid_db s i" "live now s i k = Some e" "ent_value e = SetV st" "S = set st"
      "raw s i k = Some e" "\<not> expired now e"
  using assms by (auto simp: set_at_def live_def split: option.splits if_splits storage_value.splits)

lemma set_at_put:
  "valid_db s i \<Longrightarrow> \<not> expired now e \<Longrightarrow>
     set_at now (put_entry s i k (e\<lparr>ent_value := SetV st\<rparr>)) i k = Some (set st)"
  by (simp add: set_at_def lookup_simps expired_def)

lemma set_at_sadd:
  assumes wf: "store_wf s" and "set_at now s i k = Some S"
  shows "set_at now (fst (store_sadd s i k ms)) i k = Some (S \<union> set ms) \<and>
         snd (store_sadd s i k ms) = Inr (card (set ms - S))"
  using assms(2)
proof (cases rule: set_at_Some_cases)
  case absent
  obtain st' r where l: "sadd_loop ms [] 0 = (st', r)" by fastforce
  with sadd_loop_spec [OF _ l] absent show ?thesis
    by (simp add: store_sadd_def db_valid entry_or_insert_raw new_entry_def Let_def set_at_def
        lookup_simps expired_def)
next
  case (there e st)
  then have d: "distinct st" using wf live_set_distinct by blast
  obtain st' r where l: "sadd_loop ms st 0 = (st', r)" by fastforce
  with sadd_loop_spec [OF d l] there show ?thesis
    by (simp add: store_sadd_def db_valid entry_or_insert_raw Let_def set_at_put)
qed

lemma set_at_srem:
  assumes wf: "store_wf s" and "set_at now s i k = Some S"
  shows "set_at now (fst (store_srem now s i k ms)) i k = Some (S - set ms) \<and>
         snd (store_srem now s i k ms) = Inr (card (set ms \<inter> S))"
  using assms(2)
proof (cases rule: set_at_Some_cases)
  case absent
  with assms(2) show ?thesis by (simp add: store_srem_def entry_mut_live)
next
  case (there e st)
  then have d: "distinct st" using wf live_set_distinct by blast
  obtain st' r where l: "srem_loop ms st 0 = (st', r)" by fastforce
  with srem_loop_spec [OF d l] there show ?thesis
    by (simp add: store_srem_def entry_mut_live set_at_put)
qed

lemma set_at_spop:
  assumes wf: "store_wf s" and "set_at now s i k = Some S"
  shows "\<exists>popped. snd (store_spop now s i k cnt) = Inr popped \<and> distinct popped \<and> set popped \<subseteq> S \<and>
         length popped = min (case cnt of None \<Rightarrow> 1 | Some c \<Rightarrow> c) (card S) \<and>
         set_at now (fst (store_spop now s i k cnt)) i k = Some (S - set popped)"
  using assms(2)
proof (cases rule: set_at_Some_cases)
  case absent
  with assms(2) show ?thesis by (simp add: store_spop_def entry_mut_live)
next
  case (there e st)
  then have d: "distinct st" using wf live_set_distinct by blast
  from there d foldl_hs_remove [OF d] set_take_subset [of _ st] show ?thesis
    by (auto simp: store_spop_def entry_mut_live Let_def set_at_put distinct_card)
qed

lemma get_set_at:
  "set_at now s i k = Some S \<Longrightarrow> store_wf s \<Longrightarrow>
     (\<exists>st. get_set now s i k = Inr (Some st) \<and> distinct st \<and> set st = S) \<or>
     get_set now s i k = Inr None \<and> S = {}"
  by (erule set_at_Some_cases) (auto simp: get_set_def entry_live intro: live_set_distinct)

section \<open>Set algebra\<close>

lemma sinter_loop_spec:
  assumes wf: "store_wf s" and at: "\<forall>k\<in>set keys. set_at now s i k = Some (S k)" and "distinct result"
  shows "\<exists>out. sinter_loop now s i keys result = Inr out \<and> distinct out \<and>
           set out = set result \<inter> (\<Inter>k\<in>set keys. S k)"
  using at assms(3)
proof (induction keys arbitrary: result)
  case Nil
  then show ?case by simp
next
  case (Cons k keys)
  from get_set_at [OF _ wf, of now i k "S k"] Cons.prems(1)
  consider (some) st where "get_set now s i k = Inr (Some st)" "set st = S k"
    | (none) "get_set now s i k = Inr None" "S k = {}" by auto
  then show ?case
  proof cases
    case some
    with Cons.IH [of "filter (\<lambda>v. v \<in> set st) result"] Cons.prems show ?thesis by auto
  next
    case none
    then show ?thesis by simp
  qed
qed

lemma sunion_loop_spec:
  assumes wf: "store_wf s" and at: "\<forall>k\<in>set keys. set_at now s i k = Some (S k)" and "distinct result"
  shows "\<exists>out. sunion_loop now s i keys result = Inr out \<and> distinct out \<and>
           set out = set result \<union> (\<Union>k\<in>set keys. S k)"
  using at assms(3)
proof (induction keys arbitrary: result)
  case Nil
  then show ?case by simp
next
  case (Cons k keys)
  from get_set_at [OF _ wf, of now i k "S k"] Cons.prems(1)
  consider (some) st where "get_set now s i k = Inr (Some st)" "set st = S k"
    | (none) "get_set now s i k = Inr None" "S k = {}" by auto
  then show ?case
  proof cases
    case some
    with Cons.IH [of "foldl (\<lambda>r v. hs_insert v r) result st"] Cons.prems
      foldl_hs_insert [OF Cons.prems(2), of st] show ?thesis by auto
  next
    case none
    with Cons show ?thesis by simp
  qed
qed

lemma sdiff_loop_spec:
  assumes wf: "store_wf s" and at: "\<forall>k\<in>set keys. set_at now s i k = Some (S k)" and "distinct result"
  shows "\<exists>out. sdiff_loop now s i keys result = Inr out \<and> distinct out \<and>
           set out = set result - (\<Union>k\<in>set keys. S k)"
  using at assms(3)
proof (induction keys arbitrary: result)
  case Nil
  then show ?case by simp
next
  case (Cons k keys)
  from get_set_at [OF _ wf, of now i k "S k"] Cons.prems(1)
  consider (some) st where "get_set now s i k = Inr (Some st)" "set st = S k"
    | (none) "get_set now s i k = Inr None" "S k = {}" by auto
  then show ?case
  proof cases
    case some
    with Cons.IH [of "filter (\<lambda>v. v \<notin> set st) result"] Cons.prems show ?thesis by auto
  next
    case none
    with Cons show ?thesis by simp
  qed
qed

section \<open>SRANDMEMBER\<close>

text \<open>The index drawn when \<open>j\<close> members have been chosen.\<close>

definition draw :: "nat \<Rightarrow> nat \<Rightarrow> nat \<Rightarrow> nat" where
  "draw nano m j = (nano + j * 31) mod m"

lemma coprime_31:
  assumes "\<not> 31 dvd (m::nat)"
  shows "coprime m 31"
proof -
  have all: "\<forall>d\<in>set [0..<32]. d dvd (31::nat) \<longrightarrow> d = 1 \<or> d = 31" by code_simp
  have "gcd m 31 \<le> 31" by (rule dvd_imp_le) simp_all
  then have "gcd m 31 \<in> set [0..<32]" unfolding set_upt atLeastLessThan_iff by linarith
  with all have "gcd m 31 = 1 \<or> gcd m 31 = 31" by (metis gcd_dvd2)
  then show ?thesis using assms by (metis coprime_iff_gcd_eq_1 gcd_dvd1)
qed

text \<open>While the draws are new the loop goes on: it reaches the state in which \<open>p\<close> are chosen.\<close>

lemma srandmember_loop_prefix:
  assumes "\<And>j. length result \<le> j \<Longrightarrow> j < p \<Longrightarrow> draw nano (length members) j \<notin> set used"
    and "inj_on (draw nano (length members)) {length result..<p}"
    and "length result \<le> p" and "p \<le> n"
  shows "\<exists>used'. set used' = set used \<union> draw nano (length members) ` {length result..<p} \<and>
     srandmember_loop nano members n used result =
     srandmember_loop nano members n used'
       (result @ map (\<lambda>j. members ! draw nano (length members) j) [length result..<p])"
  using assms
proof (induction "p - length result" arbitrary: used result)
  case 0
  then show ?case by (intro exI [of _ used]) auto
next
  case (Suc d)
  let ?m = "length members" and ?i = "length result"
  let ?r = "result @ [members ! draw nano ?m ?i]" and ?u = "hs_insert (draw nano ?m ?i) used"
  have lt: "?i < p" using Suc.hyps(2) by simp
  have later: "draw nano ?m j \<noteq> draw nano ?m ?i" if "Suc ?i \<le> j" "j < p" for j
    using inj_onD [OF Suc.prems(2), of j ?i] that lt by auto
  have step: "srandmember_loop nano members n used result = srandmember_loop nano members n ?u ?r"
    using lt Suc.prems(1) [of ?i] Suc.prems(4)
    by (subst srandmember_loop.simps) (simp add: draw_def Let_def)
  have inj: "inj_on (draw nano ?m) {length ?r..<p}" by (rule inj_on_subset [OF Suc.prems(2)]) auto
  have split: "{?i..<p} = insert ?i {length ?r..<p}" "[?i..<p] = ?i # [length ?r..<p]"
    using lt by (auto simp: upt_conv_Cons)
  have "\<exists>used'. set used' = set ?u \<union> draw nano ?m ` {length ?r..<p} \<and>
     srandmember_loop nano members n ?u ?r =
     srandmember_loop nano members n used' (?r @ map (\<lambda>j. members ! draw nano ?m j) [length ?r..<p])"
    by (rule Suc.hyps(1) [OF _ _ inj])
       (use Suc.hyps(2) Suc.prems later lt in \<open>auto simp: hs_insert_def\<close>)
  moreover have "set ?u \<union> X = set used \<union> insert (draw nano ?m ?i) X" for X
    by (auto simp: hs_insert_def)
  ultimately show ?case unfolding split step by simp
qed

lemma srandmember_loop_runs:
  assumes "inj_on (draw nano (length members)) {0..<n}"
  shows "srandmember_loop nano members n [] [] =
     Some (map (\<lambda>j. members ! draw nano (length members) j) [0..<n])"
proof -
  obtain used' where "srandmember_loop nano members n [] [] = srandmember_loop nano members n used'
      (map (\<lambda>j. members ! draw nano (length members) j) [0..<n])"
    using srandmember_loop_prefix [of "[]" n nano members "[]" n] assms by auto
  then show ?thesis by (subst (asm) (2) srandmember_loop.simps) simp
qed

text \<open>A draw that repeats is drawn again for ever: the loop does not return.\<close>

lemma srandmember_loop_stuck:
  assumes "length result < n" "draw nano (length members) (length result) \<in> set used"
  shows "srandmember_loop nano members n used result = None"
proof (rule ccontr)
  assume "srandmember_loop nano members n used result \<noteq> None"
  then obtain out where ret: "srandmember_loop nano members n used result = Some out" by blast
  have "\<not> (length result < n \<and> draw nano (length members) (length result) \<in> set used)"
    by (rule srandmember_loop.raw_induct
        [where P = "\<lambda>nano members n used result out.
           \<not> (length result < n \<and> draw nano (length members) (length result) \<in> set used)", OF _ ret])
       (auto simp: draw_def Let_def split: if_splits)
  with assms show False by blast
qed

lemma draw_eq_iff:
  assumes "0 < m" "a \<le> b"
  shows "draw nano m a = draw nano m b \<longleftrightarrow> m dvd (b - a) * 31"
proof -
  have "draw nano m a = draw nano m b \<longleftrightarrow> m dvd (nano + b * 31) - (nano + a * 31)"
    unfolding draw_def using assms by (metis add_le_mono1 mod_eq_dvd_iff_nat mult_le_mono1 add.commute)
  also have "(nano + b * 31) - (nano + a * 31) = (b - a) * 31" by (simp add: diff_mult_distrib)
  finally show ?thesis .
qed

text \<open>The number of draws after which the sequence of indices repeats.\<close>

definition draw_period :: "nat \<Rightarrow> nat" where
  "draw_period m = m div gcd m 31"

lemma draw_period_eq: "draw_period m = (if 31 dvd m then m div 31 else m)"
  using coprime_31 [of m] by (auto simp: draw_period_def gcd_proj2_iff)

lemma draw_eq_period:
  assumes "0 < m" "a \<le> b"
  shows "draw nano m a = draw nano m b \<longleftrightarrow> draw_period m dvd b - a"
proof (cases "31 dvd m")
  case True
  then obtain q where "m = q * 31" by (metis dvdE mult.commute)
  with True show ?thesis unfolding draw_eq_iff [OF assms] draw_period_eq by simp
next
  case False
  then show ?thesis
    using coprime_31 by (simp add: draw_eq_iff [OF assms] draw_period_eq coprime_dvd_mult_left_iff)
qed

lemma draw_inj:
  assumes "0 < m" "n \<le> draw_period m"
  shows "inj_on (draw nano m) {0..<n}"
proof (rule linorder_inj_onI)
  fix a b assume ab: "a < b" "a \<in> {0..<n}" "b \<in> {0..<n}"
  then show "draw nano m a \<noteq> draw nano m b"
    using draw_eq_period [OF assms(1), of a b nano] assms(2) by (auto dest: dvd_imp_le)
qed auto

lemma draw_period_pos: "0 < m \<Longrightarrow> 0 < draw_period m"
  by (auto simp: draw_period_eq dvd_def)

section \<open>Properties\<close>

text \<open>
  C23: SADD, SREM and SPOP are union, difference and removal of a subset on the set a client sees,
  and return how many members they added, removed or the members they popped.
\<close>

theorem set_operations:
  assumes "store_wf s" and "set_at now s i k = Some S"
  shows "set_at now (fst (store_sadd s i k ms)) i k = Some (S \<union> set ms) \<and>
         snd (store_sadd s i k ms) = Inr (card (set ms - S)) \<and>
         set_at now (fst (store_srem now s i k ms)) i k = Some (S - set ms) \<and>
         snd (store_srem now s i k ms) = Inr (card (set ms \<inter> S)) \<and>
         (\<exists>popped. snd (store_spop now s i k cnt) = Inr popped \<and> distinct popped \<and> set popped \<subseteq> S \<and>
            length popped = min (case cnt of None \<Rightarrow> 1 | Some c \<Rightarrow> c) (card S) \<and>
            set_at now (fst (store_spop now s i k cnt)) i k = Some (S - set popped))"
  using set_at_sadd [OF assms, of ms] set_at_srem [OF assms, of ms] set_at_spop [OF assms, of cnt]
  by blast

theorem set_operations_witness:
  "set_at 0 (fst (store_sadd (store_new 1) 0 ''k'' [''a'', ''a''])) 0 ''k'' = Some {''a''} \<and>
   snd (store_sadd (store_new 1) 0 ''k'' [''a'', ''a'']) = Inr 1"
proof -
  have "set_at 0 (store_new 1) 0 ''k'' = Some {}"
    by (simp add: set_at_def valid_db_def raw_def store_new_def)
  from set_operations [OF store_wf_new this, of "[''a'', ''a'']"] show ?thesis by simp
qed

text \<open>
  SINTER, SUNION and SDIFF return the intersection, the union and the difference of the sets
  under the keys, each member once; an absent key is the empty set.
\<close>

theorem set_algebra:
  assumes "store_wf s" and "\<forall>k\<in>set (k0 # ks). set_at now s i k = Some (S k)"
  shows "(\<exists>out. store_sinter now s i (k0 # ks) = Inr out \<and> distinct out \<and>
            set out = (\<Inter>k\<in>set (k0 # ks). S k)) \<and>
         (\<exists>out. store_sunion now s i (k0 # ks) = Inr out \<and> distinct out \<and>
            set out = (\<Union>k\<in>set (k0 # ks). S k)) \<and>
         (\<exists>out. store_sdiff now s i (k0 # ks) = Inr out \<and> distinct out \<and>
            set out = S k0 - (\<Union>k\<in>set ks. S k))"
proof (intro conjI)
  have ks: "\<forall>k\<in>set ks. set_at now s i k = Some (S k)" and k0: "set_at now s i k0 = Some (S k0)"
    using assms(2) by auto
  from get_set_at [OF k0 assms(1)]
  consider (some) st where "get_set now s i k0 = Inr (Some st)" "distinct st" "set st = S k0"
    | (none) "get_set now s i k0 = Inr None" "S k0 = {}" by auto
  note first = this
  show "\<exists>out. store_sinter now s i (k0 # ks) = Inr out \<and> distinct out \<and>
      set out = (\<Inter>k\<in>set (k0 # ks). S k)"
    by (rule first) (use sinter_loop_spec [OF assms(1) ks] in \<open>fastforce simp: store_sinter_def\<close>)+
  show "\<exists>out. store_sunion now s i (k0 # ks) = Inr out \<and> distinct out \<and>
      set out = (\<Union>k\<in>set (k0 # ks). S k)"
    using sunion_loop_spec [OF assms, of "[]"] by (simp add: store_sunion_def)
  show "\<exists>out. store_sdiff now s i (k0 # ks) = Inr out \<and> distinct out \<and>
      set out = S k0 - (\<Union>k\<in>set ks. S k)"
    by (rule first)
       (use sdiff_loop_spec [OF assms(1) ks] sdiff_loop_spec [OF assms(1) ks, of "[]"] in
         \<open>fastforce simp: store_sdiff_def\<close>)+
qed

theorem set_algebra_witness:
  "\<exists>out. store_sunion 0 (fst (store_sadd (store_new 1) 0 ''k'' [''a''])) 0 [''k'', ''k''] = Inr out \<and>
         set out = {''a''}"
proof -
  let ?s = "fst (store_sadd (store_new 1) 0 ''k'' [''a''])"
  have "set_at 0 (store_new 1) 0 ''k'' = Some {}"
    by (simp add: set_at_def valid_db_def raw_def store_new_def)
  from set_at_sadd [OF store_wf_new this, of "[''a'']"]
  have "\<forall>k\<in>set [''k'', ''k'']. set_at 0 ?s 0 k = Some {''a''}" by simp
  from set_algebra [OF sadd.upd_wf [OF store_wf_new] this] show ?thesis by auto
qed

text \<open>
  SRANDMEMBER with a count of at least 2.  The loop returns, with that many different members
  of the set (all of them if there are fewer), whenever that many draws precede the first
  repetition: for a set whose size is not a multiple of 31, whatever the count; for one of
  31 * q members, up to a count of q.
\<close>

theorem srandmember_returns:
  assumes "live now s i k = Some e" and "ent_value e = SetV st" and "store_wf s" and "st \<noteq> []"
    and "31 dvd length st \<longrightarrow> nat n \<le> length st div 31" and "2 \<le> n" and "in_i64 n"
  shows "\<exists>out. store_srandmember now nano s i k (Some n) = Some (Inr out) \<and>
           distinct out \<and> set out \<subseteq> set st \<and> length out = min (nat n) (length st)"
proof -
  have v: "valid_db s i" using live_raw [OF assms(1)] by (rule raw_valid)
  have d: "distinct st" using live_set_distinct assms by blast
  have pos: "0 < length st" using assms(4) by simp
  let ?m = "min (nat n) (length st)"
  let ?out = "map (\<lambda>j. st ! draw nano (length st) j) [0..<?m]"
  have inj: "inj_on (draw nano (length st)) {0..<?m}"
    by (rule draw_inj [OF pos]) (use assms(5) in \<open>auto simp: draw_period_eq\<close>)
  have "store_srandmember now nano s i k (Some n) = Some (Inr ?out)"
    using assms v srandmember_loop_runs [OF inj]
    by (simp add: store_srandmember_def entry_live i64_as_usize_nonneg)
  moreover have lt: "draw nano (length st) j < length st" for j using pos by (simp add: draw_def)
  then have "set ?out \<subseteq> set st" by auto
  moreover have "distinct ?out"
    using inj lt d by (auto simp: distinct_map inj_on_def nth_eq_iff_index_eq)
  ultimately show ?thesis by auto
qed

text \<open>A set of \<open>n\<close> members.\<close>

definition numbered_set :: "nat \<Rightarrow> bytes list" where
  "numbered_set n = map nat_to_string [0..<n]"

lemma length_numbered_set: "length (numbered_set n) = n"
  by (simp add: numbered_set_def)

lemma numbered_set_distinct: "distinct (numbered_set n)"
  by (auto simp: numbered_set_def distinct_map inj_on_def)

definition set_store :: "bytes list \<Rightarrow> store" where
  "set_store st = put_entry (store_new 1) 0 ''k'' (new_entry (SetV st))"

lemma set_store_facts:
  "live now (set_store st) 0 ''k'' = Some (new_entry (SetV st))"
  "distinct st \<Longrightarrow> store_wf (set_store st)"
  unfolding set_store_def
  by (simp add: live_def lookup_simps valid_db_def store_new_def new_entry_def expired_def)
     (rule store_wf_put [OF store_wf_new]; simp add: new_entry_def valid_db_def store_new_def)

theorem srandmember_returns_witness:
  "\<exists>out. store_srandmember 0 123 (set_store [''a'', ''b'', ''c'']) 0 ''k'' (Some 2) = Some (Inr out) \<and>
         distinct out \<and> set out \<subseteq> {''a'', ''b'', ''c''} \<and> length out = 2"
proof -
  have "store_wf (set_store [''a'', ''b'', ''c''])" by (rule set_store_facts) simp
  moreover have "\<not> 31 dvd length [''a'', ''b'', ''c'']" by (auto dest: dvd_imp_le)
  ultimately show ?thesis
    using srandmember_returns [OF set_store_facts(1), of "[''a'', ''b'', ''c'']" "[''a'', ''b'', ''c'']" 2 0 123]
    by (simp add: new_entry_def in_i64_def i64_min_def i64_max_def numeral_2_eq_2)
qed

text \<open>
  For a set of 31 * q members SRANDMEMBER with a count above q (and at least 2) never returns:
  after q members the draws repeat, and an index that was used already is drawn again for ever.
\<close>

theorem srandmember_hangs:
  assumes "live now s i k = Some e" and "ent_value e = SetV st" and "st \<noteq> []"
    and "31 dvd length st" and "int (length st div 31) < n" and "2 \<le> n" and "in_i64 n"
  shows "store_srandmember now nano s i k (Some n) = None"
proof -
  have v: "valid_db s i" using live_raw [OF assms(1)] by (rule raw_valid)
  have pos: "0 < length st" using assms(3) by simp
  let ?m = "min (nat n) (length st)" and ?d = "draw nano (length st)" and ?p = "draw_period (length st)"
  have p: "0 < ?p" "?p < ?m"
    using assms(4,5) pos draw_period_pos [OF pos] by (auto simp: draw_period_eq dvd_def)
  obtain used' where u: "set used' = ?d ` {0..<?p}"
      "srandmember_loop nano st ?m [] [] = srandmember_loop nano st ?m used' (map (\<lambda>j. st ! ?d j) [0..<?p])"
    using srandmember_loop_prefix [of "[]" ?p nano st "[]" ?m] draw_inj [OF pos, of ?p nano] p by auto
  have "?d 0 = ?d ?p" using draw_eq_period [OF pos, of 0 ?p nano] by simp
  then have "?d ?p \<in> set used'" unfolding u(1) using p(1) by (metis atLeastLessThan_iff imageI zero_le)
  then have "srandmember_loop nano st ?m [] [] = None"
    unfolding u(2) using p(2) by (intro srandmember_loop_stuck) simp_all
  then show ?thesis
    using assms v by (simp add: store_srandmember_def entry_live i64_as_usize_nonneg)
qed

theorem srandmember_hangs_witness:
  "store_srandmember 0 5 (set_store (numbered_set 31)) 0 ''k'' (Some 2) = None"
proof (rule srandmember_hangs [OF set_store_facts(1)])
  show "ent_value (new_entry (SetV (numbered_set 31))) = SetV (numbered_set 31)"
    by (simp add: new_entry_def)
  show "numbered_set 31 \<noteq> []" using length_numbered_set [of 31] by fastforce
qed (simp_all add: length_numbered_set in_i64_def i64_min_def i64_max_def)

end
