(* ===== verification/StoreHash.thy ===== *)
theory StoreHash
  imports Store
begin

text \<open>
  The hash operations of \<open>store/memory.rs\<close> (HSET, HGET, HDEL, HEXISTS, HGETALL, HKEYS, HVALS,
  HLEN, HINCRBY) and the nested hashes (the NH commands).  \<open>hash_at\<close> is the finite map a client
  sees under a key, \<open>nested_at\<close> the two-level map of a nested hash.
\<close>

section \<open>Hash operations\<close>

fun hset_loop ::
  "(bytes \<times> bytes) list \<Rightarrow> (bytes, bytes) hmap \<Rightarrow> nat \<Rightarrow> (bytes, bytes) hmap \<times> nat" where
  "hset_loop [] m added = (m, added)"
| "hset_loop ((field, val) # ps) m added =
     hset_loop ps (hm_insert field val m) (if hm_get m field = None then added + 1 else added)"

definition store_hset ::
  "store \<Rightarrow> nat \<Rightarrow> bytes \<Rightarrow> (bytes \<times> bytes) list \<Rightarrow> store \<times> nat res" where
  "store_hset s db_idx key ps =
     (case db s db_idx of
        Inl err \<Rightarrow> (s, Inl err)
      | Inr d \<Rightarrow>
          (let e = entry_or_insert d key (HashV [])
           in case ent_value e of
                HashV m \<Rightarrow>
                  (let (m', added) = hset_loop ps m 0
                   in (put_entry s db_idx key (e\<lparr>ent_value := HashV m'\<rparr>), Inr added))
              | _ \<Rightarrow> (put_entry s db_idx key e, Inl WrongType)))"

definition store_hget :: "u64 \<Rightarrow> store \<Rightarrow> nat \<Rightarrow> bytes \<Rightarrow> bytes \<Rightarrow> bytes option res" where
  "store_hget now s db_idx key field =
     (case entry_ref now s db_idx key of
        Inl err \<Rightarrow> Inl err
      | Inr None \<Rightarrow> Inr None
      | Inr (Some e) \<Rightarrow> (case ent_value e of HashV m \<Rightarrow> Inr (hm_get m field) | _ \<Rightarrow> Inl WrongType))"

fun hdel_loop :: "bytes list \<Rightarrow> (bytes, bytes) hmap \<Rightarrow> nat \<Rightarrow> (bytes, bytes) hmap \<times> nat" where
  "hdel_loop [] m removed = (m, removed)"
| "hdel_loop (f # fs) m removed =
     hdel_loop fs (hm_remove f m) (if hm_get m f = None then removed else removed + 1)"

definition store_hdel :: "u64 \<Rightarrow> store \<Rightarrow> nat \<Rightarrow> bytes \<Rightarrow> bytes list \<Rightarrow> store \<times> nat res" where
  "store_hdel now s db_idx key fs =
     (case entry_mut now s db_idx key of
        Inl err \<Rightarrow> (s, Inl err)
      | Inr None \<Rightarrow> (s, Inr 0)
      | Inr (Some e) \<Rightarrow>
          (case ent_value e of
             HashV m \<Rightarrow>
               (let (m', removed) = hdel_loop fs m 0
                in (put_entry s db_idx key (e\<lparr>ent_value := HashV m'\<rparr>), Inr removed))
           | _ \<Rightarrow> (s, Inl WrongType)))"

definition store_hexists :: "u64 \<Rightarrow> store \<Rightarrow> nat \<Rightarrow> bytes \<Rightarrow> bytes \<Rightarrow> bool res" where
  "store_hexists now s db_idx key field =
     (case entry_ref now s db_idx key of
        Inl err \<Rightarrow> Inl err
      | Inr None \<Rightarrow> Inr False
      | Inr (Some e) \<Rightarrow>
          (case ent_value e of HashV m \<Rightarrow> Inr (hm_get m field \<noteq> None) | _ \<Rightarrow> Inl WrongType))"

definition store_hgetall :: "u64 \<Rightarrow> store \<Rightarrow> nat \<Rightarrow> bytes \<Rightarrow> (bytes \<times> bytes) list res" where
  "store_hgetall now s db_idx key =
     (case entry_ref now s db_idx key of
        Inl err \<Rightarrow> Inl err
      | Inr None \<Rightarrow> Inr []
      | Inr (Some e) \<Rightarrow> (case ent_value e of HashV m \<Rightarrow> Inr m | _ \<Rightarrow> Inl WrongType))"

definition store_hkeys :: "u64 \<Rightarrow> store \<Rightarrow> nat \<Rightarrow> bytes \<Rightarrow> bytes list res" where
  "store_hkeys now s db_idx key =
     (case entry_ref now s db_idx key of
        Inl err \<Rightarrow> Inl err
      | Inr None \<Rightarrow> Inr []
      | Inr (Some e) \<Rightarrow> (case ent_value e of HashV m \<Rightarrow> Inr (map fst m) | _ \<Rightarrow> Inl WrongType))"

definition store_hvals :: "u64 \<Rightarrow> store \<Rightarrow> nat \<Rightarrow> bytes \<Rightarrow> bytes list res" where
  "store_hvals now s db_idx key =
     (case entry_ref now s db_idx key of
        Inl err \<Rightarrow> Inl err
      | Inr None \<Rightarrow> Inr []
      | Inr (Some e) \<Rightarrow> (case ent_value e of HashV m \<Rightarrow> Inr (map snd m) | _ \<Rightarrow> Inl WrongType))"

definition store_hlen :: "u64 \<Rightarrow> store \<Rightarrow> nat \<Rightarrow> bytes \<Rightarrow> nat res" where
  "store_hlen now s db_idx key =
     (case entry_ref now s db_idx key of
        Inl err \<Rightarrow> Inl err
      | Inr None \<Rightarrow> Inr 0
      | Inr (Some e) \<Rightarrow> (case ent_value e of HashV m \<Rightarrow> Inr (length m) | _ \<Rightarrow> Inl WrongType))"

text \<open>A field that is absent or not an integer counts as 0.\<close>

definition field_int :: "bytes option \<Rightarrow> int" where
  "field_int v =
     (case v of
        None \<Rightarrow> 0
      | Some b \<Rightarrow> (case parse_i64 (utf8_lossy b) of None \<Rightarrow> 0 | Some i \<Rightarrow> i))"

definition store_hincrby ::
  "store \<Rightarrow> nat \<Rightarrow> bytes \<Rightarrow> bytes \<Rightarrow> int \<Rightarrow> store \<times> int res" where
  "store_hincrby s db_idx key field increment =
     (case db s db_idx of
        Inl err \<Rightarrow> (s, Inl err)
      | Inr d \<Rightarrow>
          (let e = entry_or_insert d key (HashV [])
           in case ent_value e of
                HashV m \<Rightarrow>
                  (case checked_add_i64 (field_int (hm_get m field)) increment of
                     None \<Rightarrow> (put_entry s db_idx key e, Inl Overflow)
                   | Some new_val \<Rightarrow>
                       (put_entry s db_idx key
                          (e\<lparr>ent_value := HashV (hm_insert field (int_to_string new_val) m)\<rparr>),
                        Inr new_val))
              | _ \<Rightarrow> (put_entry s db_idx key e, Inl WrongType)))"

section \<open>Nested hashes\<close>

definition nh_inner :: "(bytes, (bytes, bytes) hmap) hmap \<Rightarrow> bytes \<Rightarrow> (bytes, bytes) hmap" where
  "nh_inner m field = (case hm_get m field of None \<Rightarrow> [] | Some inner \<Rightarrow> inner)"

definition store_nhset ::
  "store \<Rightarrow> nat \<Rightarrow> bytes \<Rightarrow> bytes \<Rightarrow> bytes \<Rightarrow> bytes \<Rightarrow> store \<times> nat res" where
  "store_nhset s db_idx key field subfield val =
     (case db s db_idx of
        Inl err \<Rightarrow> (s, Inl err)
      | Inr d \<Rightarrow>
          (let e = entry_or_insert d key (NestedHashV [])
           in case ent_value e of
                NestedHashV m \<Rightarrow>
                  (let inner = nh_inner m field;
                       m' = hm_insert field (hm_insert subfield val inner) m
                   in (put_entry s db_idx key (e\<lparr>ent_value := NestedHashV m'\<rparr>),
                       if hm_get inner subfield = None then Inr 1 else Inr 0))
              | _ \<Rightarrow> (put_entry s db_idx key e, Inl WrongType)))"

definition store_nhget ::
  "u64 \<Rightarrow> store \<Rightarrow> nat \<Rightarrow> bytes \<Rightarrow> bytes \<Rightarrow> bytes \<Rightarrow> bytes option res" where
  "store_nhget now s db_idx key field subfield =
     (case entry_ref now s db_idx key of
        Inl err \<Rightarrow> Inl err
      | Inr None \<Rightarrow> Inr None
      | Inr (Some e) \<Rightarrow>
          (case ent_value e of
             NestedHashV m \<Rightarrow>
               Inr (case hm_get m field of None \<Rightarrow> None | Some inner \<Rightarrow> hm_get inner subfield)
           | _ \<Rightarrow> Inl WrongType))"

definition store_nhdel ::
  "u64 \<Rightarrow> store \<Rightarrow> nat \<Rightarrow> bytes \<Rightarrow> bytes \<Rightarrow> bytes option \<Rightarrow> store \<times> nat res" where
  "store_nhdel now s db_idx key field subfield =
     (case entry_mut now s db_idx key of
        Inl err \<Rightarrow> (s, Inl err)
      | Inr None \<Rightarrow> (s, Inr 0)
      | Inr (Some e) \<Rightarrow>
          (case ent_value e of
             NestedHashV m \<Rightarrow>
               (case subfield of
                  Some sf \<Rightarrow>
                    (case hm_get m field of
                       None \<Rightarrow> (s, Inr 0)
                     | Some inner \<Rightarrow>
                         (if hm_get inner sf = None then (s, Inr 0)
                          else (let inner' = hm_remove sf inner;
                                    m' = (if inner' = [] then hm_remove field m
                                          else hm_insert field inner' m)
                                in (put_entry s db_idx key (e\<lparr>ent_value := NestedHashV m'\<rparr>), Inr 1))))
                | None \<Rightarrow>
                    (put_entry s db_idx key (e\<lparr>ent_value := NestedHashV (hm_remove field m)\<rparr>),
                     if hm_get m field \<noteq> None then Inr 1 else Inr 0))
           | _ \<Rightarrow> (s, Inl WrongType)))"

definition store_nhkeys ::
  "u64 \<Rightarrow> store \<Rightarrow> nat \<Rightarrow> bytes \<Rightarrow> bytes option \<Rightarrow> bytes list res" where
  "store_nhkeys now s db_idx key field =
     (case entry_ref now s db_idx key of
        Inl err \<Rightarrow> Inl err
      | Inr None \<Rightarrow> Inr []
      | Inr (Some e) \<Rightarrow>
          (case ent_value e of
             NestedHashV m \<Rightarrow>
               (case field of
                  Some f \<Rightarrow> Inr (map fst (nh_inner m f))
                | None \<Rightarrow> Inr (map fst m))
           | _ \<Rightarrow> Inl WrongType))"

definition store_nhvals ::
  "u64 \<Rightarrow> store \<Rightarrow> nat \<Rightarrow> bytes \<Rightarrow> bytes option \<Rightarrow> bytes list res" where
  "store_nhvals now s db_idx key field =
     (case entry_ref now s db_idx key of
        Inl err \<Rightarrow> Inl err
      | Inr None \<Rightarrow> Inr []
      | Inr (Some e) \<Rightarrow>
          (case ent_value e of
             NestedHashV m \<Rightarrow>
               (case field of
                  Some f \<Rightarrow> Inr (map snd (nh_inner m f))
                | None \<Rightarrow> Inr (concat (map (\<lambda>(f, inner). map snd inner) m)))
           | _ \<Rightarrow> Inl WrongType))"

definition store_nhgetall ::
  "u64 \<Rightarrow> store \<Rightarrow> nat \<Rightarrow> bytes \<Rightarrow> bytes option \<Rightarrow> (bytes \<times> bytes) list res" where
  "store_nhgetall now s db_idx key field =
     (case entry_ref now s db_idx key of
        Inl err \<Rightarrow> Inl err
      | Inr None \<Rightarrow> Inr []
      | Inr (Some e) \<Rightarrow>
          (case ent_value e of
             NestedHashV m \<Rightarrow>
               (case field of
                  Some f \<Rightarrow> Inr (nh_inner m f)
                | None \<Rightarrow>
                    Inr (concat (map (\<lambda>(f, inner).
                      map (\<lambda>(sf, val). (utf8_lossy f @ '':'' @ utf8_lossy sf, val)) inner) m)))
           | _ \<Rightarrow> Inl WrongType))"

section \<open>The loops\<close>

lemma hset_loop_insert_all: "hset_loop ps m n = hm.insert_all ps m n"
  by (induction ps m n rule: hset_loop.induct) auto

lemma hdel_loop_remove_all: "hdel_loop fs m n = hm.remove_all fs m n"
  by (induction fs m n rule: hdel_loop.induct) auto

lemma hset_loop_spec:
  "hm_wf m \<Longrightarrow> hset_loop ps m 0 = (m', added) \<Longrightarrow>
     hm_wf m' \<and> hm_get m' = hm_get m ++ map_of (rev ps) \<and> length m' = length m + added"
  using hm_insert_all_spec [of m ps 0] by (simp add: hset_loop_insert_all)

lemma hdel_loop_spec:
  "hm_wf m \<Longrightarrow> hdel_loop fs m 0 = (m', removed) \<Longrightarrow>
     hm_wf m' \<and> hm_get m' = hm_get m |` (- set fs) \<and> length m = length m' + removed"
  using hm_remove_all_spec [of m fs 0] by (simp add: hdel_loop_remove_all)

lemma hset_loop_wf: "hset_loop ps m 0 = (m', r) \<Longrightarrow> hm_wf m \<Longrightarrow> hm_wf m'"
  by (blast dest: hset_loop_spec)

lemma hdel_loop_wf: "hdel_loop fs m 0 = (m', r) \<Longrightarrow> hm_wf m \<Longrightarrow> hm_wf m'"
  by (blast dest: hdel_loop_spec)

section \<open>Frame\<close>

lemma live_hash_wf:
  "ent_value e = HashV m \<Longrightarrow> live now s i k = Some e \<Longrightarrow> store_wf s \<Longrightarrow> hm_wf m"
  by (drule (1) value_wf_live [rotated]) simp

lemma or_insert_hash_wf:
  "ent_value (entry_or_insert (databases s ! i) k (HashV [])) = HashV m \<Longrightarrow>
     valid_db s i \<Longrightarrow> store_wf s \<Longrightarrow> hm_wf m"
  using value_wf_or_insert [of s i "HashV []" k] by simp

lemma live_nested_wf:
  "ent_value e = NestedHashV m \<Longrightarrow> live now s i k = Some e \<Longrightarrow> store_wf s \<Longrightarrow>
     value_wf (NestedHashV m)"
  by (drule (1) value_wf_live [rotated]) simp

lemma or_insert_nested_wf:
  "ent_value (entry_or_insert (databases s ! i) k (NestedHashV [])) = NestedHashV m \<Longrightarrow>
     valid_db s i \<Longrightarrow> store_wf s \<Longrightarrow> value_wf (NestedHashV m)"
  using value_wf_or_insert [of s i "NestedHashV []" k] by simp

lemma nested_wf_empty: "value_wf (NestedHashV [])"
  by simp

lemma nested_wf_insert:
  assumes "value_wf (NestedHashV m)" "hm_wf inner"
  shows "value_wf (NestedHashV (hm_insert f inner m))"
  using assms set_hm_insert_subset [of f inner m] by fastforce

lemma nested_wf_remove: "value_wf (NestedHashV m) \<Longrightarrow> value_wf (NestedHashV (hm_remove f m))"
  using set_hm_remove_subset [of f m] by auto

lemma nh_inner_wf: "value_wf (NestedHashV m) \<Longrightarrow> hm_wf (nh_inner m f)"
  by (fastforce simp: nh_inner_def split: option.splits dest: map_of_SomeD)

lemma nested_wf_lookup: "value_wf (NestedHashV m) \<Longrightarrow> hm_get m f = Some inner \<Longrightarrow> hm_wf inner"
  by (fastforce dest: map_of_SomeD)

interpretation hset: keyed_update "\<lambda>s i k. fst (store_hset s i k ps)" for ps
  by unfold_locales
     (auto simp: store_hset_def Let_def db_def lookup_simps valid_db_def [symmetric]
       intro!: store_wf_put value_wf_or_insert elim!: hset_loop_wf or_insert_hash_wf
       split: sum.splits storage_value.splits prod.splits)

interpretation hdel: keyed_update "\<lambda>s i k. fst (store_hdel now s i k fs)" for now fs
  by unfold_locales
     (auto simp: store_hdel_def lookup_simps dest!: entry_mut_SomeD
       intro!: store_wf_put elim!: hdel_loop_wf live_hash_wf
       split: sum.splits storage_value.splits option.splits prod.splits)

interpretation hincrby: keyed_update "\<lambda>s i k. fst (store_hincrby s i k field incr)" for field incr
  by unfold_locales
     (auto simp: store_hincrby_def Let_def db_def lookup_simps valid_db_def [symmetric]
       intro!: store_wf_put value_wf_or_insert hm_wf_insert elim!: or_insert_hash_wf
       split: sum.splits storage_value.splits option.splits)

interpretation nhset: keyed_update "\<lambda>s i k. fst (store_nhset s i k f sf v)" for f sf v
  by unfold_locales
     (auto simp del: value_wf.simps simp: store_nhset_def Let_def db_def lookup_simps valid_db_def [symmetric]
       intro!: store_wf_put value_wf_or_insert nested_wf_empty nested_wf_insert hm_wf_insert nh_inner_wf
       elim!: or_insert_nested_wf
       split: sum.splits storage_value.splits)

interpretation nhdel: keyed_update "\<lambda>s i k. fst (store_nhdel now s i k f sf)" for now f sf
  by unfold_locales
     (auto simp del: value_wf.simps simp: store_nhdel_def Let_def lookup_simps dest!: entry_mut_SomeD
       intro!: store_wf_put nested_wf_remove nested_wf_insert hm_wf_remove
       elim!: live_nested_wf nested_wf_lookup [OF live_nested_wf]
       split: sum.splits storage_value.splits option.splits)

section \<open>The map under a key\<close>

definition hash_at :: "u64 \<Rightarrow> store \<Rightarrow> nat \<Rightarrow> bytes \<Rightarrow> (bytes \<rightharpoonup> bytes) option" where
  "hash_at now s i k =
     (if \<not> valid_db s i then None
      else case raw s i k of
             None \<Rightarrow> Some Map.empty
           | Some e \<Rightarrow> if expired now e then None
                       else case ent_value e of HashV m \<Rightarrow> Some (hm_get m) | _ \<Rightarrow> None)"

lemma hash_at_Some_cases:
  assumes "hash_at now s i k = Some h"
  obtains (absent) "valid_db s i" "live now s i k = None" "raw s i k = None" "h = Map.empty"
  | (there) e m where "valid_db s i" "live now s i k = Some e" "ent_value e = HashV m" "h = hm_get m"
      "raw s i k = Some e" "\<not> expired now e"
  using assms by (auto simp: hash_at_def live_def split: option.splits if_splits storage_value.splits)

lemma hash_at_put:
  "valid_db s i \<Longrightarrow> \<not> expired now e \<Longrightarrow>
     hash_at now (put_entry s i k (e\<lparr>ent_value := HashV m\<rparr>)) i k = Some (hm_get m)"
  by (simp add: hash_at_def lookup_simps expired_def)

lemma hash_at_hget: "hash_at now s i k = Some h \<Longrightarrow> store_hget now s i k f = Inr (h f)"
  by (erule hash_at_Some_cases) (auto simp: store_hget_def entry_live)

lemma card_dom_hm: "hm_wf m \<Longrightarrow> card (dom (hm_get m)) = length m"
  using distinct_card [of "map fst m"] by (simp add: dom_map_of_conv_image_fst hm_wf_def)

lemma hash_at_hlen: "hash_at now s i k = Some h \<Longrightarrow> store_wf s \<Longrightarrow>
     store_hlen now s i k = Inr (card (dom h))"
  by (erule hash_at_Some_cases) (auto simp: store_hlen_def entry_live card_dom_hm dest: live_hash_wf)

lemma hash_at_hgetall: "hash_at now s i k = Some h \<Longrightarrow> store_wf s \<Longrightarrow>
     \<exists>m. store_hgetall now s i k = Inr m \<and> hm_wf m \<and> hm_get m = h \<and>
         store_hkeys now s i k = Inr (map fst m) \<and> store_hvals now s i k = Inr (map snd m)"
  by (erule hash_at_Some_cases)
     (auto simp: store_hgetall_def store_hkeys_def store_hvals_def entry_live dest: live_hash_wf)

lemma hash_at_hset:
  assumes wf: "store_wf s" and "hash_at now s i k = Some h"
  shows "\<exists>added. snd (store_hset s i k ps) = Inr added \<and>
         hash_at now (fst (store_hset s i k ps)) i k = Some (h ++ map_of (rev ps)) \<and>
         card (dom (h ++ map_of (rev ps))) = card (dom h) + added"
  using assms(2)
proof (cases rule: hash_at_Some_cases)
  case absent
  obtain m' r where l: "hset_loop ps [] 0 = (m', r)" by fastforce
  with hset_loop_spec [OF _ l] absent card_dom_hm [of m'] show ?thesis
    by (simp add: store_hset_def db_valid entry_or_insert_raw new_entry_def Let_def hash_at_def
        lookup_simps expired_def)
next
  case (there e m)
  then have w: "hm_wf m" using wf live_hash_wf by blast
  obtain m' r where l: "hset_loop ps m 0 = (m', r)" by fastforce
  with hset_loop_spec [OF w l] there card_dom_hm [of m'] card_dom_hm [OF w] show ?thesis
    by (auto simp: store_hset_def db_valid entry_or_insert_raw Let_def hash_at_put)
qed

lemma hash_at_hdel:
  assumes wf: "store_wf s" and "hash_at now s i k = Some h"
  shows "\<exists>removed. snd (store_hdel now s i k fs) = Inr removed \<and>
         hash_at now (fst (store_hdel now s i k fs)) i k = Some (h |` (- set fs)) \<and>
         card (dom h) = card (dom (h |` (- set fs))) + removed"
  using assms(2)
proof (cases rule: hash_at_Some_cases)
  case absent
  with assms(2) show ?thesis by (simp add: store_hdel_def entry_mut_live)
next
  case (there e m)
  then have w: "hm_wf m" using wf live_hash_wf by blast
  obtain m' r where l: "hdel_loop fs m 0 = (m', r)" by fastforce
  have m': "hm_wf m'" "hm_get m' = hm_get m |` (- set fs)" "length m = length m' + r"
    using hdel_loop_spec [OF w l] by simp_all
  with there l card_dom_hm [OF w] card_dom_hm [OF m'(1)] show ?thesis
    by (auto simp: store_hdel_def entry_mut_live Let_def hash_at_put)
qed

lemma hash_at_hincrby:
  assumes "hash_at now s i k = Some h"
  shows "case checked_add_i64 (field_int (h f)) n of
           None \<Rightarrow> snd (store_hincrby s i k f n) = Inl Overflow \<and>
                   hash_at now (fst (store_hincrby s i k f n)) i k = Some h
         | Some v \<Rightarrow> snd (store_hincrby s i k f n) = Inr v \<and>
                   hash_at now (fst (store_hincrby s i k f n)) i k = Some (h(f \<mapsto> int_to_string v))"
  using assms
proof (cases rule: hash_at_Some_cases)
  case absent
  then show ?thesis
    by (auto simp: store_hincrby_def db_valid entry_or_insert_raw new_entry_def Let_def hash_at_def
        lookup_simps expired_def split: option.splits)
next
  case (there e m)
  then have "hash_at now (put_entry s i k e) i k = Some (hm_get m)"
    using hash_at_put [of s i now e k m] by (metis entry.surjective entry.update_convs(1))
  with there show ?thesis
    by (auto simp: store_hincrby_def db_valid entry_or_insert_raw Let_def hash_at_put split: option.splits)
qed

text \<open>The value HINCRBY writes is read back as the integer it returned.\<close>

lemma field_int_written: "in_i64 v \<Longrightarrow> field_int (Some (int_to_string v)) = v"
  by (simp add: field_int_def utf8_lossy_ascii parse_i64_int_to_string)

lemma checked_add_range: "checked_add_i64 a b = Some v \<Longrightarrow> in_i64 v \<and> v = a + b"
  by (auto simp: checked_add_i64_def split: if_splits)

section \<open>The two-level map of a nested hash\<close>

definition nested_at ::
  "u64 \<Rightarrow> store \<Rightarrow> nat \<Rightarrow> bytes \<Rightarrow> (bytes \<Rightarrow> bytes \<Rightarrow> bytes option) option" where
  "nested_at now s i k =
     (if \<not> valid_db s i then None
      else case raw s i k of
             None \<Rightarrow> Some (\<lambda>_ _. None)
           | Some e \<Rightarrow> if expired now e then None
                       else case ent_value e of
                              NestedHashV m \<Rightarrow> Some (\<lambda>f. hm_get (nh_inner m f))
                            | _ \<Rightarrow> None)"

lemma nested_at_Some_cases:
  assumes "nested_at now s i k = Some h"
  obtains (absent) "valid_db s i" "live now s i k = None" "raw s i k = None" "h = (\<lambda>_ _. None)"
  | (there) e m where "valid_db s i" "live now s i k = Some e" "ent_value e = NestedHashV m"
      "h = (\<lambda>f. hm_get (nh_inner m f))" "raw s i k = Some e" "\<not> expired now e"
  using assms by (auto simp: nested_at_def live_def split: option.splits if_splits storage_value.splits)

lemma nested_at_put:
  "valid_db s i \<Longrightarrow> \<not> expired now e \<Longrightarrow>
     nested_at now (put_entry s i k (e\<lparr>ent_value := NestedHashV m\<rparr>)) i k =
       Some (\<lambda>f. hm_get (nh_inner m f))"
  by (simp add: nested_at_def lookup_simps expired_def)

lemma nh_inner_insert: "nh_inner (hm_insert f inner m) g = (if g = f then inner else nh_inner m g)"
  by (simp add: nh_inner_def)

lemma nh_inner_remove: "nh_inner (hm_remove f m) g = (if g = f then [] else nh_inner m g)"
  by (simp add: nh_inner_def)

lemma nested_at_nhget: "nested_at now s i k = Some h \<Longrightarrow> store_nhget now s i k f sf = Inr (h f sf)"
  by (erule nested_at_Some_cases) (auto simp: store_nhget_def entry_live nh_inner_def split: option.splits)

lemma nested_at_nhset:
  assumes "nested_at now s i k = Some h"
  shows "nested_at now (fst (store_nhset s i k f sf v)) i k = Some (h(f := (h f)(sf \<mapsto> v))) \<and>
         snd (store_nhset s i k f sf v) = Inr (if h f sf = None then 1 else 0)"
  using assms
proof (cases rule: nested_at_Some_cases)
  case absent
  then show ?thesis
    by (auto simp: store_nhset_def db_valid entry_or_insert_raw new_entry_def Let_def nested_at_def
        lookup_simps expired_def nh_inner_insert fun_eq_iff) (simp_all add: nh_inner_def)
next
  case (there e m)
  then show ?thesis
    by (auto simp: store_nhset_def db_valid entry_or_insert_raw Let_def nested_at_put
        nh_inner_insert fun_eq_iff)
qed

lemma nested_at_nhdel:
  assumes "nested_at now s i k = Some h"
  shows "nested_at now (fst (store_nhdel now s i k f (Some sf))) i k = Some (h(f := (h f)(sf := None))) \<and>
         snd (store_nhdel now s i k f (Some sf)) = Inr (if h f sf = None then 0 else 1)"
  using assms
proof (cases rule: nested_at_Some_cases)
  case absent
  then show ?thesis using assms
    by (auto simp: store_nhdel_def entry_mut_live fun_eq_iff)
next
  case (there e m)
  note entry_mut_live [OF there(1), of now k, simp]
  show ?thesis
  proof (cases "h f sf")
    case None
    then have "h(f := (h f)(sf := None)) = h" by (auto simp: fun_eq_iff)
    with None there assms show ?thesis
      by (auto simp: store_nhdel_def nh_inner_def split: option.splits)
  next
    case (Some v)
    with there obtain inner where inner: "hm_get m f = Some inner" "hm_get inner sf = Some v"
      by (auto simp: nh_inner_def split: option.splits)
    then have [simp]: "nh_inner m f = inner" by (simp add: nh_inner_def)
    have "hm_get inner x = None" if "hm_remove sf inner = []" "x \<noteq> sf" for x
      using that hm_get_remove [of sf inner] by (metis fun_upd_other map_of.simps(1))
    with Some inner there show ?thesis
      by (auto simp: store_nhdel_def Let_def nested_at_put nh_inner_insert nh_inner_remove fun_eq_iff)
  qed
qed

text \<open>NHDEL of the last subfield removes the field, so that NHKEYS never lists an empty one.\<close>

definition no_empty_inner :: "storage_value \<Rightarrow> bool" where
  "no_empty_inner v = (case v of NestedHashV m \<Rightarrow> \<forall>fi\<in>set m. snd fi \<noteq> [] | _ \<Rightarrow> True)"

lemma hm_insert_not_Nil [simp]: "hm_insert k v m \<noteq> []"
  by (cases m) (auto simp: hm_insert_def)

lemma no_empty_inner_insert:
  "no_empty_inner (NestedHashV m) \<Longrightarrow> inner \<noteq> [] \<Longrightarrow>
     no_empty_inner (NestedHashV (hm_insert f inner m))"
  using set_hm_insert_subset [of f inner m] by (fastforce simp: no_empty_inner_def)

lemma no_empty_inner_remove:
  "no_empty_inner (NestedHashV m) \<Longrightarrow> no_empty_inner (NestedHashV (hm_remove f m))"
  using set_hm_remove_subset [of f m] by (auto simp: no_empty_inner_def)

section \<open>Properties\<close>

text \<open>
  C24: HSET, HGET, HDEL and the readers of a whole hash.  On the map a client sees HSET is the
  update by the pairs in order (the last value of a repeated field wins), HDEL the restriction to
  the other fields; the numbers they return are the growth and the shrinkage of the map, and
  HGET, HEXISTS, HLEN, HGETALL, HKEYS and HVALS read it.
\<close>

theorem hash_operations:
  assumes "store_wf s" and "hash_at now s i k = Some h"
  shows "(\<exists>n. snd (store_hset s i k ps) = Inr n \<and>
            hash_at now (fst (store_hset s i k ps)) i k = Some (h ++ map_of (rev ps)) \<and>
            card (dom (h ++ map_of (rev ps))) = card (dom h) + n) \<and>
         (\<exists>n. snd (store_hdel now s i k fs) = Inr n \<and>
            hash_at now (fst (store_hdel now s i k fs)) i k = Some (h |` (- set fs)) \<and>
            card (dom h) = card (dom (h |` (- set fs))) + n) \<and>
         store_hget now s i k f = Inr (h f) \<and> store_hexists now s i k f = Inr (h f \<noteq> None) \<and>
         store_hlen now s i k = Inr (card (dom h)) \<and>
         (\<exists>m. store_hgetall now s i k = Inr m \<and> distinct (map fst m) \<and> map_of m = h \<and>
            store_hkeys now s i k = Inr (map fst m) \<and> store_hvals now s i k = Inr (map snd m))"
proof -
  have "store_hexists now s i k f = Inr (h f \<noteq> None)"
    using assms(2) by (cases rule: hash_at_Some_cases) (auto simp: store_hexists_def entry_live)
  then show ?thesis
    using hash_at_hset [OF assms, of ps] hash_at_hdel [OF assms, of fs] hash_at_hget [OF assms(2)]
      hash_at_hlen [OF assms(2,1)] hash_at_hgetall [OF assms(2,1)]
    by (auto simp: hm_wf_def)
qed

theorem hash_operations_witness:
  "hash_at 0 (fst (store_hset (store_new 1) 0 ''h'' [(''f'', ''1''), (''f'', ''2'')])) 0 ''h'' =
     Some [''f'' \<mapsto> ''2'']"
proof -
  have "hash_at 0 (store_new 1) 0 ''h'' = Some Map.empty"
    by (simp add: hash_at_def valid_db_def raw_def store_new_def)
  from hash_operations [OF store_wf_new this, of "[(''f'', ''1''), (''f'', ''2'')]"]
  show ?thesis by (auto simp: fun_upd_twist)
qed

text \<open>
  HINCRBY either reports an overflow and leaves the hash as it was, or returns the exact sum
  as a 64-bit integer and stores it so that the next HINCRBY reads it back: an increment by 0
  afterwards returns the same number.
\<close>

theorem hincrby_exact:
  assumes "hash_at now s i k = Some h"
  shows "(snd (store_hincrby s i k f n) = Inl Overflow \<and> \<not> in_i64 (field_int (h f) + n) \<and>
          hash_at now (fst (store_hincrby s i k f n)) i k = Some h) \<or>
         (\<exists>v. snd (store_hincrby s i k f n) = Inr v \<and> v = field_int (h f) + n \<and> in_i64 v \<and>
          hash_at now (fst (store_hincrby s i k f n)) i k = Some (h(f \<mapsto> int_to_string v)) \<and>
          snd (store_hincrby (fst (store_hincrby s i k f n)) i k f 0) = Inr v)"
proof (cases "checked_add_i64 (field_int (h f)) n")
  case None
  with hash_at_hincrby [OF assms, of f n] show ?thesis
    by (auto simp: checked_add_i64_def split: if_splits)
next
  case (Some v)
  with hash_at_hincrby [OF assms, of f n]
  have s: "snd (store_hincrby s i k f n) = Inr v"
    "hash_at now (fst (store_hincrby s i k f n)) i k = Some (h(f \<mapsto> int_to_string v))" by simp_all
  have v: "in_i64 v" "v = field_int (h f) + n" using checked_add_range [OF Some] by blast+
  have "checked_add_i64 v 0 = Some v" using v(1) by (simp add: checked_add_i64_def)
  with hash_at_hincrby [OF s(2), of f 0] v(1)
  have "snd (store_hincrby (fst (store_hincrby s i k f n)) i k f 0) = Inr v"
    by (simp add: field_int_written)
  with s v show ?thesis by blast
qed

theorem hincrby_exact_witness:
  "snd (store_hincrby (store_new 1) 0 ''h'' ''f'' 7) = Inr 7"
proof -
  have "hash_at 0 (store_new 1) 0 ''h'' = Some Map.empty"
    by (simp add: hash_at_def valid_db_def raw_def store_new_def)
  from hincrby_exact [OF this, of "''f''" 7] show ?thesis
    by (simp add: field_int_def in_i64_def i64_min_def i64_max_def)
qed

text \<open>
  Nested hashes.  NHSET and NHDEL update the two-level map at one field and subfield and
  nothing else, NHGET reads it, and the numbers returned say whether the subfield was new or was
  there.
\<close>

theorem nested_operations:
  assumes "nested_at now s i k = Some h"
  shows "nested_at now (fst (store_nhset s i k f sf v)) i k = Some (h(f := (h f)(sf \<mapsto> v))) \<and>
         snd (store_nhset s i k f sf v) = Inr (if h f sf = None then 1 else 0) \<and>
         nested_at now (fst (store_nhdel now s i k f (Some sf))) i k = Some (h(f := (h f)(sf := None))) \<and>
         snd (store_nhdel now s i k f (Some sf)) = Inr (if h f sf = None then 0 else 1) \<and>
         store_nhget now s i k f sf = Inr (h f sf)"
  using nested_at_nhset [OF assms] nested_at_nhdel [OF assms] nested_at_nhget [OF assms] by blast

theorem nested_operations_witness:
  "snd (store_nhset (store_new 1) 0 ''k'' ''f'' ''g'' ''v'') = Inr 1"
proof -
  have "nested_at 0 (store_new 1) 0 ''k'' = Some (\<lambda>_ _. None)"
    by (simp add: nested_at_def valid_db_def raw_def store_new_def)
  from nested_operations [OF this] show ?thesis by simp
qed

end
