(* ===== verification/StoreZSet.thy ===== *)
theory StoreZSet
  imports Store StoreList
begin

text \<open>
  The sorted sets of \<open>store/memory.rs\<close>.  A sorted set keeps two structures: the hash map
  \<open>members\<close> from a member to its score, and the ordered map \<open>scores\<close> from a score to the set of the
  members that have it.  \<open>zset_inv\<close> says that the two agree; ZADD and ZREM keep it as long as no
  score is a NaN, and under it the range queries, which walk \<open>scores\<close>, give the same answer as the
  counts, which walk \<open>members\<close>.

  \<open>BTreeMap::range\<close> panics when the lower bound is above the upper one; an operation that reaches
  it returns \<open>None\<close> for the panic.
\<close>

section \<open>Operations\<close>

text \<open>
  \<open>scores.get_mut(os)\<close>, the removal of the member from the set found, and the removal of the set
  when it is empty; and \<open>scores.entry(score).or_default().insert(member)\<close>.
\<close>

definition scores_remove ::
  "f64 \<Rightarrow> bytes \<Rightarrow> (f64, bytes hset) btmap \<Rightarrow> (f64, bytes hset) btmap" where
  "scores_remove os member scores =
     (case bt_get ordered_f64_cmp os scores of
        None \<Rightarrow> scores
      | Some st \<Rightarrow>
          (let st' = hs_remove member st
           in if st' = [] then bt_remove ordered_f64_cmp os scores
              else bt_insert ordered_f64_cmp os st' scores))"

definition scores_add ::
  "f64 \<Rightarrow> bytes \<Rightarrow> (f64, bytes hset) btmap \<Rightarrow> (f64, bytes hset) btmap" where
  "scores_add score member scores =
     bt_insert ordered_f64_cmp score
       (hs_insert member
          (case bt_get ordered_f64_cmp score scores of None \<Rightarrow> [] | Some st \<Rightarrow> st)) scores"

fun zadd_loop ::
  "(f64 \<times> bytes) list \<Rightarrow> (bytes, f64) hmap \<Rightarrow> (f64, bytes hset) btmap \<Rightarrow> nat \<Rightarrow>
   (bytes, f64) hmap \<times> (f64, bytes hset) btmap \<times> nat" where
  "zadd_loop [] members scores added = (members, scores, added)"
| "zadd_loop ((score, member) # items) members scores added =
     (let old_score = hm_get members member;
          members' = hm_insert member score members;
          scores' = (case old_score of None \<Rightarrow> scores | Some os \<Rightarrow> scores_remove os member scores)
      in zadd_loop items members' (scores_add score member scores')
           (if old_score = None then added + 1 else added))"

definition store_zadd ::
  "store \<Rightarrow> nat \<Rightarrow> bytes \<Rightarrow> (f64 \<times> bytes) list \<Rightarrow> store \<times> nat res" where
  "store_zadd s db_idx key items =
     (case db s db_idx of
        Inl err \<Rightarrow> (s, Inl err)
      | Inr d \<Rightarrow>
          (let e = entry_or_insert d key (ZSetV [] [])
           in case ent_value e of
                ZSetV members scores \<Rightarrow>
                  (let (m', sc', added) = zadd_loop items members scores 0
                   in (put_entry s db_idx key (e\<lparr>ent_value := ZSetV m' sc'\<rparr>), Inr added))
              | _ \<Rightarrow> (put_entry s db_idx key e, Inl WrongType)))"

fun zrem_loop ::
  "bytes list \<Rightarrow> (bytes, f64) hmap \<Rightarrow> (f64, bytes hset) btmap \<Rightarrow> nat \<Rightarrow>
   (bytes, f64) hmap \<times> (f64, bytes hset) btmap \<times> nat" where
  "zrem_loop [] zmembers scores removed = (zmembers, scores, removed)"
| "zrem_loop (m # ms) zmembers scores removed =
     (case hm_get zmembers m of
        Some score \<Rightarrow>
          zrem_loop ms (hm_remove m zmembers) (scores_remove score m scores) (removed + 1)
      | None \<Rightarrow> zrem_loop ms zmembers scores removed)"

definition store_zrem :: "u64 \<Rightarrow> store \<Rightarrow> nat \<Rightarrow> bytes \<Rightarrow> bytes list \<Rightarrow> store \<times> nat res" where
  "store_zrem now s db_idx key ms =
     (case entry_mut now s db_idx key of
        Inl err \<Rightarrow> (s, Inl err)
      | Inr None \<Rightarrow> (s, Inr 0)
      | Inr (Some e) \<Rightarrow>
          (case ent_value e of
             ZSetV members scores \<Rightarrow>
               (let (m', sc', removed) = zrem_loop ms members scores 0
                in (put_entry s db_idx key (e\<lparr>ent_value := ZSetV m' sc'\<rparr>), Inr removed))
           | _ \<Rightarrow> (s, Inl WrongType)))"

definition store_zscore :: "u64 \<Rightarrow> store \<Rightarrow> nat \<Rightarrow> bytes \<Rightarrow> bytes \<Rightarrow> f64 option res" where
  "store_zscore now s db_idx key member =
     (case entry_ref now s db_idx key of
        Inl err \<Rightarrow> Inl err
      | Inr None \<Rightarrow> Inr None
      | Inr (Some e) \<Rightarrow>
          (case ent_value e of ZSetV members scores \<Rightarrow> Inr (hm_get members member) | _ \<Rightarrow> Inl WrongType))"

fun zrank_loop :: "f64 \<Rightarrow> bytes \<Rightarrow> (f64, bytes hset) btmap \<Rightarrow> nat \<Rightarrow> nat option" where
  "zrank_loop target_score member [] rank = None"
| "zrank_loop target_score member ((score, st) # rest) rank =
     (if f64_lt score target_score then zrank_loop target_score member rest (rank + length st)
      else if f64_eq score target_score
        then Some (rank + length (takeWhile (\<lambda>m. m \<noteq> member) st))
      else zrank_loop target_score member rest rank)"

definition store_zrank :: "u64 \<Rightarrow> store \<Rightarrow> nat \<Rightarrow> bytes \<Rightarrow> bytes \<Rightarrow> nat option res" where
  "store_zrank now s db_idx key member =
     (case entry_ref now s db_idx key of
        Inl err \<Rightarrow> Inl err
      | Inr None \<Rightarrow> Inr None
      | Inr (Some e) \<Rightarrow>
          (case ent_value e of
             ZSetV members scores \<Rightarrow>
               (case hm_get members member of
                  None \<Rightarrow> Inr None
                | Some target_score \<Rightarrow> Inr (zrank_loop target_score member scores 0))
           | _ \<Rightarrow> Inl WrongType))"

text \<open>The two loops of \<open>zrange_by_score\<close>; the state is the result so far and the number skipped.\<close>

fun zrange_members ::
  "nat \<Rightarrow> nat \<Rightarrow> f64 option \<Rightarrow> bytes list \<Rightarrow> (bytes \<times> f64 option) list \<Rightarrow> nat \<Rightarrow>
   (bytes \<times> f64 option) list \<times> nat" where
  "zrange_members offset count sc [] result skipped = (result, skipped)"
| "zrange_members offset count sc (member # ms) result skipped =
     (if skipped < offset then zrange_members offset count sc ms result (skipped + 1)
      else if count \<le> length result then (result, skipped)
      else zrange_members offset count sc ms (result @ [(member, sc)]) skipped)"

fun zrange_scores ::
  "f64 \<Rightarrow> bool \<Rightarrow> f64 \<Rightarrow> bool \<Rightarrow> bool \<Rightarrow> nat \<Rightarrow> nat \<Rightarrow> (f64, bytes hset) btmap \<Rightarrow>
   (bytes \<times> f64 option) list \<Rightarrow> nat \<Rightarrow> (bytes \<times> f64 option) list" where
  "zrange_scores lo lo_excl hi hi_excl withscores offset count [] result skipped = result"
| "zrange_scores lo lo_excl hi hi_excl withscores offset count ((ss, st) # rest) result skipped =
     (if lo_excl \<and> f64_eq ss lo then
        zrange_scores lo lo_excl hi hi_excl withscores offset count rest result skipped
      else if hi_excl \<and> f64_eq ss hi then
        zrange_scores lo lo_excl hi hi_excl withscores offset count rest result skipped
      else
        (let (result', skipped') =
               zrange_members offset count (if withscores then Some ss else None) st result skipped
         in if count \<le> length result' then result'
            else zrange_scores lo lo_excl hi hi_excl withscores offset count rest result' skipped'))"

definition store_zrange_by_score ::
  "u64 \<Rightarrow> store \<Rightarrow> nat \<Rightarrow> bytes \<Rightarrow> f64 \<Rightarrow> bool \<Rightarrow> f64 \<Rightarrow> bool \<Rightarrow> bool \<Rightarrow> (nat \<times> nat) option \<Rightarrow>
   (bytes \<times> f64 option) list res option" where
  "store_zrange_by_score now s db_idx key lo lo_excl hi hi_excl withscores limit =
     (case entry_ref now s db_idx key of
        Inl err \<Rightarrow> Some (Inl err)
      | Inr None \<Rightarrow> Some (Inr [])
      | Inr (Some e) \<Rightarrow>
          (case ent_value e of
             ZSetV members scores \<Rightarrow>
               (let (offset, count) = (case limit of None \<Rightarrow> (0, u64_max) | Some l \<Rightarrow> l)
                in if f64_lt hi lo then None
                   else Some (Inr (zrange_scores lo lo_excl hi hi_excl withscores offset count
                                     (bt_range ordered_f64_cmp lo hi scores) [] 0)))
           | _ \<Rightarrow> Some (Inl WrongType)))"

definition store_zrange ::
  "u64 \<Rightarrow> store \<Rightarrow> nat \<Rightarrow> bytes \<Rightarrow> int \<Rightarrow> int \<Rightarrow> bool \<Rightarrow> (bytes \<times> f64 option) list res option" where
  "store_zrange now s db_idx key start stop withscores =
     (case store_zrange_by_score now s db_idx key f64_neg_inf True f64_inf True withscores None of
        None \<Rightarrow> None
      | Some (Inl err) \<Rightarrow> Some (Inl err)
      | Some (Inr all) \<Rightarrow> Some (Inr (slice all start stop)))"

definition store_zcard :: "u64 \<Rightarrow> store \<Rightarrow> nat \<Rightarrow> bytes \<Rightarrow> nat res" where
  "store_zcard now s db_idx key =
     (case entry_ref now s db_idx key of
        Inl err \<Rightarrow> Inl err
      | Inr None \<Rightarrow> Inr 0
      | Inr (Some e) \<Rightarrow>
          (case ent_value e of ZSetV members scores \<Rightarrow> Inr (length members) | _ \<Rightarrow> Inl WrongType))"

definition in_bounds :: "f64 \<Rightarrow> bool \<Rightarrow> f64 \<Rightarrow> bool \<Rightarrow> f64 \<Rightarrow> bool" where
  "in_bounds lo lo_excl hi hi_excl s \<longleftrightarrow>
     (if lo_excl then f64_lt lo s else f64_le lo s) \<and> (if hi_excl then f64_lt s hi else f64_le s hi)"

definition store_zcount ::
  "u64 \<Rightarrow> store \<Rightarrow> nat \<Rightarrow> bytes \<Rightarrow> f64 \<Rightarrow> bool \<Rightarrow> f64 \<Rightarrow> bool \<Rightarrow> nat res" where
  "store_zcount now s db_idx key lo lo_excl hi hi_excl =
     (case entry_ref now s db_idx key of
        Inl err \<Rightarrow> Inl err
      | Inr None \<Rightarrow> Inr 0
      | Inr (Some e) \<Rightarrow>
          (case ent_value e of
             ZSetV members scores \<Rightarrow>
               Inr (length (filter (\<lambda>(m, s). in_bounds lo lo_excl hi hi_excl s) members))
           | _ \<Rightarrow> Inl WrongType))"

section \<open>Frame\<close>

lemma snd_bt_insert: "snd ` set (bt_insert cmp k v m) \<subseteq> insert v (snd ` set m)"
  by (induction m) (force split: ordering.splits)+

lemma bt_get_in: "bt_get cmp k m = Some v \<Longrightarrow> v \<in> snd ` set m"
  by (induction m) (auto split: ordering.splits)

lemma bt_remove_in: "e \<in> set (bt_remove cmp k m) \<Longrightarrow> e \<in> set m"
  by (induction m) (auto split: ordering.splits if_splits)

definition sets_distinct :: "(f64, bytes hset) btmap \<Rightarrow> bool" where
  "sets_distinct sc \<longleftrightarrow> (\<forall>st\<in>snd ` set sc. distinct st)"

lemma sets_distinct_insert:
  "sets_distinct sc \<Longrightarrow> distinct st \<Longrightarrow> sets_distinct (bt_insert cmp k st sc)"
  using snd_bt_insert [of cmp k st sc] unfolding sets_distinct_def by blast

lemma sets_distinct_remove: "sets_distinct sc \<Longrightarrow> sets_distinct (bt_remove cmp k sc)"
  unfolding sets_distinct_def by (auto dest!: bt_remove_in)

lemma sets_distinct_scores_remove: "sets_distinct sc \<Longrightarrow> sets_distinct (scores_remove os m sc)"
  by (auto simp: scores_remove_def Let_def hs_remove_def dest!: bt_get_in
      intro!: sets_distinct_remove sets_distinct_insert split: option.splits)
     (auto simp: sets_distinct_def)

lemma sets_distinct_scores_add:
  assumes "sets_distinct sc"
  shows "sets_distinct (scores_add score m sc)"
proof -
  have "distinct (case bt_get ordered_f64_cmp score sc of None \<Rightarrow> [] | Some st \<Rightarrow> st)"
    using assms by (auto simp: sets_distinct_def dest!: bt_get_in split: option.splits)
  then show ?thesis unfolding scores_add_def
    using assms by (intro sets_distinct_insert) (auto simp: hs_insert_def)
qed

lemma zadd_loop_wf:
  "zadd_loop items m sc n = (m', sc', r) \<Longrightarrow> hm_wf m \<Longrightarrow> sets_distinct sc \<Longrightarrow> hm_wf m' \<and> sets_distinct sc'"
  by (induction items m sc n rule: zadd_loop.induct)
     (auto simp: Let_def sets_distinct_scores_add sets_distinct_scores_remove split: option.splits)

lemma zrem_loop_wf:
  "zrem_loop ms m sc n = (m', sc', r) \<Longrightarrow> hm_wf m \<Longrightarrow> sets_distinct sc \<Longrightarrow> hm_wf m' \<and> sets_distinct sc'"
  by (induction ms m sc n rule: zrem_loop.induct)
     (auto simp: sets_distinct_scores_remove split: option.splits)

lemma value_wf_zset: "value_wf (ZSetV m sc) \<longleftrightarrow> hm_wf m \<and> sets_distinct sc"
  by (simp add: sets_distinct_def)

lemma live_zset_wf:
  "ent_value e = ZSetV m sc \<Longrightarrow> live now s i k = Some e \<Longrightarrow> store_wf s \<Longrightarrow> hm_wf m \<and> sets_distinct sc"
  by (drule (1) value_wf_live [rotated]) (simp add: sets_distinct_def)

lemma or_insert_zset_wf:
  "ent_value (entry_or_insert (databases s ! i) k (ZSetV [] [])) = ZSetV m sc \<Longrightarrow>
     valid_db s i \<Longrightarrow> store_wf s \<Longrightarrow> hm_wf m \<and> sets_distinct sc"
  using value_wf_or_insert [of s i "ZSetV [] []" k] by (simp add: sets_distinct_def)

lemma empty_zset_wf: "value_wf (ZSetV [] [])"
  by simp

lemma value_wf_zadd:
  "zadd_loop items m sc n = (m', sc', r) \<Longrightarrow> hm_wf m \<and> sets_distinct sc \<Longrightarrow> value_wf (ZSetV m' sc')"
  unfolding value_wf_zset using zadd_loop_wf by blast

lemma value_wf_zrem:
  "zrem_loop ms m sc n = (m', sc', r) \<Longrightarrow> hm_wf m \<and> sets_distinct sc \<Longrightarrow> value_wf (ZSetV m' sc')"
  unfolding value_wf_zset using zrem_loop_wf by blast

interpretation zadd: keyed_update "\<lambda>s i k. fst (store_zadd s i k items)" for items
  by unfold_locales
     (auto simp del: value_wf.simps simp: store_zadd_def Let_def db_def lookup_simps valid_db_def [symmetric]
       intro!: store_wf_put value_wf_or_insert empty_zset_wf elim!: value_wf_zadd
       dest!: or_insert_zset_wf
       split: sum.splits storage_value.splits prod.splits)

interpretation zrem: keyed_update "\<lambda>s i k. fst (store_zrem now s i k ms)" for now ms
  by unfold_locales
     (auto simp del: value_wf.simps simp: store_zrem_def lookup_simps dest!: entry_mut_SomeD live_zset_wf
       intro!: store_wf_put elim!: value_wf_zrem
       split: sum.splits storage_value.splits option.splits prod.splits)

section \<open>The two structures agree\<close>

text \<open>The members recorded under a rank.\<close>

definition index :: "(f64, bytes hset) btmap \<Rightarrow> int \<Rightarrow> bytes set" where
  "index sc r = (case f64_keys.bt_fun sc r of None \<Rightarrow> {} | Some st \<Rightarrow> set st)"

text \<open>The tree is in order, has no NaN key and no empty set.\<close>

definition scores_ok :: "(f64, bytes hset) btmap \<Rightarrow> bool" where
  "scores_ok sc \<longleftrightarrow> f64_keys.bt_wf sc \<and>
     (\<forall>r st. f64_keys.bt_fun sc r = Some st \<longrightarrow> st \<noteq> [] \<and> distinct st)"

definition zset_inv :: "(bytes, f64) hmap \<Rightarrow> (f64, bytes hset) btmap \<Rightarrow> bool" where
  "zset_inv members scores \<longleftrightarrow> hm_wf members \<and> scores_ok scores \<and>
     (\<forall>m s. hm_get members m = Some s \<longrightarrow> \<not> f64_is_nan s) \<and>
     (\<forall>r. index scores r = {m. \<exists>s. hm_get members m = Some s \<and> f64_rank s = r})"

lemma scores_ok_Nil [simp]: "scores_ok []" "index [] r = {}"
  by (simp_all add: scores_ok_def index_def)

lemma zset_inv_empty: "zset_inv [] []"
  by (simp add: zset_inv_def)

lemma scores_remove_ok:
  assumes "scores_ok sc" "\<not> f64_is_nan os"
  shows "scores_ok (scores_remove os m sc)"
    and "index (scores_remove os m sc) = (index sc)(f64_rank os := index sc (f64_rank os) - {m})"
  using assms
  by (auto simp: scores_ok_def index_def scores_remove_def Let_def f64_keys.bt_get_fun hs_remove_def
      f64_keys.bt_wf_insert f64_keys.bt_wf_remove f64_keys.bt_fun_insert f64_keys.bt_fun_remove
      filter_empty_conv fun_eq_iff split: option.splits if_splits)

lemma scores_add_ok:
  assumes "scores_ok sc" "\<not> f64_is_nan score"
  shows "scores_ok (scores_add score m sc)"
    and "index (scores_add score m sc) = (index sc)(f64_rank score := insert m (index sc (f64_rank score)))"
  using assms
  by (auto simp: scores_ok_def index_def scores_add_def f64_keys.bt_get_fun hs_insert_def
      f64_keys.bt_wf_insert f64_keys.bt_fun_insert fun_eq_iff split: option.splits if_splits)

lemma zset_inv_add:
  assumes inv: "zset_inv members scores" and nan: "\<not> f64_is_nan score"
  shows "zset_inv (hm_insert member score members)
     (scores_add score member
        (case hm_get members member of None \<Rightarrow> scores | Some os \<Rightarrow> scores_remove os member scores))"
proof -
  let ?sc = "case hm_get members member of None \<Rightarrow> scores | Some os \<Rightarrow> scores_remove os member scores"
  have ok: "scores_ok scores" and idx: "\<And>r. index scores r = {m. \<exists>s. hm_get members m = Some s \<and> f64_rank s = r}"
    using inv by (auto simp: zset_inv_def)
  have old: "scores_ok ?sc \<and> (\<forall>r. index ?sc r = index scores r - {member})"
  proof (cases "hm_get members member")
    case None
    with idx ok show ?thesis by auto
  next
    case (Some os)
    with inv have "\<not> f64_is_nan os" by (auto simp: zset_inv_def)
    with scores_remove_ok [OF ok this, of member] Some idx show ?thesis by auto
  qed
  have "index (scores_add score member ?sc) r =
      {m. \<exists>s. hm_get (hm_insert member score members) m = Some s \<and> f64_rank s = r}" for r
    using scores_add_ok(2) [OF conjunct1 [OF old] nan, of member] old idx by auto
  with inv nan scores_add_ok(1) [OF conjunct1 [OF old] nan] show ?thesis
    by (auto simp: zset_inv_def)
qed

lemma zset_inv_remove:
  assumes inv: "zset_inv members scores" and m: "hm_get members member = Some score"
  shows "zset_inv (hm_remove member members) (scores_remove score member scores)"
proof -
  have ok: "scores_ok scores" and nan: "\<not> f64_is_nan score"
    and idx: "\<And>r. index scores r = {m. \<exists>s. hm_get members m = Some s \<and> f64_rank s = r}"
    using inv m by (auto simp: zset_inv_def)
  have "index (scores_remove score member scores) r =
      {x. \<exists>s. hm_get (hm_remove member members) x = Some s \<and> f64_rank s = r}" for r
    using scores_remove_ok(2) [OF ok nan, of member] idx m by auto
  with inv scores_remove_ok(1) [OF ok nan, of member] show ?thesis
    by (auto simp: zset_inv_def split: if_splits)
qed

lemma map_add_upd_left: "m(k \<mapsto> v) ++ f = m ++ ([k \<mapsto> v] ++ f)"
  by (simp add: map_add_assoc)

lemma zadd_loop_inv:
  assumes "zset_inv m sc" "\<forall>x\<in>set items. \<not> f64_is_nan (fst x)" "zadd_loop items m sc n = (m', sc', r)"
  shows "zset_inv m' sc' \<and> hm_get m' = hm_get m ++ map_of (rev (map prod.swap items)) \<and>
     length m' + n = length m + r"
  using assms
proof (induction items m sc n rule: zadd_loop.induct)
  case (1 members scores added)
  then show ?case by simp
next
  case (2 score member items members scores added)
  have len: "length (hm_insert member score members) + added =
      length members + (if hm_get members member = None then added + 1 else added)"
    by (simp add: length_hm_insert)
  have "\<not> f64_is_nan score" using "2.prems"(2) by simp
  from "2.IH" [OF refl refl refl zset_inv_add [OF "2.prems"(1) this]] "2.prems"
  have step: "zset_inv m' sc'"
    "hm_get m' = hm_get (hm_insert member score members) ++ map_of (rev (map prod.swap items))"
    "length m' + (if hm_get members member = None then added + 1 else added) =
      length (hm_insert member score members) + r"
    by (simp_all add: Let_def fun_upd_def)
  have upd: "(hm_get members)(member \<mapsto> score) ++ map_of (rev (map prod.swap items)) =
      hm_get members ++ map_of (rev (map prod.swap ((score, member) # items)))"
    using map_add_upd_left [of "hm_get members" member score "map_of (rev (map prod.swap items))"] by simp
  show ?case
    by (intro conjI step(1) trans [OF step(2)]) (use upd len step(3) in \<open>simp only: hm_get_insert, linarith\<close>)
qed

lemma zrem_loop_inv:
  assumes "zset_inv m sc" "zrem_loop ms m sc n = (m', sc', r)"
  shows "zset_inv m' sc' \<and> hm_get m' = hm_get m |` (- set ms) \<and> length m + n = length m' + r"
  using assms
proof (induction ms m sc n rule: zrem_loop.induct)
  case (1 zmembers scores removed)
  then show ?case by simp
next
  case (2 member ms zmembers scores removed)
  show ?case
  proof (cases "hm_get zmembers member")
    case None
    then have "hm_get zmembers |` (- set ms) = hm_get zmembers |` (- set (member # ms))"
      by (auto simp: restrict_map_def fun_eq_iff)
    with 2 None show ?thesis by simp
  next
    case (Some score)
    have wf: "hm_wf zmembers" using "2.prems"(1) by (simp add: zset_inv_def)
    have "0 < length zmembers" using Some by (cases zmembers) auto
    then have len: "length zmembers = Suc (length (hm_remove member zmembers))"
      using Some by (simp add: length_hm_remove [OF wf])
    have "(\<lambda>a. if a = member then None else hm_get zmembers a) |` (- set ms) =
        hm_get zmembers |` (- insert member (set ms))"
      by (auto simp: restrict_map_def fun_eq_iff)
    with "2.IH"(2) [OF Some zset_inv_remove [OF "2.prems"(1) Some]] "2.prems"(2) Some len show ?thesis
      by simp
  qed
qed

section \<open>The sequence of the members in score order\<close>

definition zlist :: "(f64, bytes hset) btmap \<Rightarrow> (bytes \<times> f64) list" where
  "zlist sc = concat (map (\<lambda>(score, st). map (\<lambda>m. (m, score)) st) sc)"

lemma zlist_simps [simp]:
  "zlist [] = []"
  "zlist ((score, st) # sc) = map (\<lambda>m. (m, score)) st @ zlist sc"
  by (simp_all add: zlist_def)

lemma zlist_filter:
  "zlist (filter (\<lambda>e. P (fst e)) sc) = filter (\<lambda>x. P (snd x)) (zlist sc)"
  by (induction sc) (auto simp: filter_map o_def)

lemma set_zlist: "(m, score) \<in> set (zlist sc) \<longleftrightarrow> (\<exists>st. (score, st) \<in> set sc \<and> m \<in> set st)"
  by (auto simp: zlist_def)

lemma index_iff:
  "f64_keys.bt_wf sc \<Longrightarrow> m \<in> index sc r \<longleftrightarrow> (\<exists>score st. (score, st) \<in> set sc \<and> f64_rank score = r \<and> m \<in> set st)"
  by (auto simp: index_def split: option.splits dest: f64_keys.bt_fun_Some_iff [THEN iffD1, rotated])
     (metis f64_keys.bt_fun_Some_iff option.distinct(1) option.inject)+

lemma zlist_sorted:
  "f64_keys.bt_wf sc \<Longrightarrow> sorted_wrt (\<lambda>a b. f64_rank (snd a) \<le> f64_rank (snd b)) (zlist sc)"
proof (induction sc)
  case Nil
  then show ?case by simp
next
  case (Cons e sc)
  obtain score st where e: "e = (score, st)" by (cases e)
  with Cons.prems have "f64_keys.bt_wf sc" "\<forall>x\<in>set sc. f64_rank score < f64_rank (fst x)"
    by (auto simp: f64_keys.bt_wf_Cons)
  then show ?case
    using Cons.IH e by (fastforce simp: sorted_wrt_append sorted_wrt_map set_zlist
        intro: sorted_wrt_mono_rel [of _ "\<lambda>_ _. True"])
qed

text \<open>Under the invariant the sequence has every member once, with a score of the rank it has.\<close>

lemma zlist_members:
  assumes "zset_inv members scores"
  shows "distinct (map fst (zlist scores))"
    and "(\<exists>score. (m, score) \<in> set (zlist scores) \<and> f64_rank score = r) \<longleftrightarrow>
         (\<exists>s. hm_get members m = Some s \<and> f64_rank s = r)"
proof -
  have ok: "f64_keys.bt_wf scores"
    and idx: "\<And>r. index scores r = {m. \<exists>s. hm_get members m = Some s \<and> f64_rank s = r}"
    and sets: "\<And>r st. f64_keys.bt_fun scores r = Some st \<Longrightarrow> distinct st"
    using assms unfolding zset_inv_def scores_ok_def by auto
  have ne: "\<forall>st\<in>snd ` set scores. distinct st"
    using sets f64_keys.bt_fun_Some_iff [OF ok] by force
  show "(\<exists>score. (m, score) \<in> set (zlist scores) \<and> f64_rank score = r) \<longleftrightarrow>
         (\<exists>s. hm_get members m = Some s \<and> f64_rank s = r)" for m r
    using index_iff [OF ok, of m r] idx [of r] by (auto simp: set_zlist)
  have once: "f64_rank a = f64_rank b" if "(m, a) \<in> set (zlist scores)" "(m, b) \<in> set (zlist scores)" for m a b
  proof -
    have "m \<in> index scores (f64_rank a)" "m \<in> index scores (f64_rank b)"
      using that index_iff [OF ok] by (auto simp: set_zlist)
    then show ?thesis unfolding idx by auto
  qed
  show "distinct (map fst (zlist scores))"
    using ok ne once
  proof (induction scores)
    case Nil
    then show ?case by simp
  next
    case (Cons e sc)
    obtain score st where e: "e = (score, st)" by (cases e)
    have rest: "f64_keys.bt_wf sc" "\<forall>x\<in>set sc. f64_rank score < f64_rank (fst x)"
      using Cons.prems(1) e by (auto simp: f64_keys.bt_wf_Cons)
    have "distinct (map fst (zlist sc))"
      by (rule Cons.IH [OF rest(1)]) (use Cons.prems(2,3) e in auto)
    moreover have "m \<notin> fst ` set (zlist sc)" if "m \<in> set st" for m
    proof
      assume "m \<in> fst ` set (zlist sc)"
      then obtain b where b: "(m, b) \<in> set (zlist sc)" by auto
      then have "f64_rank score = f64_rank b" using Cons.prems(3) [of m score b] e that by auto
      moreover have "f64_rank score < f64_rank b" using b rest(2) by (auto simp: set_zlist)
      ultimately show False by simp
    qed
    ultimately show ?case using Cons.prems(2) e by (auto simp: comp_def)
  qed
qed

section \<open>Range queries\<close>

text \<open>The page of a sequence that \<open>LIMIT offset count\<close> selects.\<close>

definition page :: "nat \<Rightarrow> nat \<Rightarrow> 'a list \<Rightarrow> 'a list" where
  "page offset count xs = take count (drop offset xs)"

lemma page_full: "count \<le> length (page offset count P) \<Longrightarrow> page offset count (P @ Q) = page offset count P"
  by (simp add: page_def)

lemma page_snoc:
  "offset \<le> length P \<Longrightarrow> length (page offset count P) < count \<Longrightarrow>
     page offset count (P @ [x]) = page offset count P @ [x]"
  by (simp add: page_def)

lemma page_skip: "length P < offset \<Longrightarrow> page offset count (P @ [x]) = page offset count P"
  by (simp add: page_def)

lemma zrange_members_page:
  "\<exists>k. zrange_members offset count sc ms (page offset count P) (min offset (length P)) =
       (page offset count (P @ map (\<lambda>m. (m, sc)) ms), k) \<and>
     (length (page offset count (P @ map (\<lambda>m. (m, sc)) ms)) < count \<longrightarrow>
        k = min offset (length P + length ms))"
proof (induction ms arbitrary: P)
  case Nil
  then show ?case by simp
next
  case (Cons m ms)
  let ?P = "P @ [(m, sc)]"
  consider (skip) "length P < offset" | (full) "offset \<le> length P" "count \<le> length (page offset count P)"
    | (push) "offset \<le> length P" "length (page offset count P) < count" by linarith
  then show ?case
  proof cases
    case skip
    then have "Suc (min offset (length P)) = min offset (length ?P)" by simp
    with skip Cons.IH [of ?P] show ?thesis by (simp add: page_skip)
  next
    case full
    with page_full [of count offset P] show ?thesis by simp
  next
    case push
    then have "min offset (length P) = min offset (length ?P)" by simp
    with push Cons.IH [of ?P] show ?thesis by (simp add: page_snoc)
  qed
qed

definition kept :: "f64 \<Rightarrow> bool \<Rightarrow> f64 \<Rightarrow> bool \<Rightarrow> f64 \<Rightarrow> bool" where
  "kept lo lo_excl hi hi_excl ss \<longleftrightarrow> \<not> (lo_excl \<and> f64_eq ss lo) \<and> \<not> (hi_excl \<and> f64_eq ss hi)"

lemma zrange_scores_page:
  "zrange_scores lo lo_excl hi hi_excl ws offset count sc (page offset count P) (min offset (length P)) =
     page offset count (P @ map (\<lambda>(m, ss). (m, if ws then Some ss else None))
       (zlist (filter (\<lambda>e. kept lo lo_excl hi hi_excl (fst e)) sc)))"
proof (induction sc arbitrary: P)
  case Nil
  then show ?case by simp
next
  case (Cons e sc)
  obtain ss st where e: "e = (ss, st)" by (cases e)
  show ?case
  proof (cases "kept lo lo_excl hi hi_excl ss")
    case False
    with Cons.IH [of P] e show ?thesis by (auto simp: kept_def)
  next
    case True
    let ?Q = "map (\<lambda>m. (m, if ws then Some ss else None)) st"
    obtain k where k: "zrange_members offset count (if ws then Some ss else None) st (page offset count P)
        (min offset (length P)) = (page offset count (P @ ?Q), k)"
      "length (page offset count (P @ ?Q)) < count \<longrightarrow> k = min offset (length (P @ ?Q))"
      using zrange_members_page [of offset count "if ws then Some ss else None" st P] by auto

    have ex: "\<not> (lo_excl \<and> f64_eq ss lo)" "\<not> (hi_excl \<and> f64_eq ss hi)" using True by (simp_all add: kept_def)
    show ?thesis
    proof (cases "count \<le> length (page offset count (P @ ?Q))")
      case True
      then show ?thesis
        unfolding e zrange_scores.simps if_not_P [OF ex(1)] if_not_P [OF ex(2)] k Let_def prod.case
        using \<open>kept lo lo_excl hi hi_excl ss\<close> page_full [OF True] by (cases ws) (simp_all add: comp_def)
    next
      case False
      then show ?thesis
        unfolding e zrange_scores.simps if_not_P [OF ex(1)] if_not_P [OF ex(2)] k(1) Let_def prod.case
        using \<open>kept lo lo_excl hi hi_excl ss\<close> Cons.IH [of "P @ ?Q"] k(2)
        by (cases ws) (simp_all add: comp_def)
    qed
  qed
qed

lemma in_bounds_kept:
  assumes "\<not> f64_is_nan lo" "\<not> f64_is_nan hi" "\<not> f64_is_nan s"
  shows "in_bounds lo lo_excl hi hi_excl s \<longleftrightarrow>
     f64_rank lo \<le> f64_rank s \<and> f64_rank s \<le> f64_rank hi \<and> kept lo lo_excl hi hi_excl s"
  using assms by (auto simp: in_bounds_def kept_def f64_lt_def f64_le_def f64_eq_def)

lemma in_bounds_rank:
  assumes "\<not> f64_is_nan s" "\<not> f64_is_nan t" "f64_rank s = f64_rank t"
  shows "in_bounds lo lo_excl hi hi_excl s = in_bounds lo lo_excl hi hi_excl t"
  using assms by (auto simp: in_bounds_def f64_lt_def f64_le_def f64_eq_def)

lemma zlist_not_nan: "f64_keys.bt_wf sc \<Longrightarrow> x \<in> set (zlist sc) \<Longrightarrow> \<not> f64_is_nan (snd x)"
  by (cases x) (auto simp: set_zlist f64_keys.bt_wf_def)

lemma zset_inv_ok: "zset_inv m sc \<Longrightarrow> f64_keys.bt_wf sc"
  by (simp add: zset_inv_def scores_ok_def)

text \<open>The members in range in score order, read off the tree.\<close>

definition zin_range ::
  "f64 \<Rightarrow> bool \<Rightarrow> f64 \<Rightarrow> bool \<Rightarrow> (f64, bytes hset) btmap \<Rightarrow> (bytes \<times> f64) list" where
  "zin_range lo lo_excl hi hi_excl sc = filter (\<lambda>x. in_bounds lo lo_excl hi hi_excl (snd x)) (zlist sc)"

lemma zrange_scores_eq:
  assumes "f64_keys.bt_wf sc" "\<not> f64_is_nan lo" "\<not> f64_is_nan hi"
  shows "zrange_scores lo lo_excl hi hi_excl ws offset count (bt_range ordered_f64_cmp lo hi sc) [] 0 =
     page offset count (map (\<lambda>(m, ss). (m, if ws then Some ss else None)) (zin_range lo lo_excl hi hi_excl sc))"
proof -
  let ?P = "\<lambda>ss. (kept lo lo_excl hi hi_excl ss) \<and> f64_rank lo \<le> f64_rank ss \<and> f64_rank ss \<le> f64_rank hi"
  have "zlist (filter (\<lambda>e. kept lo lo_excl hi hi_excl (fst e)) (bt_range ordered_f64_cmp lo hi sc)) =
      zlist (filter (\<lambda>e. ?P (fst e)) sc)"
    by (simp add: f64_keys.bt_range_filter [OF assms] conj_commute)
  also have "\<dots> = filter (\<lambda>x. ?P (snd x)) (zlist sc)" by (rule zlist_filter)
  also have "\<dots> = zin_range lo lo_excl hi hi_excl sc" unfolding zin_range_def
    by (rule filter_cong) (auto simp: in_bounds_kept [OF assms(2,3) zlist_not_nan [OF assms(1)]])
  finally show ?thesis
    using zrange_scores_page [of lo lo_excl hi hi_excl ws offset count "bt_range ordered_f64_cmp lo hi sc" "[]"]
    by (simp add: page_def)
qed

lemma zin_range_facts:
  assumes inv: "zset_inv members scores"
  shows "sorted_wrt (\<lambda>a b. f64_rank (snd a) \<le> f64_rank (snd b)) (zin_range lo lo_excl hi hi_excl scores)"
    and "distinct (map fst (zin_range lo lo_excl hi hi_excl scores))"
    and "fst ` set (zin_range lo lo_excl hi hi_excl scores) =
         {m. \<exists>s. hm_get members m = Some s \<and> in_bounds lo lo_excl hi hi_excl s}"
    and "length (zin_range lo lo_excl hi hi_excl scores) =
         length (filter (\<lambda>(m, s). in_bounds lo lo_excl hi hi_excl s) members)"
proof -
  let ?z = "zin_range lo lo_excl hi hi_excl scores"
  let ?f = "filter (\<lambda>(m, s). in_bounds lo lo_excl hi hi_excl s) members"
  have bt: "f64_keys.bt_wf scores" and wf: "hm_wf members"
    and nan: "\<And>m s. hm_get members m = Some s \<Longrightarrow> \<not> f64_is_nan s"
    using inv by (auto simp: zset_inv_def scores_ok_def)
  show "sorted_wrt (\<lambda>a b. f64_rank (snd a) \<le> f64_rank (snd b)) ?z"
    unfolding zin_range_def by (rule sorted_wrt_filter [OF zlist_sorted [OF bt]])
  show d: "distinct (map fst ?z)"
    unfolding zin_range_def using zlist_members(1) [OF inv] by (rule distinct_map_filter)
  show S: "fst ` set ?z = {m. \<exists>s. hm_get members m = Some s \<and> in_bounds lo lo_excl hi hi_excl s}"
  proof (intro equalityI subsetI)
    fix m assume "m \<in> fst ` set ?z"
    then obtain ss where ss: "(m, ss) \<in> set (zlist scores)" "in_bounds lo lo_excl hi hi_excl ss"
      by (auto simp: zin_range_def)
    with zlist_members(2) [OF inv, of m "f64_rank ss"] obtain s
      where s: "hm_get members m = Some s" "f64_rank s = f64_rank ss" by auto
    with ss in_bounds_rank [OF nan [OF s(1)] zlist_not_nan [OF bt ss(1)]]
    show "m \<in> {m. \<exists>s. hm_get members m = Some s \<and> in_bounds lo lo_excl hi hi_excl s}" by auto
  next
    fix m assume "m \<in> {m. \<exists>s. hm_get members m = Some s \<and> in_bounds lo lo_excl hi hi_excl s}"
    then obtain s where s: "hm_get members m = Some s" "in_bounds lo lo_excl hi hi_excl s" by auto
    with zlist_members(2) [OF inv, of m "f64_rank s"] obtain ss
      where ss: "(m, ss) \<in> set (zlist scores)" "f64_rank ss = f64_rank s" by auto
    with s in_bounds_rank [OF nan [OF s(1)] zlist_not_nan [OF bt ss(1)]]
    have "(m, ss) \<in> set ?z" by (simp add: zin_range_def)
    then show "m \<in> fst ` set ?z" by force
  qed
  have "length ?z = card (fst ` set ?z)" using distinct_card [OF d] by simp
  also have "fst ` set ?z = fst ` set ?f" unfolding S using set_hm_iff [OF wf] by force
  also have "card \<dots> = length ?f"
    using distinct_card [of "map fst ?f"] hm_wf_filter [OF wf] by (simp add: hm_wf_def)
  finally show "length ?z = length ?f" .
qed

section \<open>Ranks\<close>

lemma zrank_loop_nth:
  assumes "f64_keys.bt_wf sc" "\<not> f64_is_nan target" "m \<in> index sc (f64_rank target)"
  shows "\<exists>j < length (zlist sc). zrank_loop target m sc n = Some (n + j) \<and> fst (zlist sc ! j) = m"
  using assms
proof (induction sc arbitrary: n)
  case Nil
  then show ?case by simp
next
  case (Cons e sc)
  obtain score st where e: "e = (score, st)" by (cases e)
  have wf: "f64_keys.bt_wf sc" "\<not> f64_is_nan score" "\<forall>x\<in>set sc. f64_rank score < f64_rank (fst x)"
    using Cons.prems(1) e by (auto simp: f64_keys.bt_wf_Cons)
  show ?case
  proof (cases "f64_rank score = f64_rank target")
    case True
    with Cons.prems(3) e have m: "m \<in> set st" by (simp add: index_def)
    let ?j = "length (takeWhile (\<lambda>x. x \<noteq> m) st)"
    have lt: "?j < length st" using m by (induction st) auto
    then have "st ! ?j = m" using nth_length_takeWhile [OF lt] by simp
    with lt True e wf Cons.prems(2) show ?thesis
      by (auto simp: f64_lt_def f64_eq_def nth_append intro!: exI [of _ ?j])
  next
    case False
    with Cons.prems(3) e have m: "m \<in> index sc (f64_rank target)" by (simp add: index_def)
    then obtain x where "x \<in> set sc" "f64_rank (fst x) = f64_rank target"
      using index_iff [OF wf(1)] by force
    with wf(3) have lt: "f64_lt score target" using wf(2) Cons.prems(2) by (auto simp: f64_lt_def)
    obtain j where "j < length (zlist sc)" "zrank_loop target m sc (n + length st) = Some (n + length st + j)"
      "fst (zlist sc ! j) = m" using Cons.IH [OF wf(1) Cons.prems(2) m] by blast
    with lt e show ?thesis by (auto simp: nth_append intro!: exI [of _ "length st + j"])
  qed
qed

section \<open>Properties\<close>

text \<open>The two structures stored under a key.\<close>

definition zset_at ::
  "u64 \<Rightarrow> store \<Rightarrow> nat \<Rightarrow> bytes \<Rightarrow> ((bytes, f64) hmap \<times> (f64, bytes hset) btmap) option" where
  "zset_at now s i k =
     (if \<not> valid_db s i then None
      else case raw s i k of
             None \<Rightarrow> Some ([], [])
           | Some e \<Rightarrow> if expired now e then None
                       else case ent_value e of ZSetV m sc \<Rightarrow> Some (m, sc) | _ \<Rightarrow> None)"

lemma zset_at_Some_cases:
  assumes "zset_at now s i k = Some (m, sc)"
  obtains (absent) "valid_db s i" "live now s i k = None" "raw s i k = None" "m = []" "sc = []"
  | (there) e where "valid_db s i" "live now s i k = Some e" "ent_value e = ZSetV m sc"
      "raw s i k = Some e" "\<not> expired now e"
  using assms by (auto simp: zset_at_def live_def split: option.splits if_splits storage_value.splits)

lemma zset_at_put:
  "valid_db s i \<Longrightarrow> \<not> expired now e \<Longrightarrow>
     zset_at now (put_entry s i k (e\<lparr>ent_value := ZSetV m sc\<rparr>)) i k = Some (m, sc)"
  by (simp add: zset_at_def lookup_simps expired_def)

lemma zset_at_zadd:
  assumes "zset_at now s i k = Some (m, sc)" "zadd_loop items m sc 0 = (m', sc', n)"
  shows "zset_at now (fst (store_zadd s i k items)) i k = Some (m', sc') \<and>
         snd (store_zadd s i k items) = Inr n"
  using assms(1)
proof (cases rule: zset_at_Some_cases)
  case absent
  with assms(2) show ?thesis
    by (simp add: store_zadd_def db_valid entry_or_insert_raw new_entry_def Let_def zset_at_def
        lookup_simps expired_def)
next
  case (there e)
  with assms(2) show ?thesis
    by (simp add: store_zadd_def db_valid entry_or_insert_raw Let_def zset_at_put)
qed

lemma zset_at_zrem:
  assumes "zset_at now s i k = Some (m, sc)" "zrem_loop ms m sc 0 = (m', sc', n)"
  shows "zset_at now (fst (store_zrem now s i k ms)) i k = Some (m', sc') \<and>
         snd (store_zrem now s i k ms) = Inr n"
  using assms(1)
proof (cases rule: zset_at_Some_cases)
  case absent
  have "m' = [] \<and> sc' = [] \<and> n = 0"
    using assms(2) absent by (induction ms "[] :: (bytes, f64) hmap" "[] :: (f64, bytes hset) btmap" "0::nat"
        rule: zrem_loop.induct) auto
  with absent assms(1) show ?thesis by (simp add: store_zrem_def entry_mut_live)
next
  case (there e)
  with assms(2) show ?thesis by (simp add: store_zrem_def entry_mut_live zset_at_put)
qed

text \<open>
  C25: The two structures of a sorted set agree.  ZADD (with scores that are numbers) and ZREM keep
  the score tree ordered, without empty sets and with exactly the members the hash map has under
  the scores it has; on the map ZADD is the update by the pairs in order and ZREM the restriction
  to the other members, and they return the growth and the shrinkage.
\<close>

theorem zset_indexes_agree:
  assumes "zset_at now s i k = Some (m, sc)" and "zset_inv m sc"
    and "\<forall>x\<in>set items. \<not> f64_is_nan (fst x)"
  shows "(\<exists>m' sc' n. zset_at now (fst (store_zadd s i k items)) i k = Some (m', sc') \<and>
            snd (store_zadd s i k items) = Inr n \<and> zset_inv m' sc' \<and>
            hm_get m' = hm_get m ++ map_of (rev (map prod.swap items)) \<and> length m' = length m + n) \<and>
         (\<exists>m' sc' n. zset_at now (fst (store_zrem now s i k ms)) i k = Some (m', sc') \<and>
            snd (store_zrem now s i k ms) = Inr n \<and> zset_inv m' sc' \<and>
            hm_get m' = hm_get m |` (- set ms) \<and> length m = length m' + n)"
proof (intro conjI)
  obtain m' sc' n where l: "zadd_loop items m sc 0 = (m', sc', n)" using prod_cases3 by blast
  from zset_at_zadd [OF assms(1) l] zadd_loop_inv [OF assms(2,3) l]
  show "\<exists>m' sc' n. zset_at now (fst (store_zadd s i k items)) i k = Some (m', sc') \<and>
            snd (store_zadd s i k items) = Inr n \<and> zset_inv m' sc' \<and>
            hm_get m' = hm_get m ++ map_of (rev (map prod.swap items)) \<and> length m' = length m + n"
    by auto
next
  obtain m' sc' n where l: "zrem_loop ms m sc 0 = (m', sc', n)" using prod_cases3 by blast
  from zset_at_zrem [OF assms(1) l] zrem_loop_inv [OF assms(2) l]
  show "\<exists>m' sc' n. zset_at now (fst (store_zrem now s i k ms)) i k = Some (m', sc') \<and>
            snd (store_zrem now s i k ms) = Inr n \<and> zset_inv m' sc' \<and>
            hm_get m' = hm_get m |` (- set ms) \<and> length m = length m' + n"
    by auto
qed

lemma zset_at_new: "zset_at now (store_new 1) 0 k = Some ([], [])"
  by (simp add: zset_at_def valid_db_def raw_def store_new_def)

theorem zset_indexes_agree_witness:
  "\<exists>m' sc'. zset_at 0 (fst (store_zadd (store_new 1) 0 ''z'' [(0, ''a''), (1, ''a'')])) 0 ''z'' = Some (m', sc') \<and>
     zset_inv m' sc' \<and> hm_get m' ''a'' = Some 1 \<and> length m' = 1"
proof -
  let ?items = "[(0, ''a''), (1, ''a'')]"
  have "\<forall>x\<in>set ?items. \<not> f64_is_nan (fst x)" by (simp add: f64_is_nan_def f64_mag_def)
  moreover have "snd (store_zadd (store_new 1) 0 ''z'' ?items) = Inr 1"
    by (simp add: store_zadd_def db_def store_new_def entry_or_insert_def new_entry_def Let_def)
  ultimately show ?thesis
    using zset_indexes_agree [OF zset_at_new zset_inv_empty, of ?items 0 "''z''" "[]"] by auto
qed

text \<open>
  C26: ZRANGEBYSCORE and ZCOUNT.  For bounds that are numbers in order the range query returns one fixed sequence, or the
  requested page of it, which has exactly the members whose score lies within the
  bounds (open or closed as asked), each once, with the number that is stored as its score, in ascending order of
  the stored scores; ZCOUNT, which walks the other structure, returns the length of that sequence.
\<close>

theorem zrange_by_score_exact:
  assumes "zset_at now s i k = Some (m, sc)" and "zset_inv m sc"
    and "\<not> f64_is_nan lo" and "\<not> f64_is_nan hi" and "\<not> f64_lt hi lo" and "length m \<le> u64_max"
  shows "\<exists>xs. store_zrange_by_score now s i k lo le hi he ws None =
           Some (Inr (map (\<lambda>(x, score). (x, if ws then Some score else None)) xs)) \<and>
         (\<forall>off n. store_zrange_by_score now s i k lo le hi he ws (Some (off, n)) =
           Some (Inr (map (\<lambda>(x, score). (x, if ws then Some score else None)) (take n (drop off xs))))) \<and>
         distinct (map fst xs) \<and>
         fst ` set xs = {x. \<exists>score. hm_get m x = Some score \<and> in_bounds lo le hi he score} \<and>
         list_all (\<lambda>(x, score). f64_rank score = f64_rank (the (hm_get m x))) xs \<and>
         sorted_wrt (\<lambda>x y. f64_rank (the (hm_get m x)) \<le> f64_rank (the (hm_get m y))) (map fst xs) \<and>
         store_zcount now s i k lo le hi he = Inr (length xs)"
proof (intro exI conjI allI)
  let ?xs = "zin_range lo le hi he sc"
  note facts = zin_range_facts [OF assms(2), of lo le hi he]
  show "distinct (map fst ?xs)"
    "fst ` set ?xs = {x. \<exists>score. hm_get m x = Some score \<and> in_bounds lo le hi he score}"
    using facts by blast+
  have stored: "f64_rank score = f64_rank (the (hm_get m x))" if "(x, score) \<in> set ?xs" for x score
    using that zlist_members(2) [OF assms(2), of x "f64_rank score"] by (fastforce simp: zin_range_def)
  then show "list_all (\<lambda>(x, score). f64_rank score = f64_rank (the (hm_get m x))) ?xs" by (auto simp: list_all_iff)
  have "sorted_wrt (\<lambda>a b. f64_rank (the (hm_get m (fst a))) \<le> f64_rank (the (hm_get m (fst b)))) ?xs"
    by (rule sorted_wrt_mono_rel [OF _ facts(1)]) (auto simp: stored)
  then show "sorted_wrt (\<lambda>x y. f64_rank (the (hm_get m x)) \<le> f64_rank (the (hm_get m y))) (map fst ?xs)" by (simp add: sorted_wrt_map)
  have all: "take u64_max ?xs = ?xs"
    using assms(6) facts(4) by (simp add: le_trans [OF length_filter_le])
  show "store_zrange_by_score now s i k lo le hi he ws None =
      Some (Inr (map (\<lambda>(x, score). (x, if ws then Some score else None)) ?xs))"
    using assms(1)
  proof (cases rule: zset_at_Some_cases)
    case absent
    then show ?thesis by (simp add: store_zrange_by_score_def entry_live zin_range_def)
  next
    case (there e)
    with assms(5) show ?thesis
      by (simp add: store_zrange_by_score_def entry_live page_def take_map all
          zrange_scores_eq [OF zset_inv_ok [OF assms(2)] assms(3,4)])
  qed
  show "store_zcount now s i k lo le hi he = Inr (length ?xs)"
    using assms(1)
    by (cases rule: zset_at_Some_cases) (auto simp: store_zcount_def entry_live facts(4) [symmetric] zin_range_def)
  show "store_zrange_by_score now s i k lo le hi he ws (Some (off, n)) =
      Some (Inr (map (\<lambda>(x, score). (x, if ws then Some score else None)) (take n (drop off ?xs))))" for off n
    using assms(1)
  proof (cases rule: zset_at_Some_cases)
    case absent
    then show ?thesis by (simp add: store_zrange_by_score_def entry_live zin_range_def)
  next
    case (there e)
    with assms(5) show ?thesis
      by (simp add: store_zrange_by_score_def entry_live page_def drop_map take_map
          zrange_scores_eq [OF zset_inv_ok [OF assms(2)] assms(3,4)])
  qed
qed

theorem zrange_by_score_exact_witness:
  "let s = fst (store_zadd (store_new 1) 0 ''z'' [(2, ''b''), (1, ''a'')]) in
   store_zrange_by_score 0 s 0 ''z'' f64_neg_inf False f64_inf False False None = Some (Inr [(''a'', None), (''b'', None)]) \<and>
   store_zcount 0 s 0 ''z'' f64_neg_inf False f64_inf False = Inr 2"
proof -
  let ?items = "[(2, ''b''), (1, ''a'')] :: (f64 \<times> bytes) list" and ?m = "[(''b'', 2), (''a'', 1)] :: (bytes, f64) hmap"
  let ?s = "fst (store_zadd (store_new 1) 0 ''z'' ?items)"
  have r: "f64_rank 1 = 1" "f64_rank 2 = 2" "\<not> f64_is_nan 1" "\<not> f64_is_nan 2"
    by (simp_all add: f64_rank_def f64_is_nan_def f64_mag_def f64_neg_def)
  then have "ordered_f64_cmp 1 2 = Less" "ordered_f64_cmp 2 1 = Greater" by (simp_all add: ordered_f64_cmp_def partial_cmp_def f64_lt_def f64_eq_def)
  then have loop: "zadd_loop ?items [] [] 0 = (?m, [(1, [''a'']), (2, [''b''])], 2)"
    by (simp add: scores_add_def hs_insert_def hm_insert_def)
  have z: "zset_at 0 ?s 0 ''z'' = Some (?m, [(1, [''a'']), (2, [''b''])])"
    using zset_at_zadd [OF zset_at_new, of ?items] by (simp add: loop del: zadd_loop.simps)
  have inv: "zset_inv ?m [(1, [''a'']), (2, [''b''])]"
    using zadd_loop_inv [OF zset_inv_empty, of ?items 0] r by (simp add: loop del: zadd_loop.simps)
  have b: "in_bounds f64_neg_inf False f64_inf False 1" "in_bounds f64_neg_inf False f64_inf False 2" "\<not> f64_lt f64_inf f64_neg_inf"
    "\<not> f64_is_nan f64_neg_inf" "\<not> f64_is_nan f64_inf"
    using r by (simp_all add: in_bounds_def f64_le_def f64_lt_def)
  have len: "length ?m \<le> u64_max" by (simp add: u64_max_def)
  from zrange_by_score_exact [OF z inv b(4,5,3) len, of False False False, unfolded if_False] obtain xs :: "(bytes \<times> f64) list" where
    xs: "store_zrange_by_score 0 ?s 0 ''z'' f64_neg_inf False f64_inf False False None = Some (Inr (map (\<lambda>(x, score). (x, None)) xs))"
      "distinct (map fst xs)" "fst ` set xs = {x. \<exists>score. hm_get ?m x = Some score \<and> in_bounds f64_neg_inf False f64_inf False score}"
      "sorted_wrt (\<lambda>x y. f64_rank (the (hm_get ?m x)) \<le> f64_rank (the (hm_get ?m y))) (map fst xs)"
      "store_zcount 0 ?s 0 ''z'' f64_neg_inf False f64_inf False = Inr (length xs)"
    by blast
  have set: "set (map fst xs) = {''a'', ''b''}" using xs(3) b(1,2) by (auto split: if_splits)
  have "length xs = card (set (map fst xs))" using distinct_card [OF xs(2)] by simp
  then have "length xs = 2" unfolding set by simp
  then obtain p q where pq: "xs = [p, q]" by (auto simp: length_Suc_conv numeral_2_eq_2)
  then have "fst p = ''a'' \<and> fst q = ''b''" using set xs(2,4) r(1,2) by (auto simp: doubleton_eq_iff)
  then show ?thesis using xs(1,5) by (cases p; cases q) (simp add: pq)
qed

text \<open>
  A range query with the lower bound above the upper one panics, whatever the sorted set
  holds: the bounds go to \<open>BTreeMap::range\<close> unchecked.
\<close>

theorem zrange_by_score_panics:
  assumes "zset_at now s i k = Some (m, sc)" and "raw s i k \<noteq> None" and "f64_lt hi lo"
  shows "store_zrange_by_score now s i k lo le hi he ws limit = None"
  using assms(1)
  by (cases rule: zset_at_Some_cases)
     (use assms(2,3) in \<open>auto simp: store_zrange_by_score_def entry_live split: option.splits\<close>)

theorem zrange_by_score_panics_witness:
  "store_zrange_by_score 0 (fst (store_zadd (store_new 1) 0 ''z'' [(0, ''a'')])) 0 ''z''
     f64_inf False f64_neg_inf False False None = None"
proof -
  let ?s = "fst (store_zadd (store_new 1) 0 ''z'' [(0, ''a'')])"
  have "zset_at 0 ?s 0 ''z'' = Some ([(''a'', 0)], [(0, [''a''])])"
    using zset_at_zadd [OF zset_at_new, of "[(0, ''a'')]"]
    by (simp add: scores_add_def hs_insert_def hm_insert_def)
  moreover have "raw ?s 0 ''z'' \<noteq> None"
    by (simp add: raw_def store_zadd_def db_def store_new_def put_entry_def set_db_def
        entry_or_insert_def new_entry_def Let_def)
  moreover have "f64_lt f64_neg_inf f64_inf" by (simp add: f64_lt_def)
  ultimately show ?thesis by (rule zrange_by_score_panics)
qed

definition no_infinite :: "(bytes, f64) hmap \<Rightarrow> bool" where
  "no_infinite m \<longleftrightarrow> (\<forall>x\<in>set m. f64_mag (snd x) \<noteq> 0x7FF0000000000000)"

lemma finite_in_bounds:
  "\<not> f64_is_nan s \<Longrightarrow> in_bounds f64_neg_inf True f64_inf True s \<longleftrightarrow> f64_mag s \<noteq> 0x7FF0000000000000"
  by (simp add: in_bounds_def f64_lt_def) (auto simp: f64_rank_def f64_is_nan_def)

lemma rank_mag: "f64_rank a = f64_rank b \<Longrightarrow> f64_mag a = f64_mag b"
  by (auto simp: f64_rank_def split: if_splits)

lemma zrange_all:
  assumes "zset_at now s i k = Some (m, sc)" and "zset_inv m sc" and "small m"
  shows "store_zrange now s i k a b ws = Some (Inr (slice
     (map (\<lambda>(x, score). (x, if ws then Some score else None)) (zin_range f64_neg_inf True f64_inf True sc)) a b))"
proof -
  let ?xs = "zin_range f64_neg_inf True f64_inf True sc"
  have "length ?xs \<le> length m" unfolding zin_range_facts(4) [OF assms(2)] by simp
  also have "\<dots> \<le> u64_max" using assms(3) by (simp add: in_i64_def i64_max_def u64_max_def)
  finally have all: "take u64_max ?xs = ?xs" by simp
  have "store_zrange_by_score now s i k f64_neg_inf True f64_inf True ws None =
      Some (Inr (map (\<lambda>(x, score). (x, if ws then Some score else None)) ?xs))"
    using assms(1)
  proof (cases rule: zset_at_Some_cases)
    case absent
    then show ?thesis by (simp add: store_zrange_by_score_def entry_live zin_range_def)
  next
    case (there e)
    then show ?thesis
      by (simp add: store_zrange_by_score_def entry_live page_def take_map f64_lt_def all
         zrange_scores_eq [OF zset_inv_ok [OF assms(2)]])
  qed
  then show ?thesis by (simp add: store_zrange_def)
qed

lemma zin_range_no_infinite:
  assumes "zset_inv m sc" "no_infinite m"
  shows "zin_range f64_neg_inf True f64_inf True sc = zlist sc"
  unfolding zin_range_def
proof (rule filter_True, rule)
  fix x assume x: "x \<in> set (zlist sc)"
  have nan: "\<not> f64_is_nan (snd x)" by (rule zlist_not_nan [OF zset_inv_ok [OF assms(1)] x])
  have "\<exists>score. (fst x, score) \<in> set (zlist sc) \<and> f64_rank score = f64_rank (snd x)"
    using x by (intro exI [of _ "snd x"]) simp
  then obtain s where s: "hm_get m (fst x) = Some s" "f64_rank s = f64_rank (snd x)"
    using zlist_members(2) [OF assms(1)] by blast
  then have "f64_mag s \<noteq> 0x7FF0000000000000"
    using assms(2) map_of_SomeD [OF s(1)] by (fastforce simp: no_infinite_def)
  then show "in_bounds f64_neg_inf True f64_inf True (snd x)"
    unfolding finite_in_bounds [OF nan] using rank_mag [OF s(2)] by simp
qed

lemma slice_one:
  assumes "j < length l" "small l"
  shows "slice l (int j) (int j) = [l ! j]"
proof -
  have j: "in_i64 (int j)" "0 < int (length l)" using assms by (auto simp: in_i64_def i64_max_def i64_min_def)
  have "range_start (int (length l)) (int j) = j" "range_stop (int (length l)) (int j) = j"
    using assms j by (simp_all add: range_start_eq range_stop_eq abs_index_def)
  with assms(1) show ?thesis by (simp add: slice_def hd_drop_conv_nth take_Suc)
qed

text \<open>
  ZRANK and ZRANGE.  When no score is infinite, the rank of a member is the position at which
  ZRANGE finds it: asking for the range from its rank to its rank gives that member alone.
\<close>

theorem zrank_zrange:
  assumes "zset_at now s i k = Some (m, sc)" and "zset_inv m sc" and "no_infinite m" and "small m"
    and "hm_get m x = Some score"
  shows "\<exists>r. store_zrank now s i k x = Inr (Some r) \<and> r < length m \<and>
           store_zrange now s i k (int r) (int r) False = Some (Inr [(x, None)])"
proof -
  have idx: "x \<in> index sc (f64_rank score)" and nan: "\<not> f64_is_nan score"
    using assms(2,5) by (auto simp: zset_inv_def)
  have bt: "f64_keys.bt_wf sc" by (rule zset_inv_ok [OF assms(2)])
  obtain j where j: "j < length (zlist sc)" "zrank_loop score x sc 0 = Some j" "fst (zlist sc ! j) = x"
    using zrank_loop_nth [OF bt nan idx, of 0] by auto
  have all: "zin_range f64_neg_inf True f64_inf True sc = zlist sc"
    by (rule zin_range_no_infinite [OF assms(2,3)])
  have le: "length (zlist sc) \<le> length m"
    using zin_range_facts(4) [OF assms(2), of f64_neg_inf True f64_inf True] unfolding all by simp
  have "store_zrank now s i k x = Inr (Some j)"
    using assms(1)
    by (cases rule: zset_at_Some_cases) (use assms(5) j(2) in \<open>auto simp: store_zrank_def entry_live\<close>)
  moreover have "store_zrange now s i k (int j) (int j) False = Some (Inr [(x, None)])"
    unfolding zrange_all [OF assms(1,2,4)] all using j le assms(4)
    by (subst slice_one) (auto simp: in_i64_def i64_min_def split: prod.splits)
  ultimately show ?thesis using j(1) le by auto
qed

theorem zrank_zrange_witness:
  "\<exists>r. store_zrank 0 (fst (store_zadd (store_new 1) 0 ''z'' [(0, ''a'')])) 0 ''z'' ''a'' = Inr (Some r)"
proof -
  let ?s = "fst (store_zadd (store_new 1) 0 ''z'' [(0, ''a'')])"
  have at: "zset_at 0 ?s 0 ''z'' = Some ([(''a'', 0)], [(0, [''a''])])"
    using zset_at_zadd [OF zset_at_new, of "[(0, ''a'')]"]
    by (simp add: scores_add_def hs_insert_def hm_insert_def)
  have "zset_inv [(''a'', 0)] [(0, [''a''])]"
    using zset_inv_add [OF zset_inv_empty, of 0 "''a''"]
    by (simp add: scores_add_def hs_insert_def hm_insert_def f64_is_nan_def f64_mag_def)
  from zrank_zrange [OF at this, of "''a''" 0] show ?thesis
    by (auto simp: no_infinite_def f64_mag_def in_i64_def i64_max_def i64_min_def)
qed

text \<open>
  ZRANGE leaves out every member whose score is infinite, because it asks for the scores
  strictly between the two infinities: ZADD accepts such a member, ZCARD counts it and ZSCORE
  returns its score, but no index range finds it.
\<close>

theorem zrange_misses_infinite:
  assumes "zset_at now s i k = Some (m, sc)" and "zset_inv m sc" and "small m"
    and "hm_get m x = Some f64_inf"
  shows "\<exists>out. store_zrange now s i k a b ws = Some (Inr out) \<and> x \<notin> fst ` set out"
proof -
  let ?xs = "zin_range f64_neg_inf True f64_inf True sc"
  have "x \<notin> fst ` set ?xs"
    unfolding zin_range_facts(3) [OF assms(2)] using assms(4) by (simp add: in_bounds_def f64_lt_def)
  moreover have "set (slice l a b) \<subseteq> set l" for l :: "(bytes \<times> f64 option) list"
    by (auto simp: slice_def Let_def dest: in_set_takeD in_set_dropD)
  then have "fst ` set (slice (map (\<lambda>(x, score). (x, if ws then Some score else None)) ?xs) a b)
      \<subseteq> fst ` set (map (\<lambda>(x, score). (x, if ws then Some score else None)) ?xs)" by (rule image_mono)
  moreover have "fst ` set (map (\<lambda>(x, score). (x, if ws then Some score else None)) xs) = fst ` set xs"
    for xs :: "(bytes \<times> f64) list" by (induction xs) auto
  ultimately show ?thesis unfolding zrange_all [OF assms(1-3)] by blast
qed

theorem zrange_misses_infinite_witness:
  "\<exists>out. store_zrange 0 (fst (store_zadd (store_new 1) 0 ''z'' [(f64_inf, ''a'')])) 0 ''z'' 0 (-1) False =
     Some (Inr out) \<and> ''a'' \<notin> fst ` set out"
proof -
  let ?s = "fst (store_zadd (store_new 1) 0 ''z'' [(f64_inf, ''a'')])"
  have at: "zset_at 0 ?s 0 ''z'' = Some ([(''a'', f64_inf)], [(f64_inf, [''a''])])"
    using zset_at_zadd [OF zset_at_new, of "[(f64_inf, ''a'')]"]
    by (simp add: scores_add_def hs_insert_def hm_insert_def)
  have "zset_inv [(''a'', f64_inf)] [(f64_inf, [''a''])]"
    using zset_inv_add [OF zset_inv_empty, of f64_inf "''a''"]
    by (simp add: scores_add_def hs_insert_def hm_insert_def)
  from zrange_misses_infinite [OF at this] show ?thesis
    by (simp add: in_i64_def i64_max_def i64_min_def)
qed

end
