(* ===== verification/StoreStream.thy ===== *)
theory StoreStream
  imports Store
begin

text \<open>
  The streams of \<open>store/memory.rs\<close>: XADD with the generation of identifiers, XRANGE, XREVRANGE,
  XLEN, XDEL, XTRIM and XREAD at the store level.  \<open>stream_inv\<close> is the invariant of a stream: the
  identifiers grow strictly and none is above the last identifier the stream remembers.

  \<open>last_seq + 1\<close> in \<open>generate_stream_id\<close> is an unchecked addition; the model wraps around, as the
  release build does.
\<close>

section \<open>Operations\<close>

definition get_stream_last_id :: "u64 \<Rightarrow> store \<Rightarrow> nat \<Rightarrow> bytes \<Rightarrow> u64 \<times> u64" where
  "get_stream_last_id now s db_idx key =
     (case entry_ref now s db_idx key of
        Inr (Some e) \<Rightarrow>
          (case ent_value e of StreamV entries last_ms last_seq \<Rightarrow> (last_ms, last_seq) | _ \<Rightarrow> (0, 0))
      | _ \<Rightarrow> (0, 0))"

definition generate_stream_id :: "u64 \<Rightarrow> store \<Rightarrow> nat \<Rightarrow> bytes \<Rightarrow> bytes \<Rightarrow> (u64 \<times> u64) res" where
  "generate_stream_id now s db_idx key id_str =
     (let idt = utf8_lossy id_str
      in if idt = ''*'' then
           (let (last_ms, last_seq) = get_stream_last_id now s db_idx key
            in if last_ms < now then Inr (now, 0) else Inr (last_ms, last_seq + 1))
         else
           (case splitn2 CHR ''-'' idt of
              [p0, p1] \<Rightarrow>
                (case parse_u64 p0 of
                   None \<Rightarrow> Inl NotInteger
                 | Some ms \<Rightarrow>
                     (if p1 = ''*'' then
                        (let (last_ms, last_seq) = get_stream_last_id now s db_idx key
                         in if ms = 0 \<and> last_seq = 0 then Inr (if ms = 0 then 1 else ms, 0)
                            else if last_ms < ms then Inr (ms, 0)
                            else Inr (ms, last_seq + 1))
                      else
                        (case parse_u64 p1 of
                           None \<Rightarrow> Inl NotInteger
                         | Some seq \<Rightarrow>
                             if ms = 0 \<and> seq = 0 then Inl StreamIDTooSmall else Inr (ms, seq))))
            | _ \<Rightarrow> Inl NotInteger))"

definition format_id :: "u64 \<Rightarrow> u64 \<Rightarrow> bytes" where
  "format_id ms seq = nat_to_string (unat ms) @ ''-'' @ nat_to_string (unat seq)"

text \<open>The validation step of \<open>xadd\<close>: the identifier is not above the last one of a live stream.\<close>

definition id_too_small :: "u64 \<Rightarrow> store \<Rightarrow> nat \<Rightarrow> bytes \<Rightarrow> u64 \<Rightarrow> u64 \<Rightarrow> bool" where
  "id_too_small now s db_idx key ms seq =
     (case entry_ref now s db_idx key of
        Inr (Some e) \<Rightarrow>
          (case ent_value e of
             StreamV entries last_ms last_seq \<Rightarrow> ms < last_ms \<or> (ms = last_ms \<and> seq \<le> last_seq)
           | _ \<Rightarrow> False)
      | _ \<Rightarrow> False)"

definition store_xadd ::
  "u64 \<Rightarrow> store \<Rightarrow> nat \<Rightarrow> bytes \<Rightarrow> bytes \<Rightarrow> (bytes \<times> bytes) list \<Rightarrow> nat option \<Rightarrow> store \<times> bytes res" where
  "store_xadd now s db_idx key id_str fvs maxlen =
     (case generate_stream_id now s db_idx key id_str of
        Inl err \<Rightarrow> (s, Inl err)
      | Inr (ms, seq) \<Rightarrow>
          (if id_too_small now s db_idx key ms seq then (s, Inl StreamIDTooSmall)
           else case db s db_idx of
             Inl err \<Rightarrow> (s, Inl err)
           | Inr d \<Rightarrow>
               (let e = entry_or_insert d key (StreamV [] 0 0)
                in case ent_value e of
                     StreamV entries last_ms last_seq \<Rightarrow>
                       (let entries' = entries @ [\<lparr>id_ms = ms, id_seq = seq, se_fields = fvs\<rparr>];
                            entries'' = (case maxlen of None \<Rightarrow> entries'
                                         | Some mx \<Rightarrow> drop (length entries' - mx) entries');
                            s' = put_entry s db_idx key (e\<lparr>ent_value := StreamV entries'' ms seq\<rparr>)
                        in (s'\<lparr>block_reg := notify (block_reg s') key\<rparr>, Inr (format_id ms seq)))
                   | _ \<Rightarrow> (put_entry s db_idx key e, Inl WrongType))))"

definition stream_entries :: "u64 \<Rightarrow> store \<Rightarrow> nat \<Rightarrow> bytes \<Rightarrow> stream_entry list res" where
  "stream_entries now s db_idx key =
     (case entry_ref now s db_idx key of
        Inl err \<Rightarrow> Inl err
      | Inr None \<Rightarrow> Inr []
      | Inr (Some e) \<Rightarrow> (case ent_value e of StreamV entries _ _ \<Rightarrow> Inr entries | _ \<Rightarrow> Inl WrongType))"

definition parse_stream_id :: "bytes \<Rightarrow> bool \<Rightarrow> u64 \<times> u64" where
  "parse_stream_id t is_start =
     (let t = utf8_lossy t
      in if t = ''-'' then (0, 0)
         else if t = ''+'' then (- 1, - 1)
         else if t = ''0'' \<or> t = ''0-0'' then (0, 0)
         else (let parts = splitn2 CHR ''-'' t;
                   ms = (case parse_u64 (hd parts) of None \<Rightarrow> 0 | Some m \<Rightarrow> m);
                   dflt = (if is_start then 0 else - 1);
                   seq = (case tl parts of
                            [] \<Rightarrow> dflt
                          | p # _ \<Rightarrow> (case parse_u64 p of None \<Rightarrow> dflt | Some q \<Rightarrow> q))
               in (ms, seq)))"

definition in_id_range :: "u64 \<times> u64 \<Rightarrow> u64 \<times> u64 \<Rightarrow> stream_entry \<Rightarrow> bool" where
  "in_id_range st en e \<longleftrightarrow>
     (fst st < id_ms e \<or> (id_ms e = fst st \<and> snd st \<le> id_seq e)) \<and>
     (id_ms e < fst en \<or> (id_ms e = fst en \<and> id_seq e \<le> snd en))"

text \<open>\<open>take(count.unwrap_or(usize::MAX))\<close>\<close>

definition take_opt :: "nat option \<Rightarrow> 'a list \<Rightarrow> 'a list" where
  "take_opt count xs = take (case count of None \<Rightarrow> u64_max | Some c \<Rightarrow> c) xs"

definition store_xrange ::
  "u64 \<Rightarrow> store \<Rightarrow> nat \<Rightarrow> bytes \<Rightarrow> bytes \<Rightarrow> bytes \<Rightarrow> nat option \<Rightarrow> stream_entry list res" where
  "store_xrange now s db_idx key start_str end_str count =
     (case stream_entries now s db_idx key of
        Inl err \<Rightarrow> Inl err
      | Inr all \<Rightarrow>
          Inr (take_opt count
                 (filter (in_id_range (parse_stream_id start_str True) (parse_stream_id end_str False)) all)))"

definition store_xrevrange ::
  "u64 \<Rightarrow> store \<Rightarrow> nat \<Rightarrow> bytes \<Rightarrow> bytes \<Rightarrow> bytes \<Rightarrow> nat option \<Rightarrow> stream_entry list res" where
  "store_xrevrange now s db_idx key end_str start_str count =
     (case stream_entries now s db_idx key of
        Inl err \<Rightarrow> Inl err
      | Inr all \<Rightarrow>
          (let result = rev (filter (in_id_range (parse_stream_id start_str True)
                                       (parse_stream_id end_str False)) all)
           in Inr (case count of None \<Rightarrow> result | Some c \<Rightarrow> take c result)))"

definition store_xlen :: "u64 \<Rightarrow> store \<Rightarrow> nat \<Rightarrow> bytes \<Rightarrow> nat res" where
  "store_xlen now s db_idx key =
     (case entry_ref now s db_idx key of
        Inl err \<Rightarrow> Inl err
      | Inr None \<Rightarrow> Inr 0
      | Inr (Some e) \<Rightarrow>
          (case ent_value e of StreamV entries _ _ \<Rightarrow> Inr (length entries) | _ \<Rightarrow> Inl WrongType))"

fun xdel_loop :: "bytes list \<Rightarrow> stream_entry list \<Rightarrow> nat \<Rightarrow> stream_entry list \<times> nat" where
  "xdel_loop [] entries removed = (entries, removed)"
| "xdel_loop (id_str # ids) entries removed =
     (let (ms, seq) = parse_stream_id id_str True
      in case position (\<lambda>e. id_ms e = ms \<and> id_seq e = seq) entries of
           Some pos \<Rightarrow> xdel_loop ids (remove_at pos entries) (removed + 1)
         | None \<Rightarrow> xdel_loop ids entries removed)"

definition store_xdel :: "u64 \<Rightarrow> store \<Rightarrow> nat \<Rightarrow> bytes \<Rightarrow> bytes list \<Rightarrow> store \<times> nat res" where
  "store_xdel now s db_idx key ids =
     (case entry_mut now s db_idx key of
        Inl err \<Rightarrow> (s, Inl err)
      | Inr None \<Rightarrow> (s, Inr 0)
      | Inr (Some e) \<Rightarrow>
          (case ent_value e of
             StreamV entries last_ms last_seq \<Rightarrow>
               (let (entries', removed) = xdel_loop ids entries 0
                in (put_entry s db_idx key (e\<lparr>ent_value := StreamV entries' last_ms last_seq\<rparr>), Inr removed))
           | _ \<Rightarrow> (s, Inl WrongType)))"

definition store_xtrim :: "u64 \<Rightarrow> store \<Rightarrow> nat \<Rightarrow> bytes \<Rightarrow> nat \<Rightarrow> store \<times> nat res" where
  "store_xtrim now s db_idx key maxlen =
     (case entry_mut now s db_idx key of
        Inl err \<Rightarrow> (s, Inl err)
      | Inr None \<Rightarrow> (s, Inr 0)
      | Inr (Some e) \<Rightarrow>
          (case ent_value e of
             StreamV entries last_ms last_seq \<Rightarrow>
               (let old_len = length entries;
                    to_remove = (if maxlen < old_len then old_len - maxlen else 0)
                in (put_entry s db_idx key
                      (e\<lparr>ent_value := StreamV (drop to_remove entries) last_ms last_seq\<rparr>), Inr to_remove))
           | _ \<Rightarrow> (s, Inl WrongType)))"

definition id_after :: "u64 \<Rightarrow> u64 \<Rightarrow> stream_entry \<Rightarrow> bool" where
  "id_after ms seq e \<longleftrightarrow> ms < id_ms e \<or> (id_ms e = ms \<and> seq < id_seq e)"

definition stream_entries_after ::
  "u64 \<Rightarrow> store \<Rightarrow> nat \<Rightarrow> bytes \<Rightarrow> u64 \<Rightarrow> u64 \<Rightarrow> nat option \<Rightarrow> stream_entry list res" where
  "stream_entries_after now s db_idx key after_ms after_seq count =
     (case stream_entries now s db_idx key of
        Inl err \<Rightarrow> Inl err
      | Inr all \<Rightarrow> Inr (take_opt count (filter (id_after after_ms after_seq) all)))"

fun xread_loop ::
  "u64 \<Rightarrow> store \<Rightarrow> nat \<Rightarrow> nat option \<Rightarrow> (u64 \<times> u64) list \<Rightarrow> bytes list \<Rightarrow> (bytes \<times> stream_entry list) list \<Rightarrow>
   (bytes \<times> stream_entry list) list res" where
  "xread_loop now s db_idx count ids [] result = Inr result"
| "xread_loop now s db_idx count ids (key # keys) result =
     (let (after_ms, after_seq) = (case ids of [] \<Rightarrow> (0, 0) | i # _ \<Rightarrow> i)
      in case stream_entries_after now s db_idx key after_ms after_seq count of
           Inl err \<Rightarrow> Inl err
         | Inr entries \<Rightarrow>
             xread_loop now s db_idx count (tl ids) keys
               (if entries \<noteq> [] then result @ [(key, entries)] else result))"

definition store_xread ::
  "u64 \<Rightarrow> store \<Rightarrow> nat \<Rightarrow> bytes list \<Rightarrow> (u64 \<times> u64) list \<Rightarrow> nat option \<Rightarrow> (bytes \<times> stream_entry list) list res" where
  "store_xread now s db_idx keys ids count = xread_loop now s db_idx count ids keys []"

section \<open>Frame\<close>

interpretation xadd: keyed_update "\<lambda>s i k. fst (store_xadd now s i k idt fvs mx)" for now idt fvs mx
  by unfold_locales
     (auto simp: store_xadd_def Let_def db_def lookup_simps valid_db_def [symmetric]
       intro!: store_wf_put value_wf_or_insert split: sum.splits storage_value.splits prod.splits)

interpretation xdel: keyed_update "\<lambda>s i k. fst (store_xdel now s i k ids)" for now ids
  by unfold_locales
     (auto simp: store_xdel_def lookup_simps dest!: entry_mut_SomeD intro!: store_wf_put
       split: sum.splits storage_value.splits option.splits prod.splits)

interpretation xtrim: keyed_update "\<lambda>s i k. fst (store_xtrim now s i k mx)" for now mx
  by unfold_locales
     (auto simp: store_xtrim_def lookup_simps Let_def dest!: entry_mut_SomeD intro!: store_wf_put
       split: sum.splits storage_value.splits option.splits)

section \<open>The order of the identifiers\<close>

definition sid :: "stream_entry \<Rightarrow> u64 \<times> u64" where
  "sid e = (id_ms e, id_seq e)"

definition stream_inv :: "stream_entry list \<Rightarrow> u64 \<times> u64 \<Rightarrow> bool" where
  "stream_inv entries lid \<longleftrightarrow> sorted_wrt (<) (map sid entries) \<and> (\<forall>e\<in>set entries. sid e \<le> lid)"

lemma id_after_sid: "id_after ms seq e \<longleftrightarrow> (ms, seq) < sid e"
  by (auto simp: id_after_def sid_def less_prod_def)

lemma in_id_range_sid: "in_id_range st en e \<longleftrightarrow> st \<le> sid e \<and> sid e \<le> en"
  by (cases st, cases en) (auto simp: in_id_range_def sid_def less_eq_prod_def)

lemma stream_inv_Nil [simp]: "stream_inv [] lid"
  by (simp add: stream_inv_def)

lemma stream_inv_snoc:
  "stream_inv entries lid \<Longrightarrow> lid < (ms, seq) \<Longrightarrow>
     stream_inv (entries @ [\<lparr>id_ms = ms, id_seq = seq, se_fields = fvs\<rparr>]) (ms, seq)"
  by (auto simp: stream_inv_def sorted_wrt_append sid_def) (use order.strict_trans1 order.trans in fastforce)+

lemma stream_inv_drop: "stream_inv entries lid \<Longrightarrow> stream_inv (drop n entries) lid"
  by (auto simp: stream_inv_def drop_map [symmetric] sorted_wrt_drop dest: in_set_dropD)

lemma stream_inv_remove_at: "stream_inv entries lid \<Longrightarrow> stream_inv (remove_at i entries) lid"
  using set_remove_at [of i entries]
  by (auto simp: stream_inv_def sorted_wrt_map intro: sorted_wrt_remove_at)

lemma stream_inv_xdel:
  "stream_inv entries lid \<Longrightarrow> stream_inv (fst (xdel_loop ids entries n)) lid"
  by (induction ids entries n rule: xdel_loop.induct)
     (auto simp: stream_inv_remove_at Let_def split: prod.splits option.splits)

text \<open>The stream under a key, with the last identifier it remembers.\<close>

definition stream_at :: "u64 \<Rightarrow> store \<Rightarrow> nat \<Rightarrow> bytes \<Rightarrow> (stream_entry list \<times> u64 \<times> u64) option" where
  "stream_at now s i k =
     (if \<not> valid_db s i then None
      else case raw s i k of
             None \<Rightarrow> Some ([], 0, 0)
           | Some e \<Rightarrow> if expired now e then None
                       else case ent_value e of StreamV es ms seq \<Rightarrow> Some (es, ms, seq) | _ \<Rightarrow> None)"

lemma stream_at_Some_cases:
  assumes "stream_at now s i k = Some (es, ms, seq)"
  obtains (absent) "valid_db s i" "live now s i k = None" "raw s i k = None" "es = []" "ms = 0" "seq = 0"
  | (there) e where "valid_db s i" "live now s i k = Some e" "ent_value e = StreamV es ms seq"
      "raw s i k = Some e" "\<not> expired now e"
  using assms by (auto simp: stream_at_def live_def split: option.splits if_splits storage_value.splits)

lemma stream_at_put:
  "valid_db s i \<Longrightarrow> \<not> expired now e \<Longrightarrow>
     stream_at now (put_entry s i k (e\<lparr>ent_value := StreamV es ms seq\<rparr>)) i k = Some (es, ms, seq)"
  by (simp add: stream_at_def lookup_simps expired_def)

lemma stream_at_block [simp]: "stream_at now (s\<lparr>block_reg := r\<rparr>) i k = stream_at now s i k"
  by (simp add: stream_at_def lookup_simps)

lemma stream_at_last: "stream_at now s i k = Some (es, ms, seq) \<Longrightarrow> get_stream_last_id now s i k = (ms, seq)"
  by (erule stream_at_Some_cases) (auto simp: get_stream_last_id_def entry_live)

lemma stream_at_entries: "stream_at now s i k = Some (es, ms, seq) \<Longrightarrow> stream_entries now s i k = Inr es"
  by (erule stream_at_Some_cases) (auto simp: stream_entries_def entry_live)

lemma generate_nonzero:
  assumes "get_stream_last_id now s i k = (0, 0)" "generate_stream_id now s i k idt = Inr v"
  shows "(0, 0) < v"
  using assms
  by (auto simp: generate_stream_id_def Let_def less_prod_def word_gt_0 not_less
      split: if_splits list.splits option.splits)

lemma id_too_small_at:
  assumes "stream_at now s i k = Some (es, ms, seq)" "generate_stream_id now s i k idt = Inr (a, b)"
  shows "id_too_small now s i k a b \<longleftrightarrow> (a, b) \<le> (ms, seq)"
  using assms(1)
proof (cases rule: stream_at_Some_cases)
  case absent
  with generate_nonzero [OF _ assms(2)] stream_at_last [OF assms(1)] show ?thesis
    by (auto simp: id_too_small_def entry_live leD)
next
  case (there e)
  then show ?thesis by (auto simp: id_too_small_def entry_live less_eq_prod_def)
qed

lemma store_xadd_ok:
  assumes at: "stream_at now s i k = Some (es, ms, seq)"
    and gen: "generate_stream_id now s i k idt = Inr (a, b)" and gt: "(ms, seq) < (a, b)"
  shows "snd (store_xadd now s i k idt fvs mx) = Inr (format_id a b) \<and>
     stream_at now (fst (store_xadd now s i k idt fvs mx)) i k =
       Some (let es' = es @ [\<lparr>id_ms = a, id_seq = b, se_fields = fvs\<rparr>]
             in (case mx of None \<Rightarrow> es' | Some m \<Rightarrow> drop (length es' - m) es', a, b))"
proof -
  have new: "\<not> id_too_small now s i k a b" using id_too_small_at [OF at gen] gt by (metis leD)
  from at show ?thesis
  proof (cases rule: stream_at_Some_cases)
    case absent
    with gen new show ?thesis
      by (simp add: store_xadd_def db_valid entry_or_insert_raw new_entry_def Let_def stream_at_def
          lookup_simps expired_def split: option.splits)
  next
    case (there e)
    with gen new show ?thesis
      by (simp add: store_xadd_def db_valid entry_or_insert_raw Let_def stream_at_put split: option.splits)
  qed
qed

section \<open>Identifiers in text form\<close>

lemma parse_u64_word: "parse_u64 (nat_to_string (unat w)) = Some w"
proof -
  have "unat w < 2 ^ 64" using unsigned_less [of w] by simp
  then have "unat w \<le> u64_max" by (simp add: u64_max_def)
  then show ?thesis by (simp add: parse_u64_def parse_u64_nat_to_string)
qed

lemma nat_to_string_no_dash: "CHR ''-'' \<notin> set (nat_to_string n)"
  by (rule not_in_nat_to_string) simp

lemma splitn2_format_id:
  "splitn2 CHR ''-'' (format_id a b) = [nat_to_string (unat a), nat_to_string (unat b)]"
  using splitn2_sep [OF nat_to_string_no_dash, of "unat a" "nat_to_string (unat b)"]
  by (simp add: format_id_def)

lemma ascii_append: "ascii (a @ b) \<longleftrightarrow> ascii a \<and> ascii b"
  by (auto simp: ascii_def)

lemma utf8_lossy_format_id: "utf8_lossy (format_id a b) = format_id a b"
  by (rule utf8_lossy_ascii) (simp add: format_id_def ascii_append, simp add: ascii_def byte_in_def)

lemma format_id_shape:
  "format_id a b \<noteq> ''-''" "format_id a b \<noteq> ''+''" "format_id a b \<noteq> ''0''" "format_id a b \<noteq> ''*''"
proof -
  have "nat_to_string (unat a) \<noteq> []" "nat_to_string (unat b) \<noteq> []" by simp_all
  then have "2 < length (format_id a b)"
    unfolding format_id_def by (cases "nat_to_string (unat a)"; cases "nat_to_string (unat b)") auto
  then show "format_id a b \<noteq> ''-''" "format_id a b \<noteq> ''+''" "format_id a b \<noteq> ''0''" "format_id a b \<noteq> ''*''"
    by auto
qed

lemma format_id_00: "format_id a b = ''0-0'' \<Longrightarrow> a = 0 \<and> b = 0"
proof -
  assume "format_id a b = ''0-0''"
  then have "splitn2 CHR ''-'' (format_id a b) = splitn2 CHR ''-'' (''0'' @ CHR ''-'' # ''0'')" by simp
  moreover have "splitn2 CHR ''-'' (''0'' @ CHR ''-'' # ''0'') = [''0'', ''0'']" by (rule splitn2_sep) simp
  ultimately have "nat_to_string (unat a) = ''0''" "nat_to_string (unat b) = ''0''"
    unfolding splitn2_format_id by simp_all
  moreover have "nat_to_string 0 = ''0''" by code_simp
  ultimately have "unat a = 0" "unat b = 0" by (metis nat_to_string_inject)+
  then show ?thesis by (simp add: unat_eq_0)
qed

lemma parse_format_id: "parse_stream_id (format_id a b) is_start = (a, b)"
  using format_id_shape [of a b] format_id_00 [of a b]
  by (auto simp: parse_stream_id_def utf8_lossy_format_id splitn2_format_id parse_u64_word Let_def)

section \<open>Properties\<close>

text \<open>
  C27: XADD.  When it returns an identifier, that identifier is the text of one above every
  identifier the stream has ever given, the entry is appended, the stream is cut from the front
  to the length asked for, and the order of the identifiers is kept.
\<close>

theorem xadd_monotone:
  assumes "stream_at now s i k = Some (es, ms, seq)" and "stream_inv es (ms, seq)"
    and "snd (store_xadd now s i k idt fvs mx) = Inr gid"
  shows "\<exists>a b es'. gid = format_id a b \<and> (ms, seq) < (a, b) \<and> (\<forall>e\<in>set es. sid e < (a, b)) \<and>
           stream_at now (fst (store_xadd now s i k idt fvs mx)) i k = Some (es', a, b) \<and>
           es' = (let all = es @ [\<lparr>id_ms = a, id_seq = b, se_fields = fvs\<rparr>]
                  in case mx of None \<Rightarrow> all | Some m \<Rightarrow> drop (length all - m) all) \<and>
           stream_inv es' (a, b)"
proof -
  obtain a b where gen: "generate_stream_id now s i k idt = Inr (a, b)"
    using assms(3) by (auto simp: store_xadd_def split: sum.splits)
  have "\<not> id_too_small now s i k a b"
    using assms(3) gen by (auto simp: store_xadd_def split: if_splits)
  then have gt: "(ms, seq) < (a, b)" using id_too_small_at [OF assms(1) gen] by (metis not_le)
  note ok = store_xadd_ok [OF assms(1) gen gt, of fvs mx]
  let ?all = "es @ [\<lparr>id_ms = a, id_seq = b, se_fields = fvs\<rparr>]"
  have "stream_inv (case mx of None \<Rightarrow> ?all | Some m \<Rightarrow> drop (length ?all - m) ?all) (a, b)"
    using stream_inv_snoc [OF assms(2) gt, of fvs] stream_inv_drop
    by (auto simp del: drop_append split: option.splits)
  moreover have "\<forall>e\<in>set es. sid e < (a, b)"
    by (rule ballI, rule order_le_less_trans [OF _ gt]) (use assms(2) in \<open>simp add: stream_inv_def\<close>)
  ultimately show ?thesis using ok assms(3) gt
    by (intro exI [of _ a] exI [of _ b]) (simp del: drop_append add: Let_def)
qed

lemma stream_at_new: "stream_at now (store_new 1) 0 k = Some ([], 0, 0)"
  by (simp add: stream_at_def valid_db_def raw_def store_new_def)

lemma generate_star:
  "stream_at now s i k = Some (es, ms, seq) \<Longrightarrow>
     generate_stream_id now s i k ''*'' =
       Inr (if ms < now then now else ms, if ms < now then 0 else seq + 1)"
proof -
  assume "stream_at now s i k = Some (es, ms, seq)"
  moreover have "utf8_lossy ''*'' = ''*''" by (rule utf8_lossy_ascii) (simp add: ascii_def byte_in_def)
  ultimately show ?thesis
    by (simp add: generate_stream_id_def stream_at_last Let_def del: utf8_lossy.simps)
qed

text \<open>
  XADD with \<open>*\<close> always succeeds on a stream, unless the clock is not ahead of the last
  identifier and its sequence number is the largest there is: the new identifier is the clock
  reading with sequence number 0, or the last identifier with its sequence number plus one when
  the clock has not moved on.
\<close>

theorem xadd_auto_succeeds:
  assumes "stream_at now s i k = Some (es, ms, seq)" and "ms < now \<or> seq \<noteq> - 1"
  shows "snd (store_xadd now s i k ''*'' fvs mx) =
           Inr (if ms < now then format_id now 0 else format_id ms (seq + 1))"
proof -
  have "(ms, seq) < (if ms < now then now else ms, if ms < now then 0 else seq + 1)"
    using assms(2) by (auto simp: less_prod_def word_less_Suc)
  with store_xadd_ok [OF assms(1) generate_star [OF assms(1)]] show ?thesis by auto
qed

theorem xadd_auto_succeeds_witness:
  "snd (store_xadd 1700 (store_new 1) 0 ''s'' ''*'' [(''f'', ''v'')] None) = Inr ''1700-0''"
proof -
  have "format_id 1700 0 = ''1700-0''" by code_simp
  with xadd_auto_succeeds [OF stream_at_new, of 1700 "''s''" "[(''f'', ''v'')]" None] show ?thesis by simp
qed

theorem xadd_monotone_witness:
  "\<exists>a b es'. (0, 0) < (a, b) \<and>
     stream_at 1700 (fst (store_xadd 1700 (store_new 1) 0 ''s'' ''*'' [] None)) 0 ''s'' = Some (es', a, b) \<and>
     stream_inv es' (a, b)"
proof -
  have "(0, 0) < (1700 :: u64, 0 :: u64)" by (simp add: less_prod_def)
  then have "snd (store_xadd 1700 (store_new 1) 0 ''s'' ''*'' [] None) = Inr (format_id 1700 0)"
    using store_xadd_ok [OF stream_at_new generate_star [OF stream_at_new]] by simp
  from xadd_monotone [OF stream_at_new stream_inv_Nil this] show ?thesis by blast
qed

text \<open>
  XRANGE and XREVRANGE.  Between two identifiers written as XADD returns them, XRANGE gives
  exactly the entries within the bounds in ascending order, XREVRANGE the same in descending
  order, and a count keeps the first ones of each.
\<close>

theorem xrange_exact:
  assumes "stream_at now s i k = Some (es, ms, seq)" and "length es \<le> u64_max"
  shows "store_xrange now s i k (format_id a b) (format_id c d) count =
           Inr ((case count of None \<Rightarrow> id | Some n \<Rightarrow> take n)
                  (filter (\<lambda>e. (a, b) \<le> sid e \<and> sid e \<le> (c, d)) es)) \<and>
         store_xrevrange now s i k (format_id c d) (format_id a b) count =
           Inr ((case count of None \<Rightarrow> id | Some n \<Rightarrow> take n)
                  (rev (filter (\<lambda>e. (a, b) \<le> sid e \<and> sid e \<le> (c, d)) es)))"
proof -
  have "length (filter P es) \<le> u64_max" for P
    using assms(2) length_filter_le [of P es] by (rule order_trans [rotated])
  then show ?thesis
    using stream_at_entries [OF assms(1)]
    by (auto simp: store_xrange_def store_xrevrange_def parse_format_id in_id_range_sid [abs_def]
        take_opt_def Let_def split: option.splits)
qed

theorem xrange_exact_witness:
  "store_xrange 9 (store_new 1) 0 ''s'' (format_id 1 0) (format_id 5 0) None = Inr []"
  using xrange_exact [OF stream_at_new, of 9 "''s''" 1 0 5 0 None] by simp

lemma page_after_last:
  assumes "sorted_wrt (<) (map sid es)" "n \<le> length (filter (id_after a b) es)" "0 < n"
    and l: "l = sid (last (take n (filter (id_after a b) es)))"
  shows "take n (filter (id_after a b) es) @ filter (id_after (fst l) (snd l)) es = filter (id_after a b) es"
proof -
  let ?F = "filter (id_after a b) es"
  have sF: "sorted_wrt (\<lambda>x y. sid x < sid y) ?F"
    using assms(1) by (auto simp: sorted_wrt_map intro: sorted_wrt_filter)
  have len: "n - 1 < length ?F" using assms(2,3) by linarith
  then have l': "l = sid (?F ! (n - 1))"
    using assms(2,3) l by (subst (asm) last_conv_nth) (auto simp: min_def)
  have "?F ! (n - 1) \<in> set ?F" using len by (rule nth_mem)
  then have ab: "(a, b) < l" using l' by (auto simp: id_after_sid)
  have "filter (id_after (fst l) (snd l)) es = filter (\<lambda>e. l < sid e) ?F"
    using ab by (auto simp: id_after_sid intro!: filter_cong)
  also have "?F = take n ?F @ drop n ?F" by simp
  also have "filter (\<lambda>e. l < sid e) (take n ?F @ drop n ?F) = drop n ?F"
  proof -
    have "\<not> l < sid x" if x: "x \<in> set (take n ?F)" for x
    proof -
      obtain j where "j < length (take n ?F)" "x = take n ?F ! j" using x unfolding in_set_conv_nth by blast
      then have "j < n" "x = ?F ! j" by simp_all
      then show ?thesis using sorted_wrt_nth_less [OF sF, of j "n - 1"] len l'
        by (cases "j = n - 1") (auto simp: not_less intro: less_imp_le)
    qed
    moreover have "l < sid x" if x: "x \<in> set (drop n ?F)" for x
    proof -
      obtain j where "j < length ?F - n" "x = ?F ! (n + j)" using x by (auto simp: in_set_conv_nth)
      then show ?thesis using sorted_wrt_nth_less [OF sF, of "n - 1" "n + j"] l' assms(3) by simp
    qed
    ultimately show ?thesis by (simp del: append_take_drop_id)
  qed
  finally show ?thesis by (metis append_take_drop_id)
qed

text \<open>
  Reading a stream page by page.  A non-empty page read with a count after some identifier,
  followed by everything read after the last identifier of that page, is everything after the
  first identifier: a reader that passes on the last identifier it has seen misses nothing and
  sees nothing twice.
\<close>

theorem xread_pages:
  assumes "stream_at now s i k = Some (es, ms, seq)" and "stream_inv es (ms, seq)"
    and "length es \<le> u64_max"
    and "stream_entries_after now s i k a b (Some n) = Inr pg" and "pg \<noteq> []"
  shows "\<exists>rest. stream_entries_after now s i k (id_ms (last pg)) (id_seq (last pg)) None = Inr rest \<and>
           stream_entries_after now s i k a b None = Inr (pg @ rest)"
proof -
  let ?F = "filter (id_after a b) es"
  have all: "take_opt None (filter P es) = filter P es" for P
    using order_trans [OF length_filter_le assms(3)] by (simp add: take_opt_def)
  have pg: "pg = take n ?F"
    using assms(4) stream_at_entries [OF assms(1)] by (simp add: stream_entries_after_def take_opt_def)
  define m where "m = min n (length ?F)"
  have "pg = take m ?F" "0 < m" "m \<le> length ?F" using pg assms(5) by (auto simp: m_def min_def)
  with page_after_last [of es m a b "sid (last pg)"] assms(2) show ?thesis
    using stream_at_entries [OF assms(1)]
    by (simp add: stream_entries_after_def all stream_inv_def sid_def)
qed

theorem xread_pages_witness:
  "let s = fst (store_xadd 7 (store_new 1) 0 ''s'' ''*'' [] None) in
     stream_entries_after 7 s 0 ''s'' 0 0 None =
       Inr [\<lparr>id_ms = 7, id_seq = 0, se_fields = []\<rparr>]"
proof -
  let ?s = "fst (store_xadd 7 (store_new 1) 0 ''s'' ''*'' [] None)"
  let ?e = "\<lparr>id_ms = 7, id_seq = 0, se_fields = []\<rparr>"
  have lt: "(0, 0) < (7 :: u64, 0 :: u64)" by (simp add: less_prod_def)
  have at: "stream_at 7 ?s 0 ''s'' = Some ([?e], 7, 0)"
    using store_xadd_ok [OF stream_at_new generate_star [OF stream_at_new], of 7 "''s''" "[]" None] lt by simp
  have inv: "stream_inv [?e] (7, 0)" using stream_inv_snoc [OF stream_inv_Nil lt, of "[]"] by simp
  have "stream_entries_after 7 ?s 0 ''s'' 0 0 (Some 1) = Inr [?e]"
    using stream_at_entries [OF at] by (simp add: stream_entries_after_def id_after_def take_opt_def)
  from xread_pages [OF at inv _ this] have "\<exists>rest. stream_entries_after 7 ?s 0 ''s'' 0 0 None = Inr ([?e] @ rest)"
    by (auto simp: u64_max_def)
  then show ?thesis
    using stream_at_entries [OF at]
    by (auto simp: stream_entries_after_def id_after_def take_opt_def u64_max_def)
qed

end
