(* ===== verification/StoreGroup.thy ===== *)
theory StoreGroup
  imports StoreStream
begin

text \<open>
  The consumer groups of \<open>store/memory.rs\<close>: creation and destruction of groups and consumers,
  XREADGROUP, XACK, XPENDING and XCLAIM at the store level.  A group keeps the identifier it has
  delivered up to and the pending entries list (PEL), an ordered map from the identifiers that
  were delivered and not acknowledged to the consumer that has them.  \<open>pel\<close> is that map as a
  function.
\<close>

section \<open>Operations\<close>

type_synonym group_key = "nat \<times> bytes \<times> bytes"

record pending_detail =
  pd_id_ms :: u64
  pd_id_seq :: u64
  pd_consumer :: bytes
  pd_idle_ms :: u64
  pd_delivery_count :: u64

record pending_summary =
  ps_count :: nat
  ps_min_id :: "(u64 \<times> u64) option"
  ps_max_id :: "(u64 \<times> u64) option"
  ps_per_consumer :: "(bytes \<times> nat) list"

datatype read_group_start = NewEntries | History u64 u64

definition no_group :: velodb_error where
  "no_group = Internal ''NOGROUP No such consumer group''"

definition cg_key :: "nat \<Rightarrow> bytes \<Rightarrow> bytes \<Rightarrow> group_key" where
  "cg_key db_idx key grp = (db_idx, key, grp)"

definition put_group :: "store \<Rightarrow> group_key \<Rightarrow> consumer_group \<Rightarrow> store" where
  "put_group s gk cg = s\<lparr>consumer_groups := hm_insert gk cg (consumer_groups s)\<rparr>"

definition is_stream :: "u64 \<Rightarrow> store \<Rightarrow> nat \<Rightarrow> bytes \<Rightarrow> bool" where
  "is_stream now s db_idx key = (get_type now s db_idx key = Inr (Some ''stream''))"

definition xgroup_needs_key :: velodb_error where
  "xgroup_needs_key = Internal (''ERR The XGROUP subcommand requires the key to exist. Note that for ''
     @ ''CREATE you may want to use the MKSTREAM option to create an empty stream automatically.'')"

definition xgroup_create ::
  "u64 \<Rightarrow> store \<Rightarrow> nat \<Rightarrow> bytes \<Rightarrow> bytes \<Rightarrow> bytes \<Rightarrow> bool \<Rightarrow> store \<times> unit res" where
  "xgroup_create now s db_idx key grp start_id mkstream =
     (case store_exists now s db_idx key of
        Inl err \<Rightarrow> (s, Inl err)
      | Inr ex \<Rightarrow>
          (if \<not> ex \<and> \<not> mkstream then (s, Inl xgroup_needs_key)
           else if ex \<and> \<not> is_stream now s db_idx key then (s, Inl WrongType)
           else
             (let s1 = (if \<not> ex then put_entry s db_idx key (new_entry (StreamV [] 0 0)) else s);
                  (start_ms, start_seq) =
                    (if start_id = ''$'' then get_stream_last_id now s1 db_idx key
                     else parse_stream_id start_id True)
              in (put_group s1 (cg_key db_idx key grp) (consumer_group_new start_ms start_seq), Inr ()))))"

definition xgroup_destroy :: "store \<Rightarrow> nat \<Rightarrow> bytes \<Rightarrow> bytes \<Rightarrow> store \<times> bool res" where
  "xgroup_destroy s db_idx key grp =
     (s\<lparr>consumer_groups := hm_remove (cg_key db_idx key grp) (consumer_groups s)\<rparr>,
      Inr (hm_get (consumer_groups s) (cg_key db_idx key grp) \<noteq> None))"

definition xgroup_create_consumer ::
  "store \<Rightarrow> nat \<Rightarrow> bytes \<Rightarrow> bytes \<Rightarrow> bytes \<Rightarrow> store \<times> bool res" where
  "xgroup_create_consumer s db_idx key grp cname =
     (case hm_get (consumer_groups s) (cg_key db_idx key grp) of
        Some cg \<Rightarrow>
          (put_group s (cg_key db_idx key grp) (cg\<lparr>consumers := hs_insert cname (consumers cg)\<rparr>),
           Inr (\<not> hs_contains (consumers cg) cname))
      | None \<Rightarrow> (s, Inl no_group))"

definition xgroup_del_consumer ::
  "store \<Rightarrow> nat \<Rightarrow> bytes \<Rightarrow> bytes \<Rightarrow> bytes \<Rightarrow> store \<times> nat res" where
  "xgroup_del_consumer s db_idx key grp cname =
     (case hm_get (consumer_groups s) (cg_key db_idx key grp) of
        Some cg \<Rightarrow>
          (let count = length (filter (\<lambda>(_, p). consumer p = cname) (pending cg));
               cg' = cg\<lparr>consumers := hs_remove cname (consumers cg),
                        pending := filter (\<lambda>(_, p). consumer p \<noteq> cname) (pending cg)\<rparr>
           in (put_group s (cg_key db_idx key grp) cg', Inr count))
      | None \<Rightarrow> (s, Inl no_group))"

fun pel_deliver ::
  "u64 \<Rightarrow> bytes \<Rightarrow> stream_entry list \<Rightarrow> (u64 \<times> u64, pending_entry) btmap \<Rightarrow> (u64 \<times> u64, pending_entry) btmap" where
  "pel_deliver now cname [] p = p"
| "pel_deliver now cname (e # es) p =
     pel_deliver now cname es
       (bt_insert id_cmp (id_ms e, id_seq e)
          \<lparr>consumer = cname, delivery_time_ms = now, delivery_count = 1\<rparr> p)"

definition xreadgroup ::
  "u64 \<Rightarrow> store \<Rightarrow> nat \<Rightarrow> bytes \<Rightarrow> bytes \<Rightarrow> bytes \<Rightarrow> read_group_start \<Rightarrow> nat option \<Rightarrow> bool \<Rightarrow>
   store \<times> stream_entry list res" where
  "xreadgroup now s db_idx key grp cname start count noack =
     (case store_exists now s db_idx key of
        Inl err \<Rightarrow> (s, Inl err)
      | Inr ex \<Rightarrow>
          (if \<not> is_stream now s db_idx key \<and> ex then (s, Inl WrongType)
           else case hm_get (consumer_groups s) (cg_key db_idx key grp) of
             None \<Rightarrow> (s, Inl no_group)
           | Some cg \<Rightarrow>
               (let cg1 = cg\<lparr>consumers := hs_insert cname (consumers cg)\<rparr>;
                    s1 = put_group s (cg_key db_idx key grp) cg1
                in case start of
                     NewEntries \<Rightarrow>
                       (case stream_entries_after now s1 db_idx key
                               (last_delivered_ms cg1) (last_delivered_seq cg1) count of
                          Inl err \<Rightarrow> (s1, Inl err)
                        | Inr entries \<Rightarrow>
                            (if entries \<noteq> [] then
                               (let cg2 = cg1\<lparr>last_delivered_ms := id_ms (last entries),
                                              last_delivered_seq := id_seq (last entries)\<rparr>;
                                    cg3 = (if \<not> noack
                                           then cg2\<lparr>pending := pel_deliver now cname entries (pending cg2)\<rparr>
                                           else cg2)
                                in (put_group s1 (cg_key db_idx key grp) cg3, Inr entries))
                             else (s1, Inr entries)))
                   | History after_ms after_seq \<Rightarrow>
                       (let ids = take_opt count (map fst (filter (\<lambda>(i, p). consumer p = cname \<and>
                                    (after_ms < fst i \<or> (fst i = after_ms \<and> after_seq < snd i))) (pending cg1)))
                        in case stream_entries now s1 db_idx key of
                             Inl err \<Rightarrow> (s1, Inl err)
                           | Inr all \<Rightarrow> (s1, Inr (filter (\<lambda>e. (id_ms e, id_seq e) \<in> set ids) all))))))"

fun xack_loop ::
  "(u64 \<times> u64) list \<Rightarrow> (u64 \<times> u64, pending_entry) btmap \<Rightarrow> nat \<Rightarrow> (u64 \<times> u64, pending_entry) btmap \<times> nat" where
  "xack_loop [] p acked = (p, acked)"
| "xack_loop (i # ids) p acked =
     xack_loop ids (bt_remove id_cmp i p) (if bt_get id_cmp i p \<noteq> None then acked + 1 else acked)"

definition store_xack :: "store \<Rightarrow> nat \<Rightarrow> bytes \<Rightarrow> bytes \<Rightarrow> (u64 \<times> u64) list \<Rightarrow> store \<times> nat res" where
  "store_xack s db_idx key grp ids =
     (case hm_get (consumer_groups s) (cg_key db_idx key grp) of
        Some cg \<Rightarrow>
          (let (p', acked) = xack_loop ids (pending cg) 0
           in (put_group s (cg_key db_idx key grp) (cg\<lparr>pending := p'\<rparr>), Inr acked))
      | None \<Rightarrow> (s, Inr 0))"

definition xpending_summary :: "store \<Rightarrow> nat \<Rightarrow> bytes \<Rightarrow> bytes \<Rightarrow> pending_summary res" where
  "xpending_summary s db_idx key grp =
     (case hm_get (consumer_groups s) (cg_key db_idx key grp) of
        Some cg \<Rightarrow>
          (if pending cg = []
           then Inr \<lparr>ps_count = 0, ps_min_id = None, ps_max_id = None, ps_per_consumer = []\<rparr>
           else Inr \<lparr>ps_count = length (pending cg),
                     ps_min_id = Some (fst (hd (pending cg))),
                     ps_max_id = Some (fst (last (pending cg))),
                     ps_per_consumer =
                       foldl (\<lambda>m (_, p). hm_insert (consumer p)
                          ((case hm_get m (consumer p) of None \<Rightarrow> 0 | Some c \<Rightarrow> c) + 1) m) [] (pending cg)\<rparr>)
      | None \<Rightarrow> Inl no_group)"

definition xpending_range ::
  "u64 \<Rightarrow> store \<Rightarrow> nat \<Rightarrow> bytes \<Rightarrow> bytes \<Rightarrow> u64 \<times> u64 \<Rightarrow> u64 \<times> u64 \<Rightarrow> nat \<Rightarrow> bytes option \<Rightarrow>
   pending_detail list res" where
  "xpending_range now s db_idx key grp start en count consumer_filter =
     (case hm_get (consumer_groups s) (cg_key db_idx key grp) of
        Some cg \<Rightarrow>
          Inr (map (\<lambda>(i, p). \<lparr>pd_id_ms = fst i, pd_id_seq = snd i, pd_consumer = consumer p,
                              pd_idle_ms = saturating_sub now (delivery_time_ms p),
                              pd_delivery_count = delivery_count p\<rparr>)
                 (take count
                    (filter (\<lambda>(_, p). case consumer_filter of None \<Rightarrow> True | Some c \<Rightarrow> consumer p = c)
                       (filter (\<lambda>(i, _). start \<le> i \<and> i \<le> en) (pending cg)))))
      | None \<Rightarrow> Inl no_group)"

fun xclaim_loop ::
  "u64 \<Rightarrow> bytes \<Rightarrow> u64 \<Rightarrow> (u64 \<times> u64) list \<Rightarrow> (u64 \<times> u64, pending_entry) btmap \<Rightarrow> (u64 \<times> u64) list \<Rightarrow>
   (u64 \<times> u64, pending_entry) btmap \<times> (u64 \<times> u64) list" where
  "xclaim_loop now cname min_idle [] p claimed = (p, claimed)"
| "xclaim_loop now cname min_idle (i # ids) p claimed =
     (case bt_get id_cmp i p of
        Some pe \<Rightarrow>
          (if min_idle \<le> saturating_sub now (delivery_time_ms pe) then
             xclaim_loop now cname min_idle ids
               (bt_insert id_cmp i (pe\<lparr>consumer := cname, delivery_time_ms := now,
                                       delivery_count := delivery_count pe + 1\<rparr>) p)
               (claimed @ [i])
           else xclaim_loop now cname min_idle ids p claimed)
      | None \<Rightarrow> xclaim_loop now cname min_idle ids p claimed)"

definition store_xclaim ::
  "u64 \<Rightarrow> store \<Rightarrow> nat \<Rightarrow> bytes \<Rightarrow> bytes \<Rightarrow> bytes \<Rightarrow> u64 \<Rightarrow> (u64 \<times> u64) list \<Rightarrow> bool \<Rightarrow> bool \<Rightarrow>
   store \<times> stream_entry list res" where
  "store_xclaim now s db_idx key grp cname min_idle_ms ids force justid =
     (case hm_get (consumer_groups s) (cg_key db_idx key grp) of
        None \<Rightarrow> (s, Inl no_group)
      | Some cg \<Rightarrow>
          (let (p', claimed) = xclaim_loop now cname min_idle_ms ids (pending cg) [];
               s' = put_group s (cg_key db_idx key grp)
                      (cg\<lparr>consumers := hs_insert cname (consumers cg), pending := p'\<rparr>)
           in if justid \<or> claimed = []
              then (s', Inr (map (\<lambda>i. \<lparr>id_ms = fst i, id_seq = snd i, se_fields = []\<rparr>) claimed))
              else case stream_entries now s' db_idx key of
                     Inl err \<Rightarrow> (s', Inl err)
                   | Inr all \<Rightarrow> (s', Inr (filter (\<lambda>e. (id_ms e, id_seq e) \<in> set claimed) all))))"

section \<open>The pending entries list\<close>

definition group_at :: "store \<Rightarrow> nat \<Rightarrow> bytes \<Rightarrow> bytes \<Rightarrow> consumer_group option" where
  "group_at s i k g = hm_get (consumer_groups s) (i, k, g)"

definition pel :: "consumer_group \<Rightarrow> u64 \<times> u64 \<Rightarrow> pending_entry option" where
  "pel cg = id_keys.bt_fun (pending cg)"

definition group_wf :: "consumer_group \<Rightarrow> bool" where
  "group_wf cg \<longleftrightarrow> id_keys.bt_wf (pending cg)"

lemma group_at_put [simp]:
  "group_at (put_group s (cg_key i k g) cg) i' k' g' =
     (if i' = i \<and> k' = k \<and> g' = g then Some cg else group_at s i' k' g')"
  by (auto simp: group_at_def put_group_def cg_key_def)

lemma put_group_raw [simp]:
  "raw (put_group s gk cg) i k = raw s i k" "valid_db (put_group s gk cg) i = valid_db s i"
  by (simp_all add: put_group_def lookup_simps)

lemma stream_at_put_group [simp]: "stream_at now (put_group s gk cg) i k = stream_at now s i k"
  by (simp add: stream_at_def)

lemma pel_deliver_fun:
  "id_keys.bt_wf p \<Longrightarrow>
     id_keys.bt_wf (pel_deliver now cname es p) \<and>
     id_keys.bt_fun (pel_deliver now cname es p) i =
       (if i \<in> sid ` set es
        then Some \<lparr>consumer = cname, delivery_time_ms = now, delivery_count = 1\<rparr>
        else id_keys.bt_fun p i)"
  by (induction es arbitrary: p)
     (auto simp: id_keys.bt_wf_insert id_keys.bt_fun_insert sid_def)

lemma xack_loop_spec:
  "id_keys.bt_wf p \<Longrightarrow> xack_loop ids p n = (p', acked) \<Longrightarrow>
     id_keys.bt_wf p' \<and> id_keys.bt_fun p' = id_keys.bt_fun p |` (- set ids) \<and>
     acked = n + card (set ids \<inter> dom (id_keys.bt_fun p))"
proof (induction ids arbitrary: p n)
  case Nil
  then show ?case by simp
next
  case (Cons i ids)
  let ?p = "bt_remove id_cmp i p"
  have f: "id_keys.bt_fun ?p = (id_keys.bt_fun p)(i := None)"
    using id_keys.bt_fun_remove [OF TrueI Cons.prems(1), of i] .
  have g: "bt_get id_cmp i p = id_keys.bt_fun p i"
    using id_keys.bt_get_fun [OF Cons.prems(1) TrueI, of i] .
  have "xack_loop ids ?p (if id_keys.bt_fun p i \<noteq> None then n + 1 else n) = (p', acked)"
    using Cons.prems(2) by (simp add: g)
  note IH = Cons.IH [OF id_keys.bt_wf_remove [OF Cons.prems(1)] this]
  have r: "id_keys.bt_fun ?p |` (- set ids) = id_keys.bt_fun p |` (- set (i # ids))"
    unfolding f by (auto simp: restrict_map_def fun_eq_iff)
  have d: "set ids \<inter> dom (id_keys.bt_fun ?p) = set ids \<inter> dom (id_keys.bt_fun p) - {i}"
    unfolding f by auto
  have "card (set (i # ids) \<inter> dom (id_keys.bt_fun p)) =
      (if id_keys.bt_fun p i \<noteq> None then 1 else 0) + card (set ids \<inter> dom (id_keys.bt_fun ?p))"
  proof (cases "id_keys.bt_fun p i")
    case None
    then have "set (i # ids) \<inter> dom (id_keys.bt_fun p) = set ids \<inter> dom (id_keys.bt_fun ?p)"
      unfolding d by auto
    then show ?thesis using None by simp
  next
    case (Some v)
    then have "set (i # ids) \<inter> dom (id_keys.bt_fun p) = insert i (set ids \<inter> dom (id_keys.bt_fun ?p))"
      unfolding d by auto
    then show ?thesis using Some d by (simp add: card.insert_remove)
  qed
  then show ?case using IH r by (simp split: if_splits)
qed

lemma xclaim_loop_spec:
  "id_keys.bt_wf p \<Longrightarrow> xclaim_loop now cname mi ids p cl = (p', cl') \<Longrightarrow>
     id_keys.bt_wf p' \<and> dom (id_keys.bt_fun p') = dom (id_keys.bt_fun p) \<and>
     (\<exists>new. cl' = cl @ new \<and> set new \<subseteq> set ids \<inter> dom (id_keys.bt_fun p) \<and>
        (\<forall>i. i \<notin> set new \<longrightarrow> id_keys.bt_fun p' i = id_keys.bt_fun p i) \<and>
        (\<forall>i \<in> set new. \<exists>pe. id_keys.bt_fun p' i = Some pe \<and> consumer pe = cname \<and> delivery_time_ms pe = now))"
proof (induction ids arbitrary: p cl)
  case Nil
  then show ?case by auto
next
  case (Cons i ids)
  have g: "bt_get id_cmp i p = id_keys.bt_fun p i"
    using id_keys.bt_get_fun [OF Cons.prems(1) TrueI, of i] .
  show ?case
  proof (cases "\<exists>pe. id_keys.bt_fun p i = Some pe \<and> mi \<le> saturating_sub now (delivery_time_ms pe)")
    case False
    then have "xclaim_loop now cname mi ids p cl = (p', cl')"
      using Cons.prems(2) g by (auto split: option.splits)
    from Cons.IH [OF Cons.prems(1) this] show ?thesis by auto
  next
    case True
    then obtain pe where pe: "id_keys.bt_fun p i = Some pe" "mi \<le> saturating_sub now (delivery_time_ms pe)"
      by blast
    define v where "v = pe\<lparr>consumer := cname, delivery_time_ms := now, delivery_count := delivery_count pe + 1\<rparr>"
    let ?p = "bt_insert id_cmp i v p"
    have f: "id_keys.bt_fun ?p = (id_keys.bt_fun p)(i \<mapsto> v)"
      using id_keys.bt_fun_insert [OF TrueI Cons.prems(1)] .
    have v: "consumer v = cname" "delivery_time_ms v = now" by (simp_all add: v_def)
    have "xclaim_loop now cname mi ids ?p (cl @ [i]) = (p', cl')"
      using Cons.prems(2) g pe by (simp add: v_def)
    from Cons.IH [OF id_keys.bt_wf_insert [OF TrueI Cons.prems(1)] this] obtain new where
      new: "id_keys.bt_wf p'" "dom (id_keys.bt_fun p') = dom (id_keys.bt_fun ?p)"
        "cl' = (cl @ [i]) @ new" "set new \<subseteq> set ids \<inter> dom (id_keys.bt_fun ?p)"
        "\<forall>j. j \<notin> set new \<longrightarrow> id_keys.bt_fun p' j = id_keys.bt_fun ?p j"
        "\<forall>j\<in>set new. \<exists>pe. id_keys.bt_fun p' j = Some pe \<and> consumer pe = cname \<and> delivery_time_ms pe = now"
      by blast
    have d: "dom (id_keys.bt_fun ?p) = dom (id_keys.bt_fun p)" unfolding f using pe(1) by auto
    have i: "\<exists>pe. id_keys.bt_fun p' i = Some pe \<and> consumer pe = cname \<and> delivery_time_ms pe = now"
      using new(5) [rule_format, of i] new(6) v by (cases "i \<in> set new") (simp_all add: f)
    show ?thesis
      using new i pe(1) unfolding d by (intro conjI exI [of _ "i # new"]) (auto simp: f)
  qed
qed

section \<open>Properties\<close>

lemma id_after_filter: "filter (id_after a b) es = filter (\<lambda>e. (a, b) < sid e) es"
  by (simp only: id_after_sid [abs_def])

lemma is_stream_at:
  "stream_at now s i k = Some (es, ms, seq) \<Longrightarrow>
     store_exists now s i k = Inr (raw s i k \<noteq> None) \<and> (raw s i k \<noteq> None \<longrightarrow> is_stream now s i k)"
  by (erule stream_at_Some_cases) (auto simp: store_exists_def is_stream_def get_type_def entry_live)

lemma xreadgroup_new_eq:
  assumes "stream_at now s i k = Some (es, ms, seq)" and "group_at s i k g = Some cg"
  shows "xreadgroup now s i k g c NewEntries count noack =
     (let cg1 = cg\<lparr>consumers := hs_insert c (consumers cg)\<rparr>;
          out = take_opt count (filter (id_after (last_delivered_ms cg) (last_delivered_seq cg)) es);
          s1 = put_group s (cg_key i k g) cg1;
          cg2 = cg1\<lparr>last_delivered_ms := id_ms (last out), last_delivered_seq := id_seq (last out)\<rparr>
      in (if out = [] then s1
          else put_group s1 (cg_key i k g)
                 (if noack then cg2 else cg2\<lparr>pending := pel_deliver now c out (pending cg)\<rparr>),
          Inr out))"
proof -
  have "hm_get (consumer_groups s) (cg_key i k g) = Some cg" using assms(2) by (simp add: group_at_def cg_key_def)
  moreover have "stream_entries now (put_group s gk x) i k = Inr es" for gk x
    by (rule stream_at_entries [of _ _ _ _ _ ms seq]) (simp add: assms(1))
  ultimately show ?thesis
    using is_stream_at [OF assms(1)]
    by (auto simp: xreadgroup_def Let_def stream_entries_after_def)
qed

text \<open>
  XREADGROUP with \<open>>\<close>.  It returns, in order, the entries after the position of the group (up
  to the count), moves the position to the last one returned and, unless NOACK is given, enters
  exactly them into the pending list under the consumer; the other pending entries stay.
\<close>

theorem xreadgroup_delivers:
  assumes "stream_at now s i k = Some (es, ms, seq)" and "group_at s i k g = Some cg" and "group_wf cg"
  shows "\<exists>out cg'. snd (xreadgroup now s i k g c NewEntries count noack) = Inr out \<and>
           out = take_opt count (filter (\<lambda>e. (last_delivered_ms cg, last_delivered_seq cg) < sid e) es) \<and>
           group_at (fst (xreadgroup now s i k g c NewEntries count noack)) i k g = Some cg' \<and> group_wf cg' \<and>
           c \<in> set (consumers cg') \<and>
           (last_delivered_ms cg', last_delivered_seq cg') =
             (if out = [] then (last_delivered_ms cg, last_delivered_seq cg) else sid (last out)) \<and>
           (\<forall>j. pel cg' j = (if \<not> noack \<and> j \<in> sid ` set out
              then Some \<lparr>consumer = c, delivery_time_ms = now, delivery_count = 1\<rparr> else pel cg j))"
proof -
  have p: "id_keys.bt_wf (pending cg)" using assms(3) by (simp add: group_wf_def)
  define out where "out = take_opt count (filter (id_after (last_delivered_ms cg) (last_delivered_seq cg)) es)"
  have out: "take_opt count (filter (\<lambda>e. (last_delivered_ms cg, last_delivered_seq cg) < sid e) es) = out"
    by (simp only: out_def id_after_filter)
  show ?thesis
    unfolding xreadgroup_new_eq [OF assms(1,2)] Let_def out_def [symmetric] out
    using p pel_deliver_fun [OF p]
    by (auto simp: group_wf_def pel_def hs_insert_def sid_def)
qed

text \<open>A store with an empty stream and a group that starts at its beginning.\<close>

definition group_store :: store where
  "group_store = fst (xgroup_create 0 (store_new 1) 0 ''s'' ''g'' ''0'' True)"

lemma group_store_facts:
  "stream_at 7 group_store 0 ''s'' = Some ([], 0, 0)"
  "group_at group_store 0 ''s'' ''g'' = Some (consumer_group_new 0 0)"
  "group_wf (consumer_group_new 0 0)"
proof -
  have u: "utf8_lossy ''0'' = ''0''" by (rule utf8_lossy_ascii) (simp add: ascii_def byte_in_def)
  have e: "store_exists 0 (store_new 1) 0 ''s'' = Inr False"
    by (simp add: store_exists_def entry_ref_def db_def store_new_def)
  have "parse_stream_id ''0'' True = (0, 0)" by (simp add: parse_stream_id_def u del: utf8_lossy.simps)
  then have gs: "group_store = put_group (put_entry (store_new 1) 0 ''s'' (new_entry (StreamV [] 0 0)))
      (cg_key 0 ''s'' ''g'') (consumer_group_new 0 0)"
    unfolding group_store_def xgroup_create_def e by simp
  show "stream_at 7 group_store 0 ''s'' = Some ([], 0, 0)" unfolding gs
    by (simp add: stream_at_def lookup_simps new_entry_def expired_def) (simp add: valid_db_def store_new_def)
  show "group_at group_store 0 ''s'' ''g'' = Some (consumer_group_new 0 0)" unfolding gs by simp
  show "group_wf (consumer_group_new 0 0)" by (simp add: group_wf_def consumer_group_new_def)
qed

theorem xreadgroup_delivers_witness:
  "snd (xreadgroup 7 group_store 0 ''s'' ''g'' ''c'' NewEntries None False) = Inr []"
  using xreadgroup_delivers [OF group_store_facts, of "''c''" None False] by (auto simp: take_opt_def)

text \<open>
  C28: A group delivers every entry to one consumer.  Two reads of new entries one after the other,
  by whatever consumers and with whatever counts, succeed: the first returns the first \<open>n1\<close> entries after the
  position of the group, the second the next \<open>n2\<close>, as many as there are.  No entry is delivered twice and none is left out.
\<close>

theorem xreadgroup_no_gap_no_repeat:
  assumes "stream_at now s i k = Some (es, ms, seq)" and "stream_inv es (ms, seq)" and "group_at s i k g = Some cg"
  shows "let new = filter (\<lambda>e. (last_delivered_ms cg, last_delivered_seq cg) < sid e) es in
    \<exists>s1 s2. xreadgroup now s i k g c1 NewEntries (Some n1) noack1 = (s1, Inr (take n1 new)) \<and>
      xreadgroup now s1 i k g c2 NewEntries (Some n2) noack2 = (s2, Inr (take n2 (drop n1 new))) \<and>
      distinct (take n1 new @ take n2 (drop n1 new))"
proof -
  let ?F = "filter (id_after (last_delivered_ms cg) (last_delivered_seq cg)) es" and ?out = "take n1
     (filter (id_after (last_delivered_ms cg) (last_delivered_seq cg)) es)"
  obtain s1 where s1: "xreadgroup now s i k g c1 NewEntries (Some n1) noack1 = (s1, Inr ?out)"
    by (simp add: xreadgroup_new_eq [OF assms(1,3)] Let_def take_opt_def)
  obtain cg1 where cg1: "group_at s1 i k g = Some cg1" "(last_delivered_ms cg1, last_delivered_seq cg1) =
      (if ?out = [] then (last_delivered_ms cg, last_delivered_seq cg) else sid (last ?out))"
    using s1 by (auto simp: xreadgroup_new_eq [OF assms(1,3)] take_opt_def Let_def sid_def split: if_splits)
  have at1: "stream_at now s1 i k = Some (es, ms, seq)"
    using assms(1) s1 by (auto simp: xreadgroup_new_eq [OF assms(1,3)] take_opt_def Let_def split: if_splits)
  let ?G = "filter (id_after (last_delivered_ms cg1) (last_delivered_seq cg1)) es"
  have sorted: "sorted_wrt (<) (map sid es)" using assms(2) by (simp add: stream_inv_def)
  have join: "?out @ ?G = ?F"
  proof (cases "?out = []")
    case True
    with cg1(2) show ?thesis by auto
  next
    case False
    define m where "m = min n1 (length ?F)"
    have "?out = take m ?F" "0 < m" "m \<le> length ?F" using False by (auto simp: m_def min_def)
    with page_after_last [OF sorted, of m "last_delivered_ms cg" "last_delivered_seq cg" "sid (last ?out)"]
      cg1(2) False show ?thesis by simp (metis fst_conv snd_conv)
  qed
  have "?out @ ?G = ?out @ drop n1 ?F" using join by simp
  then have G: "?G = drop n1 ?F" by (simp only: same_append_eq)
  obtain s2 where "xreadgroup now s1 i k g c2 NewEntries (Some n2) noack2 = (s2, Inr (take n2 (drop n1 ?F)))"
    by (simp add: xreadgroup_new_eq [OF at1 cg1(1)] Let_def take_opt_def G)
  moreover have "distinct ?F" using sorted by (metis distinct_filter distinct_map strict_sorted_iff)
  then have "distinct (take (n1 + n2) ?F)" by simp
  then have "distinct (?out @ take n2 (drop n1 ?F))" by (simp only: take_add)
  ultimately show ?thesis using s1 unfolding Let_def id_after_filter by blast
qed

theorem xreadgroup_no_gap_no_repeat_witness:
  "let a = \<lparr>id_ms = 1, id_seq = 0, se_fields = [(''f'', ''v'')]\<rparr>; b = \<lparr>id_ms = 2, id_seq = 0, se_fields = [(''f'', ''w'')]\<rparr> in
   \<exists>s s1 s2. stream_at 7 s 0 ''s'' = Some ([a, b], 2, 0) \<and>
     xreadgroup 7 s 0 ''s'' ''g'' ''x'' NewEntries (Some 1) False = (s1, Inr [a]) \<and>
     xreadgroup 7 s1 0 ''s'' ''g'' ''y'' NewEntries (Some 5) False = (s2, Inr [b])"
proof -
  let ?a = "\<lparr>id_ms = 1, id_seq = 0, se_fields = [(''f'', ''v'')]\<rparr> :: stream_entry" and ?b = "\<lparr>id_ms = 2, id_seq = 0, se_fields = [(''f'', ''w'')]\<rparr>"
  define s where "s = put_group (put_entry (store_new 1) 0 ''s'' (new_entry (StreamV [?a, ?b] 2 0))) (cg_key 0 ''s'' ''g'') (consumer_group_new 0 0)"
  have at: "stream_at 7 s 0 ''s'' = Some ([?a, ?b], 2, 0)" unfolding s_def
    by (simp add: stream_at_def lookup_simps new_entry_def expired_def) (simp add: valid_db_def store_new_def)
  have gr: "group_at s 0 ''s'' ''g'' = Some (consumer_group_new 0 0)" by (simp add: s_def)
  have inv: "stream_inv [?a, ?b] (2, 0)" by (simp add: stream_inv_def sid_def less_prod_def less_eq_prod_def)
  have new: "filter (\<lambda>e. (0, 0) < sid e) [?a, ?b] = [?a, ?b]" by (simp add: sid_def less_prod_def)
  have "last_delivered_ms (consumer_group_new 0 0) = 0" "last_delivered_seq (consumer_group_new 0 0) = 0"
    by (simp_all add: consumer_group_new_def)
  with xreadgroup_no_gap_no_repeat [OF at inv gr, of "''x''" 1 False "''y''" 5 False, unfolded Let_def] at new show ?thesis
    by (auto simp: Let_def)
qed

text \<open>
  XACK and XCLAIM.  XACK removes exactly the identifiers given from the pending list and
  returns how many were there.  XCLAIM changes nothing but the owner, delivery time and delivery
  count of entries that are pending and among those named; no entry enters or leaves the list.
\<close>

theorem xack_xclaim_pending:
  assumes "group_at s i k g = Some cg" and "group_wf cg"
  shows "(\<exists>cg'. group_at (fst (store_xack s i k g ids)) i k g = Some cg' \<and> group_wf cg' \<and>
            pel cg' = pel cg |` (- set ids) \<and>
            snd (store_xack s i k g ids) = Inr (card (set ids \<inter> dom (pel cg)))) \<and>
         (\<exists>cg' new. group_at (fst (store_xclaim now s i k g c mi ids force justid)) i k g = Some cg' \<and>
            group_wf cg' \<and> dom (pel cg') = dom (pel cg) \<and> set new \<subseteq> set ids \<inter> dom (pel cg) \<and>
            (\<forall>j. j \<notin> set new \<longrightarrow> pel cg' j = pel cg j) \<and>
            (\<forall>j \<in> set new. \<exists>pe. pel cg' j = Some pe \<and> consumer pe = c \<and> delivery_time_ms pe = now))"
proof (intro conjI)
  have p: "id_keys.bt_wf (pending cg)" using assms(2) by (simp add: group_wf_def)
  have h: "hm_get (consumer_groups s) (cg_key i k g) = Some cg"
    using assms(1) by (simp add: group_at_def cg_key_def)
  obtain p' n where l: "xack_loop ids (pending cg) 0 = (p', n)" by fastforce
  from xack_loop_spec [OF p l] show "\<exists>cg'. group_at (fst (store_xack s i k g ids)) i k g = Some cg' \<and>
      group_wf cg' \<and> pel cg' = pel cg |` (- set ids) \<and>
      snd (store_xack s i k g ids) = Inr (card (set ids \<inter> dom (pel cg)))"
    by (simp add: store_xack_def h l group_wf_def pel_def)
  obtain q cl where c: "xclaim_loop now c mi ids (pending cg) [] = (q, cl)" by fastforce
  let ?cg = "cg\<lparr>consumers := hs_insert c (consumers cg), pending := q\<rparr>"
  have "group_at (fst (store_xclaim now s i k g c mi ids force justid)) i k g = Some ?cg"
    by (simp add: store_xclaim_def h c Let_def split: sum.splits)
  with xclaim_loop_spec [OF p c] show "\<exists>cg' new.
      group_at (fst (store_xclaim now s i k g c mi ids force justid)) i k g = Some cg' \<and>
      group_wf cg' \<and> dom (pel cg') = dom (pel cg) \<and> set new \<subseteq> set ids \<inter> dom (pel cg) \<and>
      (\<forall>j. j \<notin> set new \<longrightarrow> pel cg' j = pel cg j) \<and>
      (\<forall>j \<in> set new. \<exists>pe. pel cg' j = Some pe \<and> consumer pe = c \<and> delivery_time_ms pe = now)"
    by (auto simp: group_wf_def pel_def)
qed

theorem xack_xclaim_pending_witness:
  "snd (store_xack group_store 0 ''s'' ''g'' [(1, 0)]) = Inr 0"
  using xack_xclaim_pending [OF group_store_facts(2,3), of "[(1, 0)]" 0 "''c''" 0 False False]
  by (auto simp: pel_def consumer_group_new_def)

end
