(* ===== verification/StoreScan.thy ===== *)
theory StoreScan
  imports Store
begin

text \<open>
  The cursors of \<open>store/memory.rs\<close>: SCAN over the keys of a database, and HSCAN, SSCAN and ZSCAN,
  which return everything in one page.  SCAN walks the keys in their byte order; the cursor is a
  token for the last key returned.  A scan is the trace of its calls, between which other clients
  may change the store in any way that keeps the token.
\<close>

section \<open>Operations\<close>

definition max_scan_cursors :: nat where "max_scan_cursors = 1024"

definition scan_keys ::
  "u64 \<Rightarrow> store \<Rightarrow> nat \<Rightarrow> u64 \<Rightarrow> bytes option \<Rightarrow> nat \<Rightarrow> store \<times> (u64 \<times> bytes list) res" where
  "scan_keys now s db_idx cursor pat cnt =
     (case db s db_idx of
        Inl err \<Rightarrow> (s, Inl err)
      | Inr d \<Rightarrow>
          (let start_after = (if cursor = 0 then None else hm_get (scan_cursors s) cursor);
               s1 = (if cursor = 0 then s else s\<lparr>scan_cursors := hm_remove cursor (scan_cursors s)\<rparr>)
           in if cursor \<noteq> 0 \<and> start_after = None then (s1, Inr (0, []))
              else
                (let cnt = max cnt 1;
                     keys = sort (filter (\<lambda>k. case start_after of None \<Rightarrow> True | Some x \<Rightarrow> x < k) (map fst d));
                     has_more = cnt < length keys;
                     keys = take cnt keys;
                     (s2, next_cursor) =
                       (if has_more then
                          (let lst = (if keys = [] then [] else last keys);
                               cursors = (if max_scan_cursors \<le> length (scan_cursors s1) then []
                                          else scan_cursors s1);
                               token = next_scan_cursor s1
                           in (s1\<lparr>next_scan_cursor := token + 1,
                                  scan_cursors := hm_insert token lst cursors\<rparr>, token))
                        else (s1, 0));
                     result = filter (\<lambda>k. case pat of None \<Rightarrow> True | Some p \<Rightarrow> simple_match (utf8_lossy k) p)
                                (filter (\<lambda>k. case hm_get d k of None \<Rightarrow> False | Some e \<Rightarrow> \<not> expired now e) keys)
                 in (s2, Inr (next_cursor, result)))))"

definition store_hscan :: "u64 \<Rightarrow> store \<Rightarrow> nat \<Rightarrow> bytes \<Rightarrow> (u64 \<times> (bytes \<times> bytes) list) res" where
  "store_hscan now s db_idx key =
     (case entry_ref now s db_idx key of
        Inl err \<Rightarrow> Inl err
      | Inr None \<Rightarrow> Inr (0, [])
      | Inr (Some e) \<Rightarrow> (case ent_value e of HashV h \<Rightarrow> Inr (0, h) | _ \<Rightarrow> Inl WrongType))"

definition store_sscan :: "u64 \<Rightarrow> store \<Rightarrow> nat \<Rightarrow> bytes \<Rightarrow> (u64 \<times> bytes list) res" where
  "store_sscan now s db_idx key =
     (case entry_ref now s db_idx key of
        Inl err \<Rightarrow> Inl err
      | Inr None \<Rightarrow> Inr (0, [])
      | Inr (Some e) \<Rightarrow> (case ent_value e of SetV st \<Rightarrow> Inr (0, st) | _ \<Rightarrow> Inl WrongType))"

definition store_zscan :: "u64 \<Rightarrow> store \<Rightarrow> nat \<Rightarrow> bytes \<Rightarrow> (u64 \<times> (bytes \<times> f64) list) res" where
  "store_zscan now s db_idx key =
     (case entry_ref now s db_idx key of
        Inl err \<Rightarrow> Inl err
      | Inr None \<Rightarrow> Inr (0, [])
      | Inr (Some e) \<Rightarrow> (case ent_value e of ZSetV members scores \<Rightarrow> Inr (0, members) | _ \<Rightarrow> Inl WrongType))"

section \<open>One page\<close>

text \<open>The key after which a cursor continues: none for a new scan, unknown for a stale cursor.\<close>

definition resume :: "store \<Rightarrow> u64 \<Rightarrow> bytes option option" where
  "resume s cursor =
     (if cursor = 0 then Some None
      else case hm_get (scan_cursors s) cursor of None \<Rightarrow> None | Some x \<Rightarrow> Some (Some x))"

definition beyond :: "bytes option \<Rightarrow> bytes \<Rightarrow> bool" where
  "beyond x k = (case x of None \<Rightarrow> True | Some y \<Rightarrow> y < k)"

definition keys_after :: "database \<Rightarrow> bytes option \<Rightarrow> bytes list" where
  "keys_after d x = sort (filter (beyond x) (map fst d))"

definition scan_visible :: "u64 \<Rightarrow> database \<Rightarrow> bytes option \<Rightarrow> bytes \<Rightarrow> bool" where
  "scan_visible now d pat k \<longleftrightarrow>
     (case hm_get d k of None \<Rightarrow> False | Some e \<Rightarrow> \<not> expired now e) \<and>
     (case pat of None \<Rightarrow> True | Some p \<Rightarrow> simple_match (utf8_lossy k) p)"

lemma scan_keys_page:
  assumes "valid_db s i" "resume s cursor = Some x"
  shows "\<exists>s'. scan_keys now s i cursor pat cnt =
     (let ks = keys_after (databases s ! i) x; n = max cnt 1
      in (s', Inr (if n < length ks then next_scan_cursor s else 0,
                   filter (scan_visible now (databases s ! i) pat) (take n ks)))) \<and>
     (max cnt 1 < length (keys_after (databases s ! i) x) \<longrightarrow>
        hm_get (scan_cursors s') (next_scan_cursor s) =
          Some (last (take (max cnt 1) (keys_after (databases s ! i) x))))"
proof -
  have x: "x = (if cursor = 0 then None else hm_get (scan_cursors s) cursor)"
    "\<not> (cursor \<noteq> 0 \<and> x = None)"
    using assms(2) by (auto simp: resume_def split: if_splits option.splits dest: sym)
  have f: "filter (\<lambda>k. case x of None \<Rightarrow> True | Some y \<Rightarrow> y < k) (map fst d) = filter (beyond x) (map fst d)" for d
    by (simp add: beyond_def [abs_def])
  have v: "filter (\<lambda>k. case pat of None \<Rightarrow> True | Some p \<Rightarrow> simple_match (utf8_lossy k) p)
      (filter (\<lambda>k. case hm_get d k of None \<Rightarrow> False | Some e \<Rightarrow> \<not> expired now e) ks) =
      filter (scan_visible now d pat) ks" for d ks
    by (simp add: scan_visible_def [abs_def] conj_commute)
  let ?ks = "keys_after (databases s ! i) x"
  have tok: "next_scan_cursor (if cursor = 0 then s else s\<lparr>scan_cursors := c\<rparr>) = next_scan_cursor s" for c
    by simp
  show ?thesis
  proof (cases "max cnt 1 < length ?ks")
    case True
    then have ne: "take (max cnt 1) ?ks \<noteq> []" by auto
    show ?thesis
      unfolding scan_keys_def db_valid [OF assms(1)] sum.case Let_def x(1) [symmetric] if_not_P [OF x(2)] f v
        keys_after_def [symmetric] if_P [OF True] if_not_P [OF ne] prod.case tok
      by (rule exI, rule conjI [OF refl]) simp
  next
    case False
    show ?thesis
      unfolding scan_keys_def db_valid [OF assms(1)] sum.case Let_def x(1) [symmetric] if_not_P [OF x(2)] f v
        keys_after_def [symmetric] if_not_P [OF False] prod.case
      using False by blast
  qed
qed

lemma scan_keys_stale:
  "valid_db s i \<Longrightarrow> resume s cursor = None \<Longrightarrow> snd (scan_keys now s i cursor pat cnt) = Inr (0, [])"
  by (auto simp: scan_keys_def db_valid resume_def split: if_splits option.splits)

lemma set_keys_after: "set (keys_after d x) = {k \<in> fst ` set d. beyond x k}"
  by (auto simp: keys_after_def)

lemma keys_after_sorted:
  "hm_wf d \<Longrightarrow> sorted_wrt (<) (keys_after d x)"
  by (simp add: keys_after_def hm_wf_def strict_sorted_iff)

lemma in_take_sorted:
  fixes k :: "'a::linorder"
  assumes "sorted_wrt (<) xs" "n < length xs" "0 < n" "k \<in> set xs"
  shows "k \<in> set (take n xs) \<longleftrightarrow> k \<le> last (take n xs)"
proof -
  have split: "xs = take n xs @ drop n xs" by simp
  have ne: "take n xs \<noteq> []" using assms(2,3) by auto
  have s: "sorted_wrt (<) (take n xs @ drop n xs)" using assms(1) split by simp
  have "sorted_wrt (<) (butlast (take n xs) @ [last (take n xs)])"
    using s ne by (simp add: sorted_wrt_append)
  then have below: "\<forall>y\<in>set (butlast (take n xs)). y < last (take n xs)" by (simp add: sorted_wrt_append)
  have "set (take n xs) = insert (last (take n xs)) (set (butlast (take n xs)))"
    using ne by (metis append_butlast_last_id list.simps(15) rotate1.simps(2) set_rotate1)
  then have le: "y \<le> last (take n xs)" if "y \<in> set (take n xs)" for y
    using that below by (auto intro: less_imp_le)
  have gt: "last (take n xs) < y" if "y \<in> set (drop n xs)" for y
    using s that last_in_set [OF ne] unfolding sorted_wrt_append by blast
  have "k \<in> set (take n xs) \<union> set (drop n xs)" using assms(4) split by (metis set_append)
  then show ?thesis using le gt by (auto simp: not_le dest: leD)
qed

section \<open>A whole scan\<close>

text \<open>
  The trace of a scan: the store at each call and the page returned.  After a call that returned a
  cursor other clients run; the next call sees a store in which that cursor is still known.
\<close>

inductive scan_run ::
  "u64 \<Rightarrow> nat \<Rightarrow> bytes option \<Rightarrow> nat \<Rightarrow> u64 \<Rightarrow> store \<Rightarrow> (store \<times> bytes list) list \<Rightarrow> bool"
  for now i pat cnt where
  scan_done: "scan_keys now s i cursor pat cnt = (s', Inr (0, pg)) \<Longrightarrow>
     scan_run now i pat cnt cursor s [(s, pg)]"
| scan_more: "scan_keys now s i cursor pat cnt = (s', Inr (c, pg)) \<Longrightarrow> c \<noteq> 0 \<Longrightarrow>
     hm_get (scan_cursors s2) c = hm_get (scan_cursors s') c \<Longrightarrow>
     scan_run now i pat cnt c s2 rest \<Longrightarrow>
     scan_run now i pat cnt cursor s ((s, pg) # rest)"

inductive_cases scan_run_NilE [elim]: "scan_run now i pat cnt cursor s []"

text \<open>What a key must be for the scan to have to return it: there, live and matching at every call.\<close>

definition present_throughout ::
  "u64 \<Rightarrow> nat \<Rightarrow> bytes option \<Rightarrow> bytes \<Rightarrow> (store \<times> bytes list) list \<Rightarrow> bool" where
  "present_throughout now i pat k trace \<longleftrightarrow>
     (\<forall>(s, pg)\<in>set trace. store_wf s \<and> valid_db s i \<and> next_scan_cursor s \<noteq> 0 \<and>
        live now s i k \<noteq> None \<and> (case pat of None \<Rightarrow> True | Some p \<Rightarrow> simple_match (utf8_lossy k) p))"

lemma present_visible:
  assumes "valid_db s i" "live now s i k \<noteq> None"
    "case pat of None \<Rightarrow> True | Some p \<Rightarrow> simple_match (utf8_lossy k) p"
  shows "scan_visible now (databases s ! i) pat k" "k \<in> fst ` set (databases s ! i)"
  using assms
  by (auto simp: scan_visible_def live_def hm_get_raw [symmetric] split: option.splits if_splits
      dest: map_of_SomeD) (force dest: map_of_SomeD)+

lemma count_list_distinct: "distinct xs \<Longrightarrow> count_list xs k = (if k \<in> set xs then 1 else 0)"
  by (induction xs) auto

lemma scan_run_count:
  assumes "scan_run now i pat cnt cursor s trace" "present_throughout now i pat k trace"
    and "resume s cursor = Some x"
  shows "count_list (concat (map snd trace)) k = (if beyond x k then 1 else 0)"
  using assms
proof (induction arbitrary: x rule: scan_run.induct)
  case (scan_done s cursor s' pg)
  have st: "valid_db s i" "store_wf s" "next_scan_cursor s \<noteq> 0" "live now s i k \<noteq> None"
    "case pat of None \<Rightarrow> True | Some p \<Rightarrow> simple_match (utf8_lossy k) p"
    using scan_done.prems(1) by (auto simp: present_throughout_def)
  note vis = present_visible [OF st(1,4,5)]
  let ?ks = "keys_after (databases s ! i) x"
  have sorted: "sorted_wrt (<) ?ks" by (rule keys_after_sorted [OF store_wf_db [OF st(2,1)]])
  from scan_keys_page [OF st(1) scan_done.prems(2), of now pat cnt] scan_done.hyps st(3)
  have "pg = filter (scan_visible now (databases s ! i) pat) ?ks"
    by (auto simp: Let_def split: if_splits)
  with vis sorted show ?case
    by (simp add: count_list_distinct strict_sorted_iff set_keys_after)
next
  case (scan_more s cursor s' c pg s2 rest)
  have st: "valid_db s i" "store_wf s" "live now s i k \<noteq> None"
    "case pat of None \<Rightarrow> True | Some p \<Rightarrow> simple_match (utf8_lossy k) p"
    and pr: "present_throughout now i pat k rest"
    using scan_more.prems(1) by (auto simp: present_throughout_def)
  note vis = present_visible [OF st(1,3,4)]
  let ?ks = "keys_after (databases s ! i) x" and ?n = "max cnt 1"
  have sorted: "sorted_wrt (<) ?ks" by (rule keys_after_sorted [OF store_wf_db [OF st(2,1)]])
  have pg: "pg = filter (scan_visible now (databases s ! i) pat) (take ?n ?ks)"
    and len: "?n < length ?ks" and cur: "hm_get (scan_cursors s') c = Some (last (take ?n ?ks))"
    using scan_keys_page [OF st(1) scan_more.prems(2), of now pat cnt] scan_more.hyps(1,2)
    by (auto simp: Let_def split: if_splits)
  let ?l = "last (take ?n ?ks)"
  have "resume s2 c = Some (Some ?l)" using scan_more.hyps(2,3) cur by (simp add: resume_def)
  from scan_more.IH [OF pr this] have later: "count_list (concat (map snd rest)) k = (if ?l < k then 1 else 0)"
    by (simp add: beyond_def)
  have "take ?n ?ks \<noteq> []" using len by auto
  then have "?l \<in> set ?ks" by (rule in_set_takeD [OF last_in_set])
  then have "beyond x ?l" by (simp add: set_keys_after)
  then have bl: "?l < k \<Longrightarrow> beyond x k" by (auto simp: beyond_def split: option.splits)
  have "count_list pg k = (if k \<in> set (take ?n ?ks) then 1 else 0)"
    using vis(1) sorted_wrt_take [OF sorted, of ?n] unfolding pg
    by (simp add: count_list_distinct strict_sorted_iff)
  moreover have "k \<in> set (take ?n ?ks) \<longleftrightarrow> beyond x k \<and> k \<le> ?l"
    using in_take_sorted [OF sorted len, of k] vis(2) in_set_takeD [of k ?n ?ks]
    by (auto simp: set_keys_after)
  ultimately show ?case using later bl by (auto simp: not_le)
qed

section \<open>Properties\<close>

text \<open>
  C29: SCAN is complete and free of duplicates.  A key that is there, live and matched by the
  pattern at every call of a scan that starts at cursor 0 is returned by the scan exactly once,
  whatever the page size and whatever other clients add, remove or change between the calls, as
  long as the cursor stays known.
\<close>

theorem scan_exactly_once:
  assumes "scan_run now i pat cnt 0 s trace" and "present_throughout now i pat k trace"
  shows "count_list (concat (map snd trace)) k = 1"
  using scan_run_count [OF assms, of None] by (simp add: resume_def beyond_def)

theorem scan_exactly_once_witness:
  "let s = fst (store_set (store_new 1) 0 ''k'' ''v'' None) in
     \<exists>pg. scan_run 0 0 None 10 0 s [(s, pg)] \<and> count_list pg ''k'' = 1"
proof -
  let ?s = "fst (store_set (store_new 1) 0 ''k'' ''v'' None)"
  have wf: "store_wf ?s" by (rule set_op.upd_wf [OF store_wf_new])
  have v: "valid_db ?s 0" unfolding set_op.upd_valid_db by (simp add: valid_db_def store_new_def)
  have n: "next_scan_cursor ?s \<noteq> 0" "live 0 ?s 0 ''k'' \<noteq> None"
    by (simp_all add: live_def raw_def store_set_def db_def store_new_def put_entry_def set_db_def
        entry_or_insert_def new_entry_def expired_def)
  have ks: "keys_after (databases ?s ! 0) None = [''k'']"
    by (simp add: keys_after_def beyond_def store_set_def db_def store_new_def put_entry_def set_db_def
        entry_or_insert_def new_entry_def hm_insert_def)
  obtain s' pg where r: "scan_keys 0 ?s 0 0 None 10 = (s', Inr (0, pg))"
    using scan_keys_page [OF v, of 0 None 0 None 10]
    by (auto simp: resume_def ks Let_def simp del: One_nat_def)
  have run: "scan_run 0 0 None 10 0 ?s [(?s, pg)]" by (rule scan_done [OF r])
  have "present_throughout 0 0 None ''k'' [(?s, pg)]"
    using wf v n by (simp add: present_throughout_def)
  from scan_exactly_once [OF run this] run show ?thesis by (auto simp: Let_def)
qed

text \<open>
  A scan makes progress and ends.  On a database that does not change, each call that returns
  a cursor leaves strictly fewer keys beyond it, by the page size; the call that finds at most one
  page returns cursor 0.
\<close>

theorem scan_progress:
  assumes "valid_db s i" and "store_wf s" and "resume s cursor = Some x"
    and "scan_keys now s i cursor pat cnt = (s', Inr (c, pg))"
  shows "(length (keys_after (databases s ! i) x) \<le> max cnt 1 \<longrightarrow> c = 0) \<and>
         (max cnt 1 < length (keys_after (databases s ! i) x) \<and> next_scan_cursor s \<noteq> 0 \<longrightarrow>
            c \<noteq> 0 \<and> (\<exists>y. resume s' c = Some (Some y) \<and>
              length (keys_after (databases s ! i) (Some y)) + max cnt 1 =
                length (keys_after (databases s ! i) x)))"
proof -
  let ?d = "databases s ! i" and ?n = "max cnt 1"
  let ?ks = "keys_after ?d x"
  have sorted: "sorted_wrt (<) ?ks" by (rule keys_after_sorted [OF store_wf_db [OF assms(2,1)]])
  have c: "c = (if ?n < length ?ks then next_scan_cursor s else 0)"
    "?n < length ?ks \<Longrightarrow> hm_get (scan_cursors s') (next_scan_cursor s) = Some (last (take ?n ?ks))"
    using scan_keys_page [OF assms(1,3), of now pat cnt] assms(4) by (auto simp: Let_def)
  have "length (keys_after ?d (Some (last (take ?n ?ks)))) + ?n = length ?ks" if len: "?n < length ?ks"
  proof -
    let ?l = "last (take ?n ?ks)"
    have ne: "take ?n ?ks \<noteq> []" using len by auto
    have "?l \<in> set ?ks" by (rule in_set_takeD [OF last_in_set [OF ne]])
    then have bl: "beyond x ?l" by (simp add: set_keys_after)
    have split: "set ?ks = set (take ?n ?ks) \<union> set (drop ?n ?ks)" by (metis append_take_drop_id set_append)
    have d: "distinct (take ?n ?ks @ drop ?n ?ks)" using sorted by (simp add: strict_sorted_iff)
    have "set (keys_after ?d (Some ?l)) = {k \<in> set ?ks. ?l < k}"
      using bl by (auto simp: set_keys_after beyond_def split: option.splits)
    also have "\<dots> = set (drop ?n ?ks)"
      using in_take_sorted [OF sorted len] split d unfolding distinct_append not_le [symmetric] by auto
    finally have "length (keys_after ?d (Some ?l)) = length (drop ?n ?ks)"
      using distinct_card [of "keys_after ?d (Some ?l)"] distinct_card [of "drop ?n ?ks"] d
        keys_after_sorted [OF store_wf_db [OF assms(2,1)], of "Some ?l"]
      by (simp add: strict_sorted_iff)
    with len show ?thesis by simp
  qed
  then show ?thesis using c by (auto simp: resume_def)
qed

theorem scan_progress_witness:
  "snd (scan_keys 0 (store_new 1) 0 0 None 10) = Inr (0, [])"
proof -
  have v: "valid_db (store_new 1) 0" by (simp add: valid_db_def store_new_def)
  have ks: "keys_after (databases (store_new 1) ! 0) None = []" by (simp add: keys_after_def store_new_def)
  obtain s' c pg where r: "scan_keys 0 (store_new 1) 0 0 None 10 = (s', Inr (c, pg))" "pg = []"
    using scan_keys_page [OF v, of 0 None 0 None 10]
    by (auto simp: resume_def ks Let_def simp del: One_nat_def)
  have "resume (store_new 1) 0 = Some None" by (simp add: resume_def)
  from scan_progress [OF v store_wf_new this r(1)] ks r show ?thesis by simp
qed

end
