(* ===== verification/StoreMemory.thy ===== *)
theory StoreMemory
  imports Store
begin

text \<open>
  The memory limit and the active expiry of \<open>store/memory.rs\<close>: the estimate of the memory in use,
  the check against \<open>maxmemory\<close>, the eviction loop of the background cycle and the sampling cycle
  that removes expired keys.  Both loops are proved to end; the eviction loop is shown to keep its
  running total equal to the estimate of what is left.
\<close>

section \<open>Operations\<close>

definition configure_memory :: "store \<Rightarrow> nat \<Rightarrow> eviction_policy \<Rightarrow> store" where
  "configure_memory s mx policy = s\<lparr>maxmemory := mx, eviction_policy := policy\<rparr>"

definition entry_bytes :: "bytes \<times> entry \<Rightarrow> nat" where
  "entry_bytes ke = length (fst ke) + estimated_size (ent_value (snd ke)) + 64"

definition db_bytes :: "database \<Rightarrow> nat" where
  "db_bytes d = sum_list (map entry_bytes d)"

definition estimated_memory :: "store \<Rightarrow> nat" where
  "estimated_memory s = sum_list (map db_bytes (databases s))"

definition refresh_memory_usage :: "store \<Rightarrow> store \<times> nat" where
  "refresh_memory_usage s =
     (let usage = estimated_memory s in (s\<lparr>cached_memory_usage := usage\<rparr>, usage))"

definition over_memory_limit :: "store \<Rightarrow> bool" where
  "over_memory_limit s \<longleftrightarrow> maxmemory s \<noteq> 0 \<and> maxmemory s < cached_memory_usage s"

definition candidate :: "eviction_policy \<Rightarrow> bytes \<times> entry \<Rightarrow> bool" where
  "candidate policy ke =
     (case policy of VolatileRandom \<Rightarrow> ent_expire_at (snd ke) \<noteq> None | _ \<Rightarrow> True)"

text \<open>One round of the \<open>for\<close> loop over the databases, and the \<open>while\<close> loop around it.\<close>

fun evict_pass ::
  "eviction_policy \<Rightarrow> nat \<Rightarrow> database list \<Rightarrow> nat \<Rightarrow> nat \<Rightarrow> bool \<Rightarrow> database list \<times> nat \<times> nat \<times> bool" where
  "evict_pass policy target [] usage evicted progressed = ([], usage, evicted, progressed)"
| "evict_pass policy target (d # ds) usage evicted progressed =
     (if usage \<le> target then (d # ds, usage, evicted, progressed)
      else case filter (candidate policy) d of
        [] \<Rightarrow>
          (let (ds', r) = evict_pass policy target ds usage evicted progressed in (d # ds', r))
      | ke # _ \<Rightarrow>
          (let (ds', r) = evict_pass policy target ds (usage - entry_bytes ke) (evicted + 1) True
           in (hm_remove (fst ke) d # ds', r)))"

lemma hm_remove_shorter: "ke \<in> set d \<Longrightarrow> length (hm_remove (fst ke) d) < length d"
proof -
  assume "ke \<in> set d"
  then have "\<exists>x\<in>set d. \<not> fst x \<noteq> fst ke" by auto
  then show ?thesis unfolding hm_remove_def AList.delete_eq
    by (metis (mono_tags, lifting) case_prod_unfold length_filter_less)
qed

lemma filter_Cons_mem: "filter P d = ke # r \<Longrightarrow> ke \<in> set d \<and> P ke"
  by (metis Cons_eq_filterD in_set_conv_decomp)

lemma evict_pass_shorter:
  "evict_pass policy target ds usage evicted progressed = (ds', usage', evicted', progressed') \<Longrightarrow>
     sum_list (map length ds') + evicted' \<le> sum_list (map length ds) + evicted \<and>
     (progressed' \<and> \<not> progressed \<longrightarrow> evicted < evicted') \<and> evicted \<le> evicted'"
proof (induction policy target ds usage evicted progressed arbitrary: ds' rule: evict_pass.induct)
  case (1 policy target usage evicted progressed)
  then show ?case by simp
next
  case (2 policy target d ds usage evicted progressed)
  show ?case
  proof (cases "usage \<le> target")
    case True
    with "2.prems" show ?thesis by simp
  next
    case False
    show ?thesis
    proof (cases "filter (candidate policy) d")
      case Nil
      obtain ds'' where r: "evict_pass policy target ds usage evicted progressed =
          (ds'', usage', evicted', progressed')" "ds' = d # ds''"
        using "2.prems" False Nil by (auto split: prod.splits)
      from "2.IH"(1) [OF False Nil r(1)] r(2) show ?thesis by simp
    next
      case (Cons ke rest)
      obtain ds'' where r: "evict_pass policy target ds (usage - entry_bytes ke) (evicted + 1) True =
          (ds'', usage', evicted', progressed')" "ds' = hm_remove (fst ke) d # ds''"
        using "2.prems" False Cons by (auto split: prod.splits)
      have "length (hm_remove (fst ke) d) < length d"
        using filter_Cons_mem [OF Cons] by (simp add: hm_remove_shorter)
      with "2.IH"(2) [OF False Cons r(1)] r(2) show ?thesis by simp
    qed
  qed
qed

function evict_loop ::
  "eviction_policy \<Rightarrow> nat \<Rightarrow> database list \<Rightarrow> nat \<Rightarrow> nat \<Rightarrow> database list \<times> nat \<times> nat" where
  "evict_loop policy target ds usage evicted =
     (if usage \<le> target then (ds, usage, evicted)
      else case evict_pass policy target ds usage evicted False of
        (ds', usage', evicted', progressed) \<Rightarrow>
          (if \<not> progressed then (ds', usage', evicted')
           else evict_loop policy target ds' usage' evicted'))"
  by pat_completeness auto

termination
  by (relation "measure (\<lambda>(policy, target, ds, usage, evicted). sum_list (map length ds))")
     (auto dest!: evict_pass_shorter [OF sym])

declare evict_loop.simps [simp del]

definition evict_until_under :: "store \<Rightarrow> nat \<Rightarrow> eviction_policy \<Rightarrow> store \<times> nat" where
  "evict_until_under s target_bytes policy =
     (if policy = NoEviction then (s, 0)
      else case evict_loop policy target_bytes (databases s) (estimated_memory s) 0 of
        (ds, usage, evicted) \<Rightarrow> (s\<lparr>databases := ds, cached_memory_usage := usage\<rparr>, evicted))"

text \<open>The loop of \<open>active_expire_cycle\<close> on one database, with the sample size at least 1.\<close>

definition sample_expired :: "u64 \<Rightarrow> nat \<Rightarrow> database \<Rightarrow> bytes list" where
  "sample_expired now sample_size d =
     map fst (filter (\<lambda>(k, e). expired now e)
       (take sample_size (filter (\<lambda>(k, e). ent_expire_at e \<noteq> None) d)))"

lemma foldl_remove_le: "length (foldl (\<lambda>d k. hm_remove k d) d ks) \<le> length d"
proof (induction ks arbitrary: d)
  case Nil
  then show ?case by simp
next
  case (Cons k ks)
  have "length (hm_remove k d) \<le> length d" by (simp add: hm_remove_def length_delete_le)
  with Cons.IH [of "hm_remove k d"] show ?case by simp
qed

lemma foldl_remove_less:
  "ks \<noteq> [] \<Longrightarrow> hd ks \<in> fst ` set d \<Longrightarrow> length (foldl (\<lambda>d k. hm_remove k d) d ks) < length d"
proof (cases ks)
  case (Cons k rest)
  assume "hd ks \<in> fst ` set d"
  then obtain ke where "ke \<in> set d" "fst ke = k" using Cons by auto
  then have "length (hm_remove k d) < length d" using hm_remove_shorter by blast
  with foldl_remove_le [of "hm_remove k d" rest] Cons show ?thesis by simp
qed simp

lemma sample_expired_in: "set (sample_expired now n d) \<subseteq> fst ` set d"
  by (auto simp: sample_expired_def dest!: in_set_takeD)

function expire_db :: "u64 \<Rightarrow> nat \<Rightarrow> database \<Rightarrow> database \<times> nat" where
  "expire_db now sample_size d =
     (let expired_keys = sample_expired now sample_size d;
          removed = length expired_keys;
          d' = foldl (\<lambda>d k. hm_remove k d) d expired_keys
      in if removed * 4 \<le> sample_size then (d', removed)
         else (case expire_db now sample_size d' of (d'', r) \<Rightarrow> (d'', removed + r)))"
  by pat_completeness auto

termination
proof (relation "measure (\<lambda>(now, sample_size, d). length d)", simp)
  fix now sample_size d ks n d'
  assume ks: "ks = sample_expired now sample_size d" and n: "n = length ks"
    and d': "d' = foldl (\<lambda>d k. hm_remove k d) d ks" and "\<not> n * 4 \<le> sample_size"
  then have "ks \<noteq> []" by auto
  moreover have "hd ks \<in> fst ` set d"
    using sample_expired_in [of now sample_size d] \<open>ks \<noteq> []\<close> ks by auto
  ultimately show "((now, sample_size, d'), now, sample_size, d)
      \<in> measure (\<lambda>(now, sample_size, d). length d)"
    using foldl_remove_less d' by simp
qed

declare expire_db.simps [simp del]

fun expire_dbs :: "u64 \<Rightarrow> nat \<Rightarrow> database list \<Rightarrow> database list \<times> nat" where
  "expire_dbs now sample_size [] = ([], 0)"
| "expire_dbs now sample_size (d # ds) =
     (let (d', r) = expire_db now sample_size d; (ds', rs) = expire_dbs now sample_size ds
      in (d' # ds', r + rs))"

definition active_expire_cycle :: "u64 \<Rightarrow> store \<Rightarrow> nat \<Rightarrow> store \<times> nat" where
  "active_expire_cycle now s sample_size =
     (let (ds, total_removed) = expire_dbs now (max sample_size 1) (databases s)
      in (s\<lparr>databases := ds\<rparr>, total_removed))"

section \<open>Eviction\<close>

lemma db_bytes_remove:
  assumes "hm_wf d" "ke \<in> set d"
  shows "db_bytes d = entry_bytes ke + db_bytes (hm_remove (fst ke) d)"
  using assms
proof (induction d)
  case Nil
  then show ?case by simp
next
  case (Cons a d)
  show ?case
  proof (cases "a = ke")
    case True
    with Cons.prems(1) have "fst ke \<notin> fst ` set d" by (auto simp: hm_wf_def)
    then have "hm_remove (fst ke) d = d" by (simp add: hm_remove_def)
    with True show ?thesis by (cases ke) (simp add: db_bytes_def hm_remove_def)
  next
    case False
    with Cons.prems have "ke \<in> set d" "fst a \<noteq> fst ke" by (auto simp: hm_wf_def image_iff)
    with Cons show ?thesis by (cases a) (simp add: db_bytes_def hm_remove_def hm_wf_def)
  qed
qed

text \<open>What a database has become: some of the candidates are gone, the rest is as it was.\<close>

definition evicted_from :: "eviction_policy \<Rightarrow> database \<Rightarrow> database \<Rightarrow> bool" where
  "evicted_from policy d d' \<longleftrightarrow> hm_wf d' \<and>
     (\<forall>k. hm_get d' k = hm_get d k \<or> (hm_get d' k = None \<and> (\<exists>e. hm_get d k = Some e \<and> candidate policy (k, e))))"

lemma evicted_from_refl: "hm_wf d \<Longrightarrow> evicted_from policy d d"
  by (simp add: evicted_from_def)

lemma evicted_from_trans: "evicted_from p a b \<Longrightarrow> evicted_from p b c \<Longrightarrow> evicted_from p a c"
  unfolding evicted_from_def by metis

lemma evicted_from_remove:
  assumes "hm_wf d" "filter (candidate policy) d = ke # rest"
  shows "evicted_from policy d (hm_remove (fst ke) d)"
proof -
  have "hm_get d (fst ke) = Some (snd ke)" "candidate policy ke"
    using filter_Cons_mem [OF assms(2)] set_hm_iff [OF assms(1), of "fst ke" "snd ke"] by auto
  then show ?thesis using assms(1) by (auto simp: evicted_from_def)
qed

lemma evict_pass_progressed:
  "evict_pass policy target ds usage evicted True = (ds', usage', evicted', progressed') \<Longrightarrow> progressed'"
  by (induction policy target ds usage evicted True arbitrary: ds' rule: evict_pass.induct)
     (auto split: if_splits list.splits prod.splits)

lemma evict_pass_spec:
  assumes "list_all hm_wf ds" "usage = rest + sum_list (map db_bytes ds)"
    "evict_pass policy target ds usage evicted progressed = (ds', usage', evicted', progressed')"
  shows "list_all2 (evicted_from policy) ds ds' \<and> usage' = rest + sum_list (map db_bytes ds') \<and>
     evicted' + sum_list (map length ds') = evicted + sum_list (map length ds) \<and>
     (\<not> progressed' \<and> target < usage' \<longrightarrow> (\<forall>d\<in>set ds'. filter (candidate policy) d = []))"
  using assms
proof (induction policy target ds usage evicted progressed arbitrary: ds' rest rule: evict_pass.induct)
  case (1 policy target usage evicted progressed)
  then show ?case by simp
next
  case (2 policy target d ds usage evicted progressed)
  show ?case
  proof (cases "usage \<le> target")
    case True
    with "2.prems" show ?thesis
      by (auto simp: evicted_from_refl list_all_iff list_all2_same)
  next
    case False
    show ?thesis
    proof (cases "filter (candidate policy) d")
      case Nil
      obtain ds'' where r: "evict_pass policy target ds usage evicted progressed =
          (ds'', usage', evicted', progressed')" "ds' = d # ds''"
        using "2.prems"(3) False Nil by (auto split: prod.splits)
      from "2.IH"(1) [OF False Nil _ _ r(1), of "rest + db_bytes d"] r(2) Nil "2.prems"(1,2) show ?thesis
        by (simp add: evicted_from_refl)
    next
      case (Cons ke kes)
      obtain ds'' where r: "evict_pass policy target ds (usage - entry_bytes ke) (evicted + 1) True =
          (ds'', usage', evicted', progressed')" "ds' = hm_remove (fst ke) d # ds''"
        using "2.prems"(3) False Cons by (auto split: prod.splits)
      have wf: "hm_wf d" "ke \<in> set d" using "2.prems"(1) filter_Cons_mem [OF Cons] by simp_all
      have bytes: "db_bytes d = entry_bytes ke + db_bytes (hm_remove (fst ke) d)" by (rule db_bytes_remove [OF wf])
      have g: "hm_get d (fst ke) \<noteq> None" using wf by (metis set_hm_iff option.distinct(1) prod.collapse)
      have len: "length d = Suc (length (hm_remove (fst ke) d))"
        using length_hm_remove [OF wf(1), of "fst ke"] g wf(2) by (cases d) auto
      have pr: "progressed'" using r(1) evict_pass_progressed by blast
      have "usage - entry_bytes ke = rest + db_bytes (hm_remove (fst ke) d) + sum_list (map db_bytes ds)"
        using "2.prems"(2) bytes by simp
      from "2.IH"(2) [OF False Cons _ this r(1)] r(2) "2.prems"(1) len pr evicted_from_remove [OF wf(1) Cons]
      show ?thesis by simp
    qed
  qed
qed

lemma evict_loop_spec:
  assumes "list_all hm_wf ds" "usage = sum_list (map db_bytes ds)"
    "evict_loop policy target ds usage evicted = (ds', usage', evicted')"
  shows "list_all2 (evicted_from policy) ds ds' \<and> usage' = sum_list (map db_bytes ds') \<and>
     evicted' + sum_list (map length ds') = evicted + sum_list (map length ds) \<and>
     (target < usage' \<longrightarrow> (\<forall>d\<in>set ds'. filter (candidate policy) d = []))"
  using assms
proof (induction policy target ds usage evicted rule: evict_loop.induct)
  case (1 policy target ds usage evicted)
  show ?case
  proof (cases "usage \<le> target")
    case True
    with "1.prems" show ?thesis
      by (auto simp: evicted_from_refl list_all_iff list_all2_same evict_loop.simps)
  next
    case False
    obtain ds1 usage1 evicted1 pr where
      p: "evict_pass policy target ds usage evicted False = (ds1, usage1, evicted1, pr)"
      by (metis prod_cases4)
    have spec: "list_all2 (evicted_from policy) ds ds1" "usage1 = sum_list (map db_bytes ds1)"
      "evicted1 + sum_list (map length ds1) = evicted + sum_list (map length ds)"
      "\<not> pr \<and> target < usage1 \<longrightarrow> (\<forall>d\<in>set ds1. filter (candidate policy) d = [])"
      using evict_pass_spec [OF "1.prems"(1) _ p, of 0] "1.prems"(2) by simp_all
    show ?thesis
    proof (cases pr)
      case False
      with "1.prems"(3) \<open>\<not> usage \<le> target\<close> p have "(ds', usage', evicted') = (ds1, usage1, evicted1)"
        by (simp add: evict_loop.simps)
      with spec False show ?thesis by simp
    next
      case True
      have wf1: "list_all hm_wf ds1" using spec(1)
        by (auto simp: list_all_length list_all2_conv_all_nth evicted_from_def)
      have rec: "evict_loop policy target ds1 usage1 evicted1 = (ds', usage', evicted')"
        using "1.prems"(3) \<open>\<not> usage \<le> target\<close> p True by (simp add: evict_loop.simps [of _ _ ds])
      have "list_all2 (evicted_from policy) ds1 ds'" "usage' = sum_list (map db_bytes ds')"
        "evicted' + sum_list (map length ds') = evicted1 + sum_list (map length ds1)"
        "target < usage' \<longrightarrow> (\<forall>d\<in>set ds'. filter (candidate policy) d = [])"
        using "1.IH" [OF \<open>\<not> usage \<le> target\<close> p [symmetric] refl refl] True wf1 spec(2) rec by simp_all
      moreover have "list_all2 (evicted_from policy) ds ds'"
        using list_all2_trans [OF evicted_from_trans spec(1) calculation(1)] .
      ultimately show ?thesis using spec(3) by simp
    qed
  qed
qed

section \<open>Active expiry\<close>

lemma foldl_remove_get:
  "hm_get (foldl (\<lambda>d k. hm_remove k d) d ks) k = (if k \<in> set ks then None else hm_get d k)"
  by (induction ks arbitrary: d) auto

lemma foldl_remove_wf: "hm_wf d \<Longrightarrow> hm_wf (foldl (\<lambda>d k. hm_remove k d) d ks)"
  by (induction ks arbitrary: d) auto

lemma length_foldl_remove:
  "hm_wf d \<Longrightarrow> distinct ks \<Longrightarrow> set ks \<subseteq> fst ` set d \<Longrightarrow>
     length (foldl (\<lambda>d k. hm_remove k d) d ks) + length ks = length d"
proof (induction ks arbitrary: d)
  case Nil
  then show ?case by simp
next
  case (Cons k ks)
  then have g: "hm_get d k \<noteq> None" by (simp add: map_of_eq_None_iff)
  then have "length d = Suc (length (hm_remove k d))"
    using length_hm_remove [OF Cons.prems(1), of k] by (cases d) auto
  moreover have "set ks \<subseteq> fst ` set (hm_remove k d)"
    using Cons.prems(2,3) by (auto simp: hm_remove_def AList.delete_eq image_iff) force
  ultimately show ?case using Cons.IH [of "hm_remove k d"] Cons.prems(1,2) by simp
qed

lemma sample_expired_distinct: "hm_wf d \<Longrightarrow> distinct (sample_expired now n d)"
  unfolding sample_expired_def hm_wf_def
  by (intro distinct_map_filter) (simp add: take_map [symmetric] distinct_map_filter)

lemma sample_expired_expired:
  assumes "hm_wf d" "k \<in> set (sample_expired now n d)"
  shows "\<exists>e. hm_get d k = Some e \<and> expired now e"
  using assms(2) set_hm_iff [OF assms(1)] by (auto simp: sample_expired_def dest!: in_set_takeD)

definition expired_gone :: "u64 \<Rightarrow> database \<Rightarrow> database \<Rightarrow> bool" where
  "expired_gone now d d' \<longleftrightarrow> hm_wf d' \<and>
     (\<forall>k. hm_get d' k = hm_get d k \<or> (hm_get d' k = None \<and> (\<exists>e. hm_get d k = Some e \<and> expired now e)))"

lemma expired_gone_trans: "expired_gone now a b \<Longrightarrow> expired_gone now b c \<Longrightarrow> expired_gone now a c"
  unfolding expired_gone_def by metis

lemma expired_gone_step:
  "hm_wf d \<Longrightarrow> expired_gone now d (foldl (\<lambda>d k. hm_remove k d) d (sample_expired now n d))"
  using sample_expired_expired by (auto simp: expired_gone_def foldl_remove_wf foldl_remove_get)

lemma expire_db_spec:
  "hm_wf d \<Longrightarrow> expire_db now n d = (d', r) \<Longrightarrow> expired_gone now d d' \<and> length d' + r = length d"
proof (induction now n d arbitrary: d' r rule: expire_db.induct)
  case (1 now n d)
  let ?ks = "sample_expired now n d"
  let ?d = "foldl (\<lambda>d k. hm_remove k d) d ?ks"
  have step: "expired_gone now d ?d" by (rule expired_gone_step [OF "1.prems"(1)])
  have len: "length ?d + length ?ks = length d"
    by (rule length_foldl_remove [OF "1.prems"(1) sample_expired_distinct [OF "1.prems"(1)] sample_expired_in])
  show ?case
  proof (cases "length ?ks * 4 \<le> n")
    case True
    with "1.prems"(2) step len show ?thesis by (subst (asm) expire_db.simps) (simp add: Let_def)
  next
    case False
    obtain d1 r1 where rec: "expire_db now n ?d = (d1, r1)" by fastforce
    with "1.prems"(2) False have "d' = d1" "r = length ?ks + r1"
      by (subst (asm) (2) expire_db.simps; simp add: Let_def)+
    with "1.IH" [OF refl refl refl False foldl_remove_wf [OF "1.prems"(1)] rec] expired_gone_trans [OF step] len
    show ?thesis by auto
  qed
qed

lemma expire_dbs_spec:
  "list_all hm_wf ds \<Longrightarrow> expire_dbs now n ds = (ds', r) \<Longrightarrow>
     list_all2 (expired_gone now) ds ds' \<and> sum_list (map length ds') + r = sum_list (map length ds)"
proof (induction ds arbitrary: ds' r)
  case Nil
  then show ?case by simp
next
  case (Cons d ds)
  obtain d1 r1 where d: "expire_db now n d = (d1, r1)" by fastforce
  obtain ds1 r2 where ds: "expire_dbs now n ds = (ds1, r2)" by fastforce
  from Cons.IH [OF _ ds] Cons.prems expire_db_spec [OF _ d] d ds show ?case by (auto simp: Let_def)
qed

section \<open>Properties\<close>

definition total_keys :: "store \<Rightarrow> nat" where
  "total_keys s = sum_list (map length (databases s))"

lemma store_wf_dbs: "store_wf s \<Longrightarrow> list_all hm_wf (databases s)"
  by (simp add: store_wf_def list_all_iff)

lemma raw_related:
  assumes "list_all2 R (databases s) (databases s')" "\<And>d d' k. R d d' \<Longrightarrow> P k (hm_get d k) (hm_get d' k)"
    "\<And>k. P k None None"
  shows "P k (raw s i k) (raw s' i k)"
  using assms by (auto simp: raw_def list_all2_conv_all_nth)

text \<open>
  C30: Eviction.  The loop ends.  Afterwards the estimate of the memory in use is at most the target,
  or no key the policy may evict is left; the cached usage is the exact estimate of what is left.
  Only candidates of the policy are removed (under \<open>volatile-random\<close> a key without an expiry time
  never is), every other entry stays as it was, and the number returned is the number of keys
  removed.
\<close>

theorem eviction_reaches_target:
  assumes "store_wf s" and "policy \<noteq> NoEviction" and "evict_until_under s target policy = (s', n)"
  shows "(estimated_memory s' \<le> target \<or> (\<forall>i k e. raw s' i k = Some e \<longrightarrow> \<not> candidate policy (k, e))) \<and>
         cached_memory_usage s' = estimated_memory s' \<and>
         total_keys s' + n = total_keys s \<and>
         (\<forall>i k. raw s' i k = raw s i k \<or>
            (raw s' i k = None \<and> (\<exists>e. raw s i k = Some e \<and> candidate policy (k, e))))"
proof -
  obtain ds usage where l: "evict_loop policy target (databases s) (estimated_memory s) 0 = (ds, usage, n)"
    and s': "s' = s\<lparr>databases := ds, cached_memory_usage := usage\<rparr>"
    using assms(2,3) by (auto simp: evict_until_under_def split: prod.splits)
  note spec = evict_loop_spec [OF store_wf_dbs [OF assms(1)] _ l, unfolded estimated_memory_def, OF refl]
  have rel: "list_all2 (evicted_from policy) (databases s) (databases s')" using spec s' by simp
  have frame: "raw s' i k = raw s i k \<or>
      (raw s' i k = None \<and> (\<exists>e. raw s i k = Some e \<and> candidate policy (k, e)))" for i k
    by (rule raw_related [OF rel, where P = "\<lambda>k r r'. r' = r \<or> (r' = None \<and> (\<exists>e. r = Some e \<and> candidate policy (k, e)))"])
       (auto simp: evicted_from_def)
  have "\<not> candidate policy (k, e)" if "target < usage" "raw s' i k = Some e" for i k e
  proof -
    have "(k, e) \<in> set (ds ! i)" "ds ! i \<in> set ds"
      using that(2) s' by (auto simp: raw_def split: if_splits dest: map_of_SomeD)
    then show ?thesis using spec that(1) by (auto simp: filter_empty_conv)
  qed
  then show ?thesis using spec frame s' by (auto simp: estimated_memory_def total_keys_def not_le)
qed

theorem eviction_reaches_target_witness:
  "let s = fst (store_set (store_new 1) 0 ''k'' ''v'' None) in
     estimated_memory (fst (evict_until_under s 10 AllKeysRandom)) \<le> 10 \<or>
     (\<forall>i k. raw (fst (evict_until_under s 10 AllKeysRandom)) i k = None)"
proof -
  let ?s = "fst (store_set (store_new 1) 0 ''k'' ''v'' None)"
  obtain s' n where e: "evict_until_under ?s 10 AllKeysRandom = (s', n)" by fastforce
  have "store_wf ?s" by (rule set_op.upd_wf [OF store_wf_new])
  from eviction_reaches_target [OF this _ e] have "estimated_memory s' \<le> 10 \<or> (\<forall>i k. raw s' i k = None)"
    by (auto simp: candidate_def)
  with e show ?thesis by (simp add: Let_def)
qed

text \<open>
  C31: The active expiry cycle ends, removes nothing but entries that have expired, and so changes no
  read of any key of any database; it returns the number of entries removed and keeps the store
  well formed.
\<close>

theorem active_expiry_invisible:
  assumes "store_wf s" and "active_expire_cycle now s sample = (s', n)"
  shows "(\<forall>i k. live now s' i k = live now s i k) \<and>
         (\<forall>i k. raw s' i k = raw s i k \<or> (raw s' i k = None \<and> (\<exists>e. raw s i k = Some e \<and> expired now e))) \<and>
         total_keys s' + n = total_keys s \<and> list_all hm_wf (databases s')"
proof -
  obtain ds where l: "expire_dbs now (max sample 1) (databases s) = (ds, n)" and s': "s' = s\<lparr>databases := ds\<rparr>"
    using assms(2) by (auto simp: active_expire_cycle_def Let_def split: prod.splits)
  have rel: "list_all2 (expired_gone now) (databases s) (databases s')"
    and len: "sum_list (map length ds) + n = sum_list (map length (databases s))"
    using expire_dbs_spec [OF store_wf_dbs [OF assms(1)] l] s' by simp_all
  have frame: "raw s' i k = raw s i k \<or> (raw s' i k = None \<and> (\<exists>e. raw s i k = Some e \<and> expired now e))" for i k
    by (rule raw_related [OF rel, where P = "\<lambda>k r r'. r' = r \<or> (r' = None \<and> (\<exists>e. r = Some e \<and> expired now e))"])
       (auto simp: expired_gone_def)
  have "live now s' i k = live now s i k" for i k
    using frame [of i k] by (auto simp: live_def)
  moreover have "list_all hm_wf (databases s')"
    using rel by (auto simp: list_all_length list_all2_conv_all_nth expired_gone_def)
  ultimately show ?thesis using frame len s' by (simp add: total_keys_def)
qed

theorem active_expiry_invisible_witness:
  "let s = fst (store_set (store_new 1) 0 ''k'' ''v'' (Some 5)) in
     live 9 (fst (active_expire_cycle 9 s 20)) 0 ''k'' = live 9 s 0 ''k''"
proof -
  let ?s = "fst (store_set (store_new 1) 0 ''k'' ''v'' (Some 5))"
  obtain s' n where e: "active_expire_cycle 9 ?s 20 = (s', n)" by fastforce
  have "store_wf ?s" by (rule set_op.upd_wf [OF store_wf_new])
  from active_expiry_invisible [OF this e] e show ?thesis by (simp add: Let_def)
qed

end
