(* ===== verification/Steps.thy ===== *)
theory Steps
  imports StoreList StoreSet StoreHash StoreZSet StoreGroup StoreScan StoreMemory
begin

text \<open>
  The store as a state machine.  Every operation of \<open>store/memory.rs\<close> that changes the store is a rule
  of \<open>store_step\<close>; what the commands and the background tasks of the server do to a store is a run of
  such steps.  The invariants are proved by rule induction: the containers stay well formed and the
  number of databases does not change.
\<close>

inductive store_step :: "store \<Rightarrow> store \<Rightarrow> bool" where
  step_set: "store_step s (fst (store_set s i k v ex))"
| step_set_with_entry: "value_wf val \<Longrightarrow> store_step s (fst (set_with_entry s i k val ex))"
| step_del: "store_step s (fst (store_del s i k))"
| step_set_expire: "store_step s (fst (set_expire s i k ms))"
| step_remove_expire: "store_step s (fst (remove_expire s i k))"
| step_rename: "store_step s (fst (store_rename s i old new))"
| step_dbsize: "store_step s (fst (dbsize now s i))"
| step_flushdb: "store_step s (fst (flushdb s i))"
| step_flushall: "store_step s (fst (flushall s))"
| step_scan: "store_step s (fst (scan_keys now s i cursor pat n))"
| step_lpush: "store_step s (fst (store_lpush s i k vals))"
| step_rpush: "store_step s (fst (store_rpush s i k vals))"
| step_lpop: "store_step s (fst (store_lpop_one now s i k))"
| step_rpop: "store_step s (fst (store_rpop_one now s i k))"
| step_lset: "store_step s (fst (store_lset now s i k idx v))"
| step_ltrim: "store_step s (fst (store_ltrim now s i k start stop))"
| step_lrem: "store_step s (fst (store_lrem now s i k idx v))"
| step_sadd: "store_step s (fst (store_sadd s i k ms))"
| step_srem: "store_step s (fst (store_srem now s i k ms))"
| step_spop: "store_step s (fst (store_spop now s i k cnt))"
| step_hset: "store_step s (fst (store_hset s i k ps))"
| step_hdel: "store_step s (fst (store_hdel now s i k ms))"
| step_hincrby: "store_step s (fst (store_hincrby s i k f idx))"
| step_nhset: "store_step s (fst (store_nhset s i k f sf v))"
| step_nhdel: "store_step s (fst (store_nhdel now s i k f sfo))"
| step_zadd: "store_step s (fst (store_zadd s i k items))"
| step_zrem: "store_step s (fst (store_zrem now s i k ms))"
| step_xadd: "store_step s (fst (store_xadd now s i k v ps cnt))"
| step_xdel: "store_step s (fst (store_xdel now s i k ms))"
| step_xtrim: "store_step s (fst (store_xtrim now s i k n))"
| step_xgroup_create: "store_step s (fst (xgroup_create now s i k g v mkstream))"
| step_xgroup_destroy: "store_step s (fst (xgroup_destroy s i k g))"
| step_xgroup_create_consumer: "store_step s (fst (xgroup_create_consumer s i k g cname))"
| step_xgroup_del_consumer: "store_step s (fst (xgroup_del_consumer s i k g cname))"
| step_xreadgroup: "store_step s (fst (xreadgroup now s i k g cname rstart cnt noack))"
| step_xack: "store_step s (fst (store_xack s i k g ids))"
| step_xclaim: "store_step s (fst (store_xclaim now s i k g cname idle ids force justid))"
| step_scripts: "store_step s (s\<lparr>lua_scripts := scripts\<rparr>)"
| step_pubsub: "store_step s (s\<lparr>pubsub_reg := reg\<rparr>)"
| step_blocked: "store_step s (s\<lparr>block_reg := breg\<rparr>)"
| step_configure: "store_step s (configure_memory s n pol)"
| step_refresh: "store_step s (fst (refresh_memory_usage s))"
| step_evict: "store_step s (fst (evict_until_under s n pol))"
| step_active_expire: "store_step s (fst (active_expire_cycle now s n))"

abbreviation store_steps :: "store \<Rightarrow> store \<Rightarrow> bool" where
  "store_steps \<equiv> rtranclp store_step"

section \<open>The operations that are not updates of one key\<close>

lemma store_wf_databases: "databases s' = databases s \<Longrightarrow> store_wf s' = store_wf s"
  by (simp add: store_wf_def)

lemma scan_keys_databases: "databases (fst (scan_keys now s i cursor pat n)) = databases s"
  by (simp add: scan_keys_def Let_def split: sum.splits)

lemma dbsize_wf: "store_wf s \<Longrightarrow> store_wf (fst (dbsize now s i))"
  by (simp add: dbsize_def Let_def store_wf_foldl_remove split: sum.splits)

lemma databases_foldl_remove:
  "length (databases (foldl (\<lambda>s k. remove_entry s i k) s ks)) = length (databases s)"
  by (induction ks arbitrary: s) auto

lemma flushdb_wf: "store_wf s \<Longrightarrow> store_wf (fst (flushdb s i))"
  by (auto simp: flushdb_def hm_wf_def intro: store_wf_set_db split: sum.splits)

lemma flushall_wf: "store_wf (fst (flushall s))"
  by (auto simp: flushall_def store_wf_def hm_wf_def)

lemma put_group_databases [simp]: "databases (put_group s k g) = databases s"
  by (simp add: put_group_def)

lemma group_databases:
  "databases (fst (xgroup_destroy s i k g)) = databases s"
  "databases (fst (xgroup_create_consumer s i k g cname)) = databases s"
  "databases (fst (xgroup_del_consumer s i k g cname)) = databases s"
  "databases (fst (xreadgroup now s i k g cname rstart cnt noack)) = databases s"
  "databases (fst (store_xack s i k g ids)) = databases s"
  "databases (fst (store_xclaim now s i k g cname idle ids force justid)) = databases s"
  by (auto simp: xgroup_destroy_def xgroup_create_consumer_def xgroup_del_consumer_def xreadgroup_def
      store_xack_def store_xclaim_def Let_def split: sum.splits option.splits prod.splits
      read_group_start.splits)

lemma xgroup_create_wf: "store_wf s \<Longrightarrow> store_wf (fst (xgroup_create now s i k g v mkstream))"
proof -
  assume wf: "store_wf s"
  have "store_wf (put_entry s i k (new_entry (StreamV [] 0 0)))" if "store_exists now s i k = Inr x" for x
  proof -
    have "valid_db s i" using that by (cases "valid_db s i") (auto simp: store_exists_def entry_out_of_range)
    then show ?thesis using wf by (auto simp: new_entry_def)
  qed
  then show ?thesis using wf
    by (auto simp: xgroup_create_def put_group_def Let_def split: sum.splits prod.splits)
qed

lemma length_xgroup_create:
  "length (databases (fst (xgroup_create now s i k g v mkstream))) = length (databases s)"
  by (auto simp: xgroup_create_def Let_def split: sum.splits prod.splits)

lemma wf_related:
  assumes "store_wf s" "list_all2 R (databases s) (databases s')"
    and R: "\<And>d d'. R d d' \<Longrightarrow> hm_wf d' \<and> (\<forall>k. hm_get d' k = hm_get d k \<or> hm_get d' k = None)"
  shows "store_wf s'"
  unfolding store_wf_def
proof (intro ballI conjI)
  fix d' assume "d' \<in> set (databases s')"
  then obtain d where d: "d \<in> set (databases s)" "R d d'"
    using assms(2) by (metis in_set_conv_nth list_all2_conv_all_nth)
  then show wf': "hm_wf d'" using R by blast
  fix ke assume "ke \<in> set d'"
  then have "hm_get d' (fst ke) = Some (snd ke)"
    using wf' by (metis prod.collapse set_hm_iff)
  then have "hm_get d (fst ke) = Some (snd ke)" using R [OF d(2)] by (metis option.distinct(1))
  then have "(fst ke, snd ke) \<in> set d" by (rule map_of_SomeD)
  then show "value_wf (ent_value (snd ke))" using assms(1) d(1) by (fastforce simp: store_wf_def)
qed

lemma evict_until_under_wf:
  assumes "store_wf s"
  shows "store_wf (fst (evict_until_under s n pol)) \<and>
         length (databases (fst (evict_until_under s n pol))) = length (databases s)"
proof (cases "pol = NoEviction")
  case False
  obtain ds usage evicted where l: "evict_loop pol n (databases s) (estimated_memory s) 0 = (ds, usage, evicted)"
    by (metis prod_cases3)
  have rel: "list_all2 (evicted_from pol) (databases s) ds"
    using evict_loop_spec [OF store_wf_dbs [OF assms] _ l] by (simp add: estimated_memory_def)
  have s': "fst (evict_until_under s n pol) = s\<lparr>databases := ds, cached_memory_usage := usage\<rparr>"
    using False l by (simp add: evict_until_under_def)
  have "store_wf (fst (evict_until_under s n pol))" unfolding s'
    by (rule wf_related [OF assms, of "evicted_from pol"]) (auto simp: rel evicted_from_def)
  then show ?thesis using list_all2_lengthD [OF rel] by (simp add: s')
qed (simp add: assms evict_until_under_def)

lemma active_expire_cycle_wf:
  assumes "store_wf s"
  shows "store_wf (fst (active_expire_cycle now s n)) \<and>
         length (databases (fst (active_expire_cycle now s n))) = length (databases s)"
proof -
  obtain ds r where l: "expire_dbs now (max n 1) (databases s) = (ds, r)" by fastforce
  have rel: "list_all2 (expired_gone now) (databases s) ds"
    using expire_dbs_spec [OF store_wf_dbs [OF assms] l] by blast
  have s': "fst (active_expire_cycle now s n) = s\<lparr>databases := ds\<rparr>"
    using l by (simp add: active_expire_cycle_def)
  have "store_wf (fst (active_expire_cycle now s n))" unfolding s'
    by (rule wf_related [OF assms, of "expired_gone now"]) (auto simp: rel expired_gone_def)
  then show ?thesis using list_all2_lengthD [OF rel] by (simp add: s')
qed

section \<open>Invariants\<close>

lemmas keyed_wf =
  set_op.upd_wf del_op.upd_wf set_expire_op.upd_wf remove_expire_op.upd_wf lpush.upd_wf rpush.upd_wf
  lpop.upd_wf rpop.upd_wf lset.upd_wf ltrim.upd_wf lrem.upd_wf sadd.upd_wf srem.upd_wf spop.upd_wf
  hset.upd_wf hdel.upd_wf hincrby.upd_wf nhset.upd_wf nhdel.upd_wf zadd.upd_wf zrem.upd_wf
  xadd.upd_wf xdel.upd_wf xtrim.upd_wf

lemmas keyed_dbs =
  set_op.upd_dbs del_op.upd_dbs set_expire_op.upd_dbs remove_expire_op.upd_dbs lpush.upd_dbs rpush.upd_dbs
  lpop.upd_dbs rpop.upd_dbs lset.upd_dbs ltrim.upd_dbs lrem.upd_dbs sadd.upd_dbs srem.upd_dbs spop.upd_dbs
  hset.upd_dbs hdel.upd_dbs hincrby.upd_dbs nhset.upd_dbs nhdel.upd_dbs zadd.upd_dbs zrem.upd_dbs
  xadd.upd_dbs xdel.upd_dbs xtrim.upd_dbs

lemma length_set_with_entry: "length (databases (fst (set_with_entry s i k v ex))) = length (databases s)"
  by (auto simp: set_with_entry_def split: sum.splits option.splits)

lemma length_rename: "length (databases (fst (store_rename s i old new))) = length (databases s)"
  by (auto simp: store_rename_def split: sum.splits option.splits)

lemma settings_databases:
  "databases (s\<lparr>lua_scripts := scripts\<rparr>) = databases s"
  "databases (s\<lparr>pubsub_reg := reg\<rparr>) = databases s"
  "databases (s\<lparr>block_reg := breg\<rparr>) = databases s"
  "databases (configure_memory s n pol) = databases s"
  "databases (fst (refresh_memory_usage s)) = databases s"
  by (simp_all add: configure_memory_def refresh_memory_usage_def Let_def)

lemma store_step_inv:
  "store_step s s' \<Longrightarrow> store_wf s \<Longrightarrow> store_wf s' \<and> length (databases s') = length (databases s)"
proof (induction rule: store_step.induct)
  case (step_scan s now i cursor pat n)
  then show ?case by (simp add: store_wf_databases [OF scan_keys_databases] scan_keys_databases)
next
  case (step_dbsize s now i)
  then show ?case by (simp add: dbsize_wf) (simp add: dbsize_def Let_def databases_foldl_remove split: sum.splits)
next
  case (step_flushdb s i)
  then show ?case by (simp add: flushdb_wf) (simp add: flushdb_def split: sum.splits)
next
  case (step_flushall s)
  then show ?case by (simp add: flushall_wf) (simp add: flushall_def)
next
  case (step_evict s n pol)
  then show ?case by (rule evict_until_under_wf)
next
  case (step_active_expire s now n)
  then show ?case by (rule active_expire_cycle_wf)
next
  case (step_xgroup_create s now i k g v mkstream)
  then show ?case by (simp add: xgroup_create_wf length_xgroup_create)
next
  case (step_rename s i old new)
  then show ?case by (simp add: store_rename_wf length_rename)
next
  case (step_set_with_entry v s i k ex)
  then show ?case by (simp add: set_with_entry_wf length_set_with_entry)
qed (simp_all add: keyed_wf keyed_dbs group_databases [THEN store_wf_databases] group_databases
       settings_databases [THEN store_wf_databases] settings_databases)

lemma store_steps_inv:
  "store_steps s s' \<Longrightarrow> store_wf s \<Longrightarrow> store_wf s' \<and> length (databases s') = length (databases s)"
  by (induction rule: rtranclp_induct) (auto dest: store_step_inv)

end
