(* ===== verification/Resp.thy ===== *)
theory Resp
  imports Errors OrderedMap
begin

text \<open>
  \<open>resp/types.rs\<close>, \<open>resp/parser.rs\<close> and \<open>resp/serializer.rs\<close>: the values of the RESP protocol,
  their serialization for protocol versions 2 and 3, and the parser of requests.

  The parser is written with the combinators of the crate nom, which is not part of the sources:
  the combinators are the fields of a record \<open>nom\<close> that every parser takes, and \<open>nom_laws\<close> states
  what their documentation says of the \<open>complete\<close> versions the sources import.  \<open>resp_value\<close> calls
  itself through \<open>many_m_n\<close>, so it recurses on a depth; one more than the length of the input is
  enough, because every nested array starts with a byte of its own.

  The text of a double (\<open>format!("{}", d)\<close>) is a parameter as well.
\<close>

section \<open>Values\<close>

datatype resp_value =
    SimpleString bytes
  | RespError bytes
  | RInteger int
  | BulkString "bytes option"
  | RArray "resp_value list option"
  | RMap "(resp_value \<times> resp_value) list"
  | Double f64
  | Boolean bool
  | RNull

definition resp_ok :: resp_value where "resp_ok = SimpleString ''OK''"
definition resp_pong :: resp_value where "resp_pong = SimpleString ''PONG''"
definition resp_nil :: resp_value where "resp_nil = BulkString None"
definition resp_bulk :: "bytes \<Rightarrow> resp_value" where "resp_bulk s = BulkString (Some s)"

fun as_bulk_string :: "resp_value \<Rightarrow> bytes option" where
  "as_bulk_string (BulkString (Some s)) = Some s"
| "as_bulk_string (SimpleString s) = Some s"
| "as_bulk_string _ = None"

fun as_int :: "resp_value \<Rightarrow> int option" where
  "as_int (RInteger i) = Some i"
| "as_int (BulkString (Some s)) = parse_i64 (utf8_lossy s)"
| "as_int _ = None"

section \<open>Serialization\<close>

definition crlf :: bytes where "crlf = [CHR 0x0D, CHR 0x0A]"

text \<open>
  The integer a double stands for, if it is one: the significand times the power of two of the
  exponent field, from the bits.
\<close>

definition f64_integer :: "f64 \<Rightarrow> int option" where
  "f64_integer d =
     (let e = f64_mag d div 2 ^ 52;
          frac = f64_mag d mod 2 ^ 52;
          m = (if e = 0 then frac else frac + 2 ^ 52);
          ex = (if e = 0 then 1 else e);
          sgn = (if f64_neg d then - 1 else 1)
      in if 1075 \<le> ex then Some (sgn * int (m * 2 ^ (ex - 1075)))
         else if m mod 2 ^ (1075 - ex) = 0 then Some (sgn * int (m div 2 ^ (1075 - ex)))
         else None)"

definition format_double :: "(f64 \<Rightarrow> bytes) \<Rightarrow> f64 \<Rightarrow> bytes" where
  "format_double fmt d =
     (if f64_mag d = 0x7FF0000000000000 then (if f64_neg d then ''-inf'' else ''inf'')
      else if f64_is_nan d then ''nan''
      else case f64_integer d of
        Some i \<Rightarrow> if abs i < 10 ^ 17 then int_to_string i else fmt d
      | None \<Rightarrow> fmt d)"

fun serialize_value :: "(f64 \<Rightarrow> bytes) \<Rightarrow> nat \<Rightarrow> resp_value \<Rightarrow> bytes" where
  "serialize_value fmt proto (SimpleString s) = ''+'' @ s @ crlf"
| "serialize_value fmt proto (RespError s) = ''-'' @ s @ crlf"
| "serialize_value fmt proto (RInteger i) = '':'' @ int_to_string i @ crlf"
| "serialize_value fmt proto (BulkString None) = (if 3 \<le> proto then ''_'' @ crlf else ''$-1'' @ crlf)"
| "serialize_value fmt proto (BulkString (Some s)) =
     ''$'' @ nat_to_string (length s) @ crlf @ s @ crlf"
| "serialize_value fmt proto (RArray None) = (if 3 \<le> proto then ''_'' @ crlf else ''*-1'' @ crlf)"
| "serialize_value fmt proto (RArray (Some items)) =
     ''*'' @ nat_to_string (length items) @ crlf @ concat (map (serialize_value fmt proto) items)"
| "serialize_value fmt proto (RMap ps) =
     (if 3 \<le> proto then ''%'' @ nat_to_string (length ps) else ''*'' @ nat_to_string (length ps * 2)) @ crlf @
     concat (map (\<lambda>p. serialize_value fmt proto (fst p) @ serialize_value fmt proto (snd p)) ps)"
| "serialize_value fmt proto (Double d) =
     (let s = format_double fmt d
      in if 3 \<le> proto then '','' @ s @ crlf
         else ''$'' @ nat_to_string (length s) @ crlf @ s @ crlf)"
| "serialize_value fmt proto (Boolean b) =
     (if 3 \<le> proto then ''#'' @ (if b then ''t'' else ''f'') @ crlf
      else '':'' @ (if b then ''1'' else ''0'') @ crlf)"
| "serialize_value fmt proto RNull = (if 3 \<le> proto then ''_'' @ crlf else ''$-1'' @ crlf)"

definition serialize_response :: "(f64 \<Rightarrow> bytes) \<Rightarrow> resp_value \<Rightarrow> bytes" where
  "serialize_response fmt v = serialize_value fmt 2 v"

definition serialize_response_proto :: "(f64 \<Rightarrow> bytes) \<Rightarrow> resp_value \<Rightarrow> nat \<Rightarrow> bytes" where
  "serialize_response_proto fmt v proto = serialize_value fmt proto v"

section \<open>Parsing\<close>

datatype 'a iresult = IOk bytes 'a | IIncomplete | IError | IFailure

definition bind_i :: "'a iresult \<Rightarrow> (bytes \<Rightarrow> 'a \<Rightarrow> 'b iresult) \<Rightarrow> 'b iresult" where
  "bind_i r f = (case r of IOk rest a \<Rightarrow> f rest a | IIncomplete \<Rightarrow> IIncomplete | IError \<Rightarrow> IError | IFailure \<Rightarrow> IFailure)"

lemma bind_i_simps [simp]:
  "bind_i (IOk rest a) f = f rest a" "bind_i IIncomplete f = IIncomplete"
  "bind_i IError f = IError" "bind_i IFailure f = IFailure"
  by (simp_all add: bind_i_def)

record nom =
  n_tag :: "bytes \<Rightarrow> bytes \<Rightarrow> bytes iresult"
  n_take_while_m_n :: "nat \<Rightarrow> nat \<Rightarrow> (char \<Rightarrow> bool) \<Rightarrow> bytes \<Rightarrow> bytes iresult"
  n_crlf :: "bytes \<Rightarrow> bytes iresult"
  n_i64 :: "bytes \<Rightarrow> int iresult"
  n_take :: "nat \<Rightarrow> bytes \<Rightarrow> bytes iresult"
  n_terminated :: "(bytes \<Rightarrow> int iresult) \<Rightarrow> (bytes \<Rightarrow> bytes iresult) \<Rightarrow> bytes \<Rightarrow> int iresult"
  n_many_m_n :: "nat \<Rightarrow> nat \<Rightarrow> (bytes \<Rightarrow> resp_value iresult) \<Rightarrow> bytes \<Rightarrow> resp_value list iresult"
  n_alt :: "(bytes \<Rightarrow> resp_value iresult) list \<Rightarrow> bytes \<Rightarrow> resp_value iresult"

definition simple_string :: "nom \<Rightarrow> bytes \<Rightarrow> resp_value iresult" where
  "simple_string nm input =
     bind_i (n_tag nm ''+'' input) (\<lambda>input _.
     bind_i (n_take_while_m_n nm 0 u64_max (\<lambda>b. b \<noteq> CHR 0x0D) input) (\<lambda>input bs.
     bind_i (n_crlf nm input) (\<lambda>input _. IOk input (SimpleString (utf8_lossy bs)))))"

definition parse_error :: "nom \<Rightarrow> bytes \<Rightarrow> resp_value iresult" where
  "parse_error nm input =
     bind_i (n_tag nm ''-'' input) (\<lambda>input _.
     bind_i (n_take_while_m_n nm 0 u64_max (\<lambda>b. b \<noteq> CHR 0x0D) input) (\<lambda>input bs.
     bind_i (n_crlf nm input) (\<lambda>input _. IOk input (RespError (utf8_lossy bs)))))"

definition parse_integer :: "nom \<Rightarrow> bytes \<Rightarrow> resp_value iresult" where
  "parse_integer nm input =
     bind_i (n_tag nm '':'' input) (\<lambda>input _.
     bind_i (n_i64 nm input) (\<lambda>input num.
     bind_i (n_crlf nm input) (\<lambda>input _. IOk input (RInteger num))))"

definition parse_bulk_string :: "nom \<Rightarrow> bytes \<Rightarrow> resp_value iresult" where
  "parse_bulk_string nm input =
     bind_i (n_tag nm ''$'' input) (\<lambda>input _.
     bind_i (n_terminated nm (n_i64 nm) (n_crlf nm) input) (\<lambda>input len.
     if len < 0 then IOk input (BulkString None)
     else bind_i (n_take nm (i64_as_usize len) input) (\<lambda>input bs.
          bind_i (n_crlf nm input) (\<lambda>input _. IOk input (BulkString (Some bs))))))"

definition parse_array :: "nom \<Rightarrow> (bytes \<Rightarrow> resp_value iresult) \<Rightarrow> bytes \<Rightarrow> resp_value iresult" where
  "parse_array nm item input =
     bind_i (n_tag nm ''*'' input) (\<lambda>input _.
     bind_i (n_terminated nm (n_i64 nm) (n_crlf nm) input) (\<lambda>input len.
     if len < 0 then IOk input (RArray None)
     else bind_i (n_many_m_n nm (i64_as_usize len) (i64_as_usize len) item input) (\<lambda>input items.
          IOk input (RArray (Some items)))))"

primrec resp_value_depth :: "nom \<Rightarrow> nat \<Rightarrow> bytes \<Rightarrow> resp_value iresult" where
  "resp_value_depth nm 0 = (\<lambda>input. IFailure)"
| "resp_value_depth nm (Suc n) =
     n_alt nm [simple_string nm, parse_error nm, parse_integer nm, parse_bulk_string nm,
               parse_array nm (resp_value_depth nm n)]"

definition parse_resp_value :: "nom \<Rightarrow> bytes \<Rightarrow> resp_value iresult" where
  "parse_resp_value nm input = resp_value_depth nm (Suc (length input)) input"

definition parse_command :: "nom \<Rightarrow> bytes \<Rightarrow> bytes list iresult" where
  "parse_command nm input =
     bind_i (parse_resp_value nm input) (\<lambda>remaining v.
       case v of
         RArray (Some items) \<Rightarrow>
           IOk remaining (map the (filter (\<lambda>x. x \<noteq> None) (map as_bulk_string items)))
       | _ \<Rightarrow> IOk remaining [])"

section \<open>What the sources rely on in nom\<close>

text \<open>Exactly \<open>n\<close> times the parser, as long as it succeeds and consumes something.\<close>

fun repeat_exact :: "nat \<Rightarrow> (bytes \<Rightarrow> 'a iresult) \<Rightarrow> bytes \<Rightarrow> 'a list iresult" where
  "repeat_exact 0 p input = IOk input []"
| "repeat_exact (Suc n) p input =
     bind_i (p input) (\<lambda>rest a. bind_i (repeat_exact n p rest) (\<lambda>rest as. IOk rest (a # as)))"

fun first_ok :: "(bytes \<Rightarrow> 'a iresult) list \<Rightarrow> bytes \<Rightarrow> 'a iresult" where
  "first_ok [] input = IError"
| "first_ok (p # ps) input = (case p input of IError \<Rightarrow> first_ok ps input | r \<Rightarrow> r)"

definition consuming :: "(bytes \<Rightarrow> 'a iresult) \<Rightarrow> bool" where
  "consuming p \<longleftrightarrow>
     (\<forall>input rest a. length input \<le> u64_max \<and> p input = IOk rest a \<longrightarrow> length rest < length input)"

definition nom_laws :: "nom \<Rightarrow> bool" where
  "nom_laws nm \<longleftrightarrow>
     (\<forall>t i. n_tag nm t i = (if take (length t) i = t then IOk (drop (length t) i) t else IError)) \<and>
     (\<forall>P i. length i \<le> u64_max \<longrightarrow>
        n_take_while_m_n nm 0 u64_max P i = IOk (dropWhile P i) (takeWhile P i)) \<and>
     (\<forall>i. n_crlf nm i = (if take 2 i = crlf then IOk (drop 2 i) crlf else IError)) \<and>
     (\<forall>z i. in_i64 z \<and> (case i of [] \<Rightarrow> True | c # _ \<Rightarrow> digit_val c = None) \<longrightarrow>
        n_i64 nm (int_to_string z @ i) = IOk i z) \<and>
     (\<forall>i. (\<exists>rest z. n_i64 nm i = IOk rest z \<and> length rest < length i) \<or> n_i64 nm i = IError) \<and>
     (\<forall>n i. n_take nm n i = (if n \<le> length i then IOk (drop n i) (take n i) else IError)) \<and>
     (\<forall>p q i. n_terminated nm p q i = bind_i (p i) (\<lambda>rest a. bind_i (q rest) (\<lambda>rest _. IOk rest a))) \<and>
     (\<forall>n p i. length i \<le> u64_max \<and> consuming p \<longrightarrow> n_many_m_n nm n n p i = repeat_exact n p i) \<and>
     (\<forall>ps i. n_alt nm ps i = first_ok ps i)"

text \<open>A record of combinators that behaves so.\<close>

definition split_sign :: "bytes \<Rightarrow> int \<times> bytes" where
  "split_sign i =
     (case i of
        [] \<Rightarrow> (1, [])
      | c # r \<Rightarrow> if c = CHR ''-'' then (- 1, r) else if c = CHR ''+'' then (1, r) else (1, i))"

definition nom_ref_i64 :: "bytes \<Rightarrow> int iresult" where
  "nom_ref_i64 i =
     (let (sgn, body) = split_sign i;
          ds = takeWhile (\<lambda>c. digit_val c \<noteq> None) body
      in case parse_nat ds of
           None \<Rightarrow> IError
         | Some n \<Rightarrow> if ds \<noteq> [] \<and> in_i64 (sgn * int n) then IOk (drop (length ds) body) (sgn * int n) else IError)"

definition nom_ref :: nom where
  "nom_ref =
     \<lparr>n_tag = (\<lambda>t i. if take (length t) i = t then IOk (drop (length t) i) t else IError),
      n_take_while_m_n = (\<lambda>m n P i. IOk (dropWhile P i) (takeWhile P i)),
      n_crlf = (\<lambda>i. if take 2 i = crlf then IOk (drop 2 i) crlf else IError),
      n_i64 = nom_ref_i64,
      n_take = (\<lambda>n i. if n \<le> length i then IOk (drop n i) (take n i) else IError),
      n_terminated = (\<lambda>p q i. bind_i (p i) (\<lambda>rest a. bind_i (q rest) (\<lambda>rest _. IOk rest a))),
      n_many_m_n = (\<lambda>m n p i. repeat_exact n p i),
      n_alt = first_ok\<rparr>"

lemma takeWhile_digits_nat:
  assumes "case i of [] \<Rightarrow> True | c # _ \<Rightarrow> digit_val c = None"
  shows "takeWhile (\<lambda>c. digit_val c \<noteq> None) (nat_to_string n @ i) = nat_to_string n"
proof -
  have all: "\<forall>c\<in>set (nat_to_string n). digit_val c \<noteq> None" using nat_to_string_digits by blast
  have "takeWhile (\<lambda>c. digit_val c \<noteq> None) i = []" using assms by (cases i) auto
  then show ?thesis using all by (simp add: takeWhile_append2)
qed

lemma nom_ref_i64_print:
  assumes "in_i64 z" "case i of [] \<Rightarrow> True | c # _ \<Rightarrow> digit_val c = None"
  shows "nom_ref_i64 (int_to_string z @ i) = IOk i z"
proof -
  obtain c cs where nz: "nat_to_string (nat z) = c # cs" by (cases "nat_to_string (nat z)") auto
  have c: "c \<noteq> CHR ''-''" "c \<noteq> CHR ''+''" using hd_nat_to_string_digit [OF nz] by auto
  have split: "split_sign (int_to_string z @ i) =
      (if z < 0 then - 1 else 1, nat_to_string (nat (abs z)) @ i)"
    using c by (simp add: split_sign_def int_to_string_def nz)
  show ?thesis
    unfolding nom_ref_i64_def split Let_def prod.case takeWhile_digits_nat [OF assms(2)]
    using assms(1) by simp
qed

lemma nom_ref_i64_consumes:
  "(\<exists>rest z. nom_ref_i64 i = IOk rest z \<and> length rest < length i) \<or> nom_ref_i64 i = IError"
proof -
  obtain sgn body where b: "split_sign i = (sgn, body)" by fastforce
  have le: "length body \<le> length i" using b by (auto simp: split_sign_def split: list.splits if_splits)
  let ?ds = "takeWhile (\<lambda>c. digit_val c \<noteq> None) body"
  have "length (drop (length ?ds) body) < length i" if "?ds \<noteq> []"
  proof -
    have "length ?ds \<le> length body" "0 < length ?ds" using that by (simp_all add: length_takeWhile_le)
    then show ?thesis using le unfolding length_drop by linarith
  qed
  then show ?thesis unfolding nom_ref_i64_def b Let_def prod.case by (auto split: option.splits)
qed

lemma nom_laws_ref: "nom_laws nom_ref"
  unfolding nom_laws_def nom_ref_def
  using nom_ref_i64_print nom_ref_i64_consumes by (simp split: list.splits)

section \<open>Round trip\<close>

text \<open>The values a RESP 2 reader can tell apart, with texts that fit a line.\<close>

fun line_text :: "bytes \<Rightarrow> bool" where
  "line_text s \<longleftrightarrow> CHR 0x0D \<notin> set s \<and> utf8_lossy s = s"

fun wire2 :: "resp_value \<Rightarrow> bool" where
  "wire2 (SimpleString s) \<longleftrightarrow> line_text s"
| "wire2 (RespError s) \<longleftrightarrow> line_text s"
| "wire2 (RInteger i) \<longleftrightarrow> in_i64 i"
| "wire2 (BulkString None) \<longleftrightarrow> True"
| "wire2 (BulkString (Some s)) \<longleftrightarrow> in_i64 (int (length s))"
| "wire2 (RArray None) \<longleftrightarrow> True"
| "wire2 (RArray (Some items)) \<longleftrightarrow> in_i64 (int (length items)) \<and> (\<forall>v\<in>set items. wire2 v)"
| "wire2 _ \<longleftrightarrow> False"

fun depth :: "resp_value \<Rightarrow> nat" where
  "depth (RArray (Some items)) = Suc (fold max (map depth items) 0)"
| "depth _ = 1"

lemma int_to_string_nat: "int_to_string (int n) = nat_to_string n"
  by (simp add: int_to_string_def)

lemma crlf_no_digit: "case crlf @ r of [] \<Rightarrow> True | c # _ \<Rightarrow> digit_val c = None"
  by (simp add: crlf_def digit_val_def)

lemma tag_hit: "nom_laws nm \<Longrightarrow> n_tag nm [c] (c # r) = IOk r [c]"
  by (simp add: nom_laws_def)

lemma tag_miss: "nom_laws nm \<Longrightarrow> c \<noteq> d \<Longrightarrow> n_tag nm [c] (d # r) = IError"
  by (simp add: nom_laws_def)

lemma crlf_hit: "nom_laws nm \<Longrightarrow> n_crlf nm (crlf @ r) = IOk r crlf"
  by (simp add: nom_laws_def crlf_def)

lemma i64_hit:
  assumes "nom_laws nm" "in_i64 z"
  shows "n_i64 nm (int_to_string z @ crlf @ r) = IOk (crlf @ r) z"
proof -
  have "\<forall>z i. in_i64 z \<and> (case i of [] \<Rightarrow> True | c # _ \<Rightarrow> digit_val c = None) \<longrightarrow>
        n_i64 nm (int_to_string z @ i) = IOk i z"
    using assms(1) unfolding nom_laws_def by blast
  with assms(2) crlf_no_digit show ?thesis by blast
qed

lemma terminated_eq:
  "nom_laws nm \<Longrightarrow> n_terminated nm p q i = bind_i (p i) (\<lambda>rest a. bind_i (q rest) (\<lambda>rest _. IOk rest a))"
  unfolding nom_laws_def by blast

lemma take_hit: "nom_laws nm \<Longrightarrow> n_take nm (length s) (s @ r) = IOk r s"
  by (simp add: nom_laws_def)

lemma line_hit:
  assumes "nom_laws nm" "CHR 0x0D \<notin> set s" "length (s @ crlf @ r) \<le> u64_max"
  shows "n_take_while_m_n nm 0 u64_max (\<lambda>b. b \<noteq> CHR 0x0D) (s @ crlf @ r) = IOk (crlf @ r) s"
proof -
  let ?P = "\<lambda>b. b \<noteq> CHR 0x0D"
  have "\<forall>P i. length i \<le> u64_max \<longrightarrow>
      n_take_while_m_n nm 0 u64_max P i = IOk (dropWhile P i) (takeWhile P i)"
    using assms(1) unfolding nom_laws_def by blast
  with assms(3) have "n_take_while_m_n nm 0 u64_max ?P (s @ crlf @ r) =
      IOk (dropWhile ?P (s @ crlf @ r)) (takeWhile ?P (s @ crlf @ r))" by blast
  moreover have "\<forall>c\<in>set s. ?P c" using assms(2) by auto
  ultimately show ?thesis by (simp add: takeWhile_append2 dropWhile_append2 crlf_def)
qed

lemma i64_consumes:
  "nom_laws nm \<Longrightarrow> (\<exists>rest z. n_i64 nm i = IOk rest z \<and> length rest < length i) \<or> n_i64 nm i = IError"
  unfolding nom_laws_def by blast

lemma alt_eq: "nom_laws nm \<Longrightarrow> n_alt nm ps i = first_ok ps i"
  unfolding nom_laws_def by blast

lemma many_eq:
  "nom_laws nm \<Longrightarrow> length i \<le> u64_max \<Longrightarrow> consuming p \<Longrightarrow> n_many_m_n nm n n p i = repeat_exact n p i"
  unfolding nom_laws_def by blast

text \<open>A parser that succeeds only on shorter rests and never asks for more input.\<close>

definition decided :: "'a iresult \<Rightarrow> bytes \<Rightarrow> bool" where
  "decided r i \<longleftrightarrow> r \<noteq> IIncomplete \<and> (\<forall>rest a. r = IOk rest a \<longrightarrow> length rest < length i)"

lemma tag_decided:
  "nom_laws nm \<Longrightarrow> n_tag nm [c] i = IError \<or> (\<exists>r. i = c # r \<and> n_tag nm [c] i = IOk r [c])"
  by (cases i; auto simp: nom_laws_def)

lemma crlf_decided:
  "nom_laws nm \<Longrightarrow> n_crlf nm i = IError \<or> (\<exists>r. n_crlf nm i = IOk r crlf \<and> length r \<le> length i)"
  by (simp add: nom_laws_def)

lemma line_decided:
  assumes "nom_laws nm" "length i \<le> u64_max"
  shows "\<exists>r s. n_take_while_m_n nm 0 u64_max P i = IOk r s \<and> length r \<le> length i"
proof -
  have "n_take_while_m_n nm 0 u64_max P i = IOk (dropWhile P i) (takeWhile P i)"
    using assms unfolding nom_laws_def by blast
  then show ?thesis by (auto simp: length_dropWhile_le)
qed

lemma line_parser_decided:
  assumes laws: "nom_laws nm" and "length i \<le> u64_max"
  shows "decided (bind_i (n_tag nm [c] i) (\<lambda>i _.
     bind_i (n_take_while_m_n nm 0 u64_max P i) (\<lambda>i bs. bind_i (n_crlf nm i) (\<lambda>i _. IOk i (f bs))))) i"
proof (cases "n_tag nm [c] i = IError")
  case True
  then show ?thesis by (simp add: decided_def)
next
  case False
  then obtain r where r: "i = c # r" "n_tag nm [c] i = IOk r [c]" using tag_decided [OF laws] by blast
  with assms(2) obtain r2 s where r2: "n_take_while_m_n nm 0 u64_max P r = IOk r2 s" "length r2 \<le> length r"
    using line_decided [OF laws, of r P] by auto
  from crlf_decided [OF laws, of r2] r r2 show ?thesis by (auto simp: decided_def)
qed

lemma number_decided:
  assumes laws: "nom_laws nm"
  shows "n_terminated nm (n_i64 nm) (n_crlf nm) i = IError \<or>
     (\<exists>r z. n_terminated nm (n_i64 nm) (n_crlf nm) i = IOk r z \<and> length r < length i)"
  using i64_consumes [OF laws, of i]
proof (elim disjE exE conjE)
  fix rest z assume r: "n_i64 nm i = IOk rest z" "length rest < length i"
  from crlf_decided [OF laws, of rest] show ?thesis
    by (elim disjE exE conjE) (use r in \<open>auto simp: terminated_eq [OF laws]\<close>)
qed (simp add: terminated_eq [OF laws])

lemma bulk_decided:
  assumes laws: "nom_laws nm"
  shows "decided (parse_bulk_string nm i) i"
proof (cases "n_tag nm ''$'' i = IError")
  case True
  then show ?thesis by (simp add: decided_def parse_bulk_string_def)
next
  case False
  then obtain r where r: "i = CHR ''$'' # r" "n_tag nm ''$'' i = IOk r ''$''"
    using tag_decided [OF laws] by blast
  from number_decided [OF laws, of r] show ?thesis
  proof (elim disjE exE conjE)
    fix r1 z assume n: "n_terminated nm (n_i64 nm) (n_crlf nm) r = IOk r1 z" "length r1 < length r"
    have take: "n_take nm k r1 = IError \<or> (\<exists>b. n_take nm k r1 = IOk (drop k r1) b)" for k
      using laws by (simp add: nom_laws_def)
    show ?thesis
    proof (cases "z < 0")
      case True
      with r n show ?thesis by (simp add: decided_def parse_bulk_string_def)
    next
      case False
      let ?k = "i64_as_usize z"
      from take [of ?k] crlf_decided [OF laws, of "drop ?k r1"] show ?thesis
        by (elim disjE exE conjE) (use r n False in \<open>auto simp: decided_def parse_bulk_string_def\<close>)
    qed
  qed (simp add: decided_def parse_bulk_string_def r(2))
qed

lemma repeat_decided:
  assumes p: "\<And>i. length i \<le> u64_max \<Longrightarrow> decided (p i) i" and "length i \<le> u64_max"
  shows "repeat_exact n p i \<noteq> IIncomplete \<and>
     (\<forall>rest as. repeat_exact n p i = IOk rest as \<longrightarrow> length rest \<le> length i)"
  using assms(2)
proof (induction n arbitrary: i)
  case 0
  then show ?case by simp
next
  case (Suc n)
  show ?case
  proof (cases "p i")
    case (IOk rest a)
    with p [OF Suc.prems] have "length rest < length i" by (simp add: decided_def)
    with Suc.IH [of rest] Suc.prems IOk show ?thesis
      by (cases "repeat_exact n p rest") auto
  qed (use p [OF Suc.prems] in \<open>simp_all add: decided_def\<close>)
qed

lemma array_decided:
  assumes laws: "nom_laws nm" and p: "\<And>i. length i \<le> u64_max \<Longrightarrow> decided (p i) i" and "length i \<le> u64_max"
  shows "decided (parse_array nm p i) i"
proof (cases "n_tag nm ''*'' i = IError")
  case True
  then show ?thesis by (simp add: decided_def parse_array_def)
next
  case False
  then obtain r where r: "i = CHR ''*'' # r" "n_tag nm ''*'' i = IOk r ''*''"
    using tag_decided [OF laws] by blast
  have cons: "consuming p" using p by (auto simp: consuming_def decided_def)
  from number_decided [OF laws, of r] show ?thesis
  proof (elim disjE exE conjE)
    fix r1 z assume n: "n_terminated nm (n_i64 nm) (n_crlf nm) r = IOk r1 z" "length r1 < length r"
    let ?k = "i64_as_usize z"
    have le: "length r1 \<le> u64_max" using n r assms(3) by simp
    from repeat_decided [OF p le, of ?k] show ?thesis
      by (cases "repeat_exact ?k p r1")
         (use r n in \<open>auto simp: decided_def parse_array_def many_eq [OF laws le cons]\<close>)
  qed (simp add: decided_def parse_array_def r(2))
qed

lemma first_ok_decided: "(\<And>p. p \<in> set ps \<Longrightarrow> decided (p i) i) \<Longrightarrow> decided (first_ok ps i) i"
proof (induction ps)
  case Nil
  then show ?case by (simp add: decided_def)
next
  case (Cons p ps)
  then show ?case by (cases "p i") (fastforce simp: decided_def)+
qed

lemma integer_decided:
  assumes laws: "nom_laws nm"
  shows "decided (parse_integer nm i) i"
proof (cases "n_tag nm '':'' i = IError")
  case True
  then show ?thesis by (simp add: decided_def parse_integer_def)
next
  case False
  then obtain r where r: "i = CHR '':'' # r" "n_tag nm '':'' i = IOk r '':''"
    using tag_decided [OF laws] by blast
  from i64_consumes [OF laws, of r] show ?thesis
  proof (elim disjE exE conjE)
    fix r1 z assume n: "n_i64 nm r = IOk r1 z" "length r1 < length r"
    from crlf_decided [OF laws, of r1] show ?thesis
      by (elim disjE exE conjE) (use r n in \<open>auto simp: decided_def parse_integer_def\<close>)
  qed (simp add: decided_def parse_integer_def r(2))
qed

lemma resp_value_depth_decided:
  assumes laws: "nom_laws nm"
  shows "length i \<le> u64_max \<Longrightarrow> decided (resp_value_depth nm n i) i"
proof (induction n arbitrary: i)
  case 0
  then show ?case by (simp add: decided_def)
next
  case (Suc n)
  show ?case unfolding resp_value_depth.simps alt_eq [OF laws]
  proof (rule first_ok_decided)
    fix p assume "p \<in> set [simple_string nm, parse_error nm, parse_integer nm, parse_bulk_string nm,
        parse_array nm (resp_value_depth nm n)]"
    then consider "p = simple_string nm" | "p = parse_error nm" | "p = parse_integer nm"
      | "p = parse_bulk_string nm" | "p = parse_array nm (resp_value_depth nm n)" by auto
    then show "decided (p i) i"
    proof cases
      case 1
      show ?thesis unfolding 1 simple_string_def by (rule line_parser_decided [OF laws Suc.prems])
    next
      case 2
      show ?thesis unfolding 2 parse_error_def by (rule line_parser_decided [OF laws Suc.prems])
    next
      case 3
      then show ?thesis using integer_decided [OF laws] by blast
    next
      case 4
      then show ?thesis using bulk_decided [OF laws] by blast
    next
      case 5
      then show ?thesis using array_decided [OF laws Suc.IH Suc.prems] by blast
    qed
  qed
qed

lemma bind_number:
  assumes laws: "nom_laws nm" and "in_i64 (int k)"
  shows "n_terminated nm (n_i64 nm) (n_crlf nm) (nat_to_string k @ crlf @ r) = IOk r (int k)"
  using i64_hit [OF assms, of r] by (simp add: terminated_eq [OF laws] int_to_string_nat crlf_hit [OF laws])

lemma other_tags_miss:
  assumes laws: "nom_laws nm"
  shows "c \<noteq> CHR ''+'' \<Longrightarrow> simple_string nm (c # i) = IError"
    and "c \<noteq> CHR ''-'' \<Longrightarrow> parse_error nm (c # i) = IError"
    and "c \<noteq> CHR '':'' \<Longrightarrow> parse_integer nm (c # i) = IError"
    and "c \<noteq> CHR ''$'' \<Longrightarrow> parse_bulk_string nm (c # i) = IError"
  by (simp_all add: simple_string_def parse_error_def parse_integer_def parse_bulk_string_def
      tag_miss [OF laws])

lemma bulk_hit:
  assumes laws: "nom_laws nm" and "in_i64 (int (length s))"
  shows "parse_bulk_string nm (''$'' @ nat_to_string (length s) @ crlf @ s @ crlf @ r) =
     IOk r (BulkString (Some s))"
proof -
  have "i64_as_usize (int (length s)) = length s" using assms(2) by (simp add: i64_as_usize_nonneg)
  then show ?thesis
    using bind_number [OF assms, of "s @ crlf @ r"] take_hit [OF laws, of s "crlf @ r"]
    by (simp add: parse_bulk_string_def tag_hit [OF laws] crlf_hit [OF laws])
qed

lemma repeat_hit:
  assumes "\<And>v r'. v \<in> set vs \<Longrightarrow> length (enc v @ r') \<le> u64_max \<Longrightarrow> p (enc v @ r') = IOk r' v"
    and "length (concat (map enc vs) @ r) \<le> u64_max"
  shows "repeat_exact (length vs) p (concat (map enc vs) @ r) = IOk r vs"
  using assms
proof (induction vs)
  case Nil
  then show ?case by simp
next
  case (Cons v vs)
  from Cons.prems(1) [of v "concat (map enc vs) @ r"] Cons.prems(2)
  have "p (enc v @ concat (map enc vs) @ r) = IOk (concat (map enc vs) @ r) v" by simp
  with Cons show ?case by simp
qed

lemma in_set_depth: "v \<in> set items \<Longrightarrow> depth v \<le> fold max (map depth items) 0"
proof -
  have ge: "x \<le> fold max xs x" for xs :: "nat list" and x
  proof (induction xs arbitrary: x)
    case (Cons a xs)
    then show ?case using order_trans [OF max.cobounded2 Cons.IH [of "max a x"]] by simp
  qed simp
  have mem: "y \<in> set xs \<Longrightarrow> y \<le> fold max xs x" for xs :: "nat list" and x y
  proof (induction xs arbitrary: x)
    case (Cons a xs)
    then show ?case using ge [of "max a x" xs] by auto
  qed simp
  assume "v \<in> set items"
  then show ?thesis by (intro mem) simp
qed

lemma resp_value_roundtrip:
  assumes laws: "nom_laws nm"
  shows "wire2 v \<Longrightarrow> depth v \<le> n \<Longrightarrow> length (serialize_value fmt 2 v @ r) \<le> u64_max \<Longrightarrow>
     resp_value_depth nm n (serialize_value fmt 2 v @ r) = IOk r v"
proof (induction v arbitrary: n r rule: wire2.induct)
  case (1 s)
  then obtain m where m: "n = Suc m" by (cases n) auto
  from 1 line_hit [OF laws, of s r] show ?case
    by (simp add: m alt_eq [OF laws] simple_string_def tag_hit [OF laws] crlf_hit [OF laws])
next
  case (2 s)
  then obtain m where m: "n = Suc m" by (cases n) auto
  from 2 line_hit [OF laws, of s r] show ?case
    by (simp add: m alt_eq [OF laws] other_tags_miss [OF laws] parse_error_def tag_hit [OF laws] crlf_hit [OF laws])
next
  case (3 i)
  then obtain m where m: "n = Suc m" by (cases n) auto
  from 3 i64_hit [OF laws, of i r] show ?case
    by (simp add: m alt_eq [OF laws] other_tags_miss [OF laws] parse_integer_def tag_hit [OF laws] crlf_hit [OF laws])
next
  case 4
  then obtain m where m: "n = Suc m" by (cases n) auto
  have one: "''-1'' = int_to_string (- 1)" by code_simp
  have "in_i64 (- 1)" by (simp add: in_i64_def i64_min_def i64_max_def)
  from i64_hit [OF laws this, of r] show ?case
    by (simp add: m alt_eq [OF laws] other_tags_miss [OF laws] parse_bulk_string_def tag_hit [OF laws]
        terminated_eq [OF laws] crlf_hit [OF laws] flip: one)
next
  case (5 s)
  then obtain m where m: "n = Suc m" by (cases n) auto
  from 5 bulk_hit [OF laws, of s r] show ?case
    by (simp add: m alt_eq [OF laws] other_tags_miss [OF laws])
next
  case 6
  then obtain m where m: "n = Suc m" by (cases n) auto
  have one: "''-1'' = int_to_string (- 1)" by code_simp
  have "in_i64 (- 1)" by (simp add: in_i64_def i64_min_def i64_max_def)
  from i64_hit [OF laws this, of r] show ?case
    by (simp add: m alt_eq [OF laws] other_tags_miss [OF laws] parse_array_def tag_hit [OF laws]
        terminated_eq [OF laws] crlf_hit [OF laws] flip: one)
next
  case (7 items)
  then obtain m where m: "n = Suc m" by (cases n) auto
  let ?body = "concat (map (serialize_value fmt 2) items) @ r"
  have len: "in_i64 (int (length items))" using "7.prems"(1) by simp
  have le: "length ?body \<le> u64_max" using "7.prems"(3) by simp
  have cons: "consuming (resp_value_depth nm m)"
    using resp_value_depth_decided [OF laws] by (auto simp: consuming_def decided_def)
  have rep: "repeat_exact (length items) (resp_value_depth nm m) ?body = IOk r items"
  proof (rule repeat_hit [OF _ le])
    fix v r' assume v: "v \<in> set items" "length (serialize_value fmt 2 v @ r') \<le> u64_max"
    have "depth v \<le> m" using in_set_depth [OF v(1)] "7.prems"(2) m by simp
    with "7.IH" [OF v(1)] "7.prems"(1) v show "resp_value_depth nm m (serialize_value fmt 2 v @ r') = IOk r' v"
      by simp
  qed
  have "i64_as_usize (int (length items)) = length items" using len by (simp add: i64_as_usize_nonneg)
  then show ?case
    using bind_number [OF laws len, of ?body] rep
    by (simp add: m alt_eq [OF laws] other_tags_miss [OF laws] parse_array_def tag_hit [OF laws]
        many_eq [OF laws le cons])
qed simp_all

lemma serialize_bulk_nonempty: "Suc 0 \<le> length (serialize_value fmt proto (BulkString v))"
  by (cases v) (simp_all add: crlf_def)

lemma depth_le_length: "depth v \<le> length (serialize_value fmt proto v)"
proof (induction v rule: depth.induct)
  case (1 items)
  have bound: "fold max (map depth vs) n \<le> n + length (concat (map (serialize_value fmt proto) vs))"
    if "\<forall>v\<in>set vs. depth v \<le> length (serialize_value fmt proto v)" for vs n
    using that
  proof (induction vs arbitrary: n)
    case (Cons v vs)
    have "fold max (map depth vs) (max (depth v) n) \<le>
        max (depth v) n + length (concat (map (serialize_value fmt proto) vs))"
      using Cons by simp
    moreover have "depth v \<le> length (serialize_value fmt proto v)" using Cons.prems by simp
    moreover have "max (depth v) n \<le> depth v + n" by simp
    ultimately show ?case by simp
  qed simp
  have "fold max (map depth items) 0 \<le> length (concat (map (serialize_value fmt proto) items))"
    using bound [of items 0] 1 by simp
  then show ?case by (simp add: crlf_def)
qed (simp_all add: crlf_def Let_def serialize_bulk_nonempty)

section \<open>Properties\<close>

text \<open>
  C11: What the serializer writes for a RESP 2 value (texts without a carriage return and in UTF-8,
  64-bit integers and lengths, arrays nested to any depth) the parser reads back as the same value,
  and it leaves exactly the bytes that follow.
\<close>

theorem resp2_roundtrip:
  assumes "nom_laws nm" and "wire2 v" and "length (serialize_response fmt v @ rest) \<le> u64_max"
  shows "parse_resp_value nm (serialize_response fmt v @ rest) = IOk rest v"
proof -
  have "depth v \<le> Suc (length (serialize_response fmt v @ rest))"
    using depth_le_length [of v fmt 2] by (simp add: serialize_response_def)
  from resp_value_roundtrip [OF assms(1,2) this] assms(3) show ?thesis
    by (simp add: parse_resp_value_def serialize_response_def)
qed

theorem resp2_roundtrip_witness:
  "parse_resp_value nom_ref (serialize_response (\<lambda>_. []) (RArray (Some [RInteger 7, BulkString None])) @ ''x'')
     = IOk ''x'' (RArray (Some [RInteger 7, BulkString None]))"
proof (rule resp2_roundtrip [OF nom_laws_ref])
  show "wire2 (RArray (Some [RInteger 7, BulkString None]))"
    by (simp add: in_i64_def i64_min_def i64_max_def)
  have "length (serialize_response (\<lambda>_. []) (RArray (Some [RInteger 7, BulkString None])) @ ''x'') = 14"
    by code_simp
  then show "length (serialize_response (\<lambda>_. []) (RArray (Some [RInteger 7, BulkString None])) @ ''x'') \<le> u64_max"
    by (simp add: u64_max_def)
qed

text \<open>
  Requests.  An array of bulk strings, the form in which every client sends a command, is
  parsed to the list of its arguments, whatever bytes they contain, and the rest of the buffer is
  left for the next command.
\<close>

lemma parse_command_args:
  assumes "nom_laws nm" and "in_i64 (int (length args))" and "\<forall>a\<in>set args. in_i64 (int (length a))"
    and "length (serialize_response fmt (RArray (Some (map (\<lambda>a. BulkString (Some a)) args))) @ rest) \<le> u64_max"
  shows "parse_command nm (serialize_response fmt (RArray (Some (map (\<lambda>a. BulkString (Some a)) args))) @ rest)
     = IOk rest args"
proof -
  let ?v = "RArray (Some (map (\<lambda>a. BulkString (Some a)) args))"
  have w: "wire2 ?v" using assms(2,3) by simp
  have "depth ?v \<le> Suc (length (serialize_response fmt ?v @ rest))"
    using depth_le_length [of ?v fmt 2] by (simp add: serialize_response_def)
  from resp_value_roundtrip [OF assms(1) w this] assms(4)
  have "parse_resp_value nm (serialize_response fmt ?v @ rest) = IOk rest ?v"
    by (simp add: parse_resp_value_def serialize_response_def)
  moreover have "map the (filter (\<lambda>x. x \<noteq> None) (map as_bulk_string (map (\<lambda>a. BulkString (Some a)) args))) = args"
    by (induction args) auto
  ultimately show ?thesis by (simp add: parse_command_def)
qed

text \<open>
  The parser never asks for more input: on every buffer it either succeeds, with a strictly
  shorter rest, or fails.  A frame that has arrived only in part is therefore a protocol error
  for the connection, which drops the client, and the branch of the connection that waits for the
  rest of a frame is never taken.
\<close>

theorem parser_never_incomplete:
  assumes "nom_laws nm" and "length input \<le> u64_max"
  shows "parse_command nm input \<noteq> IIncomplete \<and>
         (\<forall>rest args. parse_command nm input = IOk rest args \<longrightarrow> length rest < length input)"
proof -
  have d: "decided (parse_resp_value nm input) input"
    unfolding parse_resp_value_def by (rule resp_value_depth_decided [OF assms])
  show ?thesis
  proof (cases "parse_resp_value nm input")
    case (IOk r v)
    have "\<exists>a. parse_command nm input = IOk r a"
      by (simp add: parse_command_def IOk split: resp_value.splits option.splits)
    with d IOk show ?thesis by (auto simp: decided_def)
  qed (use d in \<open>simp_all add: parse_command_def decided_def\<close>)
qed

theorem parser_never_incomplete_witness:
  "parse_command nom_ref (''*1'' @ crlf @ ''$3'' @ crlf @ ''GE'') \<noteq> IIncomplete"
proof -
  have "length (''*1'' @ crlf @ ''$3'' @ crlf @ ''GE'') \<le> u64_max" by (simp add: crlf_def u64_max_def)
  from parser_never_incomplete [OF nom_laws_ref this] show ?thesis by blast
qed

end
