(* ===== verification/Cluster.thy ===== *)
theory Cluster
  imports Resp Containers
begin

text \<open>
  \<open>shard/router.rs\<close>, \<open>cluster/slots.rs\<close> and \<open>cluster/compat.rs\<close>: the slot of a key, the map from
  slots to nodes, the redirection of a command to the node that owns its slot, and the replies of
  CLUSTER SLOTS and CLUSTER NODES.  The checksum of the crate crc16 is a parameter of \<open>slot_for_key\<close>.
  An index beyond the vector of slots panics: such an operation returns \<^term>\<open>None\<close>.
\<close>

section \<open>The slot of a key\<close>

definition slot_count :: u16 where "slot_count = 16384"

definition extract_hashtag :: "bytes \<Rightarrow> bytes" where
  "extract_hashtag key =
     (case position (\<lambda>b. b = CHR ''{'') key of
        None \<Rightarrow> key
      | Some start \<Rightarrow>
          (case position (\<lambda>b. b = CHR ''}'') (drop (start + 1) key) of
             None \<Rightarrow> key
           | Some stop \<Rightarrow>
               (let inner = take stop (drop (start + 1) key)
                in if inner \<noteq> [] then inner else key)))"

definition slot_for_key :: "(bytes \<Rightarrow> u16) \<Rightarrow> bytes \<Rightarrow> u16" where
  "slot_for_key crc16 key = crc16 (extract_hashtag key) mod slot_count"

section \<open>Slots and nodes\<close>

datatype slot_state =
    Assigned bytes bytes
  | Migrating bytes bytes
  | Importing bytes
  | Unassigned

record slot_map =
  slots :: "slot_state list"
  slot_version :: u64

definition slot_map_new :: slot_map where
  "slot_map_new = \<lparr>slots = replicate (unat slot_count) Unassigned, slot_version = 0\<rparr>"

fun assign_slots :: "slot_state \<Rightarrow> nat list \<Rightarrow> slot_state list \<Rightarrow> slot_state list option" where
  "assign_slots st [] sl = Some sl"
| "assign_slots st (i # is) sl = (if i < length sl then assign_slots st is (sl[i := st]) else None)"

definition assign_range :: "slot_map \<Rightarrow> bytes \<Rightarrow> bytes \<Rightarrow> u16 \<Rightarrow> u16 \<Rightarrow> slot_map option" where
  "assign_range m nid addr start stop =
     (case assign_slots (Assigned nid addr) [unat start..<Suc (unat stop)] (slots m) of
        None \<Rightarrow> None
      | Some sl \<Rightarrow> Some (m\<lparr>slots := sl, slot_version := slot_version m + 1\<rparr>))"

definition get_slot :: "slot_map \<Rightarrow> u16 \<Rightarrow> slot_state option" where
  "get_slot m slot = (if unat slot < length (slots m) then Some (slots m ! unat slot) else None)"

definition move_slot :: "slot_map \<Rightarrow> u16 \<Rightarrow> bytes option option" where
  "move_slot m slot =
     (case get_slot m slot of
        None \<Rightarrow> None
      | Some (Assigned _ addr) \<Rightarrow> Some (Some addr)
      | Some (Migrating _ to) \<Rightarrow> Some (Some to)
      | Some _ \<Rightarrow> Some None)"

fun assigned_to :: "bytes \<Rightarrow> slot_state \<Rightarrow> bool" where
  "assigned_to owner (Assigned nid _) = (nid = owner)"
| "assigned_to owner _ = False"

definition owned_slots :: "slot_map \<Rightarrow> bytes \<Rightarrow> nat list" where
  "owned_slots m nid = filter (\<lambda>i. assigned_to nid (slots m ! i)) [0..<length (slots m)]"

record cluster_state =
  node_id :: bytes
  node_addr :: bytes
  cluster_port :: u16
  cs_slot_map :: slot_map
  peers :: "(bytes, bytes) hmap"

definition cluster_state_new :: "bytes \<Rightarrow> bytes \<Rightarrow> u16 \<Rightarrow> cluster_state option" where
  "cluster_state_new nid addr port =
     (case assign_range slot_map_new nid addr 0 (slot_count - 1) of
        None \<Rightarrow> None
      | Some m \<Rightarrow>
          Some \<lparr>node_id = nid, node_addr = addr, cluster_port = port, cs_slot_map = m, peers = []\<rparr>)"

definition add_peer :: "cluster_state \<Rightarrow> bytes \<Rightarrow> bytes \<Rightarrow> cluster_state" where
  "add_peer st nid addr = st\<lparr>peers := hm_insert nid addr (peers st)\<rparr>"

definition remove_peer :: "cluster_state \<Rightarrow> bytes \<Rightarrow> cluster_state" where
  "remove_peer st nid = st\<lparr>peers := hm_remove nid (peers st)\<rparr>"

section \<open>Redirection and replies\<close>

definition first_key_index :: "bytes \<Rightarrow> nat" where
  "first_key_index cmd_name = 0"

definition check_slot_redirect ::
  "(bytes \<Rightarrow> u16) \<Rightarrow> cluster_state \<Rightarrow> bytes \<Rightarrow> bytes list \<Rightarrow> resp_value option option" where
  "check_slot_redirect crc16 st cmd_name args =
     (let key_arg_idx = first_key_index cmd_name
      in if length args \<le> key_arg_idx then Some None
         else
           (let slot = slot_for_key crc16 (args ! key_arg_idx);
                moved = (\<lambda>addr. RespError (''MOVED '' @ nat_to_string (unat slot) @ '' '' @ addr))
            in case get_slot (cs_slot_map st) slot of
                 None \<Rightarrow> None
               | Some (Assigned nid addr) \<Rightarrow>
                   Some (if nid = node_id st then None else Some (moved addr))
               | Some (Migrating _ to) \<Rightarrow> Some (Some (moved to))
               | Some (Importing _) \<Rightarrow> Some None
               | Some Unassigned \<Rightarrow> Some None))"

text \<open>\<open>addr.split(':').next().unwrap_or("127.0.0.1")\<close>: splitting always yields a first piece.\<close>

definition host_part :: "bytes \<Rightarrow> bytes" where
  "host_part addr = takeWhile (\<lambda>c. c \<noteq> CHR '':'') addr"

definition cluster_slots_response :: "cluster_state \<Rightarrow> resp_value" where
  "cluster_slots_response st =
     (let owned = owned_slots (cs_slot_map st) (node_id st)
      in RArray (Some (if owned = [] then []
           else [RArray (Some
                   [RInteger (int (hd owned)), RInteger (int (last owned)),
                    RArray (Some [resp_bulk (host_part (node_addr st)),
                                  RInteger (uint (cluster_port st))])])])))"

definition owned_slots_range :: "cluster_state \<Rightarrow> bytes" where
  "owned_slots_range st =
     (let owned = owned_slots (cs_slot_map st) (node_id st)
      in if owned = [] then []
         else nat_to_string (hd owned) @ ''-'' @ nat_to_string (last owned))"

definition cluster_nodes_response :: "cluster_state \<Rightarrow> resp_value" where
  "cluster_nodes_response st =
     (let port = nat_to_string (unat (cluster_port st))
      in resp_bulk
           (node_id st @ '' '' @ host_part (node_addr st) @ '':6379@'' @ port @
            '' master - 0 0 0 connected '' @ owned_slots_range st @ [CHR 0x0A] @
            concat (map (\<lambda>(nid, addr). nid @ '' '' @ addr @ '':6379@'' @ port @
                           '' slave - 0 0 0 connected'' @ [CHR 0x0A]) (peers st))))"

section \<open>Lemmas\<close>

lemma slot_for_key_less: "slot_for_key crc16 key < slot_count"
  unfolding slot_for_key_def slot_count_def by (rule word_mod_less_divisor) simp

lemma position_append: "(\<forall>x\<in>set xs. \<not> P x) \<Longrightarrow> P y \<Longrightarrow> position P (xs @ y # ys) = Some (length xs)"
  by (induction xs) auto

lemma extract_hashtag_tag:
  assumes "CHR ''{'' \<notin> set p" "CHR ''}'' \<notin> set t" "t \<noteq> []"
  shows "extract_hashtag (p @ ''{'' @ t @ ''}'' @ q) = t"
proof -
  have 1: "position (\<lambda>b. b = CHR ''{'') (p @ CHR ''{'' # t @ ''}'' @ q) = Some (length p)"
    using assms(1) by (intro position_append) auto
  have 2: "position (\<lambda>b. b = CHR ''}'') (t @ CHR ''}'' # q) = Some (length t)"
    using assms(2) by (intro position_append) auto
  show ?thesis using 1 2 assms(3) by (simp add: extract_hashtag_def)
qed

lemma assign_slots_some:
  "\<forall>i\<in>set is. i < length sl \<Longrightarrow>
   \<exists>sl'. assign_slots st is sl = Some sl' \<and> length sl' = length sl \<and>
         (\<forall>j<length sl. sl' ! j = (if j \<in> set is then st else sl ! j))"
proof (induction "is" arbitrary: sl)
  case Nil
  then show ?case by simp
next
  case (Cons i "is")
  from Cons.prems Cons.IH [of "sl[i := st]"] obtain sl' where
    "assign_slots st is (sl[i := st]) = Some sl'" "length sl' = length sl"
    "\<forall>j<length sl. sl' ! j = (if j \<in> set is then st else sl[i := st] ! j)" by auto
  with Cons.prems show ?case by (auto simp: nth_list_update)
qed

lemma slot_count_nat [simp]: "unat slot_count = 16384"
  by (simp add: slot_count_def)

lemma cluster_state_new_slots:
  obtains st where "cluster_state_new nid addr port = Some st" "node_id st = nid" "node_addr st = addr"
    "cluster_port st = port" "peers st = []" "length (slots (cs_slot_map st)) = 16384"
    "\<And>j. j < 16384 \<Longrightarrow> slots (cs_slot_map st) ! j = Assigned nid addr"
proof -
  have last_slot: "unat (slot_count - 1) = 16383" by (simp add: slot_count_def)
  have "\<forall>i\<in>set [0..<16384]. i < length (slots slot_map_new)" by (simp add: slot_map_new_def)
  from assign_slots_some [OF this, of "Assigned nid addr"] obtain sl where sl:
    "assign_slots (Assigned nid addr) [0..<16384] (slots slot_map_new) = Some sl"
    "length sl = length (slots slot_map_new)"
    "\<forall>j<length (slots slot_map_new). sl ! j = Assigned nid addr" by (auto simp: slot_map_new_def)
  have *: "[unat (0::u16)..<Suc (unat (slot_count - 1))] = [0..<16384]" unfolding last_slot by simp
  have "cluster_state_new nid addr port =
      Some \<lparr>node_id = nid, node_addr = addr, cluster_port = port,
        cs_slot_map = slot_map_new\<lparr>slots := sl, slot_version := slot_version slot_map_new + 1\<rparr>, peers = []\<rparr>"
    unfolding cluster_state_new_def assign_range_def * sl(1) by simp
  with sl show ?thesis by (intro that) (auto simp: slot_map_new_def)
qed

lemma owned_slots_all:
  assumes "length (slots m) = 16384" "\<And>j. j < 16384 \<Longrightarrow> slots m ! j = Assigned nid addr"
  shows "owned_slots m nid = [0..<16384]"
  unfolding owned_slots_def assms(1) by (rule filter_True) (simp add: assms(2))

lemma unat_slot_for_key: "unat (slot_for_key crc16 key) < 16384"
  using slot_for_key_less [of crc16 key] by (metis slot_count_nat word_less_nat_alt)

lemma get_slot_key:
  "length (slots m) = 16384 \<Longrightarrow>
   get_slot m (slot_for_key crc16 key) = Some (slots m ! unat (slot_for_key crc16 key))"
  by (simp add: get_slot_def unat_slot_for_key)

section \<open>Routing\<close>

text \<open>
  Routing by slot.  Every key has one of the 16384 slots, and two keys with the same nonempty
  hash tag have the same slot, whatever the checksum is.  With a slot map of full size the redirection
  never panics; it sends a command away only from a slot that is not assigned to this node, and then
  to the address \<^const>\<open>move_slot\<close> gives for the slot of the key.
\<close>

theorem slot_routing:
  assumes "CHR ''{'' \<notin> set p" "CHR ''{'' \<notin> set p'" "CHR ''}'' \<notin> set t" "t \<noteq> []"
    and "length (slots (cs_slot_map st)) = 16384"
  shows "slot_for_key crc16 key < slot_count \<and>
    slot_for_key crc16 (p @ ''{'' @ t @ ''}'' @ q) = slot_for_key crc16 (p' @ ''{'' @ t @ ''}'' @ q') \<and>
    check_slot_redirect crc16 st name args \<noteq> None \<and>
    (check_slot_redirect crc16 st name (key # rest) = Some (Some r) \<longrightarrow>
         (\<exists>addr. move_slot (cs_slot_map st) (slot_for_key crc16 key) = Some (Some addr) \<and>
           \<not> assigned_to (node_id st) (slots (cs_slot_map st) ! unat (slot_for_key crc16 key)) \<and>
           r = RespError (''MOVED '' @ nat_to_string (unat (slot_for_key crc16 key)) @ '' '' @ addr)))"
proof (intro conjI impI)
  show "slot_for_key crc16 key < slot_count" by (rule slot_for_key_less)
  show "slot_for_key crc16 (p @ ''{'' @ t @ ''}'' @ q) = slot_for_key crc16 (p' @ ''{'' @ t @ ''}'' @ q')"
    unfolding slot_for_key_def
    by (simp only: extract_hashtag_tag [OF assms(1,3,4)] extract_hashtag_tag [OF assms(2,3,4)])
  show "check_slot_redirect crc16 st name args \<noteq> None"
    using get_slot_key [OF assms(5)]
    by (auto simp: check_slot_redirect_def Let_def first_key_index_def split: slot_state.splits)
  show "check_slot_redirect crc16 st name (key # rest) = Some (Some r) \<Longrightarrow>
         \<exists>addr. move_slot (cs_slot_map st) (slot_for_key crc16 key) = Some (Some addr) \<and>
           \<not> assigned_to (node_id st) (slots (cs_slot_map st) ! unat (slot_for_key crc16 key)) \<and>
           r = RespError (''MOVED '' @ nat_to_string (unat (slot_for_key crc16 key)) @ '' '' @ addr)"
    using get_slot_key [OF assms(5)]
    by (auto simp: check_slot_redirect_def move_slot_def Let_def first_key_index_def
        split: slot_state.splits if_splits)
qed

definition two_nodes :: cluster_state where
  "two_nodes = \<lparr>node_id = ''a'', node_addr = ''10.0.0.1:6379'', cluster_port = 16379,
     cs_slot_map = \<lparr>slots = replicate 16384 (Assigned ''b'' ''10.0.0.2:6379''), slot_version = 1\<rparr>,
     peers = [(''b'', ''10.0.0.2:6379'')]\<rparr>"

theorem slot_routing_witness:
  "slot_for_key (\<lambda>s. of_nat (length s)) (''user:'' @ ''{'' @ ''100'' @ ''}'' @ '':name'') =
     slot_for_key (\<lambda>s. of_nat (length s)) (''u'' @ ''{'' @ ''100'' @ ''}'' @ '':count'') \<and>
   check_slot_redirect (\<lambda>s. of_nat (length s)) two_nodes ''GET'' [''key''] =
     Some (Some (RespError ''MOVED 3 10.0.0.2:6379'')) \<and>
   (\<exists>addr. move_slot (cs_slot_map two_nodes) (slot_for_key (\<lambda>s. of_nat (length s)) ''key'') = Some (Some addr) \<and>
      RespError ''MOVED 3 10.0.0.2:6379'' = RespError (''MOVED '' @ nat_to_string 3 @ '' '' @ addr))"
proof -
  let ?c = "\<lambda>s :: bytes. of_nat (length s) :: u16"
  have len: "length (slots (cs_slot_map two_nodes)) = 16384" by (simp add: two_nodes_def)
  have s: "slot_for_key ?c ''key'' = 3"
    by (simp add: slot_for_key_def extract_hashtag_def slot_count_def)
  have n3: "nat_to_string 3 = ''3''" by code_simp
  have r: "check_slot_redirect ?c two_nodes ''GET'' [''key''] = Some (Some (RespError ''MOVED 3 10.0.0.2:6379''))"
    using get_slot_key [OF len, of ?c "''key''"]
    by (simp add: check_slot_redirect_def first_key_index_def s Let_def two_nodes_def n3)
  show ?thesis
    using slot_routing [of "''user:''" "''u''" "''100''" two_nodes ?c "''key''" "'':name''" "'':count''" "''GET''" "[''key'']" "[]"] r len
    by (auto simp: s n3)
qed

text \<open>
  A fresh cluster of one node.  \<open>ClusterState::new\<close> does not panic, gives every slot to the node, and then no
  command is redirected and CLUSTER SLOTS reports the single range from 0 to 16383.
\<close>

theorem single_node_owns_all:
  "\<exists>st. cluster_state_new nid addr port = Some st \<and>
     owned_slots (cs_slot_map st) nid = [0..<16384] \<and>
     check_slot_redirect crc16 st name args = Some None \<and>
     cluster_slots_response st = RArray (Some [RArray (Some [RInteger 0, RInteger 16383,
       RArray (Some [resp_bulk (host_part addr), RInteger (uint port)])])])"
proof -
  obtain st where st: "cluster_state_new nid addr port = Some st" "node_id st = nid" "node_addr st = addr"
    "cluster_port st = port" "peers st = []" "length (slots (cs_slot_map st)) = 16384"
    "\<And>j. j < 16384 \<Longrightarrow> slots (cs_slot_map st) ! j = Assigned nid addr"
    by (rule cluster_state_new_slots) blast
  have owned: "owned_slots (cs_slot_map st) nid = [0..<16384]" by (rule owned_slots_all [OF st(6,7)])
  have lt: "unat (slot_for_key crc16 k) < 16384" for k by (rule unat_slot_for_key)
  have redirect: "check_slot_redirect crc16 st name args = Some None"
    using get_slot_key [OF st(6)] st(7) [OF lt] st(2)
    by (auto simp: check_slot_redirect_def Let_def first_key_index_def)
  have ends: "hd [0..<16384] = 0" "last [0..<16384] = 16383" "[0..<16384] \<noteq> []"
    by (simp_all add: hd_upt last_upt)
  have "cluster_slots_response st = RArray (Some [RArray (Some [RInteger 0, RInteger 16383,
       RArray (Some [resp_bulk (host_part addr), RInteger (uint port)])])])"
    unfolding cluster_slots_response_def Let_def st(2,3,4) owned using ends by simp
  with st(1) owned redirect show ?thesis by blast
qed

end
