(* ===== verification/Command.thy ===== *)
theory Command
  imports Steps Cluster
begin

text \<open>
  What the command handlers of \<open>cmd/\<close> share: the state of a connection (\<open>ClientContext\<close> of
  \<open>net/connection.rs\<close>), the environment a handler reads (the clock, the libraries that are not part
  of the sources), and the combinators the handlers are written with.

  A handler \<open>fn(&Store, &mut ClientContext, &[Vec<u8>]) -> Result<RespValue>\<close> becomes a function
  from the environment, the store, the context and the arguments to an \<^emph>\<open>outcome\<close>: \<^term>\<open>None\<close>
  when the handler panics or does not return, otherwise the new store, the new context and the
  result.  The clock is read once for a command.
\<close>

section \<open>The state of a connection\<close>

datatype pop_direction = PopLeft | PopRight

record block_state =
  bs_keys :: "bytes list"
  timeout_ms :: int
  pop_direction :: pop_direction

record client_context =
  db_index :: nat
  ctx_block_state :: "block_state option"
  sub_mode :: bool
  subscribed_channels :: "bytes list"
  subscribed_patterns :: "bytes list"
  pubsub_rx :: "sender option"
  multi_mode :: bool
  multi_queue :: "bytes list list"
  watched_keys :: "bytes list"
  watched_versions :: "u64 list"
  authenticated :: bool
  protocol :: nat

definition client_context_new :: client_context where
  "client_context_new =
     \<lparr>db_index = 0, ctx_block_state = None, sub_mode = False, subscribed_channels = [],
      subscribed_patterns = [], pubsub_rx = None, multi_mode = False, multi_queue = [],
      watched_keys = [], watched_versions = [], authenticated = True, protocol = 2\<rparr>"

section \<open>The environment of a command\<close>

text \<open>
  A run of a Lua script, as far as the server sees it: it ends with a value or an error, or it calls
  \<open>redis.call\<close> with some arguments and goes on with what it gets back, a raised error or a value.  The
  interpreter is a library; the field \<open>lua_load\<close> of the environment says what a script does.
\<close>

datatype lua_value =
    LInteger int
  | LNumber f64
  | LString bytes
  | LBoolean bool
  | LTable "(lua_value \<times> lua_value) list"
  | LNil

datatype lua_run =
    LuaDone lua_value
  | LuaFail bytes
  | LuaCall "lua_value list" "bytes + lua_value \<Rightarrow> lua_run"

record env =
  now :: u64
  nanos :: nat
  uptime :: nat
  f64_parse :: "bytes \<Rightarrow> f64 option"
  f64_display :: "f64 \<Rightarrow> bytes"
  crc16 :: "bytes \<Rightarrow> u16"
  sha1_hex :: "bytes \<Rightarrow> bytes"
  lua_load :: "bytes \<Rightarrow> bytes list \<Rightarrow> bytes list \<Rightarrow> lua_run"
  is_open :: "sender \<Rightarrow> bool"

text \<open>An environment for concrete runs.\<close>

definition env0 :: env where
  "env0 = \<lparr>now = 1000, nanos = 7, uptime = 0, f64_parse = (\<lambda>_. None), f64_display = (\<lambda>_. []),
     crc16 = (\<lambda>b. of_nat (length b)), sha1_hex = (\<lambda>b. b), lua_load = (\<lambda>_ _ _. LuaDone LNil), is_open = (\<lambda>_. True)\<rparr>"

section \<open>Outcomes\<close>

type_synonym outcome = "(store \<times> client_context \<times> resp_value res) option"
type_synonym handler = "env \<Rightarrow> store \<Rightarrow> client_context \<Rightarrow> bytes list \<Rightarrow> outcome"

definition reply :: "store \<Rightarrow> client_context \<Rightarrow> resp_value \<Rightarrow> outcome" where
  "reply s c v = Some (s, c, Inr v)"

definition fail :: "store \<Rightarrow> client_context \<Rightarrow> velodb_error \<Rightarrow> outcome" where
  "fail s c err = Some (s, c, Inl err)"

text \<open>\<open>args[i]\<close> and \<open>&args[n..]\<close>, which panic out of range.\<close>

definition arg :: "bytes list \<Rightarrow> nat \<Rightarrow> (bytes \<Rightarrow> outcome) \<Rightarrow> outcome" where
  "arg args i f = (if i < length args then f (args ! i) else None)"

definition args_from :: "bytes list \<Rightarrow> nat \<Rightarrow> (bytes list \<Rightarrow> outcome) \<Rightarrow> outcome" where
  "args_from args n f = (if n \<le> length args then f (drop n args) else None)"

text \<open>The operator \<open>?\<close> after a read of the store, and after an operation that changes it.\<close>

definition try_read :: "store \<Rightarrow> client_context \<Rightarrow> 'a res \<Rightarrow> ('a \<Rightarrow> outcome) \<Rightarrow> outcome" where
  "try_read s c r f = (case r of Inl err \<Rightarrow> fail s c err | Inr a \<Rightarrow> f a)"

definition try_mut :: "client_context \<Rightarrow> store \<times> 'a res \<Rightarrow> (store \<Rightarrow> 'a \<Rightarrow> outcome) \<Rightarrow> outcome" where
  "try_mut c p f = (case p of (s, Inl err) \<Rightarrow> fail s c err | (s, Inr a) \<Rightarrow> f s a)"

text \<open>An operation that may itself not return.\<close>

definition try_opt :: "store \<Rightarrow> client_context \<Rightarrow> 'a res option \<Rightarrow> ('a \<Rightarrow> outcome) \<Rightarrow> outcome" where
  "try_opt s c r f = (case r of None \<Rightarrow> None | Some r \<Rightarrow> try_read s c r f)"

lemma outcome_simps [simp]:
  "try_read s c (Inl err) f = fail s c err"
  "try_read s c (Inr a) f = f a"
  "try_mut c (s, Inl err) g = fail s c err"
  "try_mut c (s, Inr a) g = g s a"
  "try_opt s c None f = None"
  "try_opt s c (Some r) f = try_read s c r f"
  by (simp_all add: try_read_def try_mut_def try_opt_def)

lemma arg_simps [simp]:
  "i < length args \<Longrightarrow> arg args i f = f (args ! i)"
  "n \<le> length args \<Longrightarrow> args_from args n g = g (drop n args)"
  by (simp_all add: arg_def args_from_def)

section \<open>Arguments as text\<close>

text \<open>\<open>String::from_utf8_lossy(a).to_uppercase()\<close>, the form in which options are compared.\<close>

definition upper :: "bytes \<Rightarrow> bytes" where
  "upper a = to_uppercase (utf8_lossy a)"

definition arg_i64 :: "bytes \<Rightarrow> int option" where
  "arg_i64 a = parse_i64 (utf8_lossy a)"

definition arg_u64 :: "bytes \<Rightarrow> u64 option" where
  "arg_u64 a = parse_u64 (utf8_lossy a)"

definition arg_usize :: "bytes \<Rightarrow> nat option" where
  "arg_usize a = parse_usize (utf8_lossy a)"

definition unwrap_or :: "'a option \<Rightarrow> 'a \<Rightarrow> 'a" where
  "unwrap_or x d = (case x of None \<Rightarrow> d | Some a \<Rightarrow> a)"

lemma unwrap_or_simps [simp]: "unwrap_or None d = d" "unwrap_or (Some a) d = a"
  by (simp_all add: unwrap_or_def)

definition resp_int :: "nat \<Rightarrow> resp_value" where "resp_int n = RInteger (int n)"
definition resp_bool :: "bool \<Rightarrow> resp_value" where "resp_bool b = RInteger (if b then 1 else 0)"
definition resp_array :: "bytes list \<Rightarrow> resp_value" where "resp_array l = RArray (Some (map resp_bulk l))"
definition resp_opt :: "bytes option \<Rightarrow> resp_value" where
  "resp_opt x = (case x of None \<Rightarrow> resp_nil | Some v \<Rightarrow> resp_bulk v)"
definition resp_pairs :: "(bytes \<times> bytes) list \<Rightarrow> resp_value" where
  "resp_pairs l = resp_array (flatten_pairs l)"

text \<open>\<open>args.chunks(2).filter(|c| c.len() == 2)\<close>.\<close>

definition parse_pairs :: "bytes list \<Rightarrow> (bytes \<times> bytes) list" where
  "parse_pairs args = pairs_of args"

section \<open>What a handler does to the store\<close>

text \<open>
  An outcome reached from a store by steps of the store.  The rules below follow the combinators, so
  that the claim for a handler is a matter of the operations it calls.
\<close>

named_theorems step_intros \<open>the rules for outcomes reached by steps of the store\<close>

definition steps_from :: "store \<Rightarrow> outcome \<Rightarrow> bool" where
  "steps_from s0 x \<longleftrightarrow> (\<forall>s c r. x = Some (s, c, r) \<longrightarrow> store_steps s0 s)"

lemma steps_fromD: "steps_from s0 x \<Longrightarrow> x = Some (s, c, r) \<Longrightarrow> store_steps s0 s"
  by (simp add: steps_from_def)

lemma steps_reply [step_intros]: "store_steps s0 s \<Longrightarrow> steps_from s0 (reply s c v)"
  by (simp add: steps_from_def reply_def)

lemma steps_fail [step_intros]: "store_steps s0 s \<Longrightarrow> steps_from s0 (fail s c err)"
  by (simp add: steps_from_def fail_def)

lemma steps_None [step_intros]: "steps_from s0 None"
  by (simp add: steps_from_def)

lemma steps_arg [step_intros]: "(\<And>a. steps_from s0 (f a)) \<Longrightarrow> steps_from s0 (arg args i f)"
  by (simp add: arg_def steps_None)

lemma steps_args_from [step_intros]: "(\<And>a. steps_from s0 (f a)) \<Longrightarrow> steps_from s0 (args_from args n f)"
  by (simp add: args_from_def steps_None)

lemma steps_try_read [step_intros]:
  "store_steps s0 s \<Longrightarrow> (\<And>a. steps_from s0 (f a)) \<Longrightarrow> steps_from s0 (try_read s c r f)"
  by (cases r) (simp_all add: steps_fail)

lemma steps_try_opt [step_intros]:
  "store_steps s0 s \<Longrightarrow> (\<And>a. steps_from s0 (f a)) \<Longrightarrow> steps_from s0 (try_opt s c r f)"
  by (cases r) (simp_all add: steps_try_read steps_None)

lemma steps_try_mut:
  assumes "store_step s (fst p)" "store_steps s0 s" "\<And>s' a. store_steps s0 s' \<Longrightarrow> steps_from s0 (f s' a)"
  shows "steps_from s0 (try_mut c p f)"
proof -
  have "store_steps s0 (fst p)" using assms(1,2) by (rule rtranclp.rtrancl_into_rtrancl [rotated])
  then show ?thesis using assms(3) by (cases p; cases "snd p") (auto simp: steps_fail)
qed

lemmas steps_muts [step_intros] =
  steps_try_mut [OF step_set] steps_try_mut [OF step_del] steps_try_mut [OF step_set_expire]
  steps_try_mut [OF step_remove_expire] steps_try_mut [OF step_rename] steps_try_mut [OF step_dbsize]
  steps_try_mut [OF step_flushdb] steps_try_mut [OF step_flushall] steps_try_mut [OF step_scan]
  steps_try_mut [OF step_lpush] steps_try_mut [OF step_rpush] steps_try_mut [OF step_lpop]
  steps_try_mut [OF step_rpop] steps_try_mut [OF step_lset] steps_try_mut [OF step_ltrim]
  steps_try_mut [OF step_lrem] steps_try_mut [OF step_sadd] steps_try_mut [OF step_srem]
  steps_try_mut [OF step_spop] steps_try_mut [OF step_hset] steps_try_mut [OF step_hdel]
  steps_try_mut [OF step_hincrby] steps_try_mut [OF step_nhset] steps_try_mut [OF step_nhdel]
  steps_try_mut [OF step_zadd] steps_try_mut [OF step_zrem] steps_try_mut [OF step_xadd]
  steps_try_mut [OF step_xdel] steps_try_mut [OF step_xtrim] steps_try_mut [OF step_xgroup_create]
  steps_try_mut [OF step_xgroup_destroy] steps_try_mut [OF step_xgroup_create_consumer]
  steps_try_mut [OF step_xgroup_del_consumer] steps_try_mut [OF step_xreadgroup]
  steps_try_mut [OF step_xack] steps_try_mut [OF step_xclaim]

lemma steps_refl [step_intros]: "store_steps s s"
  by simp

text \<open>A handler whose outcomes are all reached by steps.\<close>

definition steps_handler :: "handler \<Rightarrow> bool" where
  "steps_handler h \<longleftrightarrow> (\<forall>e s c args. steps_from s (h e s c args))"

lemma steps_handlerI: "(\<And>e s c args. steps_from s (h e s c args)) \<Longrightarrow> steps_handler h"
  by (simp add: steps_handler_def)

section \<open>Handlers that return\<close>

text \<open>
  An outcome that is neither a panic nor an endless loop.  A handler is \<^emph>\<open>total from\<close> \<open>n\<close> arguments on
  when it returns for every list of at least \<open>n\<close> arguments.
\<close>

named_theorems return_intros \<open>the rules for outcomes that return\<close>

definition returns :: "outcome \<Rightarrow> bool" where
  "returns x \<longleftrightarrow> x \<noteq> None"

lemma returns_reply [return_intros]: "returns (reply s c v)"
  by (simp add: returns_def reply_def)

lemma returns_fail [return_intros]: "returns (fail s c err)"
  by (simp add: returns_def fail_def)

lemma returns_arg [return_intros]:
  "i < length args \<Longrightarrow> returns (f (args ! i)) \<Longrightarrow> returns (arg args i f)"
  by (simp add: returns_def)

lemma returns_args_from [return_intros]:
  "n \<le> length args \<Longrightarrow> returns (f (drop n args)) \<Longrightarrow> returns (args_from args n f)"
  by (simp add: returns_def)

lemma returns_try_read [return_intros]: "(\<And>a. returns (f a)) \<Longrightarrow> returns (try_read s c r f)"
  by (cases r) (simp_all add: returns_fail)

lemma returns_try_mut [return_intros]: "(\<And>s a. returns (f s a)) \<Longrightarrow> returns (try_mut c p f)"
  by (cases p; cases "snd p") (auto simp: returns_fail)

definition total_from :: "nat \<Rightarrow> handler \<Rightarrow> bool" where
  "total_from n h \<longleftrightarrow> (\<forall>e s c args. n \<le> length args \<longrightarrow> returns (h e s c args))"

lemma total_fromI: "(\<And>e s c args. n \<le> length args \<Longrightarrow> returns (h e s c args)) \<Longrightarrow> total_from n h"
  by (simp add: total_from_def)

text \<open>An entry of the command table whose handler returns once the declared number of arguments is there.\<close>

definition entry_total :: "bytes set \<Rightarrow> bytes \<times> int \<times> handler \<Rightarrow> bool" where
  "entry_total risky = (\<lambda>(name, arity, h). name \<in> risky \<or> total_from (nat (abs arity) - 1) h)"

section \<open>What a handler does to the session\<close>

text \<open>
  The part of the context that only the transaction commands and the connection itself change:
  authentication, protocol, transaction and watches.
\<close>

named_theorems session_intros \<open>the rules for outcomes that keep the session\<close>

definition session :: "client_context \<Rightarrow> bool \<times> nat \<times> bool \<times> bytes list list \<times> bytes list \<times> u64 list" where
  "session c = (authenticated c, protocol c, multi_mode c, multi_queue c, watched_keys c, watched_versions c)"

lemma session_update [simp]:
  "session (c\<lparr>db_index := i\<rparr>) = session c"
  "session (c\<lparr>ctx_block_state := b\<rparr>) = session c"
  "session (c\<lparr>sub_mode := m\<rparr>) = session c"
  "session (c\<lparr>subscribed_channels := l\<rparr>) = session c"
  "session (c\<lparr>subscribed_patterns := l\<rparr>) = session c"
  "session (c\<lparr>pubsub_rx := r\<rparr>) = session c"
  by (simp_all add: session_def)

definition session_from :: "client_context \<Rightarrow> outcome \<Rightarrow> bool" where
  "session_from c0 x \<longleftrightarrow> (\<forall>s c r. x = Some (s, c, r) \<longrightarrow> session c = session c0)"

lemma session_reply [session_intros]: "session c = session c0 \<Longrightarrow> session_from c0 (reply s c v)"
  by (simp add: session_from_def reply_def)

lemma session_fail [session_intros]: "session c = session c0 \<Longrightarrow> session_from c0 (fail s c err)"
  by (simp add: session_from_def fail_def)

lemma session_None [session_intros]: "session_from c0 None"
  by (simp add: session_from_def)

lemma session_arg [session_intros]: "(\<And>a. session_from c0 (f a)) \<Longrightarrow> session_from c0 (arg args i f)"
  by (simp add: arg_def session_None)

lemma session_args_from [session_intros]:
  "(\<And>a. session_from c0 (f a)) \<Longrightarrow> session_from c0 (args_from args n f)"
  by (simp add: args_from_def session_None)

lemma session_try_read [session_intros]:
  "session c = session c0 \<Longrightarrow> (\<And>a. session_from c0 (f a)) \<Longrightarrow> session_from c0 (try_read s c r f)"
  by (cases r) (simp_all add: session_fail)

lemma session_try_opt [session_intros]:
  "session c = session c0 \<Longrightarrow> (\<And>a. session_from c0 (f a)) \<Longrightarrow> session_from c0 (try_opt s c r f)"
  by (cases r) (simp_all add: session_try_read session_None)

lemma session_try_mut [session_intros]:
  "session c = session c0 \<Longrightarrow> (\<And>s a. session_from c0 (f s a)) \<Longrightarrow> session_from c0 (try_mut c p f)"
  by (cases p; cases "snd p") (auto simp: session_fail)

definition session_handler :: "handler \<Rightarrow> bool" where
  "session_handler h \<longleftrightarrow> (\<forall>e s c args. session_from c (h e s c args))"

lemma session_handlerI: "(\<And>e s c args. session_from c (h e s c args)) \<Longrightarrow> session_handler h"
  by (simp add: session_handler_def)

end
