(* ===== verification/CmdString.thy ===== *)
theory CmdString
  imports Command
begin

text \<open>\<open>cmd/string.rs\<close>: the string commands.\<close>

section \<open>Handlers\<close>

definition cmd_get :: handler where
  "cmd_get e s c args =
     arg args 0 (\<lambda>key.
     try_read s c (store_get (now e) s (db_index c) key) (\<lambda>v. reply s c (resp_opt v)))"

record set_options =
  expire_ms :: "u64 option"
  nx :: bool
  xx :: bool

text \<open>The loop over the flags of SET; unknown flags are skipped.\<close>

definition expiry_of :: "u64 \<Rightarrow> bytes \<Rightarrow> int \<Rightarrow> u64" where
  "expiry_of t flag n =
     (if flag = ''EX'' then t + i64_as_u64 (n * 1000)
      else if flag = ''PX'' then t + i64_as_u64 n
      else if flag = ''EXAT'' then i64_as_u64 (n * 1000)
      else i64_as_u64 n)"

fun set_flags :: "u64 \<Rightarrow> bytes list \<Rightarrow> set_options \<Rightarrow> set_options" where
  "set_flags t [] opt = opt"
| "set_flags t (a # as) opt =
     (let flag = upper a in
      if flag \<in> {''EX'', ''PX'', ''EXAT'', ''PXAT''} then
        (case as of
           [] \<Rightarrow> opt
         | v # rest \<Rightarrow>
             set_flags t rest
               (case arg_i64 v of None \<Rightarrow> opt | Some n \<Rightarrow> opt\<lparr>expire_ms := Some (expiry_of t flag n)\<rparr>))
      else if flag = ''NX'' then set_flags t as (opt\<lparr>nx := True\<rparr>)
      else if flag = ''XX'' then set_flags t as (opt\<lparr>xx := True\<rparr>)
      else set_flags t as opt)"

definition no_set_options :: set_options where
  "no_set_options = \<lparr>expire_ms = None, nx = False, xx = False\<rparr>"

definition cmd_set :: handler where
  "cmd_set e s c args =
     args_from args 2 (\<lambda>flag_args.
     let opt = set_flags (now e) flag_args no_set_options;
         key = args ! 0;
         write = try_mut c (store_set s (db_index c) key (args ! 1) (expire_ms opt)) (\<lambda>s _. reply s c resp_ok)
     in if nx opt \<or> xx opt then
          try_read s c (store_exists (now e) s (db_index c) key) (\<lambda>ex.
            if (nx opt \<and> ex) \<or> (xx opt \<and> \<not> ex) then reply s c resp_nil else write)
        else write)"

fun mget_loop :: "env \<Rightarrow> store \<Rightarrow> client_context \<Rightarrow> bytes list \<Rightarrow> resp_value list \<Rightarrow> outcome" where
  "mget_loop e s c [] results = reply s c (RArray (Some results))"
| "mget_loop e s c (key # keys) results =
     try_read s c (store_get (now e) s (db_index c) key) (\<lambda>v.
       mget_loop e s c keys (results @ [resp_opt v]))"

definition cmd_mget :: handler where
  "cmd_mget e s c args = mget_loop e s c args []"

fun mset_loop :: "store \<Rightarrow> client_context \<Rightarrow> (bytes \<times> bytes) list \<Rightarrow> outcome" where
  "mset_loop s c [] = reply s c resp_ok"
| "mset_loop s c ((k, v) # ps) =
     try_mut c (store_set s (db_index c) k v None) (\<lambda>s _. mset_loop s c ps)"

definition cmd_mset :: handler where
  "cmd_mset e s c args =
     (if length args mod 2 \<noteq> 0 then fail s c (WrongNumberOfArgs ''MSET'')
      else mset_loop s c (pairs_of args))"

definition incr_fn :: "env \<Rightarrow> store \<Rightarrow> client_context \<Rightarrow> bytes \<Rightarrow> int \<Rightarrow> outcome" where
  "incr_fn e s c key incr =
     try_read s c (store_get (now e) s (db_index c) key) (\<lambda>v.
       let current = unwrap_or (Option.bind v arg_i64) 0
       in case checked_add_i64 current incr of
            None \<Rightarrow> fail s c Overflow
          | Some new_val \<Rightarrow>
              try_mut c (store_set s (db_index c) key (int_to_string new_val) None) (\<lambda>s _.
                reply s c (RInteger new_val)))"

definition cmd_incr :: handler where
  "cmd_incr e s c args = arg args 0 (\<lambda>key. incr_fn e s c key 1)"

definition cmd_incrby :: handler where
  "cmd_incrby e s c args =
     arg args 1 (\<lambda>n. case arg_i64 n of
         None \<Rightarrow> fail s c NotInteger
       | Some incr \<Rightarrow> incr_fn e s c (args ! 0) incr)"

definition cmd_decr :: handler where
  "cmd_decr e s c args = arg args 0 (\<lambda>key. incr_fn e s c key (- 1))"

definition cmd_decrby :: handler where
  "cmd_decrby e s c args =
     arg args 1 (\<lambda>n. case arg_i64 n of
         None \<Rightarrow> fail s c NotInteger
       | Some incr \<Rightarrow> incr_fn e s c (args ! 0) (wrap_i64 (- incr)))"

definition cmd_append :: handler where
  "cmd_append e s c args =
     arg args 0 (\<lambda>key.
     try_read s c (store_get (now e) s (db_index c) key) (\<lambda>v.
     arg args 1 (\<lambda>suffix.
     let current = unwrap_or v [] @ suffix
     in try_mut c (store_set s (db_index c) key current None) (\<lambda>s _.
          reply s c (resp_int (length current))))))"

definition cmd_strlen :: handler where
  "cmd_strlen e s c args =
     arg args 0 (\<lambda>key.
     try_read s c (store_get (now e) s (db_index c) key) (\<lambda>v.
       reply s c (resp_int (case v of None \<Rightarrow> 0 | Some val \<Rightarrow> length val))))"

text \<open>The two index computations of GETRANGE, \<open>as usize\<close> included.\<close>

definition getrange_start :: "int \<Rightarrow> int \<Rightarrow> nat" where
  "getrange_start len start =
     i64_as_usize (if start < 0 then max (len + start) 0 else min start (len - 1))"

definition getrange_end :: "int \<Rightarrow> int \<Rightarrow> nat" where
  "getrange_end len stop =
     i64_as_usize (if stop < 0 then max (len + stop) (- 1) else min stop (len - 1))"

definition getrange_bytes :: "bytes \<Rightarrow> int \<Rightarrow> int \<Rightarrow> bytes" where
  "getrange_bytes val start stop =
     (let f = getrange_start (int (length val)) start;
          t = getrange_end (int (length val)) stop
      in if t < f \<or> length val \<le> f then []
         else take (Suc (min t (length val - 1)) - f) (drop f val))"

definition cmd_getrange :: handler where
  "cmd_getrange e s c args =
     arg args 1 (\<lambda>a1. arg args 2 (\<lambda>a2.
     let start = unwrap_or (arg_i64 a1) 0;
         stop = unwrap_or (arg_i64 a2) (- 1)
     in try_read s c (store_get (now e) s (db_index c) (args ! 0)) (\<lambda>v.
          reply s c (resp_bulk (case v of None \<Rightarrow> [] | Some val \<Rightarrow> getrange_bytes val start stop)))))"

text \<open>
  \<open>resize(n, 0)\<close> and \<open>current[offset..end].copy_from_slice(val)\<close>: the sum of the offset and the
  length wraps, a vector of more than \<open>isize::MAX\<close> bytes cannot be allocated, and a slice whose end
  lies before its start panics.
\<close>

definition setrange_bytes :: "bytes \<Rightarrow> nat \<Rightarrow> bytes \<Rightarrow> bytes option" where
  "setrange_bytes current offset val =
     (let stop = (offset + length val) mod 2 ^ 64
      in if length current < stop \<and> 2 ^ 63 \<le> stop then None
         else if stop < offset then None
         else
           (let cur = (if length current < stop
                       then current @ replicate (stop - length current) (CHR 0x00) else current)
            in Some (take offset cur @ val @ drop stop cur)))"

definition cmd_setrange :: handler where
  "cmd_setrange e s c args =
     arg args 1 (\<lambda>a1.
     let offset = unwrap_or (arg_usize a1) 0;
         key = args ! 0
     in try_read s c (store_get (now e) s (db_index c) key) (\<lambda>v.
        arg args 2 (\<lambda>val.
          case setrange_bytes (unwrap_or v []) offset val of
            None \<Rightarrow> None
          | Some current \<Rightarrow>
              try_mut c (store_set s (db_index c) key current None) (\<lambda>s _.
                reply s c (resp_int (length current))))))"

definition cmd_getset :: handler where
  "cmd_getset e s c args =
     arg args 0 (\<lambda>key.
     try_read s c (store_get (now e) s (db_index c) key) (\<lambda>old.
     arg args 1 (\<lambda>val.
     try_mut c (store_set s (db_index c) key val None) (\<lambda>s _. reply s c (resp_opt old)))))"

definition string_commands :: "(bytes \<times> int \<times> handler) list" where
  "string_commands =
     [(''GET'', 2, cmd_get), (''SET'', - 3, cmd_set), (''MGET'', - 2, cmd_mget),
      (''MSET'', - 3, cmd_mset), (''INCR'', 2, cmd_incr), (''INCRBY'', 3, cmd_incrby),
      (''DECR'', 2, cmd_decr), (''DECRBY'', 3, cmd_decrby), (''APPEND'', 3, cmd_append),
      (''STRLEN'', 2, cmd_strlen), (''GETRANGE'', 4, cmd_getrange),
      (''SETRANGE'', 4, cmd_setrange), (''GETSET'', 3, cmd_getset)]"

section \<open>Steps of the store\<close>

lemma steps_mget_loop [step_intros]: "store_steps s0 s \<Longrightarrow> steps_from s0 (mget_loop e s c keys rs)"
  by (induction keys arbitrary: rs) (auto intro!: step_intros)

lemma steps_mset_loop [step_intros]: "store_steps s0 s \<Longrightarrow> steps_from s0 (mset_loop s c ps)"
  by (induction ps arbitrary: s rule: mset_loop.induct) (auto intro!: step_intros)

lemma steps_incr_fn [step_intros]: "store_steps s0 s \<Longrightarrow> steps_from s0 (incr_fn e s c key n)"
  by (auto simp: incr_fn_def Let_def intro!: step_intros split: option.splits)

lemma string_handlers_step:
  "steps_handler cmd_get" "steps_handler cmd_set" "steps_handler cmd_mget" "steps_handler cmd_mset"
  "steps_handler cmd_incr" "steps_handler cmd_incrby" "steps_handler cmd_decr"
  "steps_handler cmd_decrby" "steps_handler cmd_append" "steps_handler cmd_strlen"
  "steps_handler cmd_getrange" "steps_handler cmd_setrange" "steps_handler cmd_getset"
  by (auto simp: cmd_get_def cmd_set_def cmd_mget_def cmd_mset_def cmd_incr_def cmd_incrby_def
      cmd_decr_def cmd_decrby_def cmd_append_def cmd_strlen_def cmd_getrange_def cmd_setrange_def
      cmd_getset_def Let_def intro!: steps_handlerI step_intros split: option.splits)

lemma string_table_step: "list_all (\<lambda>(name, arity, h). steps_handler h) string_commands"
  by (simp add: string_commands_def string_handlers_step)

section \<open>Which handlers return\<close>

lemma returns_mget_loop [return_intros]: "returns (mget_loop e s c keys rs)"
  by (induction keys arbitrary: rs) (auto intro!: return_intros)

lemma returns_mset_loop [return_intros]: "returns (mset_loop s c ps)"
  by (induction ps arbitrary: s rule: list.induct) (auto intro!: return_intros)

lemma returns_incr_fn [return_intros]: "returns (incr_fn e s c key n)"
  by (auto simp: incr_fn_def Let_def intro!: return_intros split: option.splits)

lemma string_table_total: "list_all (entry_total {''SETRANGE''}) string_commands"
  by (auto simp: string_commands_def entry_total_def cmd_get_def cmd_set_def cmd_mget_def cmd_mset_def
      cmd_incr_def cmd_incrby_def cmd_decr_def cmd_decrby_def cmd_append_def cmd_strlen_def cmd_getrange_def
      cmd_getset_def Let_def intro!: total_fromI return_intros split: option.splits)

section \<open>The session is kept\<close>

lemma session_mget_loop [session_intros]: "session c = session c0 \<Longrightarrow> session_from c0 (mget_loop e s c keys rs)"
  by (induction keys arbitrary: rs) (auto intro!: session_intros)

lemma session_mset_loop [session_intros]: "session c = session c0 \<Longrightarrow> session_from c0 (mset_loop s c ps)"
  by (induction ps arbitrary: s rule: list.induct) (auto intro!: session_intros)

lemma session_incr_fn [session_intros]: "session c = session c0 \<Longrightarrow> session_from c0 (incr_fn e s c key n)"
  by (auto simp: incr_fn_def Let_def intro!: session_intros split: option.splits)

lemma string_table_session: "list_all (\<lambda>(name, arity, h). session_handler h) string_commands"
  by (auto simp: string_commands_def
      cmd_get_def cmd_set_def cmd_mget_def cmd_mset_def cmd_incr_def cmd_incrby_def cmd_decr_def
      cmd_decrby_def cmd_append_def cmd_strlen_def cmd_getrange_def cmd_setrange_def cmd_getset_def
      Let_def
      intro!: session_handlerI session_intros split: option.splits)

section \<open>SET\<close>

lemma arg_i64_print: "in_i64 n \<Longrightarrow> arg_i64 (int_to_string n) = Some n"
  by (simp add: arg_i64_def utf8_lossy_ascii parse_i64_int_to_string)

lemma upper_flags: "upper ''EX'' = ''EX''" "upper ''NX'' = ''NX''" "upper ''XX'' = ''XX''"
  by code_simp+

lemma get_after_set:
  assumes "valid_db s i"
  shows "store_get t (fst (store_set s i k v ex)) i k =
           Inr (case ex of Some at \<Rightarrow> if at \<le> t then None else Some v | None \<Rightarrow> Some v)"
    and "snd (store_set s i k v ex) = Inr ()"
    and "get_expire t (fst (store_set s i k v None)) i k = Inr None"
  using assms
  by (simp_all add: store_get_def get_expire_def entry_live live_def store_set_def db_valid Let_def
      lookup_simps expired_def split: option.splits)

text \<open>
  SET and its options.  With EX the value is there until exactly \<open>n\<close> seconds after the clock reading
  of the command and absent from then on, for every number of seconds that does not overflow; NX leaves
  a live key alone and XX a missing one, and both then answer nil.
\<close>

theorem set_option_semantics:
  assumes "valid_db s (db_index c)" "0 \<le> n" "uint (now e) + 1000 * n < 2 ^ 64"
  shows "(\<exists>s'. cmd_set e s c [k, v, ''EX'', int_to_string n] = Some (s', c, Inr resp_ok) \<and>
           (\<forall>t. store_get t s' (db_index c) k =
                  Inr (if uint t < uint (now e) + 1000 * n then Some v else None))) \<and>
    (live (now e) s (db_index c) k \<noteq> None \<longrightarrow> cmd_set e s c [k, v, ''NX''] = Some (s, c, Inr resp_nil)) \<and>
    (live (now e) s (db_index c) k = None \<longrightarrow> cmd_set e s c [k, v, ''XX''] = Some (s, c, Inr resp_nil))"
proof (intro conjI impI)
  let ?at = "now e + i64_as_u64 (n * 1000)"
  have pos: "0 \<le> uint (now e)" by simp
  have lim: "1000 * n < 2 ^ 64" using assms(3) pos by linarith
  then have "n \<le> 2 ^ 63 - 1" by simp
  then have n: "in_i64 n" using assms(2) by (simp add: in_i64_def i64_min_def i64_max_def)
  have small: "0 \<le> n * 1000" "n * 1000 < 2 ^ 64" using assms(2) lim by simp_all
  have u: "uint (i64_as_u64 (n * 1000)) = n * 1000"
    unfolding i64_as_u64_def by (rule word_of_int_inverse [OF refl]) (use small in simp_all)
  have "uint ?at = (uint (now e) + n * 1000) mod 2 ^ 64"
    unfolding uint_word_ariths(1) u by simp
  then have at: "uint ?at = uint (now e) + 1000 * n"
    using assms(3) pos small(1) by (simp add: mult.commute mod_pos_pos_trivial)
  have le: "?at \<le> t \<longleftrightarrow> \<not> uint t < uint (now e) + 1000 * n" for t
    by (simp add: word_le_def at not_less)
  obtain s' where s': "store_set s (db_index c) k v (Some ?at) = (s', Inr ())"
    using get_after_set(2) [OF assms(1)] by (metis prod.collapse)
  have flags: "set_flags (now e) [''EX'', int_to_string n] no_set_options =
      \<lparr>expire_ms = Some ?at, nx = False, xx = False\<rparr>"
    by (simp add: upper_flags arg_i64_print [OF n] expiry_of_def no_set_options_def)
  have "cmd_set e s c [k, v, ''EX'', int_to_string n] = Some (s', c, Inr resp_ok)"
    using s' by (simp add: cmd_set_def args_from_def flags reply_def del: set_flags.simps)
  moreover have "store_get t s' (db_index c) k = Inr (if uint t < uint (now e) + 1000 * n then Some v else None)" for t
    using get_after_set(1) [OF assms(1), of t k v "Some ?at"] s' le by simp
  ultimately show "\<exists>s'. cmd_set e s c [k, v, ''EX'', int_to_string n] = Some (s', c, Inr resp_ok) \<and>
           (\<forall>t. store_get t s' (db_index c) k = Inr (if uint t < uint (now e) + 1000 * n then Some v else None))"
    by blast
  have ex: "store_exists (now e) s (db_index c) k = Inr (live (now e) s (db_index c) k \<noteq> None)"
    by (simp add: store_exists_def entry_live [OF assms(1)])
  show "live (now e) s (db_index c) k \<noteq> None \<Longrightarrow> cmd_set e s c [k, v, ''NX''] = Some (s, c, Inr resp_nil)"
    and "live (now e) s (db_index c) k = None \<Longrightarrow> cmd_set e s c [k, v, ''XX''] = Some (s, c, Inr resp_nil)"
    by (simp_all add: cmd_set_def args_from_def upper_flags no_set_options_def ex reply_def)
qed

theorem set_option_semantics_witness:
  "(\<exists>s'. cmd_set env0 (store_new 1) client_context_new [''k'', ''v'', ''EX'', int_to_string 5] =
           Some (s', client_context_new, Inr resp_ok) \<and>
         store_get 5999 s' 0 ''k'' = Inr (Some ''v'') \<and> store_get 6000 s' 0 ''k'' = Inr None) \<and>
   cmd_set env0 (store_new 1) client_context_new [''k'', ''v'', ''XX''] = Some (store_new 1, client_context_new, Inr resp_nil)"
proof -
  have 0: "db_index client_context_new = 0" by (simp add: client_context_new_def)
  have v: "valid_db (store_new 1) (db_index client_context_new)" by (simp add: 0 valid_db_def store_new_def)
  have t: "uint (now env0) = 1000" "uint (5999 :: u64) = 5999" "uint (6000 :: u64) = 6000"
    by (simp_all add: env0_def)
  have l: "live (now env0) (store_new 1) (db_index client_context_new) ''k'' = None"
    by (simp add: 0 live_def raw_def store_new_def)
  obtain s' where s': "cmd_set env0 (store_new 1) client_context_new [''k'', ''v'', ''EX'', int_to_string 5] =
           Some (s', client_context_new, Inr resp_ok)"
    and g: "\<forall>t. store_get t s' 0 ''k'' = Inr (if uint t < 6000 then Some ''v'' else None)"
    using set_option_semantics [OF v, of 5 env0 "''k''" "''v''"] by (auto simp: 0 t)
  have "store_get 5999 s' 0 ''k'' = Inr (Some ''v'')" "store_get 6000 s' 0 ''k'' = Inr None"
    using g [THEN spec, of 5999] g [THEN spec, of 6000] unfolding t by simp_all
  with s' l set_option_semantics [OF v, of 5 env0 "''k''" "''v''"] t show ?thesis by auto
qed

section \<open>INCR\<close>

text \<open>The integer INCR starts from: 0 for a missing key and for a text that is not an integer.\<close>

definition counter :: "bytes option \<Rightarrow> int" where
  "counter v = unwrap_or (Option.bind v arg_i64) 0"

lemma counter_print: "in_i64 i \<Longrightarrow> counter (Some (int_to_string i)) = i"
  by (simp add: counter_def arg_i64_print)

text \<open>
  C34: INCR and INCRBY, and DECR and DECRBY with the amount negated (the negation of the smallest amount wraps around before it gets here).  On a string or a missing key the counter grows by exactly the
  amount, the new value is stored in decimal so that it reads back as the same integer, and the reply
  is that value; if it would leave the 64-bit range the store is unchanged and the reply is the
  overflow error.  A text that is no integer counts as 0 and is overwritten, and the expiry of the
  key is lost.
\<close>

theorem incr_exact:
  assumes "valid_db s (db_index c)" "store_get (now e) s (db_index c) k = Inr v"
  shows "(in_i64 (counter v + n) \<longrightarrow>
         (\<exists>s'. incr_fn e s c k n = Some (s', c, Inr (RInteger (counter v + n))) \<and>
           store_get t s' (db_index c) k = Inr (Some (int_to_string (counter v + n))) \<and>
           counter (Some (int_to_string (counter v + n))) = counter v + n \<and>
           get_expire t s' (db_index c) k = Inr None)) \<and>
    (\<not> in_i64 (counter v + n) \<longrightarrow> incr_fn e s c k n = Some (s, c, Inl Overflow))"
proof (intro conjI impI)
  assume r: "in_i64 (counter v + n)"
  obtain s' where s': "store_set s (db_index c) k (int_to_string (counter v + n)) None = (s', Inr ())"
    using get_after_set(2) [OF assms(1)] by (metis prod.collapse)
  have "incr_fn e s c k n = Some (s', c, Inr (RInteger (counter v + n)))"
    using r s' by (simp add: incr_fn_def assms(2) counter_def [symmetric] checked_add_i64_def reply_def)
  then show "\<exists>s'. incr_fn e s c k n = Some (s', c, Inr (RInteger (counter v + n))) \<and>
           store_get t s' (db_index c) k = Inr (Some (int_to_string (counter v + n))) \<and>
           counter (Some (int_to_string (counter v + n))) = counter v + n \<and>
           get_expire t s' (db_index c) k = Inr None"
    using get_after_set(1) [OF assms(1), of t k "int_to_string (counter v + n)" None]
      get_after_set(3) [OF assms(1), of t k "int_to_string (counter v + n)"] s'
      counter_print [OF r] by simp
next
  show "\<not> in_i64 (counter v + n) \<Longrightarrow> incr_fn e s c k n = Some (s, c, Inl Overflow)"
    by (simp add: incr_fn_def assms(2) counter_def [symmetric] checked_add_i64_def fail_def)
qed

theorem incr_exact_witness:
  "\<exists>s'. incr_fn env0 (fst (store_set (store_new 1) 0 ''k'' ''41'' None)) client_context_new ''k'' 1 =
      Some (s', client_context_new, Inr (RInteger 42)) \<and> store_get 0 s' 0 ''k'' = Inr (Some (int_to_string 42))"
proof -
  let ?s = "fst (store_set (store_new 1) 0 ''k'' ''41'' None)"
  have 0: "db_index client_context_new = 0" by (simp add: client_context_new_def)
  have v: "valid_db ?s (db_index client_context_new)" "store_get (now env0) ?s (db_index client_context_new) ''k'' = Inr (Some ''41'')"
    by code_simp+
  have c: "counter (Some ''41'') = 41" by code_simp
  show ?thesis
    using incr_exact [OF v, of 1 0] by (auto simp: c 0 in_i64_def i64_min_def i64_max_def)
qed

section \<open>SETRANGE and GETRANGE\<close>

lemma setrange_bytes_some:
  assumes "offset + length val < 2 ^ 63"
  shows "setrange_bytes cur offset val =
     Some (take offset (cur @ replicate (offset + length val - length cur) (CHR 0x00)) @ val @
           drop (offset + length val) cur)"
proof -
  have stop: "(offset + length val) mod 2 ^ 64 = offset + length val" using assms by simp
  show ?thesis using assms unfolding setrange_bytes_def Let_def stop by auto
qed

lemma getrange_bytes_in:
  assumes "i < length val" "i \<le> j" "j < length val" "length val < 2 ^ 63"
  shows "getrange_bytes val (int i) (int j) = take (Suc j - i) (drop i val)"
proof -
  have "getrange_start (int (length val)) (int i) = i" "getrange_end (int (length val)) (int j) = j"
    using assms by (simp_all add: getrange_start_def getrange_end_def i64_as_usize_def min_def nat_mod_as_int)
  then show ?thesis using assms by (simp add: getrange_bytes_def Let_def min_def)
qed

text \<open>
  SETRANGE and GETRANGE.  For every offset and value that fit in memory, SETRANGE keeps the bytes
  outside the range, fills a gap with zero bytes, and has the length it must have; GETRANGE of the same
  range returns exactly the value written.
\<close>

theorem setrange_getrange:
  assumes "offset + length val < 2 ^ 63" "length cur < 2 ^ 63" "val \<noteq> []"
  shows "\<exists>r. setrange_bytes cur offset val = Some r \<and> length r = max (length cur) (offset + length val) \<and>
     (\<forall>i<length r. r ! i = (if i < offset then if i < length cur then cur ! i else CHR 0x00
                            else if i < offset + length val then val ! (i - offset) else cur ! i)) \<and>
     getrange_bytes r (int offset) (int (offset + length val) - 1) = val"
proof -
  define gap where "gap = replicate (offset + length val - length cur) (CHR 0x00)"
  define r where "r = take offset (cur @ gap) @ val @ drop (offset + length val) cur"
  have some: "setrange_bytes cur offset val = Some r"
    unfolding r_def gap_def by (rule setrange_bytes_some [OF assms(1)])
  have pre: "length (take offset (cur @ gap)) = offset" by (simp add: gap_def)
  have len: "length r = max (length cur) (offset + length val)"
    unfolding r_def length_append pre by simp
  have bytes: "r ! i = (if i < offset then if i < length cur then cur ! i else CHR 0x00
                        else if i < offset + length val then val ! (i - offset) else cur ! i)"
    if "i < length r" for i
  proof (cases "i < offset")
    case True
    then have "r ! i = take offset (cur @ gap) ! i" unfolding r_def by (simp only: nth_append pre if_True)
    also have "\<dots> = (cur @ gap) ! i" using True by (simp only: nth_take)
    also have "\<dots> = (if i < length cur then cur ! i else CHR 0x00)"
      using True by (auto simp: nth_append gap_def)
    finally show ?thesis using True by simp
  next
    case False
    then show ?thesis using that len unfolding r_def nth_append pre by (auto simp: nth_append less_diff_conv2)
  qed
  have "int (offset + length val) - 1 = int (offset + length val - 1)" using assms(3) by (cases val) auto
  moreover have g: "getrange_bytes r (int offset) (int (offset + length val - 1)) =
      take (Suc (offset + length val - 1) - offset) (drop offset r)"
    using assms len by (intro getrange_bytes_in) (cases val; auto)+
  moreover have "take (Suc (offset + length val - 1) - offset) (drop offset r) = val"
    using assms(3) pre unfolding r_def by (cases val) auto
  ultimately have "getrange_bytes r (int offset) (int (offset + length val) - 1) = val" by (simp only:)
  then show ?thesis using some len bytes by blast
qed

theorem setrange_getrange_witness:
  "\<exists>r. setrange_bytes ''ab'' 3 ''xy'' = Some r \<and> length r = 5 \<and> getrange_bytes r 3 4 = ''xy''"
  using setrange_getrange [of 3 "''xy''" "''ab''"] by auto

text \<open>
  GETRANGE with an end far before the start of the value.  An end that lies more than the length
  below zero becomes -1 and then, as an unsigned index, the largest one, so that GETRANGE returns the
  whole rest of the value from its start instead of nothing.
\<close>

theorem getrange_negative_end:
  assumes "int (length val) + stop < 0" "i < length val" "length val < 2 ^ 63"
  shows "getrange_bytes val (int i) stop = drop i val"
proof -
  have "getrange_start (int (length val)) (int i) = i"
    using assms by (simp add: getrange_start_def i64_as_usize_def min_def nat_mod_as_int)
  moreover have "getrange_end (int (length val)) stop = 2 ^ 64 - 1"
    using assms by (simp add: getrange_end_def i64_as_usize_def max_def)
  moreover have "min (2 ^ 64 - 1) (length val - 1) = length val - 1" using assms(3) by simp
  ultimately show ?thesis using assms(2,3) by (simp add: getrange_bytes_def Let_def)
qed

theorem getrange_negative_end_witness: "getrange_bytes ''abc'' 0 (- 4) = ''abc''"
  using getrange_negative_end [of "''abc''" "- 4" 0] by simp

end
