(* ===== verification/CmdGeneric.thy ===== *)
theory CmdGeneric
  imports Command
begin

text \<open>
  \<open>cmd/generic.rs\<close>: the commands on keys of any type, expiry, and the cursor commands.
\<close>

section \<open>Cursors\<close>

definition parse_cursor :: "bytes \<Rightarrow> u64 res" where
  "parse_cursor text =
     (case arg_u64 text of None \<Rightarrow> Inl (Internal ''ERR invalid cursor'') | Some n \<Rightarrow> Inr n)"

fun scan_opts_loop :: "bytes list \<Rightarrow> bytes option \<Rightarrow> nat \<Rightarrow> (bytes option \<times> nat) res" where
  "scan_opts_loop [] pat count = Inr (pat, count)"
| "scan_opts_loop [a] pat count = Inl SyntaxError"
| "scan_opts_loop (a # v # rest) pat count =
     (if upper a = ''MATCH'' then scan_opts_loop rest (Some (utf8_lossy v)) count
      else if upper a = ''COUNT'' then
        (case arg_usize v of
           None \<Rightarrow> Inl NotInteger
         | Some n \<Rightarrow> if n = 0 then Inl SyntaxError else scan_opts_loop rest pat n)
      else Inl SyntaxError)"

definition parse_scan_opts :: "bytes list \<Rightarrow> (bytes option \<times> nat) res" where
  "parse_scan_opts args = scan_opts_loop args None 10"

definition scan_reply :: "u64 \<Rightarrow> resp_value list \<Rightarrow> resp_value" where
  "scan_reply cursor items =
     RArray (Some [resp_bulk (nat_to_string (unat cursor)), RArray (Some items)])"

definition cmd_scan :: handler where
  "cmd_scan e s c args =
     arg args 0 (\<lambda>a.
     try_read s c (parse_cursor a) (\<lambda>cursor.
     args_from args 1 (\<lambda>opts.
     try_read s c (parse_scan_opts opts) (\<lambda>(pattern, count).
     try_mut c (scan_keys (now e) s (db_index c) cursor pattern count) (\<lambda>s (next, keys).
       reply s c (scan_reply next (map resp_bulk keys)))))))"

definition name_matches :: "bytes option \<Rightarrow> bytes \<Rightarrow> bool" where
  "name_matches pattern f = (case pattern of None \<Rightarrow> True | Some p \<Rightarrow> simple_match (utf8_lossy f) p)"

definition cmd_hscan :: handler where
  "cmd_hscan e s c args =
     arg args 1 (\<lambda>a.
     try_read s c (parse_cursor a) (\<lambda>cursor.
     args_from args 2 (\<lambda>opts.
     try_read s c (parse_scan_opts opts) (\<lambda>(pattern, count).
     try_read s c (store_hscan (now e) s (db_index c) (args ! 0)) (\<lambda>(next, pairs).
       reply s c (scan_reply next
         (map resp_bulk (flatten_pairs (filter (\<lambda>(f, v). name_matches pattern f) pairs)))))))))"

definition cmd_sscan :: handler where
  "cmd_sscan e s c args =
     arg args 1 (\<lambda>a.
     try_read s c (parse_cursor a) (\<lambda>cursor.
     args_from args 2 (\<lambda>opts.
     try_read s c (parse_scan_opts opts) (\<lambda>(pattern, count).
     try_read s c (store_sscan (now e) s (db_index c) (args ! 0)) (\<lambda>(next, members).
       reply s c (scan_reply next (map resp_bulk (filter (name_matches pattern) members))))))))"

definition format_score :: "env \<Rightarrow> f64 \<Rightarrow> bytes" where
  "format_score e d =
     (case f64_integer d of
        Some i \<Rightarrow> if abs i < 10 ^ 17 then int_to_string i else f64_display e d
      | None \<Rightarrow> f64_display e d)"

definition cmd_zscan :: handler where
  "cmd_zscan e s c args =
     arg args 1 (\<lambda>a.
     try_read s c (parse_cursor a) (\<lambda>cursor.
     args_from args 2 (\<lambda>opts.
     try_read s c (parse_scan_opts opts) (\<lambda>(pattern, count).
     try_read s c (store_zscan (now e) s (db_index c) (args ! 0)) (\<lambda>(next, pairs).
       reply s c (scan_reply next
         (map resp_bulk (flatten_pairs (map (\<lambda>(m, sc). (m, format_score e sc))
            (filter (\<lambda>(m, sc). name_matches pattern m) pairs))))))))))"

section \<open>Keys\<close>

fun del_loop :: "store \<Rightarrow> client_context \<Rightarrow> bytes list \<Rightarrow> nat \<Rightarrow> outcome" where
  "del_loop s c [] count = reply s c (resp_int count)"
| "del_loop s c (key # keys) count =
     try_mut c (store_del s (db_index c) key) (\<lambda>s b.
       del_loop s c keys (if b then count + 1 else count))"

definition cmd_del :: handler where
  "cmd_del e s c args = del_loop s c args 0"

fun exists_loop :: "env \<Rightarrow> store \<Rightarrow> client_context \<Rightarrow> bytes list \<Rightarrow> nat \<Rightarrow> outcome" where
  "exists_loop e s c [] count = reply s c (resp_int count)"
| "exists_loop e s c (key # keys) count =
     try_read s c (store_exists (now e) s (db_index c) key) (\<lambda>b.
       exists_loop e s c keys (if b then count + 1 else count))"

definition cmd_exists :: handler where
  "cmd_exists e s c args = exists_loop e s c args 0"

text \<open>The four ways to give the time at which a key expires; \<open>u64\<close> arithmetic wraps.\<close>

definition cmd_expire :: handler where
  "cmd_expire e s c args =
     arg args 1 (\<lambda>a.
     let seconds = unwrap_or (arg_u64 a) 0
     in try_mut c (set_expire s (db_index c) (args ! 0) (now e + seconds * 1000)) (\<lambda>s b. reply s c (resp_bool b)))"

definition cmd_expireat :: handler where
  "cmd_expireat e s c args =
     arg args 1 (\<lambda>a.
     let ts = unwrap_or (arg_u64 a) 0
     in try_mut c (set_expire s (db_index c) (args ! 0) (ts * 1000)) (\<lambda>s b. reply s c (resp_bool b)))"

definition cmd_pexpire :: handler where
  "cmd_pexpire e s c args =
     arg args 1 (\<lambda>a.
     let ms = unwrap_or (arg_u64 a) 0
     in try_mut c (set_expire s (db_index c) (args ! 0) (now e + ms)) (\<lambda>s b. reply s c (resp_bool b)))"

definition cmd_pexpireat :: handler where
  "cmd_pexpireat e s c args =
     arg args 1 (\<lambda>a.
     let ts = unwrap_or (arg_u64 a) 0
     in try_mut c (set_expire s (db_index c) (args ! 0) ts) (\<lambda>s b. reply s c (resp_bool b)))"

text \<open>\<open>u64 as i64\<close> is the two's complement reading.\<close>

definition cmd_ttl :: handler where
  "cmd_ttl e s c args =
     arg args 0 (\<lambda>key.
     try_read s c (get_expire (now e) s (db_index c) key) (\<lambda>x.
       reply s c (RInteger (case x of
           Some at \<Rightarrow> if now e < at then sint ((at - now e) div 1000) else - 2
         | None \<Rightarrow> - 1))))"

definition cmd_pttl :: handler where
  "cmd_pttl e s c args =
     arg args 0 (\<lambda>key.
     try_read s c (get_expire (now e) s (db_index c) key) (\<lambda>x.
       reply s c (RInteger (case x of
           Some at \<Rightarrow> if now e < at then sint (at - now e) else - 2
         | None \<Rightarrow> - 1))))"

definition cmd_persist :: handler where
  "cmd_persist e s c args =
     arg args 0 (\<lambda>key. try_mut c (remove_expire s (db_index c) key) (\<lambda>s b. reply s c (resp_bool b)))"

definition cmd_type :: handler where
  "cmd_type e s c args =
     arg args 0 (\<lambda>key.
     try_read s c (get_type (now e) s (db_index c) key) (\<lambda>t.
       reply s c (SimpleString (unwrap_or t ''none''))))"

definition cmd_rename :: handler where
  "cmd_rename e s c args =
     arg args 0 (\<lambda>old.
     try_read s c (store_exists (now e) s (db_index c) old) (\<lambda>ex.
       if \<not> ex then fail s c KeyNotFound
       else arg args 1 (\<lambda>new.
         try_mut c (store_rename s (db_index c) old new) (\<lambda>s _. reply s c resp_ok))))"

definition cmd_renamenx :: handler where
  "cmd_renamenx e s c args =
     arg args 1 (\<lambda>new.
     try_read s c (store_exists (now e) s (db_index c) new) (\<lambda>ex.
       if ex then reply s c (RInteger 0)
       else try_read s c (store_exists (now e) s (db_index c) (args ! 0)) (\<lambda>ex.
         if \<not> ex then fail s c KeyNotFound
         else try_mut c (store_rename s (db_index c) (args ! 0) new) (\<lambda>s _. reply s c (RInteger 1)))))"

definition cmd_keys :: handler where
  "cmd_keys e s c args =
     arg args 0 (\<lambda>p.
     try_read s c (store_keys (now e) s (db_index c) (utf8_lossy p)) (\<lambda>keys. reply s c (resp_array keys)))"

definition cmd_dbsize :: handler where
  "cmd_dbsize e s c args = try_mut c (dbsize (now e) s (db_index c)) (\<lambda>s n. reply s c (resp_int n))"

definition cmd_flushdb :: handler where
  "cmd_flushdb e s c args = try_mut c (flushdb s (db_index c)) (\<lambda>s _. reply s c resp_ok)"

definition cmd_flushall :: handler where
  "cmd_flushall e s c args = try_mut c (flushall s) (\<lambda>s _. reply s c resp_ok)"

definition cmd_randomkey :: handler where
  "cmd_randomkey e s c args =
     try_read s c (random_key (now e) (nanos e) s (db_index c)) (\<lambda>k. reply s c (resp_opt k))"

definition generic_commands :: "(bytes \<times> int \<times> handler) list" where
  "generic_commands =
     [(''DEL'', - 2, cmd_del), (''EXISTS'', - 2, cmd_exists), (''EXPIRE'', 3, cmd_expire),
      (''EXPIREAT'', 3, cmd_expireat), (''PEXPIRE'', 3, cmd_pexpire), (''PEXPIREAT'', 3, cmd_pexpireat),
      (''TTL'', 2, cmd_ttl), (''PTTL'', 2, cmd_pttl), (''PERSIST'', 2, cmd_persist),
      (''TYPE'', 2, cmd_type), (''RENAME'', 3, cmd_rename), (''RENAMENX'', 3, cmd_renamenx),
      (''KEYS'', 2, cmd_keys), (''DBSIZE'', 1, cmd_dbsize), (''FLUSHDB'', 1, cmd_flushdb),
      (''FLUSHALL'', 1, cmd_flushall), (''RANDOMKEY'', 1, cmd_randomkey), (''SCAN'', - 2, cmd_scan),
      (''HSCAN'', - 3, cmd_hscan), (''SSCAN'', - 3, cmd_sscan), (''ZSCAN'', - 3, cmd_zscan)]"

section \<open>Steps of the store\<close>

lemma steps_del_loop [step_intros]: "store_steps s0 s \<Longrightarrow> steps_from s0 (del_loop s c keys n)"
  by (induction keys arbitrary: s n) (auto intro!: step_intros)

lemma steps_exists_loop [step_intros]: "store_steps s0 s \<Longrightarrow> steps_from s0 (exists_loop e s c keys n)"
  by (induction keys arbitrary: n) (auto intro!: step_intros)

lemma generic_handlers_step:
  "steps_handler cmd_del" "steps_handler cmd_exists" "steps_handler cmd_expire"
  "steps_handler cmd_expireat" "steps_handler cmd_pexpire" "steps_handler cmd_pexpireat"
  "steps_handler cmd_ttl" "steps_handler cmd_pttl" "steps_handler cmd_persist" "steps_handler cmd_type"
  "steps_handler cmd_rename" "steps_handler cmd_renamenx" "steps_handler cmd_keys"
  "steps_handler cmd_dbsize" "steps_handler cmd_flushdb" "steps_handler cmd_flushall"
  "steps_handler cmd_randomkey" "steps_handler cmd_scan" "steps_handler cmd_hscan"
  "steps_handler cmd_sscan" "steps_handler cmd_zscan"
  by (auto simp: cmd_del_def cmd_exists_def cmd_expire_def cmd_expireat_def cmd_pexpire_def
      cmd_pexpireat_def cmd_ttl_def cmd_pttl_def cmd_persist_def cmd_type_def cmd_rename_def
      cmd_renamenx_def cmd_keys_def cmd_dbsize_def cmd_flushdb_def cmd_flushall_def cmd_randomkey_def
      cmd_scan_def cmd_hscan_def cmd_sscan_def cmd_zscan_def Let_def
      intro!: steps_handlerI step_intros split: option.splits)

lemma generic_table_step: "list_all (\<lambda>(name, arity, h). steps_handler h) generic_commands"
  by (simp add: generic_commands_def generic_handlers_step)

section \<open>Which handlers return\<close>

lemma returns_del_loop [return_intros]: "returns (del_loop s c keys n)"
  by (induction keys arbitrary: s n) (auto intro!: return_intros)

lemma returns_exists_loop [return_intros]: "returns (exists_loop e s c keys n)"
  by (induction keys arbitrary: n) (auto intro!: return_intros)

lemma generic_table_total: "list_all (entry_total {}) generic_commands"
  by (auto simp: generic_commands_def entry_total_def cmd_del_def cmd_exists_def cmd_expire_def
      cmd_expireat_def cmd_pexpire_def cmd_pexpireat_def cmd_ttl_def cmd_pttl_def cmd_persist_def
      cmd_type_def cmd_rename_def cmd_renamenx_def cmd_keys_def cmd_dbsize_def cmd_flushdb_def
      cmd_flushall_def cmd_randomkey_def cmd_scan_def cmd_hscan_def cmd_sscan_def cmd_zscan_def Let_def
      intro!: total_fromI return_intros split: option.splits)

section \<open>The session is kept\<close>

lemma session_del_loop [session_intros]: "session c = session c0 \<Longrightarrow> session_from c0 (del_loop s c keys n)"
  by (induction keys arbitrary: s n) (auto intro!: session_intros)

lemma session_exists_loop [session_intros]:
  "session c = session c0 \<Longrightarrow> session_from c0 (exists_loop e s c keys n)"
  by (induction keys arbitrary: n) (auto intro!: session_intros)

lemma generic_table_session: "list_all (\<lambda>(name, arity, h). session_handler h) generic_commands"
  by (auto simp: generic_commands_def
      cmd_del_def cmd_exists_def cmd_expire_def cmd_expireat_def cmd_pexpire_def cmd_pexpireat_def
      cmd_ttl_def cmd_pttl_def cmd_persist_def cmd_type_def cmd_rename_def cmd_renamenx_def
      cmd_keys_def cmd_dbsize_def cmd_flushdb_def cmd_flushall_def cmd_randomkey_def cmd_scan_def
      cmd_hscan_def cmd_sscan_def cmd_zscan_def  Let_def
      intro!: session_handlerI session_intros split: option.splits)

end
