(* ===== verification/CmdCollections.thy ===== *)
theory CmdCollections
  imports Command
begin

text \<open>
  \<open>cmd/list.rs\<close>, \<open>cmd/set.rs\<close>, \<open>cmd/hash.rs\<close>, \<open>cmd/nested_hash.rs\<close> and \<open>cmd/zset.rs\<close>: the commands on
  lists, sets, hashes, nested hashes and sorted sets.
\<close>

section \<open>Lists\<close>

definition cmd_lpush :: handler where
  "cmd_lpush e s c args =
     args_from args 1 (\<lambda>vals.
     try_mut c (store_lpush s (db_index c) (args ! 0) vals) (\<lambda>s len. reply s c (resp_int len)))"

definition cmd_rpush :: handler where
  "cmd_rpush e s c args =
     args_from args 1 (\<lambda>vals.
     try_mut c (store_rpush s (db_index c) (args ! 0) vals) (\<lambda>s len. reply s c (resp_int len)))"

definition cmd_lpop :: handler where
  "cmd_lpop e s c args =
     arg args 0 (\<lambda>key. try_mut c (store_lpop_one (now e) s (db_index c) key) (\<lambda>s v. reply s c (resp_opt v)))"

definition cmd_rpop :: handler where
  "cmd_rpop e s c args =
     arg args 0 (\<lambda>key. try_mut c (store_rpop_one (now e) s (db_index c) key) (\<lambda>s v. reply s c (resp_opt v)))"

definition cmd_llen :: handler where
  "cmd_llen e s c args =
     arg args 0 (\<lambda>key. try_read s c (store_llen (now e) s (db_index c) key) (\<lambda>n. reply s c (resp_int n)))"

definition cmd_lrange :: handler where
  "cmd_lrange e s c args =
     arg args 1 (\<lambda>a1. arg args 2 (\<lambda>a2.
     let start = unwrap_or (arg_i64 a1) 0; stop = unwrap_or (arg_i64 a2) (- 1)
     in try_read s c (store_lrange (now e) s (db_index c) (args ! 0) start stop) (\<lambda>vals.
          reply s c (resp_array vals))))"

definition cmd_lindex :: handler where
  "cmd_lindex e s c args =
     arg args 1 (\<lambda>a1.
     try_read s c (store_lindex (now e) s (db_index c) (args ! 0) (unwrap_or (arg_i64 a1) 0)) (\<lambda>v.
       reply s c (resp_opt v)))"

definition cmd_lset :: handler where
  "cmd_lset e s c args =
     arg args 1 (\<lambda>a1. arg args 2 (\<lambda>val.
     try_mut c (store_lset (now e) s (db_index c) (args ! 0) (unwrap_or (arg_i64 a1) 0) val) (\<lambda>s _.
       reply s c resp_ok)))"

definition cmd_ltrim :: handler where
  "cmd_ltrim e s c args =
     arg args 1 (\<lambda>a1. arg args 2 (\<lambda>a2.
     let start = unwrap_or (arg_i64 a1) 0; stop = unwrap_or (arg_i64 a2) (- 1)
     in try_mut c (store_ltrim (now e) s (db_index c) (args ! 0) start stop) (\<lambda>s _. reply s c resp_ok)))"

definition cmd_lrem :: handler where
  "cmd_lrem e s c args =
     arg args 1 (\<lambda>a1. arg args 2 (\<lambda>val.
     try_mut c (store_lrem (now e) s (db_index c) (args ! 0) (unwrap_or (arg_i64 a1) 0) val) (\<lambda>s n.
       reply s c (resp_int n))))"

text \<open>
  BLPOP and BRPOP: the first key with an element answers at once; otherwise a nonzero timeout leaves
  a block state in the context, for the connection to wait on.  \<open>args.len() - 1\<close> underflows without
  arguments, and the slice then panics.
\<close>

definition pop_from :: "pop_direction \<Rightarrow> u64 \<Rightarrow> store \<Rightarrow> nat \<Rightarrow> bytes \<Rightarrow> store \<times> bytes option res" where
  "pop_from dir t s i key =
     (case dir of PopLeft \<Rightarrow> store_lpop_one t s i key | PopRight \<Rightarrow> store_rpop_one t s i key)"

fun bpop_loop :: "pop_direction \<Rightarrow> env \<Rightarrow> store \<Rightarrow> client_context \<Rightarrow> bytes list \<Rightarrow> (store \<Rightarrow> outcome) \<Rightarrow> outcome" where
  "bpop_loop dir e s c [] otherwise = otherwise s"
| "bpop_loop dir e s c (key # keys) otherwise =
     try_mut c (pop_from dir (now e) s (db_index c) key) (\<lambda>s v.
       case v of
         Some val \<Rightarrow> reply s c (resp_array [key, val])
       | None \<Rightarrow> bpop_loop dir e s c keys otherwise)"

definition bpop :: "pop_direction \<Rightarrow> handler" where
  "bpop dir e s c args =
     (if args = [] then None
      else
        (let keys = butlast args;
             timeout = unwrap_or (arg_i64 (last args)) 0
         in bpop_loop dir e s c keys (\<lambda>s.
              if timeout = 0 then reply s c resp_nil
              else reply s
                (c\<lparr>ctx_block_state := Some \<lparr>bs_keys = keys, timeout_ms = timeout, pop_direction = dir\<rparr>\<rparr>)
                resp_ok)))"

definition cmd_blpop :: handler where "cmd_blpop = bpop PopLeft"
definition cmd_brpop :: handler where "cmd_brpop = bpop PopRight"

definition list_commands :: "(bytes \<times> int \<times> handler) list" where
  "list_commands =
     [(''LPUSH'', - 3, cmd_lpush), (''RPUSH'', - 3, cmd_rpush), (''LPOP'', - 2, cmd_lpop),
      (''RPOP'', - 2, cmd_rpop), (''LLEN'', 2, cmd_llen), (''LRANGE'', 4, cmd_lrange),
      (''LINDEX'', 3, cmd_lindex), (''LSET'', 4, cmd_lset), (''LTRIM'', 4, cmd_ltrim),
      (''LREM'', 4, cmd_lrem), (''BLPOP'', - 3, cmd_blpop), (''BRPOP'', - 3, cmd_brpop)]"

section \<open>Sets\<close>

definition cmd_sadd :: handler where
  "cmd_sadd e s c args =
     args_from args 1 (\<lambda>ms.
     try_mut c (store_sadd s (db_index c) (args ! 0) ms) (\<lambda>s n. reply s c (resp_int n)))"

definition cmd_srem :: handler where
  "cmd_srem e s c args =
     args_from args 1 (\<lambda>ms.
     try_mut c (store_srem (now e) s (db_index c) (args ! 0) ms) (\<lambda>s n. reply s c (resp_int n)))"

definition cmd_smembers :: handler where
  "cmd_smembers e s c args =
     arg args 0 (\<lambda>key. try_read s c (store_smembers (now e) s (db_index c) key) (\<lambda>l. reply s c (resp_array l)))"

definition cmd_sismember :: handler where
  "cmd_sismember e s c args =
     arg args 1 (\<lambda>m.
     try_read s c (store_sismember (now e) s (db_index c) (args ! 0) m) (\<lambda>b. reply s c (resp_bool b)))"

definition cmd_scard :: handler where
  "cmd_scard e s c args =
     arg args 0 (\<lambda>key. try_read s c (store_scard (now e) s (db_index c) key) (\<lambda>n. reply s c (resp_int n)))"

definition cmd_sinter :: handler where
  "cmd_sinter e s c args =
     try_read s c (store_sinter (now e) s (db_index c) args) (\<lambda>l. reply s c (resp_array l))"

definition cmd_sunion :: handler where
  "cmd_sunion e s c args =
     try_read s c (store_sunion (now e) s (db_index c) args) (\<lambda>l. reply s c (resp_array l))"

definition cmd_sdiff :: handler where
  "cmd_sdiff e s c args =
     try_read s c (store_sdiff (now e) s (db_index c) args) (\<lambda>l. reply s c (resp_array l))"

text \<open>Without a count, or with the count 1, the reply is one value instead of an array.\<close>

definition one_or_array :: "bool \<Rightarrow> bytes list \<Rightarrow> resp_value" where
  "one_or_array one l =
     (if one then (case l of [] \<Rightarrow> resp_nil | v # _ \<Rightarrow> resp_bulk v) else resp_array l)"

definition cmd_srandmember :: handler where
  "cmd_srandmember e s c args =
     arg args 0 (\<lambda>key.
     let cnt = (if 1 < length args then arg_i64 (args ! 1) else None)
     in try_opt s c (store_srandmember (now e) (nanos e) s (db_index c) key cnt) (\<lambda>l.
          reply s c (one_or_array (cnt = None \<or> cnt = Some 1) l)))"

definition cmd_spop :: handler where
  "cmd_spop e s c args =
     arg args 0 (\<lambda>key.
     let cnt = (if 1 < length args then Some (unwrap_or (arg_usize (args ! 1)) 1) else None)
     in try_mut c (store_spop (now e) s (db_index c) key cnt) (\<lambda>s l.
          reply s c (one_or_array (cnt = None \<or> cnt = Some 1) l)))"

definition set_commands :: "(bytes \<times> int \<times> handler) list" where
  "set_commands =
     [(''SADD'', - 3, cmd_sadd), (''SREM'', - 3, cmd_srem), (''SMEMBERS'', 2, cmd_smembers),
      (''SISMEMBER'', 3, cmd_sismember), (''SCARD'', 2, cmd_scard), (''SINTER'', - 2, cmd_sinter),
      (''SUNION'', - 2, cmd_sunion), (''SDIFF'', - 2, cmd_sdiff),
      (''SRANDMEMBER'', - 2, cmd_srandmember), (''SPOP'', - 2, cmd_spop)]"

section \<open>Hashes\<close>

definition cmd_hset :: handler where
  "cmd_hset e s c args =
     args_from args 1 (\<lambda>rest.
     let ps = parse_pairs rest
     in if ps = [] then fail s c (WrongNumberOfArgs ''HSET'')
        else try_mut c (store_hset s (db_index c) (args ! 0) ps) (\<lambda>s n. reply s c (resp_int n)))"

definition cmd_hget :: handler where
  "cmd_hget e s c args =
     arg args 1 (\<lambda>f. try_read s c (store_hget (now e) s (db_index c) (args ! 0) f) (\<lambda>v. reply s c (resp_opt v)))"

definition cmd_hdel :: handler where
  "cmd_hdel e s c args =
     args_from args 1 (\<lambda>fs.
     try_mut c (store_hdel (now e) s (db_index c) (args ! 0) fs) (\<lambda>s n. reply s c (resp_int n)))"

definition cmd_hexists :: handler where
  "cmd_hexists e s c args =
     arg args 1 (\<lambda>f. try_read s c (store_hexists (now e) s (db_index c) (args ! 0) f) (\<lambda>b. reply s c (resp_bool b)))"

definition cmd_hgetall :: handler where
  "cmd_hgetall e s c args =
     arg args 0 (\<lambda>key. try_read s c (store_hgetall (now e) s (db_index c) key) (\<lambda>ps. reply s c (resp_pairs ps)))"

definition cmd_hkeys :: handler where
  "cmd_hkeys e s c args =
     arg args 0 (\<lambda>key. try_read s c (store_hkeys (now e) s (db_index c) key) (\<lambda>l. reply s c (resp_array l)))"

definition cmd_hvals :: handler where
  "cmd_hvals e s c args =
     arg args 0 (\<lambda>key. try_read s c (store_hvals (now e) s (db_index c) key) (\<lambda>l. reply s c (resp_array l)))"

definition cmd_hlen :: handler where
  "cmd_hlen e s c args =
     arg args 0 (\<lambda>key. try_read s c (store_hlen (now e) s (db_index c) key) (\<lambda>n. reply s c (resp_int n)))"

definition cmd_hincrby :: handler where
  "cmd_hincrby e s c args =
     arg args 2 (\<lambda>a2. case arg_i64 a2 of
         None \<Rightarrow> fail s c NotInteger
       | Some incr \<Rightarrow>
           try_mut c (store_hincrby s (db_index c) (args ! 0) (args ! 1) incr) (\<lambda>s n. reply s c (RInteger n)))"

definition hash_commands :: "(bytes \<times> int \<times> handler) list" where
  "hash_commands =
     [(''HSET'', - 4, cmd_hset), (''HGET'', 3, cmd_hget), (''HDEL'', - 3, cmd_hdel),
      (''HEXISTS'', 3, cmd_hexists), (''HGETALL'', 2, cmd_hgetall), (''HKEYS'', 2, cmd_hkeys),
      (''HVALS'', 2, cmd_hvals), (''HLEN'', 2, cmd_hlen), (''HINCRBY'', 4, cmd_hincrby)]"

section \<open>Nested hashes\<close>

definition opt_arg :: "bytes list \<Rightarrow> nat \<Rightarrow> bytes option" where
  "opt_arg args i = (if i < length args then Some (args ! i) else None)"

definition cmd_nhset :: handler where
  "cmd_nhset e s c args =
     arg args 3 (\<lambda>v.
     try_mut c (store_nhset s (db_index c) (args ! 0) (args ! 1) (args ! 2) v) (\<lambda>s n. reply s c (resp_int n)))"

definition cmd_nhget :: handler where
  "cmd_nhget e s c args =
     arg args 2 (\<lambda>sf.
     try_read s c (store_nhget (now e) s (db_index c) (args ! 0) (args ! 1) sf) (\<lambda>v. reply s c (resp_opt v)))"

definition cmd_nhdel :: handler where
  "cmd_nhdel e s c args =
     arg args 1 (\<lambda>f.
     try_mut c (store_nhdel (now e) s (db_index c) (args ! 0) f (opt_arg args 2)) (\<lambda>s n. reply s c (resp_int n)))"

definition cmd_nhkeys :: handler where
  "cmd_nhkeys e s c args =
     arg args 0 (\<lambda>key.
     try_read s c (store_nhkeys (now e) s (db_index c) key (opt_arg args 1)) (\<lambda>l. reply s c (resp_array l)))"

definition cmd_nhvals :: handler where
  "cmd_nhvals e s c args =
     arg args 0 (\<lambda>key.
     try_read s c (store_nhvals (now e) s (db_index c) key (opt_arg args 1)) (\<lambda>l. reply s c (resp_array l)))"

definition cmd_nhgetall :: handler where
  "cmd_nhgetall e s c args =
     arg args 0 (\<lambda>key.
     try_read s c (store_nhgetall (now e) s (db_index c) key (opt_arg args 1)) (\<lambda>ps. reply s c (resp_pairs ps)))"

definition nested_hash_commands :: "(bytes \<times> int \<times> handler) list" where
  "nested_hash_commands =
     [(''NHSET'', 5, cmd_nhset), (''NHGET'', 4, cmd_nhget), (''NHDEL'', - 3, cmd_nhdel),
      (''NHKEYS'', - 2, cmd_nhkeys), (''NHVALS'', - 2, cmd_nhvals), (''NHGETALL'', - 2, cmd_nhgetall)]"

section \<open>Sorted sets\<close>

fun parse_score_member_pairs :: "env \<Rightarrow> bytes list \<Rightarrow> (f64 \<times> bytes) list \<Rightarrow> (f64 \<times> bytes) list res" where
  "parse_score_member_pairs e (sc # m # rest) pairs =
     (case f64_parse e (utf8_lossy sc) of
        None \<Rightarrow> Inl MinOrMaxNotValidFloat
      | Some score \<Rightarrow> parse_score_member_pairs e rest (pairs @ [(score, m)]))"
| "parse_score_member_pairs e _ pairs = Inr pairs"

definition cmd_zadd :: handler where
  "cmd_zadd e s c args =
     args_from args 1 (\<lambda>rest.
     try_read s c (parse_score_member_pairs e rest []) (\<lambda>pairs.
     try_mut c (store_zadd s (db_index c) (args ! 0) pairs) (\<lambda>s n. reply s c (resp_int n))))"

definition cmd_zrem :: handler where
  "cmd_zrem e s c args =
     args_from args 1 (\<lambda>ms.
     try_mut c (store_zrem (now e) s (db_index c) (args ! 0) ms) (\<lambda>s n. reply s c (resp_int n)))"

definition cmd_zscore :: handler where
  "cmd_zscore e s c args =
     arg args 1 (\<lambda>m.
     try_read s c (store_zscore (now e) s (db_index c) (args ! 0) m) (\<lambda>sc.
       reply s c (resp_opt (map_option (f64_display e) sc))))"

definition cmd_zrank :: handler where
  "cmd_zrank e s c args =
     arg args 1 (\<lambda>m.
     try_read s c (store_zrank (now e) s (db_index c) (args ! 0) m) (\<lambda>r.
       reply s c (case r of None \<Rightarrow> resp_nil | Some n \<Rightarrow> resp_int n)))"

definition scored_items :: "env \<Rightarrow> (bytes \<times> f64 option) list \<Rightarrow> resp_value" where
  "scored_items e items =
     resp_array (concat (map (\<lambda>(m, sc). case sc of None \<Rightarrow> [m] | Some d \<Rightarrow> [m, f64_display e d]) items))"

definition cmd_zrange :: handler where
  "cmd_zrange e s c args =
     arg args 1 (\<lambda>a1. arg args 2 (\<lambda>a2.
     let start = unwrap_or (arg_i64 a1) 0; stop = unwrap_or (arg_i64 a2) (- 1);
         withscores = (3 < length args \<and> upper (args ! 3) = ''WITHSCORES'')
     in try_opt s c (store_zrange (now e) s (db_index c) (args ! 0) start stop withscores) (\<lambda>items.
          reply s c (scored_items e items))))"

definition parse_score_bound :: "env \<Rightarrow> bytes \<Rightarrow> (f64 \<times> bool) res" where
  "parse_score_bound e b =
     (let t = utf8_lossy b;
          num = (\<lambda>x excl. case f64_parse e x of None \<Rightarrow> Inl MinOrMaxNotValidFloat | Some v \<Rightarrow> Inr (v, excl))
      in if t = ''-inf'' \<or> t = ''-infinity'' then Inr (f64_neg_inf, False)
         else if t = ''+inf'' \<or> t = ''+infinity'' \<or> t = ''inf'' then Inr (f64_inf, False)
         else if t \<noteq> [] \<and> hd t = CHR ''('' then num (tl t) True
         else num t False)"

fun zrangebyscore_opts :: "bytes list \<Rightarrow> bool \<Rightarrow> (nat \<times> nat) option \<Rightarrow> bool \<times> (nat \<times> nat) option" where
  "zrangebyscore_opts [] withscores limit = (withscores, limit)"
| "zrangebyscore_opts (a # as) withscores limit =
     (if upper a = ''WITHSCORES'' then zrangebyscore_opts as True limit
      else if upper a = ''LIMIT'' then
        (case as of
           o1 # o2 # rest \<Rightarrow>
             zrangebyscore_opts rest withscores
               (Some (unwrap_or (arg_usize o1) 0, unwrap_or (arg_usize o2) 0))
         | _ \<Rightarrow> zrangebyscore_opts as withscores limit)
      else zrangebyscore_opts as withscores limit)"

definition cmd_zrangebyscore :: handler where
  "cmd_zrangebyscore e s c args =
     arg args 1 (\<lambda>a1.
     try_read s c (parse_score_bound e a1) (\<lambda>(lo, lo_excl).
     arg args 2 (\<lambda>a2.
     try_read s c (parse_score_bound e a2) (\<lambda>(hi, hi_excl).
     let (withscores, limit) = zrangebyscore_opts (drop 3 args) False None
     in try_opt s c
          (store_zrange_by_score (now e) s (db_index c) (args ! 0) lo lo_excl hi hi_excl withscores limit)
          (\<lambda>items. reply s c (scored_items e items))))))"

definition cmd_zcard :: handler where
  "cmd_zcard e s c args =
     arg args 0 (\<lambda>key. try_read s c (store_zcard (now e) s (db_index c) key) (\<lambda>n. reply s c (resp_int n)))"

definition cmd_zcount :: handler where
  "cmd_zcount e s c args =
     arg args 1 (\<lambda>a1.
     try_read s c (parse_score_bound e a1) (\<lambda>(lo, lo_excl).
     arg args 2 (\<lambda>a2.
     try_read s c (parse_score_bound e a2) (\<lambda>(hi, hi_excl).
     try_read s c (store_zcount (now e) s (db_index c) (args ! 0) lo lo_excl hi hi_excl) (\<lambda>n.
       reply s c (resp_int n))))))"

definition zset_commands :: "(bytes \<times> int \<times> handler) list" where
  "zset_commands =
     [(''ZADD'', - 4, cmd_zadd), (''ZREM'', - 3, cmd_zrem), (''ZSCORE'', 3, cmd_zscore),
      (''ZRANK'', 3, cmd_zrank), (''ZRANGE'', - 4, cmd_zrange),
      (''ZRANGEBYSCORE'', - 4, cmd_zrangebyscore), (''ZCARD'', 2, cmd_zcard), (''ZCOUNT'', 4, cmd_zcount)]"

section \<open>Steps of the store\<close>

lemma steps_bpop_loop [step_intros]:
  "store_steps s0 s \<Longrightarrow> (\<And>s'. store_steps s0 s' \<Longrightarrow> steps_from s0 (f s')) \<Longrightarrow>
   steps_from s0 (bpop_loop dir e s c keys f)"
proof (induction keys arbitrary: s)
  case (Cons key keys)
  then show ?case
    by (cases dir) (auto simp: pop_from_def intro!: step_intros split: option.splits)
qed simp

lemma steps_bpop: "steps_handler (bpop dir)"
  by (auto simp: bpop_def Let_def intro!: steps_handlerI step_intros)

lemma list_handlers_step:
  "steps_handler cmd_lpush" "steps_handler cmd_rpush" "steps_handler cmd_lpop" "steps_handler cmd_rpop"
  "steps_handler cmd_llen" "steps_handler cmd_lrange" "steps_handler cmd_lindex" "steps_handler cmd_lset"
  "steps_handler cmd_ltrim" "steps_handler cmd_lrem" "steps_handler cmd_blpop" "steps_handler cmd_brpop"
  by (auto simp: cmd_lpush_def cmd_rpush_def cmd_lpop_def cmd_rpop_def cmd_llen_def cmd_lrange_def
      cmd_lindex_def cmd_lset_def cmd_ltrim_def cmd_lrem_def cmd_blpop_def cmd_brpop_def Let_def steps_bpop
      intro!: steps_handlerI step_intros)

lemma set_handlers_step:
  "steps_handler cmd_sadd" "steps_handler cmd_srem" "steps_handler cmd_smembers"
  "steps_handler cmd_sismember" "steps_handler cmd_scard" "steps_handler cmd_sinter"
  "steps_handler cmd_sunion" "steps_handler cmd_sdiff" "steps_handler cmd_srandmember" "steps_handler cmd_spop"
  by (auto simp: cmd_sadd_def cmd_srem_def cmd_smembers_def cmd_sismember_def cmd_scard_def cmd_sinter_def
      cmd_sunion_def cmd_sdiff_def cmd_srandmember_def cmd_spop_def Let_def
      intro!: steps_handlerI step_intros)

lemma hash_handlers_step:
  "steps_handler cmd_hset" "steps_handler cmd_hget" "steps_handler cmd_hdel" "steps_handler cmd_hexists"
  "steps_handler cmd_hgetall" "steps_handler cmd_hkeys" "steps_handler cmd_hvals" "steps_handler cmd_hlen"
  "steps_handler cmd_hincrby"
  by (auto simp: cmd_hset_def cmd_hget_def cmd_hdel_def cmd_hexists_def cmd_hgetall_def cmd_hkeys_def
      cmd_hvals_def cmd_hlen_def cmd_hincrby_def Let_def
      intro!: steps_handlerI step_intros split: option.splits)

lemma nested_handlers_step:
  "steps_handler cmd_nhset" "steps_handler cmd_nhget" "steps_handler cmd_nhdel" "steps_handler cmd_nhkeys"
  "steps_handler cmd_nhvals" "steps_handler cmd_nhgetall"
  by (auto simp: cmd_nhset_def cmd_nhget_def cmd_nhdel_def cmd_nhkeys_def cmd_nhvals_def cmd_nhgetall_def
      intro!: steps_handlerI step_intros)

lemma zset_handlers_step:
  "steps_handler cmd_zadd" "steps_handler cmd_zrem" "steps_handler cmd_zscore" "steps_handler cmd_zrank"
  "steps_handler cmd_zrange" "steps_handler cmd_zrangebyscore" "steps_handler cmd_zcard"
  "steps_handler cmd_zcount"
  by (auto simp: cmd_zadd_def cmd_zrem_def cmd_zscore_def cmd_zrank_def cmd_zrange_def
      cmd_zrangebyscore_def cmd_zcard_def cmd_zcount_def Let_def
      intro!: steps_handlerI step_intros split: prod.splits)

lemma list_table_step: "list_all (\<lambda>(name, arity, h). steps_handler h) list_commands"
  by (simp add: list_commands_def list_handlers_step)

lemma set_table_step: "list_all (\<lambda>(name, arity, h). steps_handler h) set_commands"
  by (simp add: set_commands_def set_handlers_step)

lemma hash_table_step: "list_all (\<lambda>(name, arity, h). steps_handler h) hash_commands"
  by (simp add: hash_commands_def hash_handlers_step)

lemma nested_hash_table_step: "list_all (\<lambda>(name, arity, h). steps_handler h) nested_hash_commands"
  by (simp add: nested_hash_commands_def nested_handlers_step)

lemma zset_table_step: "list_all (\<lambda>(name, arity, h). steps_handler h) zset_commands"
  by (simp add: zset_commands_def zset_handlers_step)

section \<open>Which handlers return\<close>

lemma returns_bpop_loop [return_intros]:
  "(\<And>s. returns (f s)) \<Longrightarrow> returns (bpop_loop dir e s c keys f)"
  by (induction keys arbitrary: s) (auto intro!: return_intros split: option.splits)

lemma list_table_total: "list_all (entry_total {}) list_commands"
  by (auto simp: list_commands_def entry_total_def cmd_lpush_def cmd_rpush_def cmd_lpop_def cmd_rpop_def
      cmd_llen_def cmd_lrange_def cmd_lindex_def cmd_lset_def cmd_ltrim_def cmd_lrem_def cmd_blpop_def
      cmd_brpop_def bpop_def Let_def intro!: total_fromI return_intros)

lemma set_table_total: "list_all (entry_total {''SRANDMEMBER''}) set_commands"
  by (auto simp: set_commands_def entry_total_def cmd_sadd_def cmd_srem_def cmd_smembers_def
      cmd_sismember_def cmd_scard_def cmd_sinter_def cmd_sunion_def cmd_sdiff_def cmd_spop_def Let_def
      intro!: total_fromI return_intros)

lemma hash_table_total: "list_all (entry_total {}) hash_commands"
  by (auto simp: hash_commands_def entry_total_def cmd_hset_def cmd_hget_def cmd_hdel_def cmd_hexists_def
      cmd_hgetall_def cmd_hkeys_def cmd_hvals_def cmd_hlen_def cmd_hincrby_def Let_def
      intro!: total_fromI return_intros split: option.splits)

lemma nested_hash_table_total: "list_all (entry_total {}) nested_hash_commands"
  by (auto simp: nested_hash_commands_def entry_total_def cmd_nhset_def cmd_nhget_def cmd_nhdel_def
      cmd_nhkeys_def cmd_nhvals_def cmd_nhgetall_def intro!: total_fromI return_intros)

lemma store_zrange_returns: "store_zrange t s i k start stop ws \<noteq> None"
proof -
  have "\<not> f64_lt f64_inf f64_neg_inf"
    by (simp add: f64_lt_def f64_rank_def f64_mag_def f64_neg_def f64_inf_def f64_neg_inf_def)
  then show ?thesis
    by (auto simp: store_zrange_def store_zrange_by_score_def split: sum.splits option.splits
        storage_value.splits)
qed

lemma returns_zrange [return_intros]:
  "(\<And>a. returns (f a)) \<Longrightarrow> returns (try_opt s c (store_zrange t s i k start stop ws) f)"
  using store_zrange_returns [of t s i k start stop ws] by (auto simp: returns_try_read)

lemma zset_table_total: "list_all (entry_total {''ZRANGEBYSCORE''}) zset_commands"
  by (auto simp: zset_commands_def entry_total_def cmd_zadd_def cmd_zrem_def cmd_zscore_def cmd_zrank_def
      cmd_zrange_def cmd_zcard_def cmd_zcount_def Let_def intro!: total_fromI return_intros)

section \<open>The session is kept\<close>

lemma session_bpop_loop [session_intros]:
  "session c = session c0 \<Longrightarrow> (\<And>s. session_from c0 (f s)) \<Longrightarrow> session_from c0 (bpop_loop dir e s c keys f)"
  by (induction keys arbitrary: s) (auto intro!: session_intros split: option.splits)

lemma list_table_session: "list_all (\<lambda>(name, arity, h). session_handler h) list_commands"
  by (auto simp: list_commands_def
      cmd_lpush_def cmd_rpush_def cmd_lpop_def cmd_rpop_def cmd_llen_def cmd_lrange_def
      cmd_lindex_def cmd_lset_def cmd_ltrim_def cmd_lrem_def cmd_blpop_def cmd_brpop_def bpop_def
      Let_def
      intro!: session_handlerI session_intros)

lemma set_table_session: "list_all (\<lambda>(name, arity, h). session_handler h) set_commands"
  by (auto simp: set_commands_def
      cmd_sadd_def cmd_srem_def cmd_smembers_def cmd_sismember_def cmd_scard_def cmd_sinter_def
      cmd_sunion_def cmd_sdiff_def cmd_srandmember_def cmd_spop_def  Let_def
      intro!: session_handlerI session_intros)

lemma hash_table_session: "list_all (\<lambda>(name, arity, h). session_handler h) hash_commands"
  by (auto simp: hash_commands_def
      cmd_hset_def cmd_hget_def cmd_hdel_def cmd_hexists_def cmd_hgetall_def cmd_hkeys_def
      cmd_hvals_def cmd_hlen_def cmd_hincrby_def  Let_def
      intro!: session_handlerI session_intros split: option.splits)

lemma nested_hash_table_session: "list_all (\<lambda>(name, arity, h). session_handler h) nested_hash_commands"
  by (auto simp: nested_hash_commands_def
      cmd_nhset_def cmd_nhget_def cmd_nhdel_def cmd_nhkeys_def cmd_nhvals_def cmd_nhgetall_def
      Let_def
      intro!: session_handlerI session_intros)

lemma zset_table_session: "list_all (\<lambda>(name, arity, h). session_handler h) zset_commands"
  by (auto simp: zset_commands_def
      cmd_zadd_def cmd_zrem_def cmd_zscore_def cmd_zrank_def cmd_zrange_def cmd_zrangebyscore_def
      cmd_zcard_def cmd_zcount_def  Let_def
      intro!: session_handlerI session_intros split: prod.splits)

end
