(* ===== verification/CmdStream.thy ===== *)
theory CmdStream
  imports Command
begin

text \<open>\<open>cmd/stream.rs\<close>: the commands on streams and consumer groups.\<close>

section \<open>Entries\<close>

fun xadd_opts :: "bytes list \<Rightarrow> nat option \<Rightarrow> bytes list \<times> nat option" where
  "xadd_opts (a # b # n # rest) maxlen =
     (if upper a = ''MAXLEN'' \<and> utf8_lossy b = ''~'' then xadd_opts rest (arg_usize n)
      else (a # b # n # rest, maxlen))"
| "xadd_opts as maxlen = (as, maxlen)"

definition cmd_xadd :: handler where
  "cmd_xadd e s c args =
     (let (rest, maxlen) = xadd_opts (drop 1 args) None
      in case rest of
           [] \<Rightarrow> fail s c SyntaxError
         | i # kvs \<Rightarrow>
             (let fvs = parse_pairs kvs
              in if fvs = [] then fail s c SyntaxError
                 else try_mut c (store_xadd (now e) s (db_index c) (args ! 0) i fvs maxlen) (\<lambda>s i.
                        reply s c (resp_bulk i))))"

definition serialize_entry :: "stream_entry \<Rightarrow> resp_value" where
  "serialize_entry en =
     RArray (Some [resp_bulk (format_id (id_ms en) (id_seq en)), resp_pairs (se_fields en)])"

definition resp_entries :: "stream_entry list \<Rightarrow> resp_value" where
  "resp_entries es = RArray (Some (map serialize_entry es))"

fun count_opt :: "bytes list \<Rightarrow> nat option" where
  "count_opt (a # v # rest) = (if upper a = ''COUNT'' then arg_usize v else count_opt (v # rest))"
| "count_opt _ = None"

definition cmd_xrange :: handler where
  "cmd_xrange e s c args =
     arg args 2 (\<lambda>to.
     try_read s c (store_xrange (now e) s (db_index c) (args ! 0) (args ! 1) to (count_opt (drop 3 args)))
       (\<lambda>es. reply s c (resp_entries es)))"

definition cmd_xrevrange :: handler where
  "cmd_xrevrange e s c args =
     arg args 2 (\<lambda>to.
     try_read s c (store_xrevrange (now e) s (db_index c) (args ! 0) (args ! 1) to (count_opt (drop 3 args)))
       (\<lambda>es. reply s c (resp_entries es)))"

definition cmd_xlen :: handler where
  "cmd_xlen e s c args =
     arg args 0 (\<lambda>key. try_read s c (store_xlen (now e) s (db_index c) key) (\<lambda>n. reply s c (resp_int n)))"

definition cmd_xdel :: handler where
  "cmd_xdel e s c args =
     args_from args 1 (\<lambda>ids.
     try_mut c (store_xdel (now e) s (db_index c) (args ! 0) (map utf8_lossy ids)) (\<lambda>s n.
       reply s c (resp_int n)))"

definition cmd_xtrim :: handler where
  "cmd_xtrim e s c args =
     (if length args < 4 \<or> upper (args ! 1) \<noteq> ''MAXLEN'' then fail s c SyntaxError
      else try_mut c (store_xtrim (now e) s (db_index c) (args ! 0) (unwrap_or (arg_usize (args ! 3)) 0))
             (\<lambda>s n. reply s c (resp_int n)))"

definition stream_id_arg :: "bytes \<Rightarrow> u64 \<times> u64" where
  "stream_id_arg a =
     (let t = utf8_lossy a
      in if t = ''0'' \<or> t = ''0-0'' then (0, 0)
         else
           (let parts = splitn2 (CHR ''-'') t
            in (unwrap_or (parse_u64 (parts ! 0)) 0,
                if 1 < length parts then unwrap_or (parse_u64 (parts ! 1)) 0 else 0)))"

text \<open>The options of XREAD: the loop stops at an argument of at most five bytes.\<close>

fun xread_opts :: "bytes list \<Rightarrow> nat option \<Rightarrow> int option \<Rightarrow> bytes list \<times> nat option \<times> int option" where
  "xread_opts [] count block_ms = ([], count, block_ms)"
| "xread_opts (a # as) count block_ms =
     (if length a \<le> 5 then (a # as, count, block_ms)
      else if upper a = ''COUNT'' \<and> as \<noteq> [] then xread_opts (tl as) (arg_usize (hd as)) block_ms
      else if upper a = ''BLOCK'' \<and> as \<noteq> [] then xread_opts (tl as) count (arg_i64 (hd as))
      else if upper a = ''STREAMS'' then (as, count, block_ms)
      else xread_opts as count block_ms)"

definition cmd_xread :: handler where
  "cmd_xread e s c args =
     (let (rest, count, block_ms) = xread_opts args None None
      in if rest = [] then fail s c SyntaxError
         else
           (let half = length rest div 2;
                ids = map stream_id_arg (drop half rest)
            in try_read s c (store_xread (now e) s (db_index c) (take half rest) ids count) (\<lambda>result.
                 if result = [] \<and> block_ms \<noteq> None \<and> block_ms \<noteq> Some 0
                 then reply s c (SimpleString ''__BLOCK__'')
                 else if result = [] then reply s c resp_nil
                 else reply s c (RArray (Some
                        (map (\<lambda>(key, es). RArray (Some [resp_bulk key, resp_entries es])) result))))))"

section \<open>Consumer groups\<close>

definition cmd_xgroup :: handler where
  "cmd_xgroup e s c args =
     (if args = [] then fail s c SyntaxError
      else
        (let sub = upper (args ! 0); grp = utf8_lossy (args ! 2); cname = utf8_lossy (args ! 3)
         in if sub = ''CREATE'' then
              (if length args < 4 then fail s c SyntaxError
               else
                 (let mkstream = list_ex (\<lambda>a. upper a = ''MKSTREAM'') (drop 4 args)
                  in try_mut c (xgroup_create (now e) s (db_index c) (args ! 1) grp (args ! 3) mkstream)
                       (\<lambda>s _. reply s c resp_ok)))
            else if sub = ''DESTROY'' then
              (if length args < 3 then fail s c SyntaxError
               else try_mut c (xgroup_destroy s (db_index c) (args ! 1) grp) (\<lambda>s b. reply s c (resp_bool b)))
            else if sub = ''CREATECONSUMER'' then
              (if length args < 4 then fail s c SyntaxError
               else try_mut c (xgroup_create_consumer s (db_index c) (args ! 1) grp cname)
                      (\<lambda>s b. reply s c (resp_bool b)))
            else if sub = ''DELCONSUMER'' then
              (if length args < 4 then fail s c SyntaxError
               else try_mut c (xgroup_del_consumer s (db_index c) (args ! 1) grp cname)
                      (\<lambda>s n. reply s c (resp_int n)))
            else if sub = ''SETID'' then
              (if length args < 4 then fail s c SyntaxError
               else try_mut c (xgroup_create (now e) s (db_index c) (args ! 1) grp (args ! 3) False)
                      (\<lambda>s _. reply s c resp_ok))
            else fail s c SyntaxError))"

fun xreadgroup_opts :: "bytes list \<Rightarrow> nat option \<Rightarrow> bool \<Rightarrow> (bytes list \<times> nat option \<times> bool) res" where
  "xreadgroup_opts [] count noack = Inr ([], count, noack)"
| "xreadgroup_opts (a # as) count noack =
     (if upper a = ''COUNT'' \<and> as \<noteq> [] then xreadgroup_opts (tl as) (arg_usize (hd as)) noack
      else if upper a = ''NOACK'' then xreadgroup_opts as count True
      else if upper a = ''BLOCK'' \<and> as \<noteq> [] then xreadgroup_opts (tl as) count noack
      else if upper a = ''STREAMS'' then Inr (as, count, noack)
      else Inl SyntaxError)"

definition group_start :: "bytes \<Rightarrow> read_group_start" where
  "group_start id_arg =
     (if id_arg = ''>'' then NewEntries
      else (let (ms, seq) = stream_id_arg id_arg in History ms seq))"

fun xreadgroup_loop ::
  "env \<Rightarrow> store \<Rightarrow> client_context \<Rightarrow> bytes \<Rightarrow> bytes \<Rightarrow> nat option \<Rightarrow> bool \<Rightarrow> (bytes \<times> bytes) list \<Rightarrow>
   resp_value list \<Rightarrow> outcome" where
  "xreadgroup_loop e s c grp cname count noack [] resp =
     reply s c (if resp = [] then resp_nil else RArray (Some resp))"
| "xreadgroup_loop e s c grp cname count noack ((key, id_arg) # ks) resp =
     try_mut c (xreadgroup (now e) s (db_index c) key grp cname (group_start id_arg) count noack) (\<lambda>s es.
       xreadgroup_loop e s c grp cname count noack ks
         (if es \<noteq> [] \<or> id_arg \<noteq> ''>''
          then resp @ [RArray (Some [resp_bulk key, resp_entries es])] else resp))"

definition cmd_xreadgroup :: handler where
  "cmd_xreadgroup e s c args =
     (if length args < 6 \<or> upper (args ! 0) \<noteq> ''GROUP'' then fail s c SyntaxError
      else try_read s c (xreadgroup_opts (drop 3 args) None False) (\<lambda>(rest, count, noack).
        let half = length rest div 2
        in if rest = [] \<or> half = 0 then fail s c SyntaxError
           else xreadgroup_loop e s c (utf8_lossy (args ! 1)) (utf8_lossy (args ! 2)) count noack
                  (zip (take half rest) (drop half rest)) []))"

definition cmd_xack :: handler where
  "cmd_xack e s c args =
     arg args 1 (\<lambda>g. args_from args 2 (\<lambda>ids.
     try_mut c (store_xack s (db_index c) (args ! 0) (utf8_lossy g) (map stream_id_arg ids)) (\<lambda>s n.
       reply s c (resp_int n))))"

definition parse_range_id :: "bytes \<Rightarrow> bool \<Rightarrow> u64 \<times> u64" where
  "parse_range_id a is_start =
     (let t = utf8_lossy a
      in if t = ''-'' then (0, 0)
         else if t = ''+'' then (- 1, - 1)
         else
           (let (ms, seq) = stream_id_arg a
            in if CHR ''-'' \<in> set a then (ms, seq) else (ms, if is_start then 0 else - 1)))"

definition resp_id :: "(u64 \<times> u64) option \<Rightarrow> resp_value" where
  "resp_id i = (case i of None \<Rightarrow> resp_nil | Some (ms, seq) \<Rightarrow> resp_bulk (format_id ms seq))"

definition cmd_xpending :: handler where
  "cmd_xpending e s c args =
     arg args 1 (\<lambda>g.
     let grp = utf8_lossy g
     in if length args = 2 then
          try_read s c (xpending_summary s (db_index c) (args ! 0) grp) (\<lambda>sm.
            if ps_count sm = 0 then reply s c (RArray (Some [RInteger 0, resp_nil, resp_nil, resp_nil]))
            else reply s c (RArray (Some
                   [resp_int (ps_count sm), resp_id (ps_min_id sm), resp_id (ps_max_id sm),
                    RArray (Some (map (\<lambda>(cn, n). resp_array [cn, nat_to_string n]) (ps_per_consumer sm)))])))
        else if length args < 5 then fail s c SyntaxError
        else case arg_usize (args ! 4) of
          None \<Rightarrow> fail s c NotInteger
        | Some count \<Rightarrow>
            try_read s c
              (xpending_range (now e) s (db_index c) (args ! 0) grp (parse_range_id (args ! 2) True)
                 (parse_range_id (args ! 3) False) count
                 (if 5 < length args then Some (utf8_lossy (args ! 5)) else None))
              (\<lambda>ds. reply s c (RArray (Some (map (\<lambda>d. RArray (Some
                  [resp_bulk (format_id (pd_id_ms d) (pd_id_seq d)), resp_bulk (pd_consumer d),
                   RInteger (sint (pd_idle_ms d)), RInteger (sint (pd_delivery_count d))])) ds)))))"

fun xclaim_opts :: "bytes list \<Rightarrow> (u64 \<times> u64) list \<Rightarrow> bool \<Rightarrow> bool \<Rightarrow> (u64 \<times> u64) list \<times> bool \<times> bool" where
  "xclaim_opts [] ids force justid = (ids, force, justid)"
| "xclaim_opts (a # as) ids force justid =
     (if upper a = ''FORCE'' then xclaim_opts as ids True justid
      else if upper a = ''JUSTID'' then xclaim_opts as ids force True
      else if upper a \<in> {''IDLE'', ''TIME'', ''RETRYCOUNT'', ''LASTID''} \<and> as \<noteq> []
      then xclaim_opts (tl as) ids force justid
      else xclaim_opts as (ids @ [stream_id_arg a]) force justid)"

definition cmd_xclaim :: handler where
  "cmd_xclaim e s c args =
     arg args 3 (\<lambda>a3. case arg_u64 a3 of
         None \<Rightarrow> fail s c NotInteger
       | Some min_idle \<Rightarrow>
           (let (ids, force, justid) = xclaim_opts (drop 4 args) [] False False
            in if ids = [] then fail s c SyntaxError
               else try_mut c
                      (store_xclaim (now e) s (db_index c) (args ! 0) (utf8_lossy (args ! 1))
                         (utf8_lossy (args ! 2)) min_idle ids force justid)
                      (\<lambda>s es. reply s c
                         (if justid then resp_array (map (\<lambda>en. format_id (id_ms en) (id_seq en)) es)
                          else resp_entries es))))"

definition stream_commands :: "(bytes \<times> int \<times> handler) list" where
  "stream_commands =
     [(''XADD'', - 4, cmd_xadd), (''XRANGE'', - 4, cmd_xrange), (''XREVRANGE'', - 4, cmd_xrevrange),
      (''XLEN'', 2, cmd_xlen), (''XDEL'', - 3, cmd_xdel), (''XTRIM'', 4, cmd_xtrim),
      (''XREAD'', - 4, cmd_xread), (''XGROUP'', - 2, cmd_xgroup), (''XREADGROUP'', - 7, cmd_xreadgroup),
      (''XACK'', - 4, cmd_xack), (''XPENDING'', - 3, cmd_xpending), (''XCLAIM'', - 6, cmd_xclaim)]"

section \<open>Steps of the store\<close>

lemma steps_xreadgroup_loop [step_intros]:
  "store_steps s0 s \<Longrightarrow> steps_from s0 (xreadgroup_loop e s c g cname count noack ks resp)"
  by (induction ks arbitrary: s resp rule: list.induct) (auto intro!: step_intros)

lemma stream_handlers_step:
  "steps_handler cmd_xadd" "steps_handler cmd_xrange" "steps_handler cmd_xrevrange" "steps_handler cmd_xlen"
  "steps_handler cmd_xdel" "steps_handler cmd_xtrim" "steps_handler cmd_xread" "steps_handler cmd_xgroup"
  "steps_handler cmd_xreadgroup" "steps_handler cmd_xack" "steps_handler cmd_xpending"
  "steps_handler cmd_xclaim"
  by (auto simp: cmd_xadd_def cmd_xrange_def cmd_xrevrange_def cmd_xlen_def cmd_xdel_def cmd_xtrim_def
      cmd_xread_def cmd_xgroup_def cmd_xreadgroup_def cmd_xack_def cmd_xpending_def cmd_xclaim_def Let_def
      intro!: steps_handlerI step_intros split: option.splits prod.splits list.splits)

lemma stream_table_step: "list_all (\<lambda>(name, arity, h). steps_handler h) stream_commands"
  by (simp add: stream_commands_def stream_handlers_step)

section \<open>Which handlers return\<close>

lemma returns_xreadgroup_loop [return_intros]: "returns (xreadgroup_loop e s c g cname count noack ks resp)"
  by (induction ks arbitrary: s resp rule: list.induct) (auto intro!: return_intros)

lemma stream_table_total: "list_all (entry_total {}) stream_commands"
  by (auto simp: stream_commands_def entry_total_def cmd_xadd_def cmd_xrange_def cmd_xrevrange_def
      cmd_xlen_def cmd_xdel_def cmd_xtrim_def cmd_xread_def cmd_xgroup_def cmd_xreadgroup_def cmd_xack_def
      cmd_xpending_def cmd_xclaim_def Let_def
      intro!: total_fromI return_intros split: option.splits prod.splits list.splits)

section \<open>The session is kept\<close>

lemma session_xreadgroup_loop [session_intros]:
  "session c = session c0 \<Longrightarrow> session_from c0 (xreadgroup_loop e s c g cname count noack ks resp)"
  by (induction ks arbitrary: s resp rule: list.induct) (auto intro!: session_intros)

lemma stream_table_session: "list_all (\<lambda>(name, arity, h). session_handler h) stream_commands"
  by (auto simp: stream_commands_def
      cmd_xadd_def cmd_xrange_def cmd_xrevrange_def cmd_xlen_def cmd_xdel_def cmd_xtrim_def
      cmd_xread_def cmd_xgroup_def cmd_xreadgroup_def cmd_xack_def cmd_xpending_def cmd_xclaim_def
      Let_def
      intro!: session_handlerI session_intros split: option.splits prod.splits list.splits)

end
