(* ===== verification/CmdServer.thy ===== *)
theory CmdServer
  imports Command
begin

text \<open>
  \<open>cmd/server.rs\<close>, \<open>cmd/pubsub.rs\<close>, \<open>cmd/cluster.rs\<close> and the SCRIPT command of \<open>cmd/lua.rs\<close>: the
  commands on the server and the connection, the subscriptions and the script cache.
\<close>

section \<open>Server\<close>

definition cmd_ping :: handler where
  "cmd_ping e s c args = reply s c (case args of [] \<Rightarrow> resp_pong | a # _ \<Rightarrow> resp_bulk a)"

definition cmd_echo :: handler where
  "cmd_echo e s c args = arg args 0 (\<lambda>a. reply s c (resp_bulk a))"

definition cmd_command :: handler where
  "cmd_command e s c args = reply s c resp_ok"

definition cmd_select :: handler where
  "cmd_select e s c args =
     arg args 0 (\<lambda>a. reply s (c\<lparr>db_index := unwrap_or (arg_usize a) 0\<rparr>) resp_ok)"

definition ok_or_zero :: "nat res \<Rightarrow> nat" where
  "ok_or_zero r = (case r of Inl _ \<Rightarrow> 0 | Inr n \<Rightarrow> n)"

fun info_loop :: "u64 \<Rightarrow> nat list \<Rightarrow> store \<Rightarrow> bytes \<Rightarrow> store \<times> bytes" where
  "info_loop t [] s info = (s, info)"
| "info_loop t (i # is) s info =
     (let (s', r) = dbsize t s i;
          keys = ok_or_zero r;
          expires = ok_or_zero (expires_count t s' i)
      in info_loop t is s'
           (if 0 < keys then info @ ''db'' @ nat_to_string i @ '':keys='' @ nat_to_string keys @
                             '',expires='' @ nat_to_string expires @ crlf
            else info))"

definition cmd_info :: handler where
  "cmd_info e s c args =
     (let header = ''# Server'' @ crlf @ ''velodb_version:0.3.0'' @ crlf @
                   ''uptime_in_seconds:'' @ nat_to_string (uptime e) @ crlf @
                   ''os:Windows'' @ crlf @ crlf @ ''# Keyspace'' @ crlf;
          (s', info) = info_loop (now e) [0..<length (databases s)] s header
      in reply s' c (resp_bulk info))"

definition cmd_config :: handler where
  "cmd_config e s c args =
     (case args of
        [] \<Rightarrow> reply s c resp_ok
      | a # _ \<Rightarrow>
          (let sub = upper a
           in if sub = ''GET'' then reply s c (resp_array [''port'', ''6379'', ''databases'', ''16''])
              else if sub = ''SET'' \<or> sub = ''REWRITE'' then reply s c resp_ok
              else fail s c SyntaxError))"

definition cmd_acl :: handler where
  "cmd_acl e s c args =
     (case args of
        [] \<Rightarrow> fail s c SyntaxError
      | a # rest \<Rightarrow>
          (let sub = upper a
           in if sub = ''WHOAMI'' then reply s c (resp_bulk ''default'')
              else if sub = ''LIST'' then
                reply s c (resp_array [''user default on nopass sanitize-payload ~* &* +@all''])
              else if sub = ''USERS'' then reply s c (resp_array [''default''])
              else if sub = ''CAT'' then
                reply s c (resp_array [''keyspace'', ''read'', ''write'', ''admin'', ''pubsub'', ''scripting'',
                  ''connection'', ''transaction'', ''fast'', ''slow''])
              else if sub = ''GETUSER'' then
                (if rest \<noteq> [] \<and> hd rest = ''default'' then
                   reply s c (RArray (Some
                     [resp_bulk ''flags'', resp_array [''on'', ''nopass''], resp_bulk ''passwords'', resp_array [],
                      resp_bulk ''commands'', resp_bulk ''+@all'', resp_bulk ''keys'', resp_bulk ''~*'',
                      resp_bulk ''channels'', resp_bulk ''&*'']))
                 else reply s c resp_nil)
              else fail s c SyntaxError))"

definition server_commands :: "(bytes \<times> int \<times> handler) list" where
  "server_commands =
     [(''PING'', - 1, cmd_ping), (''ECHO'', 2, cmd_echo), (''COMMAND'', - 1, cmd_command),
      (''SELECT'', 2, cmd_select), (''INFO'', - 1, cmd_info), (''CONFIG'', - 2, cmd_config),
      (''ACL'', - 2, cmd_acl)]"

section \<open>Subscriptions\<close>

text \<open>
  \<open>mpsc::unbounded_channel()\<close> makes a new channel; here a channel is a number no subscription of the
  registry has.  The receiver in the context has the number of its sender, and assigning
  \<open>pubsub_rx\<close> drops the receiver that was there.
\<close>

definition fresh_sender :: "pubsub_registry \<Rightarrow> sender" where
  "fresh_sender r = Suc (fold max (concat (map snd (channels r)) @ concat (map snd (patterns r))) 0)"

fun subscribe_loop ::
  "store \<Rightarrow> client_context \<Rightarrow> bytes list \<Rightarrow> resp_value list \<Rightarrow> store \<times> client_context \<times> resp_value list" where
  "subscribe_loop s c [] result = (s, c, result)"
| "subscribe_loop s c (ch # chs) result =
     (let c1 = c\<lparr>subscribed_channels := subscribed_channels c @ [ch]\<rparr>;
          tx = fresh_sender (pubsub_reg s);
          s1 = pubsub_subscribe_channel s ch tx;
          c2 = c1\<lparr>pubsub_rx := Some tx\<rparr>
      in subscribe_loop s1 c2 chs
           (result @ [resp_bulk ''subscribe'', resp_bulk ch, resp_int (length (subscribed_channels c2))]))"

definition cmd_subscribe :: handler where
  "cmd_subscribe e s c args =
     (if args = [] then reply s c resp_ok
      else
        (let (s', c', result) = subscribe_loop s c args []
         in reply s' (c'\<lparr>sub_mode := True\<rparr>) (RArray (Some result))))"

definition leave_sub_mode :: "client_context \<Rightarrow> client_context" where
  "leave_sub_mode c =
     (if subscribed_channels c = [] \<and> subscribed_patterns c = []
      then c\<lparr>sub_mode := False, pubsub_rx := None\<rparr> else c)"

fun unsubscribe_loop :: "client_context \<Rightarrow> bytes list \<Rightarrow> resp_value list \<Rightarrow> client_context \<times> resp_value list" where
  "unsubscribe_loop c [] result = (c, result)"
| "unsubscribe_loop c (ch # chs) result =
     (let c1 = c\<lparr>subscribed_channels := filter (\<lambda>x. x \<noteq> ch) (subscribed_channels c)\<rparr>
      in unsubscribe_loop c1 chs
           (result @ [resp_bulk ''unsubscribe'', resp_bulk ch, resp_int (length (subscribed_channels c1))]))"

definition cmd_unsubscribe :: handler where
  "cmd_unsubscribe e s c args =
     (let (c1, result) =
            (if args = [] then (c\<lparr>subscribed_channels := [], pubsub_rx := None\<rparr>, [])
             else unsubscribe_loop c args []);
          result = (if result = [] then [resp_bulk ''unsubscribe'', resp_bulk [], RInteger 0] else result)
      in reply s (leave_sub_mode c1) (RArray (Some result)))"

fun psubscribe_loop ::
  "store \<Rightarrow> client_context \<Rightarrow> bytes list \<Rightarrow> resp_value list \<Rightarrow> store \<times> client_context \<times> resp_value list" where
  "psubscribe_loop s c [] result = (s, c, result)"
| "psubscribe_loop s c (p # ps) result =
     (let c1 = c\<lparr>subscribed_patterns := subscribed_patterns c @ [utf8_lossy p]\<rparr>;
          tx = fresh_sender (pubsub_reg s);
          s1 = pubsub_subscribe_pattern s (utf8_lossy p) tx;
          c2 = c1\<lparr>pubsub_rx := Some tx\<rparr>
      in psubscribe_loop s1 c2 ps
           (result @ [resp_bulk ''psubscribe'', resp_bulk p, resp_int (length (subscribed_patterns c2))]))"

definition cmd_psubscribe :: handler where
  "cmd_psubscribe e s c args =
     (if args = [] then reply s c resp_ok
      else
        (let (s', c', result) = psubscribe_loop s c args []
         in reply s' (c'\<lparr>sub_mode := True\<rparr>) (RArray (Some result))))"

definition cmd_punsubscribe :: handler where
  "cmd_punsubscribe e s c args =
     (let c1 = (if args = [] then c\<lparr>subscribed_patterns := [], pubsub_rx := None\<rparr>
                else c\<lparr>subscribed_patterns :=
                        filter (\<lambda>sp. sp \<notin> set (map utf8_lossy args)) (subscribed_patterns c)\<rparr>)
      in reply s (leave_sub_mode c1)
           (RArray (Some [resp_bulk ''punsubscribe'', resp_bulk [], RInteger 0])))"

text \<open>
  PUBLISH.  The messages go into the channels of the subscribers; no code takes them out again, so
  the handler keeps the new registry and the count.
\<close>

definition cmd_publish :: handler where
  "cmd_publish e s c args =
     arg args 1 (\<lambda>msg.
     let (s', sent, count) = pubsub_publish (is_open e) s (args ! 0) msg
     in reply s' c (resp_int count))"

definition pubsub_commands :: "(bytes \<times> int \<times> handler) list" where
  "pubsub_commands =
     [(''SUBSCRIBE'', - 2, cmd_subscribe), (''UNSUBSCRIBE'', - 1, cmd_unsubscribe),
      (''PSUBSCRIBE'', - 2, cmd_psubscribe), (''PUNSUBSCRIBE'', - 1, cmd_punsubscribe),
      (''PUBLISH'', 3, cmd_publish)]"

section \<open>Cluster\<close>

definition cluster_info_text :: bytes where
  "cluster_info_text =
     ''cluster_state:ok'' @ crlf @ ''cluster_slots_assigned:16384'' @ crlf @ ''cluster_slots_ok:16384'' @ crlf @
     ''cluster_known_nodes:1'' @ crlf @ ''cluster_size:1'' @ crlf @ ''cluster_current_epoch:0'' @ crlf"

definition cmd_cluster :: handler where
  "cmd_cluster e s c args =
     (case args of
        [] \<Rightarrow> fail s c (WrongNumberOfArgs ''CLUSTER'')
      | a # rest \<Rightarrow>
          (let sub = upper a
           in case cluster_state_new ''node-unknown'' ''127.0.0.1'' 16379 of
                None \<Rightarrow> None
              | Some st \<Rightarrow>
                  (if sub = ''SLOTS'' then reply s c (cluster_slots_response st)
                   else if sub = ''NODES'' then reply s c (cluster_nodes_response st)
                   else if sub = ''INFO'' then reply s c (resp_bulk cluster_info_text)
                   else if sub = ''MYID'' then reply s c (resp_bulk (node_id st))
                   else if sub = ''KEYSLOT'' then
                     (case rest of
                        [] \<Rightarrow> fail s c (WrongNumberOfArgs ''CLUSTER KEYSLOT'')
                      | k # _ \<Rightarrow> reply s c (RInteger (uint (slot_for_key (crc16 e) k))))
                   else if sub \<in> {''MEET'', ''RESET'', ''FORGET'', ''REPLICATE'', ''SETSLOT'', ''SAVECONFIG''}
                   then reply s c resp_ok
                   else if sub = ''GETKEYSINSLOT'' then reply s c (resp_array [])
                   else if sub = ''COUNTKEYSINSLOT'' then reply s c (RInteger 0)
                   else fail s c (unknown_command (''CLUSTER '' @ sub)))))"

definition cluster_commands :: "(bytes \<times> int \<times> handler) list" where
  "cluster_commands = [(''CLUSTER'', - 2, cmd_cluster)]"

section \<open>The script cache\<close>

definition cmd_script :: handler where
  "cmd_script e s c args =
     (case args of
        [] \<Rightarrow> fail s c (WrongNumberOfArgs ''SCRIPT'')
      | a # rest \<Rightarrow>
          (let sub = upper a
           in if sub = ''LOAD'' then
                (case rest of
                   [] \<Rightarrow> fail s c (WrongNumberOfArgs ''SCRIPT LOAD'')
                 | x # _ \<Rightarrow>
                     (let script = utf8_lossy x; sha = sha1_hex e script
                      in reply (s\<lparr>lua_scripts := hm_insert sha script (lua_scripts s)\<rparr>) c (resp_bulk sha)))
              else if sub = ''EXISTS'' then
                reply s c (RArray (Some (map (\<lambda>x. resp_bool (hm_get (lua_scripts s) (utf8_lossy x) \<noteq> None)) rest)))
              else if sub = ''FLUSH'' then reply (s\<lparr>lua_scripts := []\<rparr>) c resp_ok
              else fail s c SyntaxError))"

section \<open>Steps of the store\<close>

lemma info_loop_steps: "store_steps s (fst (info_loop t is s info))"
proof (induction "is" arbitrary: s info)
  case (Cons i "is")
  obtain s' r where d: "dbsize t s i = (s', r)" by fastforce
  have "store_step s s'" using step_dbsize [of s t i] d by simp
  with Cons.IH [of s'] d show ?case by (simp add: Let_def converse_rtranclp_into_rtranclp)
qed simp

lemma subscribe_loop_steps: "store_steps s (fst (subscribe_loop s c chs result))"
proof (induction chs arbitrary: s c result)
  case (Cons ch chs)
  have "store_step s (pubsub_subscribe_channel s ch tx)" for tx
    unfolding pubsub_subscribe_channel_def by (rule step_pubsub)
  then show ?case unfolding subscribe_loop.simps Let_def by (rule converse_rtranclp_into_rtranclp) (rule Cons.IH)
qed simp

lemma psubscribe_loop_steps: "store_steps s (fst (psubscribe_loop s c ps result))"
proof (induction ps arbitrary: s c result)
  case (Cons p ps)
  have "store_step s (pubsub_subscribe_pattern s (utf8_lossy p) tx)" for tx
    unfolding pubsub_subscribe_pattern_def by (rule step_pubsub)
  then show ?case unfolding psubscribe_loop.simps Let_def by (rule converse_rtranclp_into_rtranclp) (rule Cons.IH)
qed simp

lemma pubsub_publish_steps: "store_steps s (fst (pubsub_publish f s ch msg))"
  by (auto simp: pubsub_publish_def intro: step_pubsub split: prod.splits)

lemma steps_reply_fst: "store_steps s (fst p) \<Longrightarrow> steps_from s (case p of (s', x) \<Rightarrow> reply s' (f s' x) (g s' x))"
  by (cases p) (simp add: steps_reply)

lemma server_handlers_step:
  "steps_handler cmd_ping" "steps_handler cmd_echo" "steps_handler cmd_command" "steps_handler cmd_select"
  "steps_handler cmd_info" "steps_handler cmd_config" "steps_handler cmd_acl"
  by (auto simp: cmd_ping_def cmd_echo_def cmd_command_def cmd_select_def cmd_info_def cmd_config_def
      cmd_acl_def Let_def info_loop_steps
      intro!: steps_handlerI step_intros steps_reply_fst split: list.splits)

lemma steps_from_triple:
  "store_steps s (fst p) \<Longrightarrow> steps_from s (case p of (s', x, y) \<Rightarrow> reply s' (f s' x y) (g s' x y))"
  by (cases p) (simp add: steps_reply)

lemma pubsub_handlers_step:
  "steps_handler cmd_subscribe" "steps_handler cmd_unsubscribe" "steps_handler cmd_psubscribe"
  "steps_handler cmd_punsubscribe" "steps_handler cmd_publish"
proof -
  show "steps_handler cmd_subscribe" "steps_handler cmd_psubscribe" "steps_handler cmd_publish"
    by (auto simp: cmd_subscribe_def cmd_psubscribe_def cmd_publish_def Let_def subscribe_loop_steps
        psubscribe_loop_steps pubsub_publish_steps intro!: steps_handlerI step_intros steps_from_triple)
  show "steps_handler cmd_unsubscribe" "steps_handler cmd_punsubscribe"
    by (auto simp: cmd_unsubscribe_def cmd_punsubscribe_def Let_def
        intro!: steps_handlerI step_intros split: prod.splits)
qed

lemma cluster_script_handlers_step: "steps_handler cmd_cluster" "steps_handler cmd_script"
  by (auto simp: cmd_cluster_def cmd_script_def Let_def
      intro!: steps_handlerI step_intros r_into_rtranclp [of store_step] step_scripts
      split: option.splits list.splits)

lemma server_table_step: "list_all (\<lambda>(name, arity, h). steps_handler h) server_commands"
  by (simp add: server_commands_def server_handlers_step)

lemma pubsub_table_step: "list_all (\<lambda>(name, arity, h). steps_handler h) pubsub_commands"
  by (simp add: pubsub_commands_def pubsub_handlers_step)

lemma cluster_table_step: "list_all (\<lambda>(name, arity, h). steps_handler h) cluster_commands"
  by (simp add: cluster_commands_def cluster_script_handlers_step)

section \<open>Which handlers return\<close>

lemma server_table_total: "list_all (entry_total {}) server_commands"
  by (auto simp: server_commands_def entry_total_def cmd_ping_def cmd_echo_def cmd_command_def
      cmd_select_def cmd_info_def cmd_config_def cmd_acl_def Let_def
      intro!: total_fromI return_intros split: list.splits prod.splits)

lemma pubsub_table_total: "list_all (entry_total {}) pubsub_commands"
  by (auto simp: pubsub_commands_def entry_total_def cmd_subscribe_def cmd_unsubscribe_def
      cmd_psubscribe_def cmd_punsubscribe_def cmd_publish_def Let_def
      intro!: total_fromI return_intros split: prod.splits)

lemma cluster_script_total: "total_from n cmd_cluster" "total_from n cmd_script"
proof -
  obtain st where "cluster_state_new ''node-unknown'' ''127.0.0.1'' 16379 = Some st"
    by (rule cluster_state_new_slots) blast
  then show "total_from n cmd_cluster"
    by (auto simp: cmd_cluster_def Let_def intro!: total_fromI return_intros split: list.splits)
  show "total_from n cmd_script"
    by (auto simp: cmd_script_def Let_def intro!: total_fromI return_intros split: list.splits)
qed

section \<open>The session is kept\<close>

lemma subscribe_loop_session: "session (fst (snd (subscribe_loop s c chs result))) = session c"
  by (induction chs arbitrary: s c result) (simp_all add: Let_def)

lemma psubscribe_loop_session: "session (fst (snd (psubscribe_loop s c ps result))) = session c"
  by (induction ps arbitrary: s c result) (simp_all add: Let_def)

lemma unsubscribe_loop_session: "session (fst (unsubscribe_loop c chs result)) = session c"
  by (induction chs arbitrary: c result) (simp_all add: Let_def)

lemma leave_sub_mode_session [simp]: "session (leave_sub_mode c) = session c"
  by (simp add: leave_sub_mode_def)

lemma server_table_session: "list_all (\<lambda>(name, arity, h). session_handler h) server_commands"
  by (auto simp: server_commands_def
      cmd_ping_def cmd_echo_def cmd_command_def cmd_select_def cmd_info_def cmd_config_def
      cmd_acl_def  Let_def
      intro!: session_handlerI session_intros split: list.splits prod.splits)

lemma session_from_triple:
  "session (fst (snd p)) = session c \<Longrightarrow>
   session_from c (case p of (s', c', x) \<Rightarrow> reply s' (c'\<lparr>sub_mode := m\<rparr>) (g s' c' x))"
  by (cases p) (simp add: session_reply)

lemma pubsub_table_session: "list_all (\<lambda>(name, arity, h). session_handler h) pubsub_commands"
proof -
  have "session_handler cmd_subscribe" "session_handler cmd_psubscribe"
    by (auto simp: cmd_subscribe_def cmd_psubscribe_def subscribe_loop_session psubscribe_loop_session
        intro!: session_handlerI session_intros session_from_triple)
  moreover have "session_handler cmd_unsubscribe"
  proof (rule session_handlerI)
    fix e s c args
    show "session_from c (cmd_unsubscribe e s c args)"
      using unsubscribe_loop_session [of c args "[]"]
      by (cases "unsubscribe_loop c args []") (simp add: cmd_unsubscribe_def session_reply)
  qed
  moreover have "session_handler cmd_punsubscribe" "session_handler cmd_publish"
    by (auto simp: cmd_punsubscribe_def cmd_publish_def Let_def intro!: session_handlerI session_intros
        split: prod.splits)
  ultimately show ?thesis by (simp add: pubsub_commands_def)
qed

lemma cluster_script_session: "session_handler cmd_cluster" "session_handler cmd_script"
  by (auto simp: cmd_cluster_def cmd_script_def Let_def intro!: session_handlerI session_intros
      split: option.splits list.splits)

end
