(* ===== verification/Dispatch.thy ===== *)
theory Dispatch
  imports CmdString CmdGeneric CmdCollections CmdStream CmdServer
begin

text \<open>
  \<open>cmd/mod.rs\<close>, \<open>cmd/transaction.rs\<close> and \<open>cmd/lua.rs\<close>: the table of commands, its \<open>dispatch\<close>, and the
  two handlers that dispatch further commands, EXEC and EVAL.

  EXEC and EVAL take the dispatcher they call as a parameter; \<open>dispatch n\<close> allows \<open>n\<close> nested
  dispatches and is \<^term>\<open>None\<close> beyond, where the server would run out of stack.  Without a script two
  levels are enough, because a nested EXEC finds an empty queue: \<open>dispatch_depth\<close> below.
\<close>

type_synonym dispatcher =
  "bytes \<Rightarrow> env \<Rightarrow> store \<Rightarrow> client_context \<Rightarrow> bytes list \<Rightarrow> (store \<times> client_context \<times> resp_value) option"

section \<open>Transactions\<close>

definition cmd_multi :: handler where
  "cmd_multi e s c args = reply s (c\<lparr>multi_mode := True, multi_queue := []\<rparr>) resp_ok"

text \<open>The comparison of the watched versions; \<open>versions[i]\<close> panics out of range.\<close>

fun watch_check :: "u64 \<Rightarrow> store \<Rightarrow> nat \<Rightarrow> bytes list \<Rightarrow> u64 list \<Rightarrow> bool option" where
  "watch_check t s i [] vs = Some True"
| "watch_check t s i (key # keys) vs =
     (case get_version t s i key of
        Inl _ \<Rightarrow> Some False
      | Inr current \<Rightarrow>
          (case vs of
             [] \<Rightarrow> None
           | v # vs \<Rightarrow> if current \<noteq> v then Some False else watch_check t s i keys vs))"

fun exec_queue ::
  "dispatcher \<Rightarrow> env \<Rightarrow> store \<Rightarrow> client_context \<Rightarrow> bytes list list \<Rightarrow> resp_value list \<Rightarrow> outcome" where
  "exec_queue disp e s c [] results = reply s c (RArray (Some results))"
| "exec_queue disp e s c (args # queue) results =
     (case args of
        [] \<Rightarrow> None
      | name # rest \<Rightarrow>
          (case disp (upper name) e s c rest of
             None \<Rightarrow> None
           | Some (s', c', resp) \<Rightarrow> exec_queue disp e s' c' queue (results @ [resp])))"

definition cmd_exec :: "dispatcher \<Rightarrow> handler" where
  "cmd_exec disp e s c args =
     (if \<not> multi_mode c then fail s c (Internal ''EXEC without MULTI'')
      else
        (let c1 = c\<lparr>multi_mode := False, multi_queue := [], watched_keys := [], watched_versions := []\<rparr>
         in case watch_check (now e) s (db_index c) (watched_keys c) (watched_versions c) of
              None \<Rightarrow> None
            | Some False \<Rightarrow> reply s c1 (RArray None)
            | Some True \<Rightarrow> exec_queue disp e s c1 (multi_queue c) []))"

definition cmd_discard :: handler where
  "cmd_discard e s c args =
     reply s (c\<lparr>multi_mode := False, multi_queue := [], watched_keys := [], watched_versions := []\<rparr>) resp_ok"

definition watched_version :: "u64 \<Rightarrow> store \<Rightarrow> nat \<Rightarrow> bytes \<Rightarrow> u64" where
  "watched_version t s i key = (case get_version t s i key of Inl _ \<Rightarrow> 0 | Inr v \<Rightarrow> v)"

definition cmd_watch :: handler where
  "cmd_watch e s c args =
     (if multi_mode c then reply s c resp_ok
      else reply s
        (c\<lparr>watched_keys := watched_keys c @ args,
           watched_versions := watched_versions c @ map (watched_version (now e) s (db_index c)) args\<rparr>) resp_ok)"

definition cmd_unwatch :: handler where
  "cmd_unwatch e s c args = reply s (c\<lparr>watched_keys := [], watched_versions := []\<rparr>) resp_ok"

definition transaction_commands :: "dispatcher \<Rightarrow> (bytes \<times> int \<times> handler) list" where
  "transaction_commands disp =
     [(''MULTI'', 1, cmd_multi), (''EXEC'', 1, cmd_exec disp), (''DISCARD'', 1, cmd_discard),
      (''WATCH'', - 2, cmd_watch), (''UNWATCH'', 1, cmd_unwatch)]"

section \<open>Scripts\<close>

fun lua_arg :: "env \<Rightarrow> lua_value \<Rightarrow> bytes option" where
  "lua_arg e (LString b) = Some b"
| "lua_arg e (LInteger i) = Some (int_to_string i)"
| "lua_arg e (LNumber d) = Some (f64_display e d)"
| "lua_arg e _ = None"

fun lua_args :: "env \<Rightarrow> lua_value list \<Rightarrow> bytes list option" where
  "lua_args e [] = Some []"
| "lua_args e (v # vs) =
     (case lua_arg e v of None \<Rightarrow> None | Some a \<Rightarrow> map_option (\<lambda>as. a # as) (lua_args e vs))"

fun resp_to_lua :: "resp_value \<Rightarrow> lua_value" where
  "resp_to_lua (RInteger i) = LInteger i"
| "resp_to_lua (SimpleString t) = LString t"
| "resp_to_lua (BulkString (Some b)) = LString b"
| "resp_to_lua (BulkString None) = LBoolean False"
| "resp_to_lua (RespError m) = LString m"
| "resp_to_lua (RArray (Some items)) =
     LTable (zip (map (\<lambda>i. LInteger (int i)) [1..<Suc (length items)]) (map resp_to_lua items))"
| "resp_to_lua (RArray None) = LBoolean False"
| "resp_to_lua (RMap pairs) = LTable (map (\<lambda>p. (resp_to_lua (fst p), resp_to_lua (snd p))) pairs)"
| "resp_to_lua (Double d) = LNumber d"
| "resp_to_lua (Boolean b) = LBoolean b"
| "resp_to_lua RNull = LBoolean False"

fun lua_to_resp :: "lua_value \<Rightarrow> resp_value" where
  "lua_to_resp (LInteger i) = RInteger i"
| "lua_to_resp (LString b) = resp_bulk b"
| "lua_to_resp (LBoolean b) = resp_bool b"
| "lua_to_resp _ = resp_ok"

text \<open>A script runs with the store; each \<open>redis.call\<close> gets a context of its own.\<close>

primrec run_lua :: "dispatcher \<Rightarrow> env \<Rightarrow> nat \<Rightarrow> lua_run \<Rightarrow> store \<Rightarrow> (store \<times> (bytes + lua_value)) option" where
  "run_lua disp e i (LuaDone v) = (\<lambda>s. Some (s, Inr v))"
| "run_lua disp e i (LuaFail m) = (\<lambda>s. Some (s, Inl m))"
| "run_lua disp e i (LuaCall vs k) = (\<lambda>s.
     case lua_args e vs of
       None \<Rightarrow> run_lua disp e i (k (Inl ''Lua redis.call() arguments must be strings or numbers'')) s
     | Some [] \<Rightarrow> run_lua disp e i (k (Inl ''wrong number of arguments to redis.call()'')) s
     | Some (name # rest) \<Rightarrow>
         (case disp (upper name) e s (client_context_new\<lparr>db_index := i\<rparr>) rest of
            None \<Rightarrow> None
          | Some (s', _, r) \<Rightarrow> run_lua disp e i (k (Inr (resp_to_lua r))) s'))"

definition cmd_eval :: "dispatcher \<Rightarrow> handler" where
  "cmd_eval disp e s c args =
     (if length args < 2 then fail s c (WrongNumberOfArgs ''EVAL'')
      else
        (let script = utf8_lossy (args ! 0);
             num_keys = unwrap_or (arg_usize (args ! 1)) 0;
             cut = min ((2 + num_keys) mod 2 ^ 64) (length args)
         in if cut < 2 then None
            else
              (let keys = take (cut - 2) (drop 2 args); argv = drop cut args
               in case run_lua disp e (db_index c) (lua_load e script (map utf8_lossy keys) (map utf8_lossy argv)) s of
                    None \<Rightarrow> None
                  | Some (s', Inr v) \<Rightarrow> reply s' c (lua_to_resp v)
                  | Some (s', Inl m) \<Rightarrow> reply s' c (RespError (''ERR '' @ m)))))"

definition cmd_evalsha :: "dispatcher \<Rightarrow> handler" where
  "cmd_evalsha disp e s c args =
     (if length args < 2 then fail s c (WrongNumberOfArgs ''EVALSHA'')
      else case hm_get (lua_scripts s) (utf8_lossy (args ! 0)) of
        Some script \<Rightarrow> cmd_eval disp e s c (script # drop 1 args)
      | None \<Rightarrow> reply s c (RespError ''NOSCRIPT No matching script. Please use EVAL.''))"

definition lua_commands :: "dispatcher \<Rightarrow> (bytes \<times> int \<times> handler) list" where
  "lua_commands disp =
     [(''EVAL'', - 3, cmd_eval disp), (''EVALSHA'', - 3, cmd_evalsha disp), (''SCRIPT'', - 2, cmd_script)]"

section \<open>Dispatch\<close>

definition command_table :: "dispatcher \<Rightarrow> (bytes \<times> int \<times> handler) list" where
  "command_table disp =
     server_commands @ string_commands @ generic_commands @ list_commands @ set_commands @
     hash_commands @ zset_commands @ stream_commands @ nested_hash_commands @ pubsub_commands @
     transaction_commands disp @ lua_commands disp @ cluster_commands"

definition is_deny_oom_command :: "bytes \<Rightarrow> bool" where
  "is_deny_oom_command name \<longleftrightarrow> name \<in>
     {''SET'', ''SETRANGE'', ''MSET'', ''INCR'', ''INCRBY'', ''DECR'', ''DECRBY'', ''APPEND'', ''GETSET'',
      ''LPUSH'', ''RPUSH'', ''LSET'', ''SADD'', ''HSET'', ''HINCRBY'', ''ZADD'', ''XADD'', ''NHSET'',
      ''RENAME'', ''RENAMENX'', ''EVAL'', ''EVALSHA''}"

definition oom_error :: resp_value where
  "oom_error = RespError (''OOM command not allowed when used memory > '' @ [CHR 0x27] @ ''maxmemory'' @ [CHR 0x27] @ ''.'')"

definition arity_error :: "bytes \<Rightarrow> resp_value" where
  "arity_error name = RespError (''ERR wrong number of arguments for '' @ [CHR 0x27] @ to_lowercase name @
     [CHR 0x27] @ '' command'')"

definition unknown_error :: "bytes \<Rightarrow> resp_value" where
  "unknown_error name = RespError (''ERR unknown command '' @ [CHR 0x27] @ to_lowercase name @ [CHR 0x27])"

definition dispatch_with :: "(bytes \<times> int \<times> handler) list \<Rightarrow> dispatcher" where
  "dispatch_with table name e s c args =
     (if over_memory_limit s \<and> eviction_policy s = NoEviction \<and> is_deny_oom_command name
      then Some (s, c, oom_error)
      else case map_of table name of
        None \<Rightarrow> Some (s, c, unknown_error name)
      | Some (arity, h) \<Rightarrow>
          (if 0 < arity \<and> int (length args) + 1 \<noteq> arity then Some (s, c, arity_error name)
           else case h e s c args of
             None \<Rightarrow> None
           | Some (s', c', Inr resp) \<Rightarrow> Some (s', c', resp)
           | Some (s', c', Inl err) \<Rightarrow> Some (s', c', RespError (error_text err))))"

primrec dispatch :: "nat \<Rightarrow> dispatcher" where
  "dispatch 0 = (\<lambda>name e s c args. None)"
| "dispatch (Suc n) = dispatch_with (command_table (dispatch n))"

text \<open>Either nothing happens, or the handler of the name runs.\<close>

lemma dispatch_with_cases:
  assumes "dispatch_with table name e s c args = Some (s', c', r)"
  obtains (refused) "s' = s" "c' = c"
    | (handled) arity h res where "map_of table name = Some (arity, h)" "h e s c args = Some (s', c', res)"
  using assms unfolding dispatch_with_def by (auto split: if_splits option.splits sum.splits)

section \<open>The contract of a dispatcher\<close>

text \<open>
  EXEC and EVAL rely on the dispatcher they are given for one thing here: what it does to the store
  is a run of steps of the store.  Then the table built on it keeps the same promise.
\<close>

locale stepping_dispatcher =
  fixes disp :: dispatcher
  assumes disp_steps: "disp name e s c args = Some (s', c', r) \<Longrightarrow> store_steps s s'"
begin

lemma exec_queue_steps: "store_steps s0 s \<Longrightarrow> steps_from s0 (exec_queue disp e s c queue results)"
proof (induction queue arbitrary: s c results)
  case Nil
  then show ?case by (simp add: steps_reply)
next
  case (Cons args queue)
  show ?case
  proof (cases args)
    case (Cons name rest)
    have "steps_from s0 (exec_queue disp e s1 c1 queue rs)"
      if "disp (upper name) e s c rest = Some (s1, c1, r1)" for s1 c1 r1 rs
      using Cons.IH rtranclp_trans [OF Cons.prems disp_steps [OF that]] by blast
    then show ?thesis using Cons by (auto simp: steps_None split: option.splits)
  qed (simp add: steps_None)
qed

lemma run_lua_steps: "run_lua disp e i prog s = Some (s', r) \<Longrightarrow> store_steps s s'"
proof (induction prog arbitrary: s)
  case (LuaCall vs k)
  show ?case
  proof (cases "lua_args e vs")
    case None
    with LuaCall.prems LuaCall.IH [OF rangeI] show ?thesis by simp
  next
    case (Some as)
    show ?thesis
    proof (cases as)
      case Nil
      with Some LuaCall.prems LuaCall.IH [OF rangeI] show ?thesis by simp
    next
      case (Cons name rest)
      with Some LuaCall.prems obtain s1 c1 r1 where
        d: "disp (upper name) e s (client_context_new\<lparr>db_index := i\<rparr>) rest = Some (s1, c1, r1)"
        and k: "run_lua disp e i (k (Inr (resp_to_lua r1))) s1 = Some (s', r)"
        by (auto split: option.splits)
      show ?thesis using disp_steps [OF d] LuaCall.IH [OF rangeI k] by (rule rtranclp_trans)
    qed
  qed
qed simp_all

lemma transaction_handlers_step:
  "steps_handler cmd_multi" "steps_handler (cmd_exec disp)" "steps_handler cmd_discard"
  "steps_handler cmd_watch" "steps_handler cmd_unwatch"
  by (auto simp: cmd_multi_def cmd_exec_def cmd_discard_def cmd_watch_def cmd_unwatch_def Let_def
      exec_queue_steps intro!: steps_handlerI step_intros split: option.splits bool.splits)

lemma eval_handlers_step: "steps_handler (cmd_eval disp)" "steps_handler (cmd_evalsha disp)"
proof -
  have *: "steps_from s (cmd_eval disp e s c args)" for e s c args
    by (auto simp: cmd_eval_def Let_def intro!: step_intros run_lua_steps split: option.splits sum.splits)
  show "steps_handler (cmd_eval disp)" by (intro steps_handlerI *)
  show "steps_handler (cmd_evalsha disp)"
    by (auto simp: cmd_evalsha_def * intro!: steps_handlerI step_intros split: option.splits)
qed

lemma command_table_step: "list_all (\<lambda>(name, arity, h). steps_handler h) (command_table disp)"
  by (simp add: command_table_def string_table_step generic_table_step list_table_step set_table_step
      hash_table_step nested_hash_table_step zset_table_step stream_table_step server_table_step
      pubsub_table_step cluster_table_step transaction_commands_def lua_commands_def
      transaction_handlers_step eval_handlers_step cluster_script_handlers_step)

lemma dispatch_with_steps:
  assumes "dispatch_with (command_table disp) name e s c args = Some (s', c', r)"
  shows "store_steps s s'"
  using assms
proof (cases rule: dispatch_with_cases)
  case (handled arity h res)
  have "steps_from s (h e s c args)"
    using command_table_step map_of_SomeD [OF handled(1)] by (fastforce simp: list_all_iff steps_handler_def)
  then show ?thesis using handled(2) by (rule steps_fromD)
qed simp

end

lemma dispatch_stepping: "stepping_dispatcher (dispatch n)"
proof (induction n)
  case 0
  show ?case by unfold_locales simp
next
  case (Suc n)
  then show ?case
    by unfold_locales (simp add: stepping_dispatcher.dispatch_with_steps)
qed

interpretation nested: stepping_dispatcher "dispatch n" for n
  by (rule dispatch_stepping)

section \<open>The state of a connection\<close>

text \<open>WATCH records a version for every key, so that EXEC finds one for each.\<close>

definition client_wf :: "client_context \<Rightarrow> bool" where
  "client_wf c \<longleftrightarrow> length (watched_keys c) = length (watched_versions c)"

lemma watch_check_returns: "length keys = length vs \<Longrightarrow> watch_check t s i keys vs \<noteq> None"
  by (induction keys vs rule: list_induct2) (auto split: sum.splits)

lemma watch_check_iff:
  "length keys = length vs \<Longrightarrow>
   watch_check t s i keys vs =
     Some (\<forall>(k, v) \<in> set (zip keys vs). get_version t s i k = Inr v)"
  by (induction keys vs rule: list_induct2) (auto split: sum.splits)

section \<open>Which commands return\<close>

definition risky_commands :: "bytes set" where
  "risky_commands = {''SETRANGE'', ''SRANDMEMBER'', ''ZRANGEBYSCORE'', ''EXEC'', ''EVAL'', ''EVALSHA''}"

lemma entry_total_mono: "risky \<subseteq> risky' \<Longrightarrow> entry_total risky x \<Longrightarrow> entry_total risky' x"
  by (auto simp: entry_total_def)

lemma table_total_mono:
  "list_all (entry_total risky) xs \<Longrightarrow> risky \<subseteq> risky' \<Longrightarrow> list_all (entry_total risky') xs"
  by (auto simp: list_all_iff intro: entry_total_mono)

lemma command_table_total: "list_all (entry_total risky_commands) (command_table disp)"
proof -
  note tables = string_table_total generic_table_total list_table_total set_table_total hash_table_total
    nested_hash_table_total zset_table_total stream_table_total server_table_total pubsub_table_total
  have "list_all (entry_total risky_commands) (transaction_commands disp)"
    by (auto simp: transaction_commands_def entry_total_def risky_commands_def cmd_multi_def cmd_discard_def
        cmd_watch_def cmd_unwatch_def intro!: total_fromI return_intros)
  moreover have "list_all (entry_total risky_commands) (lua_commands disp @ cluster_commands)"
    by (simp add: lua_commands_def cluster_commands_def entry_total_def risky_commands_def cluster_script_total)
  ultimately show ?thesis
    by (auto simp: command_table_def risky_commands_def intro!: tables [THEN table_total_mono])
qed

text \<open>
  C6: Commands return.  For every command of the table but six, with at least as many arguments as the
  declared arity asks for, dispatch ends and produces a reply, whatever the store and the connection
  hold.  (The six: SETRANGE with a huge offset, ZRANGEBYSCORE with its bounds reversed, SRANDMEMBER with
  a count, and EXEC, EVAL and EVALSHA, which run further commands.)
\<close>

theorem dispatch_returns:
  assumes "map_of (command_table (dispatch n)) name = Some (arity, h)"
    and "name \<notin> risky_commands" "abs arity \<le> int (length args) + 1"
  shows "\<exists>s' c' r. dispatch (Suc n) name e s c args = Some (s', c', r)"
proof -
  have "entry_total risky_commands (name, arity, h)"
    using command_table_total map_of_SomeD [OF assms(1)] by (auto simp: list_all_iff)
  then have "returns (h e s c args)"
    using assms(2,3) by (simp add: entry_total_def total_from_def le_diff_conv nat_le_iff)
  then obtain s' c' r where "h e s c args = Some (s', c', r)" by (auto simp: returns_def)
  then show ?thesis using assms(1) by (cases r) (simp_all add: dispatch_with_def)
qed

section \<open>What dispatch does to a connection\<close>

definition keeps_client :: "client_context \<Rightarrow> client_context \<Rightarrow> bool" where
  "keeps_client c c' \<longleftrightarrow>
     authenticated c' = authenticated c \<and> protocol c' = protocol c \<and> (client_wf c \<longrightarrow> client_wf c')"

lemma keeps_client_refl: "keeps_client c c"
  by (simp add: keeps_client_def)

lemma keeps_client_trans: "keeps_client a b \<Longrightarrow> keeps_client b c \<Longrightarrow> keeps_client a c"
  by (simp add: keeps_client_def)

lemma keeps_client_session: "session c' = session c \<Longrightarrow> keeps_client c c'"
  by (simp add: session_def keeps_client_def client_wf_def)

definition client_handler :: "handler \<Rightarrow> bool" where
  "client_handler h \<longleftrightarrow> (\<forall>e s c args s' c' r. h e s c args = Some (s', c', r) \<longrightarrow> keeps_client c c')"

lemma session_client_handler: "session_handler h \<Longrightarrow> client_handler h"
  unfolding session_handler_def client_handler_def session_from_def using keeps_client_session by blast

lemma session_client_table:
  "list_all (\<lambda>(name, arity, h). session_handler h) xs \<Longrightarrow> list_all (\<lambda>(name, arity, h). client_handler h) xs"
  by (auto simp: list_all_iff intro: session_client_handler)

locale command_dispatcher = stepping_dispatcher +
  assumes disp_client: "disp name e s c args = Some (s', c', r) \<Longrightarrow> keeps_client c c'"
begin

lemma exec_queue_client:
  "exec_queue disp e s c queue results = Some (s', c', r) \<Longrightarrow> keeps_client c c'"
proof (induction queue arbitrary: s c results)
  case Nil
  then show ?case by (simp add: reply_def keeps_client_refl)
next
  case (Cons args queue)
  then obtain name rest s1 c1 r1 where "args = name # rest"
    and d: "disp (upper name) e s c rest = Some (s1, c1, r1)"
    and q: "exec_queue disp e s1 c1 queue (results @ [r1]) = Some (s', c', r)"
    by (auto split: list.splits option.splits)
  show ?case using disp_client [OF d] Cons.IH [OF q] by (rule keeps_client_trans)
qed

lemma transaction_table_client: "list_all (\<lambda>(name, arity, h). client_handler h) (transaction_commands disp)"
proof -
  let ?reset = "\<lambda>c. c\<lparr>multi_mode := False, multi_queue := [], watched_keys := [], watched_versions := []\<rparr>"
  have reset: "keeps_client c (?reset c)" for c by (simp add: keeps_client_def client_wf_def)
  have "keeps_client c c'" if "cmd_exec disp e s c args = Some (s', c', r)" for e s c args s' c' r
    using that exec_queue_client keeps_client_trans [OF reset]
    by (auto simp: cmd_exec_def Let_def fail_def reply_def keeps_client_refl reset
        split: if_splits option.splits bool.splits)
  then have "client_handler (cmd_exec disp)" by (simp add: client_handler_def)
  moreover have "client_handler cmd_multi" "client_handler cmd_discard" "client_handler cmd_watch"
    "client_handler cmd_unwatch"
    by (auto simp: client_handler_def cmd_multi_def cmd_discard_def cmd_watch_def cmd_unwatch_def reply_def
        keeps_client_def client_wf_def)
  ultimately show ?thesis by (simp add: transaction_commands_def)
qed

lemma eval_session: "session_handler (cmd_eval disp)" "session_handler (cmd_evalsha disp)"
proof -
  have *: "session_from c (cmd_eval disp e s c args)" for e s c args
    by (auto simp: cmd_eval_def Let_def intro!: session_intros split: option.splits sum.splits)
  then show "session_handler (cmd_eval disp)" by (rule session_handlerI)
  show "session_handler (cmd_evalsha disp)"
    by (auto simp: cmd_evalsha_def * intro!: session_handlerI session_intros split: option.splits)
qed

lemma command_table_client: "list_all (\<lambda>(name, arity, h). client_handler h) (command_table disp)"
proof -
  note tables = string_table_session generic_table_session list_table_session set_table_session
    hash_table_session nested_hash_table_session zset_table_session stream_table_session
    server_table_session pubsub_table_session
  have "list_all (\<lambda>(name, arity, h). session_handler h) (lua_commands disp @ cluster_commands)"
    by (simp add: lua_commands_def cluster_commands_def eval_session cluster_script_session)
  note tables [THEN session_client_table] this [THEN session_client_table] transaction_table_client
  then show ?thesis by (simp add: command_table_def)
qed

lemma dispatch_with_client:
  assumes "dispatch_with (command_table disp) name e s c args = Some (s', c', r)"
  shows "keeps_client c c'"
  using assms
proof (cases rule: dispatch_with_cases)
  case (handled arity h res)
  have "client_handler h"
    using command_table_client map_of_SomeD [OF handled(1)] by (auto simp: list_all_iff)
  then show ?thesis using handled(2) unfolding client_handler_def by blast
qed (simp add: keeps_client_refl)

end

lemma dispatch_command: "command_dispatcher (dispatch n)"
proof (induction n)
  case 0
  show ?case by unfold_locales simp
next
  case (Suc n)
  then show ?case
    by unfold_locales (simp add: command_dispatcher.dispatch_with_client)
qed

interpretation commands: command_dispatcher "dispatch n" for n
  by (rule dispatch_command)

section \<open>Depth\<close>

lemmas table_defs = command_table_def server_commands_def string_commands_def generic_commands_def
  list_commands_def set_commands_def hash_commands_def zset_commands_def stream_commands_def
  nested_hash_commands_def pubsub_commands_def transaction_commands_def lua_commands_def cluster_commands_def

lemma lookup_leaf:
  "name \<notin> {''EXEC'', ''EVAL'', ''EVALSHA''} \<Longrightarrow>
   map_of (command_table d) name = map_of (command_table d') name"
  by (simp add: command_table_def map_add_def transaction_commands_def lua_commands_def split: option.splits)

lemma dispatch_leaf:
  "name \<notin> {''EXEC'', ''EVAL'', ''EVALSHA''} \<Longrightarrow> dispatch (Suc n) name e s c args = dispatch (Suc 0) name e s c args"
  by (simp add: dispatch_with_def lookup_leaf [of name "dispatch n" "dispatch 0"])

definition leaf_call :: "bytes list \<Rightarrow> bool" where
  "leaf_call args \<longleftrightarrow> args \<noteq> [] \<longrightarrow> upper (hd args) \<notin> {''EXEC'', ''EVAL'', ''EVALSHA''}"

lemma exec_queue_leaf:
  "list_all leaf_call queue \<Longrightarrow>
   exec_queue (dispatch (Suc n)) e s c queue rs = exec_queue (dispatch (Suc 0)) e s c queue rs"
proof (induction queue arbitrary: s c rs)
  case (Cons args queue)
  then show ?case
    by (cases args) (auto simp: leaf_call_def dispatch_leaf [of _ n] simp del: dispatch.simps split: option.splits)
qed simp

lemma lookup_exec: "map_of (command_table d) ''EXEC'' = Some (1, cmd_exec d)"
  by (simp add: table_defs)

lemma dispatch_depth:
  assumes "name \<notin> {''EVAL'', ''EVALSHA''}" "name = ''EXEC'' \<longrightarrow> list_all leaf_call (multi_queue c)"
  shows "dispatch (Suc (Suc n)) name e s c args = dispatch 2 name e s c args"
proof (cases "name = ''EXEC''")
  case True
  with assms(2) have "exec_queue (dispatch (Suc n)) e s c1 (multi_queue c) [] =
      exec_queue (dispatch (Suc 0)) e s c1 (multi_queue c) []" for c1
    by (intro exec_queue_leaf) simp
  then have "cmd_exec (dispatch (Suc n)) e s c args = cmd_exec (dispatch (Suc 0)) e s c args"
    by (simp only: cmd_exec_def Let_def)
  then show ?thesis
    by (simp only: dispatch.simps dispatch_with_def numeral_2_eq_2 True lookup_exec option.case prod.case)
next
  case False
  with assms(1) show ?thesis using dispatch_leaf [of name] by (metis insert_iff numeral_2_eq_2 singletonD)
qed

section \<open>Invariants of dispatch\<close>

text \<open>
  C7: Every command keeps the state well formed.  Whatever its arguments, a command that ends leaves
  every container of the store with distinct keys and the number of databases as it was; it keeps one
  recorded version for each watched key, and neither authenticates the connection nor changes its
  protocol.  Scripts and transactions, which dispatch further commands, are included.
\<close>

theorem dispatch_invariant:
  assumes "store_wf s" "client_wf c" "dispatch n name e s c args = Some (s', c', r)"
  shows "store_wf s' \<and> length (databases s') = length (databases s) \<and> client_wf c' \<and>
    authenticated c' = authenticated c \<and> protocol c' = protocol c"
  using store_steps_inv [OF nested.disp_steps [OF assms(3)] assms(1)] commands.disp_client [OF assms(3)] assms(2)
  by (simp_all add: keeps_client_def)

text \<open>
  The memory limit.  While the estimate is above the limit and the policy is not to evict, a
  command that can grow memory is refused and changes nothing; a command that cannot is dispatched
  as it is without a limit.
\<close>

theorem oom_gate:
  assumes "over_memory_limit s" "eviction_policy s = NoEviction"
  shows "(is_deny_oom_command name \<longrightarrow> dispatch (Suc n) name e s c args = Some (s, c, oom_error)) \<and>
    (\<not> is_deny_oom_command name \<and> map_of (command_table (dispatch n)) name = Some (arity, h) \<and>
         (arity \<le> 0 \<or> int (length args) + 1 = arity) \<and> h e s c args = Some (s', c', Inr r) \<longrightarrow>
         dispatch (Suc n) name e s c args = Some (s', c', r))"
  using assms by (auto simp: dispatch_with_def)

section \<open>Witnesses\<close>

theorem dispatch_returns_witness:
  "\<exists>s' c' r. dispatch (Suc 0) ''LPUSH'' env0 (store_new 1) client_context_new [''k'', ''v''] = Some (s', c', r)"
  by (rule dispatch_returns [where arity = "- 3" and h = cmd_lpush])
     (simp_all add: table_defs risky_commands_def)

theorem dispatch_invariant_witness:
  "\<exists>s' c' r. dispatch (Suc 0) ''RPUSH'' env0 (store_new 1) client_context_new [''k'', ''v''] = Some (s', c', r) \<and>
     store_wf s' \<and> client_wf c'"
proof -
  have "\<exists>s' c' r. dispatch (Suc 0) ''RPUSH'' env0 (store_new 1) client_context_new [''k'', ''v''] = Some (s', c', r)"
    by (simp add: dispatch_with_def table_defs cmd_rpush_def try_mut_def reply_def fail_def split: prod.splits sum.splits)
  then obtain s' c' r where
    d: "dispatch (Suc 0) ''RPUSH'' env0 (store_new 1) client_context_new [''k'', ''v''] = Some (s', c', r)" by blast
  have "client_wf client_context_new" by (simp add: client_wf_def client_context_new_def)
  with dispatch_invariant [OF store_wf_new _ d] d show ?thesis by blast
qed

definition full_store :: store where
  "full_store = (store_new 1)\<lparr>maxmemory := 10, cached_memory_usage := 20\<rparr>"

theorem oom_gate_witness:
  "dispatch (Suc 0) ''SET'' env0 full_store client_context_new [''k'', ''v''] =
     Some (full_store, client_context_new, oom_error) \<and>
   dispatch (Suc 0) ''PING'' env0 full_store client_context_new [] =
     Some (full_store, client_context_new, resp_pong)"
proof -
  have full: "over_memory_limit full_store" "eviction_policy full_store = NoEviction"
    by (simp_all add: full_store_def over_memory_limit_def store_new_def)
  have "is_deny_oom_command ''SET''" "\<not> is_deny_oom_command ''PING''" by (simp_all add: is_deny_oom_command_def)
  moreover have "map_of (command_table (dispatch 0)) ''PING'' = Some (- 1, cmd_ping)" by (simp add: table_defs)
  moreover have "cmd_ping env0 full_store client_context_new [] = Some (full_store, client_context_new, Inr resp_pong)"
    by (simp add: cmd_ping_def reply_def)
  ultimately show ?thesis
    using oom_gate [OF full, of "''SET''" 0 env0 client_context_new "[''k'', ''v'']"]
      oom_gate [OF full, of "''PING''" 0 env0 client_context_new "[]" "- 1" cmd_ping] by simp
qed

section \<open>Arguments that are missing\<close>

text \<open>
  A negative arity is not checked.  Arities below zero stand for a least number of arguments, but
  dispatch compares the number of arguments only with positive ones, so that each of these commands,
  sent without arguments, reaches its handler and panics there, which ends the connection.
\<close>

theorem short_commands_panic:
  assumes "\<not> over_memory_limit s"
    and "name \<in> {''SET'', ''LPUSH'', ''RPUSH'', ''LPOP'', ''RPOP'', ''BLPOP'', ''BRPOP'', ''SADD'', ''SREM'', ''SPOP'',
      ''SRANDMEMBER'', ''HSET'', ''HDEL'', ''ZADD'', ''ZREM'', ''ZRANGE'', ''ZRANGEBYSCORE'', ''XRANGE'', ''XDEL'',
      ''XACK'', ''XPENDING'', ''XCLAIM'', ''NHDEL'', ''NHKEYS'', ''NHVALS'', ''NHGETALL'', ''SCAN'', ''HSCAN'',
      ''SSCAN'', ''ZSCAN''}"
  shows "dispatch (Suc n) name e s c [] = None"
  using assms(2)
  by (elim insertE emptyE)
     (simp_all add: dispatch_with_def assms(1) table_defs arg_def args_from_def bpop_def
       cmd_set_def cmd_lpush_def cmd_rpush_def cmd_lpop_def cmd_rpop_def cmd_blpop_def cmd_brpop_def
       cmd_sadd_def cmd_srem_def cmd_spop_def cmd_srandmember_def cmd_hset_def cmd_hdel_def cmd_zadd_def
       cmd_zrem_def cmd_zrange_def cmd_zrangebyscore_def cmd_xrange_def cmd_xdel_def cmd_xack_def
       cmd_xpending_def cmd_xclaim_def cmd_nhdel_def cmd_nhkeys_def cmd_nhvals_def cmd_nhgetall_def
       cmd_scan_def cmd_hscan_def cmd_sscan_def cmd_zscan_def)

theorem short_commands_panic_witness:
  "dispatch (Suc 0) ''SET'' env0 (store_new 1) client_context_new [] = None"
  by (rule short_commands_panic) (simp_all add: over_memory_limit_def store_new_def)

text \<open>
  XTRIM cannot succeed.  The table admits XTRIM with exactly three arguments and the handler asks
  for at least four, so every call is an error and no stream is ever trimmed by it.
\<close>

theorem xtrim_always_fails:
  "dispatch (Suc n) ''XTRIM'' e s c args =
     Some (s, c, if length args = 3 then RespError ''ERR syntax error'' else arity_error ''XTRIM'')"
  by (simp add: dispatch_with_def is_deny_oom_command_def table_defs cmd_xtrim_def fail_def)

section \<open>Transactions\<close>

text \<open>The queued commands one after the other, each on the state the previous one left.\<close>

inductive queue_run ::
  "dispatcher \<Rightarrow> env \<Rightarrow> store \<Rightarrow> client_context \<Rightarrow> bytes list list \<Rightarrow> resp_value list \<Rightarrow> store \<Rightarrow> client_context \<Rightarrow> bool"
  for disp e where
  run_none: "queue_run disp e s c [] [] s c"
| run_next: "disp (upper name) e s c rest = Some (s1, c1, r) \<Longrightarrow> queue_run disp e s1 c1 queue rs s2 c2 \<Longrightarrow>
    queue_run disp e s c ((name # rest) # queue) (r # rs) s2 c2"

inductive_simps queue_run_Nil [simp]: "queue_run disp e s c [] rs s' c'"
inductive_simps queue_run_Cons [simp]: "queue_run disp e s c (args # queue) rs s' c'"

lemma exec_queue_run:
  "exec_queue disp e s c queue acc = Some (s', c', res) \<longleftrightarrow>
     (\<exists>rs. res = Inr (RArray (Some (acc @ rs))) \<and> queue_run disp e s c queue rs s' c')"
proof (induction queue arbitrary: s c acc)
  case Nil
  show ?case by (auto simp: reply_def)
next
  case (Cons args queue)
  show ?case
  proof (cases args)
    case (Cons name rest)
    show ?thesis
    proof (cases "disp (upper name) e s c rest")
      case (Some x)
      obtain s1 c1 r1 where "x = (s1, c1, r1)" by (cases x)
      with Some Cons Cons.IH [of s1 c1 "acc @ [r1]"] show ?thesis by auto
    qed (simp add: Cons)
  qed simp
qed

definition end_transaction :: "client_context \<Rightarrow> client_context" where
  "end_transaction c = c\<lparr>multi_mode := False, multi_queue := [], watched_keys := [], watched_versions := []\<rparr>"

definition watches_hold :: "u64 \<Rightarrow> store \<Rightarrow> client_context \<Rightarrow> bool" where
  "watches_hold t s c \<longleftrightarrow>
     (\<forall>(k, v) \<in> set (zip (watched_keys c) (watched_versions c)). get_version t s (db_index c) k = Inr v)"

lemma dispatch_exec:
  assumes "multi_mode c" "client_wf c"
  shows "dispatch (Suc n) ''EXEC'' e s c [] =
     (if watches_hold (now e) s c
      then map_option (\<lambda>(s', c', r). (s', c', case r of Inr v \<Rightarrow> v | Inl err \<Rightarrow> RespError (error_text err)))
             (exec_queue (dispatch n) e s (end_transaction c) (multi_queue c) [])
      else Some (s, end_transaction c, RArray None))"
proof -
  have w: "watch_check (now e) s (db_index c) (watched_keys c) (watched_versions c) =
      Some (watches_hold (now e) s c)"
    unfolding watches_hold_def using assms(2) by (intro watch_check_iff) (simp add: client_wf_def)
  show ?thesis
    using assms(1)
    by (auto simp: dispatch_with_def lookup_exec is_deny_oom_command_def cmd_exec_def Let_def w reply_def
        end_transaction_def [symmetric] split: option.splits sum.splits)
qed

text \<open>
  C8: EXEC.  With every watched key at its recorded version, EXEC answers exactly when the queued
  commands run one after the other, each on the state the previous one left and from a context whose
  transaction is over, and it answers with their replies in order.  With any watched version changed it
  runs nothing and answers with the null array.
\<close>

theorem exec_semantics:
  assumes "multi_mode c" "client_wf c"
  shows "(watches_hold (now e) s c \<longrightarrow>
     (dispatch (Suc n) ''EXEC'' e s c [] = Some (s', c', r) \<longleftrightarrow>
       (\<exists>rs. r = RArray (Some rs) \<and> queue_run (dispatch n) e s (end_transaction c) (multi_queue c) rs s' c'))) \<and>
    (\<not> watches_hold (now e) s c \<longrightarrow>
     dispatch (Suc n) ''EXEC'' e s c [] = Some (s, end_transaction c, RArray None))"
proof (intro conjI impI)
  show "\<not> watches_hold (now e) s c \<Longrightarrow>
     dispatch (Suc n) ''EXEC'' e s c [] = Some (s, end_transaction c, RArray None)"
    by (simp add: dispatch_exec [OF assms] del: dispatch.simps)
  assume "watches_hold (now e) s c"
  then show "dispatch (Suc n) ''EXEC'' e s c [] = Some (s', c', r) \<longleftrightarrow>
       (\<exists>rs. r = RArray (Some rs) \<and> queue_run (dispatch n) e s (end_transaction c) (multi_queue c) rs s' c')"
    by (auto simp: dispatch_exec [OF assms] exec_queue_run simp del: dispatch.simps)
qed

definition queued_ping :: client_context where
  "queued_ping = client_context_new\<lparr>multi_mode := True, multi_queue := [[''ping'']],
     watched_keys := [''k''], watched_versions := [0]\<rparr>"

theorem exec_semantics_witness:
  "dispatch 2 ''EXEC'' env0 (store_new 1) queued_ping [] =
     Some (store_new 1, end_transaction queued_ping, RArray (Some [resp_pong])) \<and>
   dispatch 2 ''EXEC'' env0 (fst (store_set (store_new 1) 0 ''k'' ''v'' None)) queued_ping [] =
     Some (fst (store_set (store_new 1) 0 ''k'' ''v'' None), end_transaction queued_ping, RArray None)"
proof -
  have wf: "multi_mode queued_ping" "client_wf queued_ping"
    by (simp_all add: queued_ping_def client_wf_def)
  have hold: "watches_hold (now env0) (store_new 1) queued_ping" by code_simp
  have broken: "\<not> watches_hold (now env0) (fst (store_set (store_new 1) 0 ''k'' ''v'' None)) queued_ping"
    by code_simp
  have up: "upper ''ping'' = ''PING''" by code_simp
  have "dispatch (Suc 0) ''PING'' env0 s c [] = Some (s, c, resp_pong)" for s c
    by (simp add: dispatch_with_def is_deny_oom_command_def table_defs cmd_ping_def reply_def)
  then have "queue_run (dispatch (Suc 0)) env0 (store_new 1) (end_transaction queued_ping)
      (multi_queue queued_ping) [resp_pong] (store_new 1) (end_transaction queued_ping)"
    by (simp add: queued_ping_def up del: dispatch.simps)
  then show ?thesis
    using exec_semantics [OF wf, THEN conjunct1, THEN mp, OF hold, of "Suc 0"]
      exec_semantics [OF wf, THEN conjunct2, THEN mp, OF broken, of "Suc 0"]
    by (simp add: numeral_2_eq_2 del: dispatch.simps)
qed

text \<open>
  What WATCH notices.  A client that watches a live key and then runs EXEC is stopped by a SET of
  the key in between; a push onto the list under the key is not noticed, because only SET (and the
  restoring of an entry) counts the version up.
\<close>

theorem watch_misses_push:
  assumes "valid_db s (db_index c)" "live (now e) s (db_index c) k = Some ent"
    and "multi_mode c" "watched_keys c = [k]" "watched_versions c = [ent_version ent]"
  shows "dispatch (Suc n) ''EXEC'' e (fst (store_set s (db_index c) k v None)) c [] =
           Some (fst (store_set s (db_index c) k v None), end_transaction c, RArray None) \<and>
    (ent_value ent = ListV l \<longrightarrow>
         dispatch (Suc n) ''EXEC'' e (fst (store_rpush s (db_index c) k vals)) c [] \<noteq>
           Some (s', c', RArray None))"
proof (intro conjI impI)
  have wf: "client_wf c" using assms by (simp add: client_wf_def)
  have "get_version (now e) (fst (store_set s (db_index c) k v None)) (db_index c) k = Inr (ent_version ent + 1)"
    using assms(1,2)
    by (simp add: get_version_def entry_live live_def store_set_def db_valid hm_get_raw entry_or_insert_def
        lookup_simps Let_def expired_def split: option.splits if_splits)
  then have "\<not> watches_hold (now e) (fst (store_set s (db_index c) k v None)) c"
    using assms(4,5) by (simp add: watches_hold_def)
  then show "dispatch (Suc n) ''EXEC'' e (fst (store_set s (db_index c) k v None)) c [] =
           Some (fst (store_set s (db_index c) k v None), end_transaction c, RArray None)"
    by (simp add: dispatch_exec [OF assms(3) wf] del: dispatch.simps)
  assume "ent_value ent = ListV l"
  then have "get_version (now e) (fst (store_rpush s (db_index c) k vals)) (db_index c) k = Inr (ent_version ent)"
    using assms(1,2)
    by (simp add: get_version_def entry_live live_def store_rpush_def db_valid hm_get_raw entry_or_insert_def
        lookup_simps Let_def expired_def split: option.splits if_splits)
  then have "watches_hold (now e) (fst (store_rpush s (db_index c) k vals)) c"
    using assms(4,5) by (simp add: watches_hold_def)
  then show "dispatch (Suc n) ''EXEC'' e (fst (store_rpush s (db_index c) k vals)) c [] \<noteq> Some (s', c', RArray None)"
    by (auto simp: dispatch_exec [OF assms(3) wf] exec_queue_run simp del: dispatch.simps)
qed

definition list_store :: store where
  "list_store = fst (store_rpush (store_new 1) 0 ''k'' [''a''])"

theorem watch_misses_push_witness:
  "dispatch 2 ''EXEC'' env0 (fst (store_set list_store 0 ''k'' ''v'' None)) queued_ping [] =
     Some (fst (store_set list_store 0 ''k'' ''v'' None), end_transaction queued_ping, RArray None) \<and>
   dispatch 2 ''EXEC'' env0 (fst (store_rpush list_store 0 ''k'' [''b''])) queued_ping [] \<noteq>
     Some (list_store, queued_ping, RArray None)"
proof -
  have c: "db_index queued_ping = 0" "multi_mode queued_ping" "watched_keys queued_ping = [''k'']"
    "watched_versions queued_ping = [0]"
    by (simp_all add: queued_ping_def client_context_new_def)
  have s: "valid_db list_store 0" "live (now env0) list_store 0 ''k'' = Some (new_entry (ListV [''a'']))"
    by code_simp+
  have w: "watched_versions queued_ping = [ent_version (new_entry (ListV [''a'']))]"
    by (simp add: c new_entry_def)
  show ?thesis
    using watch_misses_push [of list_store queued_ping env0 "''k''" "new_entry (ListV [''a''])" "Suc 0" "''v''" "[''a'']"
        "[''b'']" list_store queued_ping] c s w
    by (simp add: numeral_2_eq_2 new_entry_def del: dispatch.simps)
qed

end
