(* ===== verification/Rdb.thy ===== *)
theory Rdb
  imports StoreZSet "HOL-Library.Multiset"
begin

text \<open>
  \<open>persist/rdb.rs\<close>: the snapshot file.  A reader of the source takes the data and a position it moves
  forward; here it takes the rest of the data and returns what it leaves, and \<open>None\<close> is the panic of
  a slice beyond the end.  The files are byte lists; reading and writing them is left out.

  The locale \<open>codec\<close> is the contract of a pair of writer and reader; the pairs of the file are
  instances of it, and the round trip of a value is the round trip of its parts.
\<close>

section \<open>Bytes of numbers\<close>

fun le_bytes :: "nat \<Rightarrow> nat \<Rightarrow> bytes" where
  "le_bytes 0 n = []"
| "le_bytes (Suc k) n = char_of (n mod 256) # le_bytes k (n div 256)"

fun le_value :: "bytes \<Rightarrow> nat" where
  "le_value [] = 0"
| "le_value (c # cs) = of_char c + 256 * le_value cs"

definition write_u32_be :: "u32 \<Rightarrow> bytes" where
  "write_u32_be v = rev (le_bytes 4 (unat v))"

definition write_u64_le :: "u64 \<Rightarrow> bytes" where
  "write_u64_le v = le_bytes 8 (unat v)"

definition write_f64_le :: "f64 \<Rightarrow> bytes" where
  "write_f64_le v = le_bytes 8 (unat v)"

definition write_len :: "nat \<Rightarrow> bytes" where
  "write_len n = write_u32_be (of_nat n)"

definition write_bytes_len :: "bytes \<Rightarrow> bytes" where
  "write_bytes_len data = write_len (length data) @ data"

type_synonym 'a reader = "bytes \<Rightarrow> ('a \<times> bytes) option"

definition read_slice :: "nat \<Rightarrow> bytes reader" where
  "read_slice n data = (if n \<le> length data then Some (take n data, drop n data) else None)"

definition map_read :: "('a \<Rightarrow> 'b) \<Rightarrow> 'a reader \<Rightarrow> 'b reader" where
  "map_read f rd data = map_option (\<lambda>(x, rest). (f x, rest)) (rd data)"

definition then_read :: "'a reader \<Rightarrow> ('a \<Rightarrow> 'b reader) \<Rightarrow> 'b reader" where
  "then_read rd f data = (case rd data of None \<Rightarrow> None | Some (x, rest) \<Rightarrow> f x rest)"

definition read_u32_be :: "u32 reader" where
  "read_u32_be = map_read (\<lambda>bs. of_nat (le_value (rev bs))) (read_slice 4)"

definition read_u64_le :: "u64 reader" where
  "read_u64_le = map_read (\<lambda>bs. of_nat (le_value bs)) (read_slice 8)"

definition read_f64_le :: "f64 reader" where
  "read_f64_le = map_read (\<lambda>bs. of_nat (le_value bs)) (read_slice 8)"

definition read_len :: "nat reader" where
  "read_len = map_read unat read_u32_be"

definition read_bytes_len :: "bytes reader" where
  "read_bytes_len = then_read read_len read_slice"

text \<open>The loop \<open>for _ in 0..len { read an item; put it into the collection }\<close>.\<close>

fun read_each :: "nat \<Rightarrow> 'a reader \<Rightarrow> ('a \<Rightarrow> 's \<Rightarrow> 's) \<Rightarrow> 's \<Rightarrow> 's reader" where
  "read_each 0 rd add acc data = Some (acc, data)"
| "read_each (Suc n) rd add acc data =
     (case rd data of None \<Rightarrow> None | Some (x, rest) \<Rightarrow> read_each n rd add (add x acc) rest)"

definition read_pair :: "'a reader \<Rightarrow> 'b reader \<Rightarrow> ('a \<times> 'b) reader" where
  "read_pair ra rb = then_read ra (\<lambda>a. map_read (\<lambda>b. (a, b)) rb)"

definition crc64 :: "bytes \<Rightarrow> u64" where
  "crc64 data = foldl (\<lambda>crc b. crc * 0x1000000000000001 + of_nat (of_char b)) 0 data"

section \<open>Writing\<close>

definition TYPE_STRING :: char where "TYPE_STRING = CHR 0x00"
definition TYPE_LIST :: char where "TYPE_LIST = CHR 0x01"
definition TYPE_SET :: char where "TYPE_SET = CHR 0x02"
definition TYPE_HASH :: char where "TYPE_HASH = CHR 0x03"
definition TYPE_ZSET :: char where "TYPE_ZSET = CHR 0x04"
definition TYPE_STREAM :: char where "TYPE_STREAM = CHR 0x05"
definition TYPE_NH :: char where "TYPE_NH = CHR 0x06"
definition DB_SELECT :: char where "DB_SELECT = CHR 0xFE"
definition EXPIRETIME :: char where "EXPIRETIME = CHR 0xFD"
definition DB_END :: char where "DB_END = CHR 0xFF"

lemmas rdb_opcodes = TYPE_STRING_def TYPE_LIST_def TYPE_SET_def TYPE_HASH_def TYPE_ZSET_def
  TYPE_STREAM_def TYPE_NH_def DB_SELECT_def EXPIRETIME_def DB_END_def

text \<open>
  \<open>sort_by\<close> is stable.  On an order every stable sort gives the same list; where a score is a NaN the
  comparison is none and the library leaves the order open.
\<close>

fun insert_by :: "('a \<Rightarrow> 'a \<Rightarrow> ordering) \<Rightarrow> 'a \<Rightarrow> 'a list \<Rightarrow> 'a list" where
  "insert_by cmp x [] = [x]"
| "insert_by cmp x (y # ys) = (if cmp x y = Greater then y # insert_by cmp x ys else x # y # ys)"

definition sort_by :: "('a \<Rightarrow> 'a \<Rightarrow> ordering) \<Rightarrow> 'a list \<Rightarrow> 'a list" where
  "sort_by cmp xs = foldr (insert_by cmp) xs []"

definition write_pair :: "bytes \<times> bytes \<Rightarrow> bytes" where
  "write_pair p = write_bytes_len (fst p) @ write_bytes_len (snd p)"

definition write_scored :: "bytes \<times> f64 \<Rightarrow> bytes" where
  "write_scored p = write_f64_le (snd p) @ write_bytes_len (fst p)"

definition write_stream_entry :: "stream_entry \<Rightarrow> bytes" where
  "write_stream_entry e =
     write_u64_le (id_ms e) @ write_u64_le (id_seq e) @ write_len (length (se_fields e)) @
     concat (map write_pair (se_fields e))"

definition write_inner :: "bytes \<times> (bytes, bytes) hmap \<Rightarrow> bytes" where
  "write_inner p =
     write_bytes_len (fst p) @ write_len (length (snd p)) @ concat (map write_pair (snd p))"

fun encode_entry :: "bytes \<Rightarrow> storage_value \<Rightarrow> bytes" where
  "encode_entry key (StringV val) = TYPE_STRING # write_bytes_len key @ write_bytes_len val"
| "encode_entry key (ListV l) =
     TYPE_LIST # write_bytes_len key @ write_len (length l) @ concat (map write_bytes_len l)"
| "encode_entry key (SetV st) =
     TYPE_SET # write_bytes_len key @ write_len (length st) @ concat (map write_bytes_len st)"
| "encode_entry key (HashV m) =
     TYPE_HASH # write_bytes_len key @ write_len (length m) @ concat (map write_pair m)"
| "encode_entry key (ZSetV members scores) =
     TYPE_ZSET # write_bytes_len key @ write_len (length members) @
     concat (map write_scored (sort_by (\<lambda>p q. ordered_f64_cmp (snd p) (snd q)) members))"
| "encode_entry key (StreamV es last_ms last_seq) =
     TYPE_STREAM # write_bytes_len key @ write_len (length es) @
     write_u64_le last_ms @ write_u64_le last_seq @ concat (map write_stream_entry es)"
| "encode_entry key (NestedHashV m) =
     TYPE_NH # write_bytes_len key @ write_len (length m) @ concat (map write_inner m)"

definition encode_record :: "bytes \<times> entry \<Rightarrow> bytes" where
  "encode_record p =
     (case ent_expire_at (snd p) of None \<Rightarrow> [] | Some at \<Rightarrow> EXPIRETIME # write_u64_le at) @
     encode_entry (fst p) (ent_value (snd p))"

text \<open>The body of the loop over the databases; the clock is read once for each.\<close>

definition encode_db :: "(nat \<Rightarrow> u64) \<Rightarrow> store \<Rightarrow> nat \<Rightarrow> bytes res" where
  "encode_db clock s db_idx =
     map_res (\<lambda>es. DB_SELECT # char_of (db_idx mod 256) # concat (map encode_record es) @ [DB_END])
       (iterate_db (clock db_idx) s db_idx)"

fun encode_dbs :: "(nat \<Rightarrow> u64) \<Rightarrow> store \<Rightarrow> nat list \<Rightarrow> bytes res" where
  "encode_dbs clock s [] = Inr []"
| "encode_dbs clock s (i # is) =
     bind_res (encode_db clock s i) (\<lambda>b. map_res (\<lambda>bs. b @ bs) (encode_dbs clock s is))"

definition rdb_header :: bytes where
  "rdb_header = ''VELO'' @ [CHR 0x00, CHR 0x01, CHR 0x00, CHR 0x00]"

text \<open>The contents of the file \<open>save_rdb\<close> writes.\<close>

definition save_rdb :: "(nat \<Rightarrow> u64) \<Rightarrow> store \<Rightarrow> nat \<Rightarrow> bytes res" where
  "save_rdb clock s num_dbs =
     map_res (\<lambda>body. rdb_header @ write_u64_le (crc64 body) @ body) (encode_dbs clock s [0..<num_dbs])"

section \<open>Reading\<close>

datatype rdb_error =
    RdbTooShort
  | InvalidMagic
  | CrcMismatch
  | UnknownOpcode char
  | UnknownTypeByte char
  | StoreFailed velodb_error

definition read_stream_entry :: "stream_entry reader" where
  "read_stream_entry =
     then_read read_u64_le (\<lambda>ms. then_read read_u64_le (\<lambda>sq. then_read read_len (\<lambda>f_len.
       map_read (\<lambda>fs. \<lparr>id_ms = ms, id_seq = sq, se_fields = fs\<rparr>)
         (read_each f_len (read_pair read_bytes_len read_bytes_len) (\<lambda>p fs. fs @ [p]) []))))"

definition read_hash :: "nat \<Rightarrow> (bytes, bytes) hmap reader" where
  "read_hash len =
     read_each len (read_pair read_bytes_len read_bytes_len) (\<lambda>(f, v) m. hm_insert f v m) []"

definition read_inner :: "(bytes \<times> (bytes, bytes) hmap) reader" where
  "read_inner = then_read read_bytes_len (\<lambda>f. map_read (\<lambda>m. (f, m)) (then_read read_len read_hash))"

text \<open>The value after the key; an unknown type byte is an error.\<close>

definition decode_value :: "char \<Rightarrow> (rdb_error + storage_value) reader" where
  "decode_value ty =
     (if ty = TYPE_STRING then map_read (\<lambda>v. Inr (StringV v)) read_bytes_len
      else if ty = TYPE_LIST then
        then_read read_len (\<lambda>len. map_read (\<lambda>l. Inr (ListV l))
          (read_each len read_bytes_len (\<lambda>x l. l @ [x]) []))
      else if ty = TYPE_SET then
        then_read read_len (\<lambda>len. map_read (\<lambda>st. Inr (SetV st)) (read_each len read_bytes_len hs_insert []))
      else if ty = TYPE_HASH then
        then_read read_len (\<lambda>len. map_read (\<lambda>m. Inr (HashV m)) (read_hash len))
      else if ty = TYPE_ZSET then
        then_read read_len (\<lambda>len. map_read (\<lambda>(m, sc). Inr (ZSetV m sc))
          (read_each len (read_pair read_f64_le read_bytes_len)
             (\<lambda>(score, member) (m, sc). (hm_insert member score m, scores_add score member sc)) ([], [])))
      else if ty = TYPE_STREAM then
        then_read read_len (\<lambda>len. then_read read_u64_le (\<lambda>last_ms. then_read read_u64_le (\<lambda>last_seq.
          map_read (\<lambda>es. Inr (StreamV es last_ms last_seq))
            (read_each len read_stream_entry (\<lambda>e es. es @ [e]) []))))
      else if ty = TYPE_NH then
        then_read read_len (\<lambda>len. map_read (\<lambda>m. Inr (NestedHashV m))
          (read_each len read_inner (\<lambda>(f, inner) m. hm_insert f inner m) []))
      else (\<lambda>data. Some (Inl (UnknownTypeByte ty), data)))"

fun decode_entry :: "(rdb_error + bytes \<times> storage_value) reader" where
  "decode_entry [] = Some (Inr ([], StringV []), [])"
| "decode_entry (ty # data) =
     then_read read_bytes_len (\<lambda>key. map_read (map_res (\<lambda>v. (key, v))) (decode_value ty)) data"

text \<open>What the loop does with an entry: an entry with an empty key is dropped.\<close>

definition load_entry :: "store \<Rightarrow> nat \<Rightarrow> nat \<Rightarrow> bytes \<Rightarrow> storage_value \<Rightarrow> u64 option \<Rightarrow> store \<times> (rdb_error + nat)" where
  "load_entry s current_db n key v expire =
     (if key = [] then (s, Inr n)
      else (case set_with_entry s current_db key v expire of
              (s', Inl err) \<Rightarrow> (s', Inl (StoreFailed err))
            | (s', Inr _) \<Rightarrow> (s', Inr (n + 1))))"

text \<open>A reader never gives back more than it got, which is why the loop over the file ends.\<close>

definition shrinks :: "'a reader \<Rightarrow> bool" where
  "shrinks rd \<longleftrightarrow> (\<forall>data x rest. rd data = Some (x, rest) \<longrightarrow> length rest \<le> length data)"

named_theorems shrink_intros \<open>readers that never give back more than they got\<close>

lemma shrinksD: "shrinks rd \<Longrightarrow> rd data = Some (x, rest) \<Longrightarrow> length rest \<le> length data"
  by (auto simp: shrinks_def)

lemma shrinks_slice [shrink_intros]: "shrinks (read_slice n)"
  by (auto simp: shrinks_def read_slice_def split: if_splits)

lemma shrinks_map [shrink_intros]: "shrinks rd \<Longrightarrow> shrinks (map_read f rd)"
  by (auto simp: shrinks_def map_read_def)

lemma shrinks_then [shrink_intros]: "shrinks rd \<Longrightarrow> (\<And>x. shrinks (f x)) \<Longrightarrow> shrinks (then_read rd f)"
  by (fastforce simp: shrinks_def then_read_def split: option.splits)

lemma shrinks_each [shrink_intros]: "shrinks rd \<Longrightarrow> shrinks (read_each n rd add acc)"
proof (induction n arbitrary: acc)
  case (Suc n)
  then show ?case by (fastforce simp: shrinks_def split: option.splits)
qed (simp add: shrinks_def)

lemma shrinks_numbers [shrink_intros]:
  "shrinks read_u64_le" "shrinks read_f64_le" "shrinks read_len" "shrinks read_bytes_len"
  unfolding read_u64_le_def read_f64_le_def read_len_def read_u32_be_def read_bytes_len_def
  by (intro shrink_intros)+

lemma shrinks_compound [shrink_intros]:
  "shrinks (read_pair read_bytes_len read_bytes_len)" "shrinks (read_pair read_f64_le read_bytes_len)"
  "shrinks (read_hash n)" "shrinks read_inner" "shrinks read_stream_entry"
  unfolding read_pair_def read_hash_def read_inner_def read_stream_entry_def
  by (intro shrink_intros)+

lemma shrinks_decode_value [shrink_intros]: "shrinks (decode_value ty)"
  unfolding decode_value_def by (auto intro!: shrink_intros) (simp add: shrinks_def)

lemma decode_entry_shorter: "decode_entry (ty # data) = Some (x, rest) \<Longrightarrow> length rest < length (ty # data)"
proof -
  have "shrinks (then_read read_bytes_len (\<lambda>key. map_read (map_res (\<lambda>v. (key, v))) (decode_value ty)))"
    by (intro shrink_intros)
  moreover assume "decode_entry (ty # data) = Some (x, rest)"
  ultimately show ?thesis by (auto dest: shrinksD)
qed

lemma shrinks_decode_entry [shrink_intros]: "shrinks decode_entry"
  unfolding shrinks_def
proof (intro allI impI)
  fix data x rest assume "decode_entry data = Some (x, rest)"
  then show "length rest \<le> length data" by (cases data) (auto dest: decode_entry_shorter simp del: decode_entry.simps(2))
qed

definition read_expiring :: "(u64 \<times> (rdb_error + bytes \<times> storage_value)) reader" where
  "read_expiring = then_read read_u64_le (\<lambda>at. map_read (Pair at) decode_entry)"

lemma read_expiring_shorter: "read_expiring data = Some (x, rest) \<Longrightarrow> length rest \<le> length data"
proof -
  have "shrinks read_expiring" unfolding read_expiring_def by (intro shrink_intros)
  then show "read_expiring data = Some (x, rest) \<Longrightarrow> ?thesis" by (rule shrinksD)
qed

function load_loop :: "bytes \<Rightarrow> store \<Rightarrow> nat \<Rightarrow> nat \<Rightarrow> (store \<times> (rdb_error + nat)) option" where
  "load_loop [] s current_db n = Some (s, Inr n)"
| "load_loop (opcode # data) s current_db n =
     (if opcode = DB_SELECT then
        (case data of [] \<Rightarrow> None | d # rest \<Rightarrow> load_loop rest s (of_char d) n)
      else if opcode = DB_END then load_loop data s current_db n
      else if opcode = EXPIRETIME then
        (case read_expiring data of
           None \<Rightarrow> None
         | Some ((at, Inl err), rest) \<Rightarrow> Some (s, Inl err)
         | Some ((at, Inr (key, v)), rest) \<Rightarrow>
             (case load_entry s current_db n key v (Some at) of
                (s', Inl err) \<Rightarrow> Some (s', Inl err)
              | (s', Inr n') \<Rightarrow> load_loop rest s' current_db n'))
      else if opcode \<in> set [TYPE_STRING, TYPE_LIST, TYPE_SET, TYPE_HASH, TYPE_ZSET, TYPE_STREAM, TYPE_NH] then
        (case decode_entry (opcode # data) of
           None \<Rightarrow> None
         | Some (Inl err, rest) \<Rightarrow> Some (s, Inl err)
         | Some (Inr (key, v), rest) \<Rightarrow>
             (case load_entry s current_db n key v None of
                (s', Inl err) \<Rightarrow> Some (s', Inl err)
              | (s', Inr n') \<Rightarrow> load_loop rest s' current_db n'))
      else Some (s, Inl (UnknownOpcode opcode)))"
  by pat_completeness auto

termination
  by (relation "measure (\<lambda>(data, s, c, n). length data)")
     (auto dest: decode_entry_shorter read_expiring_shorter simp del: decode_entry.simps(2))

definition load_rdb :: "store \<Rightarrow> bytes \<Rightarrow> (store \<times> (rdb_error + nat)) option" where
  "load_rdb s data =
     (if length data < 16 then Some (s, Inl RdbTooShort)
      else if take 4 data \<noteq> ''VELO'' then Some (s, Inl InvalidMagic)
      else
        (let stored_crc = of_nat (le_value (take 8 (drop 8 data))) :: u64;
             computed_crc = crc64 (drop 16 data)
         in if stored_crc \<noteq> 0 \<and> stored_crc \<noteq> computed_crc then Some (s, Inl CrcMismatch)
            else load_loop (drop 16 data) s 0 0))"

section \<open>What a writer and its reader promise\<close>

locale codec =
  fixes enc :: "'a \<Rightarrow> bytes"
    and dec :: "'a reader"
    and fits :: "'a \<Rightarrow> bool"
  assumes dec_enc: "fits x \<Longrightarrow> dec (enc x @ rest) = Some (x, rest)"
begin

lemma read_each_enc:
  "\<forall>x\<in>set xs. fits x \<Longrightarrow>
   read_each (length xs) dec add acc (concat (map enc xs) @ rest) = Some (fold add xs acc, rest)"
  by (induction xs arbitrary: acc) (simp_all add: dec_enc)

lemma map_read_enc: "fits x \<Longrightarrow> map_read f dec (enc x @ rest) = Some (f x, rest)"
  by (simp add: map_read_def dec_enc)

lemma then_read_enc: "fits x \<Longrightarrow> then_read dec f (enc x @ rest) = f x rest"
  by (simp add: then_read_def dec_enc)

end

text \<open>Two codecs one after the other.\<close>

locale codec_pair = a: codec enca deca fitsa + b: codec encb decb fitsb
  for enca :: "'a \<Rightarrow> bytes" and deca fitsa and encb :: "'b \<Rightarrow> bytes" and decb fitsb
begin

lemma pair_enc:
  "fitsa x \<Longrightarrow> fitsb y \<Longrightarrow> read_pair deca decb (enca x @ encb y @ rest) = Some ((x, y), rest)"
  by (simp add: read_pair_def a.then_read_enc b.map_read_enc)

end

sublocale codec_pair \<subseteq> pair: codec "\<lambda>p. enca (fst p) @ encb (snd p)" "read_pair deca decb"
  "\<lambda>p. fitsa (fst p) \<and> fitsb (snd p)"
  by unfold_locales (simp add: pair_enc split: prod.splits)

section \<open>The codecs of the file\<close>

lemma length_le_bytes [simp]: "length (le_bytes k n) = k"
  by (induction k arbitrary: n) simp_all

lemma le_value_le_bytes: "le_value (le_bytes k n) = n mod 256 ^ k"
proof (induction k arbitrary: n)
  case (Suc k)
  have "le_value (le_bytes (Suc k) n) = n mod 256 + 256 * (n div 256 mod 256 ^ k)"
    by (simp add: Suc of_char_of)
  also have "\<dots> = n mod (256 * 256 ^ k)" by (simp add: mod_mult2_eq)
  finally show ?case by simp
qed simp

lemma read_slice_append: "read_slice (length xs) (xs @ rest) = Some (xs, rest)"
  by (simp add: read_slice_def)

lemma read_slice_le_bytes: "read_slice k (le_bytes k n @ rest) = Some (le_bytes k n, rest)"
  using read_slice_append [of "le_bytes k n" rest] by simp

lemma read_slice_rev_le_bytes: "read_slice k (rev (le_bytes k n) @ rest) = Some (rev (le_bytes k n), rest)"
  using read_slice_append [of "rev (le_bytes k n)" rest] by simp

lemma unat_mod_self: "unat (v :: u64) mod 18446744073709551616 = unat v"
proof -
  have "unat v < 2 ^ LENGTH(64)" by (rule unsigned_less)
  then show ?thesis by simp
qed

interpretation u64_le: codec write_u64_le read_u64_le "\<lambda>_. True"
  by unfold_locales
     (simp add: write_u64_le_def read_u64_le_def map_read_def read_slice_le_bytes le_value_le_bytes
       unat_mod_self del: le_bytes.simps)

interpretation f64_le: codec write_f64_le read_f64_le "\<lambda>_. True"
  by unfold_locales
     (simp add: write_f64_le_def read_f64_le_def map_read_def read_slice_le_bytes le_value_le_bytes
       unat_mod_self del: le_bytes.simps)

definition len_fits :: "nat \<Rightarrow> bool" where
  "len_fits n \<longleftrightarrow> n < 2 ^ 32"

interpretation len: codec write_len read_len len_fits
proof
  fix n rest assume "len_fits n"
  then have "unat (of_nat n :: u32) = n" "n mod 256 ^ 4 = n"
    by (simp_all add: len_fits_def unsigned_of_nat take_bit_nat_eq_self)
  then show "read_len (write_len n @ rest) = Some (n, rest)"
    by (simp add: write_len_def write_u32_be_def read_len_def read_u32_be_def map_read_def
        read_slice_rev_le_bytes le_value_le_bytes del: le_bytes.simps)
qed

interpretation bytes_len: codec write_bytes_len read_bytes_len "\<lambda>b. len_fits (length b)"
  by unfold_locales
     (simp add: write_bytes_len_def read_bytes_len_def len.then_read_enc read_slice_append)

interpretation fv: codec_pair write_bytes_len read_bytes_len "\<lambda>b. len_fits (length b)"
  write_bytes_len read_bytes_len "\<lambda>b. len_fits (length b)" ..

interpretation sm: codec_pair write_f64_le read_f64_le "\<lambda>_. True"
  write_bytes_len read_bytes_len "\<lambda>b. len_fits (length b)" ..

section \<open>Round trip of a value\<close>

text \<open>
  \<open>restored v v'\<close>: \<open>v'\<close> is \<open>v\<close> as far as a client can see, up to the order in which a hash map is
  iterated.  The score index of a sorted set is not written but rebuilt from the members; it agrees
  with them afterwards.
\<close>

fun restored :: "storage_value \<Rightarrow> storage_value \<Rightarrow> bool" where
  "restored (SetV s1) (SetV s2) \<longleftrightarrow> set s1 = set s2"
| "restored (HashV m1) (HashV m2) \<longleftrightarrow> hm_get m1 = hm_get m2"
| "restored (ZSetV m1 sc1) (ZSetV m2 sc2) \<longleftrightarrow> hm_get m1 = hm_get m2 \<and> zset_inv m2 sc2"
| "restored (NestedHashV m1) (NestedHashV m2) \<longleftrightarrow>
     (\<forall>f. map_option hm_get (hm_get m1 f) = map_option hm_get (hm_get m2 f))"
| "restored v1 v2 \<longleftrightarrow> v1 = v2"

definition pair_fits :: "bytes \<times> bytes \<Rightarrow> bool" where
  "pair_fits p \<longleftrightarrow> len_fits (length (fst p)) \<and> len_fits (length (snd p))"

definition hash_fits :: "(bytes, bytes) hmap \<Rightarrow> bool" where
  "hash_fits m \<longleftrightarrow> len_fits (length m) \<and> list_all pair_fits m"

text \<open>Every length and count fits the 32 bits the file has for it, and no score is a NaN.\<close>

fun value_fits :: "storage_value \<Rightarrow> bool" where
  "value_fits (StringV v) \<longleftrightarrow> len_fits (length v)"
| "value_fits (ListV l) \<longleftrightarrow> len_fits (length l) \<and> list_all (\<lambda>x. len_fits (length x)) l"
| "value_fits (SetV st) \<longleftrightarrow> len_fits (length st) \<and> list_all (\<lambda>x. len_fits (length x)) st"
| "value_fits (HashV m) \<longleftrightarrow> hash_fits m"
| "value_fits (ZSetV m sc) \<longleftrightarrow>
     len_fits (length m) \<and> list_all (\<lambda>p. len_fits (length (fst p)) \<and> \<not> f64_is_nan (snd p)) m"
| "value_fits (StreamV es ms sq) \<longleftrightarrow> len_fits (length es) \<and> list_all (\<lambda>e. hash_fits (se_fields e)) es"
| "value_fits (NestedHashV m) \<longleftrightarrow>
     len_fits (length m) \<and> list_all (\<lambda>p. len_fits (length (fst p)) \<and> hash_fits (snd p)) m"

lemma hm_insert_fresh: "f \<notin> fst ` set m \<Longrightarrow> hm_insert f v m = m @ [(f, v)]"
  unfolding hm_insert_def by (induction m) auto

lemma fold_hm_insert_distinct:
  "hm_wf (acc @ m) \<Longrightarrow> fold (\<lambda>(f, v) m. hm_insert f v m) m acc = acc @ m"
proof (induction m arbitrary: acc)
  case (Cons p m)
  obtain f v where p: "p = (f, v)" by (cases p)
  have "hm_insert f v acc = acc @ [(f, v)]"
    using Cons.prems by (intro hm_insert_fresh) (auto simp: p hm_wf_def)
  then show ?case using Cons by (simp add: p)
qed simp

lemma fold_hs_insert_distinct: "distinct (acc @ xs) \<Longrightarrow> fold hs_insert xs acc = acc @ xs"
  by (induction xs arbitrary: acc) (simp_all add: hs_insert_def)

lemma fold_snoc: "fold (\<lambda>x l. l @ [x]) xs acc = acc @ xs"
  by (induction xs arbitrary: acc) simp_all

lemma write_pair_codec:
  "list_all pair_fits ps \<Longrightarrow>
   read_each (length ps) (read_pair read_bytes_len read_bytes_len) add acc (concat (map write_pair ps) @ rest) =
     Some (fold add ps acc, rest)"
  using fv.pair.read_each_enc [of ps add acc rest]
  by (simp add: list_all_iff pair_fits_def write_pair_def [abs_def])

lemma read_hash_enc:
  "hash_fits m \<Longrightarrow> hm_wf m \<Longrightarrow> read_hash (length m) (concat (map write_pair m) @ rest) = Some (m, rest)"
  using fold_hm_insert_distinct [of "[]" m] by (simp add: read_hash_def hash_fits_def write_pair_codec)

interpretation stream_entry: codec write_stream_entry read_stream_entry "\<lambda>e. hash_fits (se_fields e)"
  by unfold_locales
     (simp add: write_stream_entry_def read_stream_entry_def hash_fits_def u64_le.then_read_enc
       len.then_read_enc map_read_def write_pair_codec fold_snoc)

interpretation inner: codec write_inner read_inner
  "\<lambda>p. len_fits (length (fst p)) \<and> hash_fits (snd p) \<and> hm_wf (snd p)"
proof unfold_locales
  fix p :: "bytes \<times> (bytes, bytes) hmap" and rest
  assume *: "len_fits (length (fst p)) \<and> hash_fits (snd p) \<and> hm_wf (snd p)"
  then have "len_fits (length (snd p))" by (simp add: hash_fits_def)
  with * show "read_inner (write_inner p @ rest) = Some (p, rest)"
    by (simp add: write_inner_def read_inner_def bytes_len.then_read_enc map_read_def len.then_read_enc
        read_hash_enc)
qed

text \<open>The sorted set: the members in the order of their scores, put back one by one.\<close>

lemma mset_insert_by [simp]: "mset (insert_by cmp x xs) = add_mset x (mset xs)"
  by (induction xs) auto

lemma mset_sort_by [simp]: "mset (sort_by cmp xs) = mset xs"
  unfolding sort_by_def by (induction xs) simp_all

lemma sort_by_facts [simp]: "length (sort_by cmp xs) = length xs" "set (sort_by cmp xs) = set xs"
  using mset_sort_by [of cmp xs] by (metis size_mset, metis set_mset_mset)

lemma hm_wf_sort_by: "hm_wf m \<Longrightarrow> hm_wf (sort_by cmp m)" "hm_wf m \<Longrightarrow> hm_get (sort_by cmp m) = hm_get m"
proof -
  assume wf: "hm_wf m"
  have "mset (map fst (sort_by cmp m)) = mset (map fst m)" by simp
  then show wf': "hm_wf (sort_by cmp m)" using wf unfolding hm_wf_def by (metis mset_eq_imp_distinct_iff)
  show "hm_get (sort_by cmp m) = hm_get m"
    using map_of_inject_set [of "sort_by cmp m" m] wf wf' by (simp add: hm_wf_def)
qed

lemma fold_scores_zadd:
  assumes "hm_wf (map prod.swap items)" "dom (hm_get m) \<inter> snd ` set items = {}"
  shows "fold (\<lambda>(score, member) (m, sc). (hm_insert member score m, scores_add score member sc)) items (m, sc) =
    (let (m', sc', r) = zadd_loop items m sc n in (m', sc'))"
  using assms
proof (induction items m sc n rule: zadd_loop.induct)
  case (2 score member items m sc n)
  have fresh: "hm_get m member = None" using "2.prems"(2) by auto
  have "member \<notin> snd ` set items" using "2.prems"(1) by (auto simp: hm_wf_def comp_def)
  then have disj: "dom (hm_get (hm_insert member score m)) \<inter> snd ` set items = {}"
    using "2.prems"(2) by auto
  have "hm_wf (map prod.swap items)" using "2.prems"(1) by (simp add: hm_wf_def)
  from "2.IH" [OF refl refl refl this disj] fresh show ?case by simp
qed simp

lemma zset_restored:
  assumes "hm_wf m" "\<forall>p\<in>set m. \<not> f64_is_nan (snd p)"
  shows "\<exists>m' sc'. fold (\<lambda>(score, member) (m, sc). (hm_insert member score m, scores_add score member sc))
            (map prod.swap m) ([], []) = (m', sc') \<and> zset_inv m' sc' \<and> hm_get m' = hm_get m"
proof -
  obtain m' sc' r where z: "zadd_loop (map prod.swap m) [] [] 0 = (m', sc', r)" by (cases "zadd_loop (map prod.swap m) [] [] 0")
  have "zset_inv m' sc' \<and> hm_get m' = map_of (rev m)"
    using zadd_loop_inv [OF zset_inv_empty _ z] assms(2) by (simp add: comp_def)
  moreover have "map_of (rev m) = hm_get m"
    using assms(1) by (simp add: hm_wf_def map_of_inject_set rev_map [symmetric])
  moreover have "fold (\<lambda>(score, member) (m, sc). (hm_insert member score m, scores_add score member sc))
      (map prod.swap m) ([], []) = (m', sc')"
    using fold_scores_zadd [of "map prod.swap m" "[]" "[]" 0] assms(1) z by (simp add: comp_def)
  ultimately show ?thesis by simp
qed

lemma read_scored_enc:
  assumes "\<forall>p\<in>set m. len_fits (length (fst p))"
  shows "read_each (length m) (read_pair read_f64_le read_bytes_len) add acc (concat (map write_scored m) @ rest) =
    Some (fold add (map prod.swap m) acc, rest)"
  using sm.pair.read_each_enc [of "map prod.swap m" add acc rest] assms
  by (simp add: write_scored_def [abs_def] comp_def)

lemma encode_entry_Cons: "\<exists>ty data. encode_entry k v = ty # data"
  by (cases v) auto

lemma opcodes_distinct [simp]:
  "TYPE_LIST \<noteq> TYPE_STRING" "TYPE_SET \<noteq> TYPE_STRING" "TYPE_SET \<noteq> TYPE_LIST"
  "TYPE_HASH \<noteq> TYPE_STRING" "TYPE_HASH \<noteq> TYPE_LIST" "TYPE_HASH \<noteq> TYPE_SET"
  "TYPE_ZSET \<noteq> TYPE_STRING" "TYPE_ZSET \<noteq> TYPE_LIST" "TYPE_ZSET \<noteq> TYPE_SET" "TYPE_ZSET \<noteq> TYPE_HASH"
  "TYPE_STREAM \<noteq> TYPE_STRING" "TYPE_STREAM \<noteq> TYPE_LIST" "TYPE_STREAM \<noteq> TYPE_SET" "TYPE_STREAM \<noteq> TYPE_HASH"
  "TYPE_STREAM \<noteq> TYPE_ZSET" "TYPE_NH \<noteq> TYPE_STRING" "TYPE_NH \<noteq> TYPE_LIST" "TYPE_NH \<noteq> TYPE_SET"
  "TYPE_NH \<noteq> TYPE_HASH" "TYPE_NH \<noteq> TYPE_ZSET" "TYPE_NH \<noteq> TYPE_STREAM"
  by (simp_all add: rdb_opcodes)

lemma zset_inv_value_wf:
  assumes "zset_inv m sc"
  shows "value_wf (ZSetV m sc)"
proof -
  have "distinct st" if "(k, st) \<in> set sc" for k st
    using assms that f64_keys.bt_fun_Some_iff [of sc "f64_rank k" st]
    by (auto simp: zset_inv_def scores_ok_def)
  then show ?thesis using assms by (auto simp: zset_inv_def)
qed

lemma decode_value_zset:
  assumes "value_wf (ZSetV m sc)" "value_fits (ZSetV m sc)"
  shows "\<exists>v'. decode_value TYPE_ZSET
      (write_len (length m) @ concat (map write_scored (sort_by (\<lambda>p q. ordered_f64_cmp (snd p) (snd q)) m)) @ rest) =
      Some (Inr v', rest) \<and> restored (ZSetV m sc) v' \<and> value_wf v'"
proof -
  let ?m = "sort_by (\<lambda>p q. ordered_f64_cmp (snd p) (snd q)) m"
  have wf: "hm_wf ?m" and get: "hm_get ?m = hm_get m" using assms(1) hm_wf_sort_by by auto
  have nan: "\<forall>p\<in>set ?m. \<not> f64_is_nan (snd p)" and len: "\<forall>p\<in>set ?m. len_fits (length (fst p))" "len_fits (length m)"
    using assms(2) by (auto simp: list_all_iff)
  obtain m' sc' where z: "fold (\<lambda>(score, member) (m, sc). (hm_insert member score m, scores_add score member sc))
      (map prod.swap ?m) ([], []) = (m', sc')" "zset_inv m' sc'" "hm_get m' = hm_get ?m"
    using zset_restored [OF wf nan] by blast
  have "value_wf (ZSetV m' sc')" by (rule zset_inv_value_wf [OF z(2)])
  then show ?thesis
    using z(2,3) get
    by (simp add: decode_value_def len.then_read_enc [OF len(2)] map_read_def z(1)
        read_scored_enc [OF len(1), unfolded sort_by_facts])
qed

lemma decode_encode_entry:
  assumes "value_wf v" "value_fits v" "len_fits (length key)"
  shows "\<exists>v'. decode_entry (encode_entry key v @ rest) = Some (Inr (key, v'), rest) \<and> restored v v' \<and> value_wf v'"
proof (cases v)
  case (StringV val)
  then show ?thesis
    using assms by (simp add: bytes_len.then_read_enc bytes_len.map_read_enc map_read_def bytes_len.dec_enc decode_value_def)
next
  case (ListV l)
  then show ?thesis
    using assms bytes_len.read_each_enc [of l "\<lambda>x l. l @ [x]" "[]" rest]
    by (simp add: bytes_len.then_read_enc len.then_read_enc map_read_def decode_value_def list_all_iff fold_snoc)
next
  case (SetV st)
  then show ?thesis
    using assms bytes_len.read_each_enc [of st hs_insert "[]" rest] fold_hs_insert_distinct [of "[]" st]
    by (simp add: bytes_len.then_read_enc len.then_read_enc map_read_def decode_value_def list_all_iff)
next
  case (HashV m)
  then have "len_fits (length m)" using assms(2) by (simp add: hash_fits_def)
  then show ?thesis
    using assms HashV
    by (simp add: bytes_len.then_read_enc len.then_read_enc map_read_def decode_value_def read_hash_enc)
next
  case (ZSetV m sc)
  from decode_value_zset [OF assms(1,2) [unfolded ZSetV], of rest] obtain v' where
    "decode_value TYPE_ZSET
      (write_len (length m) @ concat (map write_scored (sort_by (\<lambda>p q. ordered_f64_cmp (snd p) (snd q)) m)) @ rest) =
      Some (Inr v', rest)" "restored (ZSetV m sc) v'" "value_wf v'" by blast
  then show ?thesis
    using ZSetV by (simp add: bytes_len.then_read_enc [OF assms(3)] map_read_def)
next
  case (StreamV es ms sq)
  then show ?thesis
    using assms stream_entry.read_each_enc [of es "\<lambda>x l. l @ [x]" "[]" rest]
    by (simp add: bytes_len.then_read_enc len.then_read_enc u64_le.then_read_enc map_read_def decode_value_def
        list_all_iff fold_snoc)
next
  case (NestedHashV m)
  then show ?thesis
    using assms inner.read_each_enc [of m "\<lambda>(f, i) m. hm_insert f i m" "[]" rest] fold_hm_insert_distinct [of "[]" m]
    by (simp add: bytes_len.then_read_enc len.then_read_enc map_read_def decode_value_def list_all_iff)
qed

section \<open>Round trip of a store\<close>

definition record_fits :: "bytes \<times> entry \<Rightarrow> bool" where
  "record_fits p \<longleftrightarrow> len_fits (length (fst p)) \<and> value_fits (ent_value (snd p)) \<and> value_wf (ent_value (snd p))"

lemma encode_entry_opcode:
  "\<exists>ty data. encode_entry k v = ty # data \<and>
     ty \<in> set [TYPE_STRING, TYPE_LIST, TYPE_SET, TYPE_HASH, TYPE_ZSET, TYPE_STREAM, TYPE_NH]"
  by (cases v) auto

lemma types_not_opcodes:
  "ty \<in> set [TYPE_STRING, TYPE_LIST, TYPE_SET, TYPE_HASH, TYPE_ZSET, TYPE_STREAM, TYPE_NH] \<Longrightarrow>
   ty \<noteq> DB_SELECT \<and> ty \<noteq> DB_END \<and> ty \<noteq> EXPIRETIME"
  by (auto simp: rdb_opcodes)

lemma opcodes_apart: "EXPIRETIME \<noteq> DB_SELECT" "EXPIRETIME \<noteq> DB_END" "DB_END \<noteq> DB_SELECT"
  by (simp_all add: rdb_opcodes)

text \<open>One record of the file puts one entry into the store.\<close>

lemma load_record:
  assumes "record_fits p" "valid_db s cur"
  shows "\<exists>v'. restored (ent_value (snd p)) v' \<and> value_wf v' \<and>
     load_loop (encode_record p @ rest) s cur n =
       (if fst p = [] then load_loop rest s cur n
        else load_loop rest (fst (set_with_entry s cur (fst p) v' (ent_expire_at (snd p)))) cur (n + 1))"
proof -
  obtain k e where p: "p = (k, e)" by (cases p)
  obtain v' where dec: "decode_entry (encode_entry k (ent_value e) @ rest) = Some (Inr (k, v'), rest)"
    and v': "restored (ent_value e) v'" "value_wf v'"
    using decode_encode_entry [of "ent_value e" k rest] assms(1) by (auto simp: record_fits_def p)
  obtain ty data where ty: "encode_entry k (ent_value e) = ty # data"
    "ty \<in> set [TYPE_STRING, TYPE_LIST, TYPE_SET, TYPE_HASH, TYPE_ZSET, TYPE_STREAM, TYPE_NH]"
    using encode_entry_opcode by blast
  have ok: "snd (set_with_entry s cur k v' ex) = Inr ()" for ex
    using assms(2) by (simp add: set_with_entry_def db_valid split: option.split)
  have entry: "load_entry s cur n k v' ex =
      (if k = [] then (s, Inr n) else (fst (set_with_entry s cur k v' ex), Inr (n + 1)))" for ex
    using ok [of ex] by (cases "set_with_entry s cur k v' ex") (simp add: load_entry_def)
  have "load_loop (encode_record p @ rest) s cur n =
      (if k = [] then load_loop rest s cur n
       else load_loop rest (fst (set_with_entry s cur k v' (ent_expire_at e))) cur (n + 1))"
  proof (cases "ent_expire_at e")
    case None
    then show ?thesis
      using types_not_opcodes [OF ty(2)] ty dec by (simp add: encode_record_def p entry del: decode_entry.simps)
  next
    case (Some at)
    have "read_expiring (write_u64_le at @ encode_entry k (ent_value e) @ rest) = Some ((at, Inr (k, v')), rest)"
      by (simp add: read_expiring_def u64_le.then_read_enc map_read_def dec)
    then show ?thesis using Some by (simp add: encode_record_def p entry opcodes_apart)
  qed
  with v' show ?thesis by (auto simp: p)
qed

text \<open>
  What loading the records \<open>es\<close> makes of the entry under a key: an entry with the same value and
  expiry for a record with that key, no change without one.  Records with an empty key are dropped.
\<close>

definition reloads :: "(bytes \<times> entry) list \<Rightarrow> bytes \<Rightarrow> entry option \<Rightarrow> entry option \<Rightarrow> bool" where
  "reloads es k old new =
     (case (if k = [] then None else hm_get es k) of
        None \<Rightarrow> new = old
      | Some e \<Rightarrow> (case new of None \<Rightarrow> False
                  | Some e' \<Rightarrow> restored (ent_value e) (ent_value e') \<and> ent_expire_at e' = ent_expire_at e))"

lemma raw_set_with_entry:
  assumes "valid_db s i"
  shows "\<exists>ver. raw (fst (set_with_entry s i k v ex)) j k' =
     (if j = i \<and> k' = k then Some \<lparr>ent_value = v, ent_expire_at = ex, ent_version = ver\<rparr> else raw s j k')"
proof (cases "hm_get (databases s ! i) k")
  case (Some e)
  then show ?thesis
    using assms by (intro exI [of _ "ent_version e + 1"], cases e) (auto simp: set_with_entry_def db_valid lookup_simps)
qed (use assms in \<open>auto simp: set_with_entry_def db_valid lookup_simps\<close>)

lemma set_with_entry_dbs [simp]: "length (databases (fst (set_with_entry s i k v ex))) = length (databases s)"
  by (auto simp: set_with_entry_def split: sum.splits option.splits)

lemma load_records:
  assumes "list_all record_fits es" "hm_wf es" "valid_db s cur" "store_wf s"
  shows "\<exists>s' n'. load_loop (concat (map encode_record es) @ rest) s cur n = load_loop rest s' cur n' \<and>
     store_wf s' \<and> length (databases s') = length (databases s) \<and>
     (\<forall>j k. j \<noteq> cur \<longrightarrow> raw s' j k = raw s j k) \<and> (\<forall>k. reloads es k (raw s cur k) (raw s' cur k))"
  using assms
proof (induction es arbitrary: s n)
  case Nil
  then show ?case by (auto simp: reloads_def intro: exI [of _ s])
next
  case (Cons p es)
  have p: "record_fits p" and es: "list_all record_fits es" "hm_wf es" "fst p \<notin> fst ` set es"
    using Cons.prems by (auto simp: hm_wf_def)
  obtain v' where v': "restored (ent_value (snd p)) v'" "value_wf v'"
    and step: "load_loop (encode_record p @ concat (map encode_record es) @ rest) s cur n =
       (if fst p = [] then load_loop (concat (map encode_record es) @ rest) s cur n
        else load_loop (concat (map encode_record es) @ rest)
               (fst (set_with_entry s cur (fst p) v' (ent_expire_at (snd p)))) cur (n + 1))"
    using load_record [OF p Cons.prems(3)] by blast
  define s1 where "s1 = (if fst p = [] then s else fst (set_with_entry s cur (fst p) v' (ent_expire_at (snd p))))"
  have s1: "valid_db s1 cur" "store_wf s1" "length (databases s1) = length (databases s)"
    using Cons.prems(3,4) set_with_entry_wf [OF v'(2)] by (simp_all add: s1_def valid_db_def)
  have eq: "\<exists>n1. load_loop (concat (map encode_record (p # es)) @ rest) s cur n =
      load_loop (concat (map encode_record es) @ rest) s1 cur n1"
    using step by (auto simp: s1_def)
  then obtain n1 where "load_loop (concat (map encode_record (p # es)) @ rest) s cur n =
      load_loop (concat (map encode_record es) @ rest) s1 cur n1" by blast
  with Cons.IH [OF es(1,2) s1(1,2), of n1] obtain s' n' where
    s': "load_loop (concat (map encode_record (p # es)) @ rest) s cur n = load_loop rest s' cur n'" "store_wf s'"
      "length (databases s') = length (databases s1)" "\<forall>j k. j \<noteq> cur \<longrightarrow> raw s' j k = raw s1 j k"
      "\<forall>k. reloads es k (raw s1 cur k) (raw s' cur k)" by metis
  have raw1: "raw s1 j k = raw s j k" if "j \<noteq> cur \<or> k \<noteq> fst p \<or> fst p = []" for j k
    using that set_with_entry_other [of j cur k "fst p" s v' "ent_expire_at (snd p)"] by (auto simp: s1_def)
  have "reloads (p # es) k (raw s cur k) (raw s' cur k)" for k
  proof (cases "k = fst p \<and> k \<noteq> []")
    case True
    then have "hm_get es k = None" using es(3) by (simp add: map_of_eq_None_iff)
    then have "raw s' cur k = raw s1 cur k" using s'(5) [rule_format, of k] True by (auto simp: reloads_def)
    moreover obtain ver where "raw s1 cur k = Some \<lparr>ent_value = v', ent_expire_at = ent_expire_at (snd p), ent_version = ver\<rparr>"
      using raw_set_with_entry [OF Cons.prems(3), of "fst p" v' "ent_expire_at (snd p)" cur k] True by (auto simp: s1_def)
    ultimately show ?thesis using True v'(1) by (cases p) (simp add: reloads_def)
  next
    case False
    then have "raw s1 cur k = raw s cur k" using raw1 [of cur k] by auto
    then show ?thesis using s'(5) [rule_format, of k] False by (cases p) (auto simp: reloads_def)
  qed
  then show ?case using s' s1(3) raw1 by (intro exI [of _ s'] exI [of _ n']) simp
qed

text \<open>A whole database, and the databases one after the other.\<close>

definition db_records :: "u64 \<Rightarrow> store \<Rightarrow> nat \<Rightarrow> (bytes \<times> entry) list" where
  "db_records t s i = filter (\<lambda>(k, e). \<not> expired t e) (databases s ! i)"

definition store_fits :: "store \<Rightarrow> bool" where
  "store_fits s \<longleftrightarrow> list_all (list_all (\<lambda>p. len_fits (length (fst p)) \<and> value_fits (ent_value (snd p)))) (databases s)"

lemma encode_dbs_valid:
  "\<forall>i\<in>set is. valid_db s i \<Longrightarrow> encode_dbs clock s is =
     Inr (concat (map (\<lambda>i. DB_SELECT # char_of (i mod 256) # concat (map encode_record (db_records (clock i) s i)) @ [DB_END]) is))"
  by (induction "is") (simp_all add: encode_db_def iterate_db_def db_valid db_records_def)

lemma db_records_ok:
  assumes "store_wf s" "store_fits s" "valid_db s i"
  shows "list_all record_fits (db_records t s i)" "hm_wf (db_records t s i)"
    "hm_get (db_records t s i) k = live t s i k"
proof -
  have mem: "databases s ! i \<in> set (databases s)" using assms(3) by (simp add: valid_db_def)
  show "list_all record_fits (db_records t s i)"
    using assms(1,2) mem by (fastforce simp: store_wf_def store_fits_def list_all_iff record_fits_def db_records_def)
  have wf: "hm_wf (databases s ! i)" by (rule store_wf_db [OF assms(1,3)])
  then show "hm_wf (db_records t s i)" unfolding db_records_def by (rule hm_wf_filter)
  show "hm_get (db_records t s i) k = live t s i k"
    using wf assms(3) unfolding db_records_def hm_get_filter [OF wf]
    by (simp add: live_def hm_get_raw split: option.split)
qed

lemma load_one_db:
  assumes "store_wf s" "store_fits s" "valid_db s i" "i < 256" "valid_db t i" "store_wf t"
  shows "\<exists>t' n'. load_loop ((DB_SELECT # char_of (i mod 256) # concat (map encode_record (db_records c s i)) @ [DB_END]) @ rest) t cur n
       = load_loop rest t' i n' \<and> store_wf t' \<and> length (databases t') = length (databases t) \<and>
     (\<forall>j k. j \<noteq> i \<longrightarrow> raw t' j k = raw t j k) \<and> (\<forall>k. reloads (db_records c s i) k (raw t i k) (raw t' i k))"
proof -
  have "load_loop ((DB_SELECT # char_of (i mod 256) # concat (map encode_record (db_records c s i)) @ [DB_END]) @ rest) t cur n =
      load_loop (concat (map encode_record (db_records c s i)) @ DB_END # rest) t i n"
    using assms(4) by (simp add: of_char_of)
  moreover have "load_loop (DB_END # rest) t' i n' = load_loop rest t' i n'" for t' n'
    by (simp add: opcodes_apart)
  ultimately show ?thesis
    using load_records [OF db_records_ok(1,2) [OF assms(1-3)] assms(5,6), of c "DB_END # rest" n] by simp
qed

lemma load_dbs:
  assumes "store_wf s" "store_fits s" "\<forall>i\<in>set is. valid_db s i \<and> i < 256 \<and> valid_db t i" "distinct is" "store_wf t"
    and "encode_dbs clock s is = Inr body"
  shows "\<exists>t' cur' n'. load_loop (body @ rest) t cur n = load_loop rest t' cur' n' \<and> store_wf t' \<and>
     length (databases t') = length (databases t) \<and>
     (\<forall>j k. if j \<in> set is then reloads (db_records (clock j) s j) k (raw t j k) (raw t' j k)
            else raw t' j k = raw t j k)"
  using assms(3-6)
proof (induction "is" arbitrary: t cur n body)
  case Nil
  then show ?case by auto
next
  case (Cons i "is")
  let ?one = "DB_SELECT # char_of (i mod 256) # concat (map encode_record (db_records (clock i) s i)) @ [DB_END]"
  obtain tl where enc: "encode_dbs clock s is = Inr tl" and body: "body = ?one @ tl"
    using encode_dbs_valid [of "i # is" s clock] encode_dbs_valid [of "is" s clock] Cons.prems(1,4) by simp
  obtain t1 n1 where t1: "load_loop (body @ rest) t cur n = load_loop (tl @ rest) t1 i n1" "store_wf t1"
      "length (databases t1) = length (databases t)" "\<forall>j k. j \<noteq> i \<longrightarrow> raw t1 j k = raw t j k"
      "\<forall>k. reloads (db_records (clock i) s i) k (raw t i k) (raw t1 i k)"
    using load_one_db [OF assms(1,2), of i t "clock i" "tl @ rest" cur n] Cons.prems(1,3) body by auto
  have "\<forall>j\<in>set is. valid_db s j \<and> j < 256 \<and> valid_db t1 j" using Cons.prems(1) t1(3) by (simp add: valid_db_def)
  from Cons.IH [OF this _ t1(2) enc, of i n1] Cons.prems(2) obtain t' cur' n' where
    t': "load_loop (tl @ rest) t1 i n1 = load_loop rest t' cur' n'" "store_wf t'"
      "length (databases t') = length (databases t1)"
      "\<forall>j k. if j \<in> set is then reloads (db_records (clock j) s j) k (raw t1 j k) (raw t' j k)
             else raw t' j k = raw t1 j k" by auto
  have "if j \<in> set (i # is) then reloads (db_records (clock j) s j) k (raw t j k) (raw t' j k)
      else raw t' j k = raw t j k" for j k
    using t'(4) [rule_format, of j k] t1(4,5) Cons.prems(2) by (auto split: if_splits)
  then show ?case using t1(1,3) t' by (intro exI [of _ t'] exI [of _ cur'] exI [of _ n']) simp
qed

section \<open>The checksum\<close>

text \<open>The factor is odd, so a step of the checksum loses nothing.\<close>

lemma crc_step_inject: "a * 0x1000000000000001 = b * 0x1000000000000001 \<Longrightarrow> a = b" for a b :: u64
proof -
  have unit: "(0x1000000000000001 :: u64) * 0xF000000000000001 = 1" by simp
  assume "a * 0x1000000000000001 = b * 0x1000000000000001"
  then have "a * (0x1000000000000001 * 0xF000000000000001) = b * (0x1000000000000001 * (0xF000000000000001 :: u64))"
    by (simp only: mult.assoc [symmetric])
  then show "a = b" unfolding unit by simp
qed

lemma crc_foldl_inject:
  "foldl (\<lambda>crc b. crc * 0x1000000000000001 + of_nat (of_char b)) x ys =
   foldl (\<lambda>crc b. crc * 0x1000000000000001 + of_nat (of_char b)) (y :: u64) ys \<Longrightarrow> x = y"
proof (induction ys arbitrary: x y)
  case (Cons b ys)
  from Cons.IH [OF Cons.prems [simplified]] show ?case by (auto dest: crc_step_inject)
qed simp

lemma of_char_u64_inject: "of_nat (of_char b) = (of_nat (of_char c) :: u64) \<Longrightarrow> b = c"
proof -
  assume "of_nat (of_char b) = (of_nat (of_char c) :: u64)"
  then have "unat (of_nat (of_char b) :: u64) = unat (of_nat (of_char c) :: u64)" by simp
  moreover have "of_char d < (256 :: nat)" for d by (metis of_char_mod_256 mod_less_divisor zero_less_numeral)
  then have "of_char d < (2 :: nat) ^ 64" for d by (rule less_trans) simp
  ultimately have "(of_char b :: nat) = of_char c" by (simp add: unsigned_of_nat take_bit_nat_eq_self)
  then show "b = c" by simp
qed

lemma crc64_byte: "b \<noteq> c \<Longrightarrow> crc64 (xs @ b # ys) \<noteq> crc64 (xs @ c # ys)"
  using crc_foldl_inject of_char_u64_inject by (fastforce simp: crc64_def)

lemma length_write_u64_le [simp]: "length (write_u64_le v) = 8"
  by (simp add: write_u64_le_def del: le_bytes.simps)

lemma length_rdb_header [simp]: "length rdb_header = 8"
  by (simp add: rdb_header_def)

lemma le_value_write_u64_le [simp]: "of_nat (le_value (write_u64_le v)) = v"
  by (simp add: write_u64_le_def le_value_le_bytes unat_mod_self del: le_bytes.simps)

lemma load_rdb_file:
  "load_rdb t (rdb_header @ write_u64_le crc @ body) =
     (if crc \<noteq> 0 \<and> crc \<noteq> crc64 body then Some (t, Inl CrcMismatch) else load_loop body t 0 0)"
proof -
  have "take 4 (rdb_header @ write_u64_le crc @ body) = ''VELO''" by (simp add: rdb_header_def)
  then show ?thesis by (simp add: load_rdb_def Let_def)
qed

fun restored_entry :: "entry option \<Rightarrow> entry option \<Rightarrow> bool" where
  "restored_entry None new \<longleftrightarrow> new = None"
| "restored_entry (Some e) None \<longleftrightarrow> False"
| "restored_entry (Some e) (Some e') \<longleftrightarrow> restored (ent_value e) (ent_value e') \<and> ent_expire_at e' = ent_expire_at e"

text \<open>Loading a snapshot into a store without keys.\<close>

lemma rdb_reload:
  assumes "store_wf s" "store_fits s" "length (databases s) \<le> 256"
    and "store_wf t0" "length (databases t0) = length (databases s)" "\<forall>i k. raw t0 i k = None"
  shows "\<exists>data t n. save_rdb clock s (length (databases s)) = Inr data \<and> load_rdb t0 data = Some (t, Inr n) \<and>
     store_wf t \<and> length (databases t) = length (databases s) \<and>
     (\<forall>i<length (databases s). \<forall>k. restored_entry (if k = [] then None else live (clock i) s i k) (raw t i k))"
proof -
  let ?is = "[0..<length (databases s)]"
  have valid: "\<forall>i\<in>set ?is. valid_db s i \<and> i < 256 \<and> valid_db t0 i" using assms(3,5) by (auto simp: valid_db_def)
  then obtain body where body: "encode_dbs clock s ?is = Inr body" using encode_dbs_valid [of ?is s clock] by auto
  obtain t cur n where t: "load_loop (body @ []) t0 0 0 = load_loop [] t cur n" "store_wf t"
      "length (databases t) = length (databases t0)"
      "\<forall>j k. if j \<in> set ?is then reloads (db_records (clock j) s j) k (raw t0 j k) (raw t j k)
             else raw t j k = raw t0 j k"
    using load_dbs [OF assms(1,2) valid distinct_upt assms(4) body, of "[]" 0 0] by blast
  have "restored_entry (if k = [] then None else live (clock i) s i k) (raw t i k)" if "i < length (databases s)" for i k
    using t(4) [rule_format, of i k] that db_records_ok(3) [OF assms(1,2), of i "clock i" k] assms(6)
    by (cases "live (clock i) s i k") (auto simp: reloads_def valid_db_def split: option.splits if_splits)
  then show ?thesis using t(1,2,3) body assms(5) by (simp add: save_rdb_def load_rdb_file)
qed

section \<open>Properties\<close>

text \<open>
  C3: The snapshot round trip.  Saving a well-formed store of at most 256 databases whose lengths fit
  the format succeeds, and loading the file into a new server succeeds and gives a well-formed store
  that has, under every key but the empty one, the entry that was live when its database was
  written, with its value and its expiry, and nothing else.
\<close>

theorem rdb_roundtrip:
  assumes "store_wf s" "store_fits s" "length (databases s) \<le> 256"
  shows "\<exists>data t n. save_rdb clock s (length (databases s)) = Inr data \<and>
     load_rdb (store_new (length (databases s))) data = Some (t, Inr n) \<and>
     store_wf t \<and> length (databases t) = length (databases s) \<and>
     (\<forall>i<length (databases s). \<forall>k. restored_entry (if k = [] then None else live (clock i) s i k) (raw t i k))"
  using rdb_reload [OF assms, of "store_new (length (databases s))"] store_wf_new by (simp add: raw_def store_new_def)

theorem rdb_roundtrip_witness:
  "\<exists>data t n e'.
     save_rdb (\<lambda>_. 5) (put_entry (store_new 1) 0 ''k'' \<lparr>ent_value = ListV [''x'', ''y''], ent_expire_at = Some 9, ent_version = 3\<rparr>) 1 = Inr data \<and>
     load_rdb (store_new 1) data = Some (t, Inr n) \<and>
     raw t 0 ''k'' = Some e' \<and> ent_value e' = ListV [''x'', ''y''] \<and> ent_expire_at e' = Some 9"
proof -
  let ?e = "\<lparr>ent_value = ListV [''x'', ''y''], ent_expire_at = Some 9, ent_version = 3\<rparr> :: entry"
  let ?s = "put_entry (store_new 1) 0 ''k'' ?e"
  have s: "store_wf ?s" "length (databases ?s) = 1" "length (databases ?s) \<le> 256"
    using store_wf_put [of "store_new 1" ?e 0 "''k''"] store_wf_new [of 1]
    by (simp_all add: store_new_def valid_db_def)
  have fits: "store_fits ?s"
    by (simp add: store_fits_def put_entry_def set_db_def store_new_def hm_insert_def len_fits_def)
  have live: "live 5 ?s 0 ''k'' = Some ?e" by code_simp
  from rdb_roundtrip [OF s(1) fits s(3), of "\<lambda>_. 5", unfolded s(2)] obtain data t n where
    d: "save_rdb (\<lambda>_. 5) ?s 1 = Inr data" "load_rdb (store_new 1) data = Some (t, Inr n)"
    and r: "\<forall>i<1. \<forall>k. restored_entry (if k = [] then None else live 5 ?s i k) (raw t i k)" by blast
  have "restored_entry (Some ?e) (raw t 0 ''k'')" using r [rule_format, of 0 "''k''"] unfolding live by simp
  then have "\<exists>e'. raw t 0 ''k'' = Some e' \<and> ent_value e' = ListV [''x'', ''y''] \<and> ent_expire_at e' = Some 9"
    by (cases "raw t 0 ''k''") auto
  with d show ?thesis by auto
qed

text \<open>
  C35: The checksum notices every change of a single byte of the body of a snapshot: the load reports
  the mismatch and leaves the store as it was.  The exception is a file whose checksum is 0, which
  is loaded unchecked.
\<close>

theorem rdb_byte_detected:
  assumes "save_rdb clock s n = Inr data" "of_nat (le_value (take 8 (drop 8 data))) \<noteq> (0 :: u64)"
    and "16 \<le> j" "j < length data" "b \<noteq> data ! j"
  shows "load_rdb t (data[j := b]) = Some (t, Inl CrcMismatch)"
proof -
  obtain body where data: "data = rdb_header @ write_u64_le (crc64 body) @ body"
    using assms(1) by (cases "encode_dbs clock s [0..<n]") (auto simp: save_rdb_def)
  let ?j = "j - 16"
  have j: "?j < length body" "data ! j = body ! ?j" using assms(3,4) by (auto simp: data nth_append)
  have upd: "data[j := b] = rdb_header @ write_u64_le (crc64 body) @ body[?j := b]"
    using assms(3,4) by (auto simp: data list_update_append)
  have "crc64 (body[?j := b]) \<noteq> crc64 body"
    using crc64_byte [of b "body ! ?j" "take ?j body" "drop (Suc ?j) body"] assms(5) j
    by (simp add: upd_conv_take_nth_drop id_take_nth_drop [symmetric])
  then show ?thesis using assms(2) by (simp add: upd load_rdb_file) (simp add: data)
qed

theorem rdb_byte_detected_witness:
  "\<exists>data. save_rdb (\<lambda>_. 0) (store_new 1) 1 = Inr data \<and>
     load_rdb (store_new 1) (data[17 := CHR ''x'']) = Some (store_new 1, Inl CrcMismatch)"
proof -
  let ?d = "rdb_header @ write_u64_le (crc64 [DB_SELECT, CHR 0x00, DB_END]) @ [DB_SELECT, CHR 0x00, DB_END]"
  have save: "save_rdb (\<lambda>_. 0) (store_new 1) 1 = Inr ?d"
    by (simp add: save_rdb_def encode_db_def iterate_db_def db_def store_new_def char_of_def)
  have "crc64 [DB_SELECT, CHR 0x00, DB_END] \<noteq> 0" by (simp add: crc64_def rdb_opcodes)
  then have crc: "of_nat (le_value (take 8 (drop 8 ?d))) \<noteq> (0 :: u64)" by simp
  have "17 < length ?d" "CHR ''x'' \<noteq> ?d ! 17" by (simp_all add: nth_append)
  from rdb_byte_detected [OF save crc _ this] save show ?thesis by simp
qed

text \<open>A file cut short whose checksum field is 0 is not reported as invalid: the reader panics.\<close>

lemma truncated_rdb_panics:
  "load_rdb s (rdb_header @ replicate 8 (CHR 0x00) @ [TYPE_STRING, CHR 0x00]) = None"
proof -
  have z: "replicate 8 (CHR 0x00) = write_u64_le 0" by code_simp
  show ?thesis unfolding z load_rdb_file
    by (simp add: opcodes_apart rdb_opcodes then_read_def read_bytes_len_def read_len_def read_u32_be_def
        map_read_def read_slice_def)
qed

section \<open>Any file\<close>

text \<open>Whatever a file holds, the values read from it are well formed, and so is the store.\<close>

lemma read_each_inv:
  "read_each n rd add acc data = Some (r, rest) \<Longrightarrow> P acc \<Longrightarrow>
   (\<And>x a data rest. rd data = Some (x, rest) \<Longrightarrow> P a \<Longrightarrow> P (add x a)) \<Longrightarrow> P r"
proof (induction n arbitrary: acc data)
  case (Suc n)
  from Suc.prems(1) obtain x rest' where "rd data = Some (x, rest')" "read_each n rd add (add x acc) rest' = Some (r, rest)"
    by (auto split: option.splits)
  with Suc.IH [of "add x acc" rest'] Suc.prems(2,3) show ?case by blast
qed simp

lemma then_read_Some: "then_read rd f data = Some (y, rest) \<longleftrightarrow> (\<exists>x mid. rd data = Some (x, mid) \<and> f x mid = Some (y, rest))"
  by (auto simp: then_read_def split: option.splits)

lemma map_read_Some: "map_read f rd data = Some (y, rest) \<longleftrightarrow> (\<exists>x. rd data = Some (x, rest) \<and> y = f x)"
  by (auto simp: map_read_def)

lemma read_hash_wf: "read_hash n data = Some (m, rest) \<Longrightarrow> hm_wf m"
  unfolding read_hash_def by (erule read_each_inv) auto

lemma read_inner_wf: "read_inner data = Some (p, rest) \<Longrightarrow> hm_wf (snd p)"
  by (auto simp: read_inner_def then_read_Some map_read_Some dest: read_hash_wf)

lemma decode_value_wf:
  assumes "decode_value ty data = Some (Inr v, rest)"
  shows "value_wf v"
proof -
  have st: "read_each n read_bytes_len hs_insert [] data = Some (st, rest) \<Longrightarrow> distinct st" for n data st rest
    by (erule read_each_inv) (auto simp: hs_insert_def)
  have zs: "read_each n (read_pair read_f64_le read_bytes_len)
       (\<lambda>(score, member) (m, sc). (hm_insert member score m, scores_add score member sc)) ([], []) data = Some ((m, sc), rest) \<Longrightarrow>
      value_wf (ZSetV m sc)" for n data m sc rest
    unfolding value_wf_zset
    by (drule read_each_inv [where P = "\<lambda>(m, sc). hm_wf m \<and> sets_distinct sc"])
       (auto simp: sets_distinct_scores_add, simp add: sets_distinct_def)
  have nh: "read_each n read_inner (\<lambda>(f, inner) m. hm_insert f inner m) [] data = Some (m, rest) \<Longrightarrow> value_wf (NestedHashV m)"
    for n data m rest
    by (drule read_each_inv [where P = "\<lambda>m. hm_wf m \<and> (\<forall>e\<in>set m. hm_wf (snd e))"])
       (use read_inner_wf set_hm_insert_subset in \<open>fastforce+\<close>)
  show ?thesis
    using assms unfolding decode_value_def
    by (auto simp: then_read_Some map_read_Some simp del: value_wf.simps(3,4) split: if_splits
        dest: st zs nh read_hash_wf)
qed

lemma decode_entry_wf: "decode_entry data = Some (Inr (k, v), rest) \<Longrightarrow> value_wf v"
proof (cases data)
  case (Cons ty data')
  moreover assume "decode_entry data = Some (Inr (k, v), rest)"
  ultimately obtain x mid r where "decode_value ty mid = Some (r, rest)" "Inr (k, v) = map_res (\<lambda>v. (x, v)) r"
    unfolding decode_entry.simps Cons then_read_Some map_read_Some by blast
  then show "value_wf v" using decode_value_wf by (cases r) auto
qed auto

lemma load_entry_wf:
  assumes "value_wf v" "store_wf s" "load_entry s i n k v ex = (s', r)"
  shows "store_wf s' \<and> length (databases s') = length (databases s)"
proof -
  have "store_wf t \<and> length (databases t) = length (databases s)" if "set_with_entry s i k v ex = (t, q)" for t q
    using that set_with_entry_wf [OF assms(1,2), of i k ex] set_with_entry_dbs [of s i k v ex] by (metis fst_conv)
  then show ?thesis using assms(2,3) by (auto simp: load_entry_def split: if_splits prod.splits sum.splits)
qed

lemma load_loop_wf:
  "load_loop data s i n = Some (s', r) \<Longrightarrow> store_wf s \<Longrightarrow> store_wf s' \<and> length (databases s') = length (databases s)"
proof (induction data s i n rule: load_loop.induct)
  case (2 opcode data s i n)
  have exp: "value_wf v" if "read_expiring data = Some ((at, Inr (k, v)), rest)" for at k v rest
    using that decode_entry_wf by (auto simp: read_expiring_def then_read_Some map_read_Some)
  show ?case
    using "2.prems" "2.IH" exp decode_entry_wf [of "opcode # data"] load_entry_wf
    by (auto simp del: decode_entry.simps split: if_splits list.splits option.splits sum.splits prod.splits) 
qed simp

lemma load_rdb_wf:
  "load_rdb s data = Some (s', r) \<Longrightarrow> store_wf s \<Longrightarrow> store_wf s' \<and> length (databases s') = length (databases s)"
  by (auto simp: load_rdb_def Let_def load_loop_wf split: if_splits dest: load_loop_wf)

end
