(* ===== verification/Aof.thy ===== *)
theory Aof
  imports Dispatch Rdb
begin

text \<open>
  \<open>persist/aof.rs\<close> and \<open>persist/aof_rewrite.rs\<close>: the encoding of a command in the append-only file and
  the commands that rebuild a dataset; and \<open>replay_aof\<close> of \<open>server.rs\<close>, which runs a file again.  The
  contents of the file are a byte list.  What the operating system does with written bytes (\<open>append\<close>,
  \<open>sync\<close>, the rename of a rewritten file) is left out.

  The reader of the file is the request parser of \<open>Resp\<close>, so the parameter \<open>nm\<close> for the parser
  combinators occurs here too.  A loop over a parser that is a parameter may not end, so \<open>replay_loop\<close> is
  a partial function: \<open>None\<close> when it does not end, and when a handler panics.
\<close>

section \<open>The file\<close>

definition encode_arg :: "bytes \<Rightarrow> bytes" where
  "encode_arg a = ''$'' @ nat_to_string (length a) @ crlf @ a @ crlf"

definition encode_command_for_aof :: "bytes list \<Rightarrow> bytes" where
  "encode_command_for_aof args =
     ''*'' @ nat_to_string (length args) @ crlf @ concat (map encode_arg args)"

text \<open>
  \<open>replay_aof\<close>: the command number \<open>n\<close> runs in the environment \<open>es n\<close>, in which it reads the clock.  What
  the parser leaves is the end of the buffer, so dropping the consumed bytes gives the rest.
\<close>

partial_function (option) replay_loop ::
  "nom \<Rightarrow> (nat \<Rightarrow> env) \<Rightarrow> nat \<Rightarrow> bytes \<Rightarrow> store \<Rightarrow> client_context \<Rightarrow> nat \<Rightarrow> (store \<times> client_context \<times> nat) option" where
  "replay_loop nm es d buf s c n =
     (if buf = [] then Some (s, c, n)
      else case parse_command nm buf of
        IOk remaining args \<Rightarrow>
          (if args = [] then Some (s, c, n)
           else case dispatch d (upper (hd args)) (es n) s c (tl args) of
             None \<Rightarrow> None
           | Some r \<Rightarrow> replay_loop nm es d remaining (fst r) (fst (snd r)) (n + 1))
      | _ \<Rightarrow> Some (s, c, n))"

definition replay_aof :: "nom \<Rightarrow> (nat \<Rightarrow> env) \<Rightarrow> nat \<Rightarrow> store \<Rightarrow> bytes \<Rightarrow> (store \<times> client_context \<times> nat) option" where
  "replay_aof nm es d s data = replay_loop nm es d data s client_context_new 0"

text \<open>What a replay is meant to do: the commands, one after the other, on one connection.\<close>

fun run_log ::
  "(nat \<Rightarrow> env) \<Rightarrow> nat \<Rightarrow> bytes list list \<Rightarrow> store \<Rightarrow> client_context \<Rightarrow> nat \<Rightarrow> (store \<times> client_context \<times> nat) option" where
  "run_log es d [] s c n = Some (s, c, n)"
| "run_log es d (args # cmds) s c n =
     (case dispatch d (upper (hd args)) (es n) s c (tl args) of
        None \<Rightarrow> None
      | Some r \<Rightarrow> run_log es d cmds (fst r) (fst (snd r)) (n + 1))"

section \<open>The rewrite\<close>

fun commands_for_value :: "(f64 \<Rightarrow> bytes) \<Rightarrow> bytes \<Rightarrow> storage_value \<Rightarrow> bytes list list" where
  "commands_for_value disp key (StringV v) = [[''SET'', key, v]]"
| "commands_for_value disp key (ListV l) = (if l = [] then [] else [''RPUSH'' # key # l])"
| "commands_for_value disp key (SetV st) = (if st = [] then [] else [''SADD'' # key # st])"
| "commands_for_value disp key (HashV h) = (if h = [] then [] else [''HSET'' # key # flatten_pairs h])"
| "commands_for_value disp key (ZSetV members scores) =
     (if members = [] then []
      else [''ZADD'' # key # flatten_pairs (map (\<lambda>(m, score). (disp score, m)) members)])"
| "commands_for_value disp key (StreamV entries last_ms last_seq) =
     map (\<lambda>e. ''XADD'' # key # (nat_to_string (unat (id_ms e)) @ ''-'' @ nat_to_string (unat (id_seq e))) #
            flatten_pairs (se_fields e)) entries"
| "commands_for_value disp key (NestedHashV nh) =
     concat (map (\<lambda>(field, inner). map (\<lambda>(sub, v). [''NHSET'', key, field, sub, v]) inner) nh)"

definition commands_for_entry :: "(f64 \<Rightarrow> bytes) \<Rightarrow> bytes \<times> entry \<Rightarrow> bytes list list" where
  "commands_for_entry disp p =
     commands_for_value disp (fst p) (ent_value (snd p)) @
     (case ent_expire_at (snd p) of
        None \<Rightarrow> []
      | Some at_ms \<Rightarrow> [[''PEXPIREAT'', fst p, nat_to_string (unat at_ms)]])"

definition commands_for_db :: "(f64 \<Rightarrow> bytes) \<Rightarrow> (nat \<Rightarrow> u64) \<Rightarrow> store \<Rightarrow> nat \<Rightarrow> bytes list list" where
  "commands_for_db disp clock s db_idx =
     (case iterate_db (clock db_idx) s db_idx of
        Inl _ \<Rightarrow> []
      | Inr [] \<Rightarrow> []
      | Inr (p # ps) \<Rightarrow>
          (if 1 < length (databases s) then [[''SELECT'', nat_to_string db_idx]] else []) @
          concat (map (commands_for_entry disp) (p # ps)))"

text \<open>The contents of the file \<open>write_dataset\<close> writes.\<close>

definition write_dataset :: "(f64 \<Rightarrow> bytes) \<Rightarrow> (nat \<Rightarrow> u64) \<Rightarrow> store \<Rightarrow> bytes" where
  "write_dataset disp clock s =
     concat (map encode_command_for_aof (concat (map (commands_for_db disp clock s) [0..<length (databases s)])))"

section \<open>Replay is running the commands\<close>

lemma encode_command_serialize:
  "encode_command_for_aof args = serialize_response fmt (RArray (Some (map (\<lambda>a. BulkString (Some a)) args)))"
  by (simp add: encode_command_for_aof_def encode_arg_def [abs_def] serialize_response_def comp_def)

definition frame_fits :: "bytes list \<Rightarrow> bool" where
  "frame_fits args \<longleftrightarrow> args \<noteq> [] \<and> in_i64 (int (length args)) \<and> list_all (\<lambda>a. in_i64 (int (length a))) args"

lemma parse_encoded:
  assumes "nom_laws nm" "frame_fits args" "length (encode_command_for_aof args @ rest) \<le> u64_max"
  shows "parse_command nm (encode_command_for_aof args @ rest) = IOk rest args"
  using parse_command_args [OF assms(1), of args "\<lambda>_. []" rest] assms(2,3)
  by (simp add: encode_command_serialize [of _ "\<lambda>_. []"] frame_fits_def list_all_iff)

lemma replay_loop_frames:
  assumes "nom_laws nm" "list_all frame_fits cmds"
    and "tail = [] \<or> parse_command nm tail = IError \<or> (\<exists>r. parse_command nm tail = IOk r [])"
    and "length (concat (map encode_command_for_aof cmds) @ tail) \<le> u64_max"
  shows "replay_loop nm es d (concat (map encode_command_for_aof cmds) @ tail) s c n = run_log es d cmds s c n"
  using assms(2,4)
proof (induction cmds arbitrary: s c n)
  case Nil
  then show ?case using assms(3) by (subst replay_loop.simps) auto
next
  case (Cons args cmds)
  let ?rest = "concat (map encode_command_for_aof cmds) @ tail"
  have args: "frame_fits args" "args \<noteq> []" using Cons.prems(1) by (auto simp: frame_fits_def)
  have parse: "parse_command nm (encode_command_for_aof args @ ?rest) = IOk ?rest args"
    using parse_encoded [OF assms(1) args(1), of ?rest] Cons.prems(2) by simp
  have ne: "encode_command_for_aof args @ ?rest \<noteq> []" by (simp add: encode_command_for_aof_def)
  have "replay_loop nm es d (encode_command_for_aof args @ ?rest) s c n =
      (case dispatch d (upper (hd args)) (es n) s c (tl args) of
         None \<Rightarrow> None | Some r \<Rightarrow> replay_loop nm es d ?rest (fst r) (fst (snd r)) (n + 1))"
    unfolding replay_loop.simps [of nm es d "encode_command_for_aof args @ ?rest"] if_not_P [OF ne] parse
    using args(2) by simp
  then show ?case using Cons.IH Cons.prems by (simp split: option.split)
qed

section \<open>Frames that are cut off\<close>

text \<open>
  A proper beginning of a frame is never a request: wherever the frame is cut, the parser reports an error.
  The lemmas follow the parts of a frame, for \<^term>\<open>p\<close> the bytes that are there and \<^term>\<open>q\<close> the missing ones.
\<close>

lemma nat_to_string_prefix: "nat_to_string n = p @ q \<Longrightarrow> p \<noteq> [] \<Longrightarrow> \<exists>m\<le>n. p = nat_to_string m"
proof (induction n arbitrary: q rule: nat_to_string.induct)
  case (1 n)
  show ?case
  proof (cases "n < 10 \<or> q = []")
    case True
    then have "q = []" using "1.prems" nat_to_string.simps [of n] by (cases p) auto
    then show ?thesis using "1.prems"(1) by auto
  next
    case False
    then have "nat_to_string (n div 10) @ [digit_char (n mod 10)] = (p @ butlast q) @ [last q]"
      using "1.prems"(1) nat_to_string.simps [of n] by simp
    then have "nat_to_string (n div 10) = p @ butlast q" by (simp only: append1_eq_conv)
    with "1.IH" False "1.prems"(2) obtain m where "m \<le> n div 10" "p = nat_to_string m" by blast
    then show ?thesis by (intro exI [of _ m]) simp
  qed
qed

lemma cut_append:
  assumes "p @ q = xs @ ys"
  obtains (left) us where "p @ us = xs" "us \<noteq> []" | (right) p2 where "p = xs @ p2" "p2 @ q = ys"
proof -
  from assms obtain us where "p = xs @ us \<and> us @ q = ys \<or> p @ us = xs \<and> q = us @ ys"
    unfolding append_eq_append_conv2 by blast
  then show thesis using left right by (cases "us = []") auto
qed

lemma crlf_cut: "nom_laws nm \<Longrightarrow> p @ q = crlf \<Longrightarrow> q \<noteq> [] \<Longrightarrow> n_crlf nm p = IError"
  by (auto simp: nom_laws_def crlf_def Cons_eq_append_conv append_eq_Cons_conv)

lemma number_cut:
  assumes laws: "nom_laws nm" and n: "in_i64 (int n)" and pq: "p @ q = nat_to_string n @ crlf" "q \<noteq> []"
  shows "n_terminated nm (n_i64 nm) (n_crlf nm) p = IError"
proof -
  have hit: "n_i64 nm (nat_to_string m @ i) = IOk i (int m)"
    if "m \<le> n" "case i of [] \<Rightarrow> True | c # _ \<Rightarrow> digit_val c = None" for m i
  proof -
    have "in_i64 (int m)" using n that(1) by (auto simp: in_i64_def i64_min_def)
    moreover have "\<forall>z i. in_i64 z \<and> (case i of [] \<Rightarrow> True | c # _ \<Rightarrow> digit_val c = None) \<longrightarrow>
        n_i64 nm (int_to_string z @ i) = IOk i z"
      using laws unfolding nom_laws_def by blast
    ultimately show ?thesis using that(2) int_to_string_nat by metis
  qed
  from pq(1) show ?thesis
  proof (cases rule: cut_append)
    case (left us)
    show ?thesis
    proof (cases "p = []")
      case True
      then show ?thesis using i64_consumes [OF laws, of "[]"] by (simp add: terminated_eq [OF laws])
    next
      case False
      with nat_to_string_prefix [OF left(1) [symmetric]] obtain m where m: "m \<le> n" "p = nat_to_string m" by blast
      show ?thesis using hit [OF m(1), of "[]"] crlf_cut [OF laws, of "[]" crlf]
        by (simp add: m(2) terminated_eq [OF laws] crlf_def)
    qed
  next
    case line: (right us)
    have "case us of [] \<Rightarrow> True | c # _ \<Rightarrow> digit_val c = None"
      using line(2) by (auto simp: crlf_def Cons_eq_append_conv append_eq_Cons_conv digit_val_def split: list.split)
    from hit [OF order_refl this] crlf_cut [OF laws line(2) pq(2)] line(1) show ?thesis
      by (simp add: terminated_eq [OF laws])
  qed
qed

lemma tags_cut: "nom_laws nm \<Longrightarrow> n_tag nm [c] [] = IError"
  by (simp add: nom_laws_def)

lemma bulk_cut:
  assumes laws: "nom_laws nm" and a: "in_i64 (int (length a))" and pq: "p @ q = encode_arg a" "q \<noteq> []"
  shows "parse_bulk_string nm p = IError"
proof (cases p)
  case Nil
  then show ?thesis by (simp add: parse_bulk_string_def tags_cut [OF laws])
next
  case (Cons c p1)
  have c: "c = CHR ''$''" "p1 @ q = (nat_to_string (length a) @ crlf) @ a @ crlf"
    using pq(1) Cons by (simp_all add: encode_arg_def)
  from c(2) show ?thesis
  proof (cases rule: cut_append)
    case (left us)
    from number_cut [OF laws a left] show ?thesis by (simp add: Cons c(1) parse_bulk_string_def tag_hit [OF laws])
  next
    case 2: (right p2)
    have take: "n_take nm (length a) p2 = (if length a \<le> length p2 then IOk (drop (length a) p2) (take (length a) p2) else IError)"
      using laws by (simp add: nom_laws_def)
    have "n_crlf nm (drop (length a) p2) = IError" if le: "length a \<le> length p2"
    proof (rule crlf_cut [OF laws _ pq(2)])
      show "drop (length a) p2 @ q = crlf" using arg_cong [OF 2(2), of "drop (length a)"] le by simp
    qed
    then show ?thesis
      using bind_number [OF laws a, of p2] take a
      by (simp add: Cons c(1) 2(1) parse_bulk_string_def tag_hit [OF laws] i64_as_usize_nonneg)
  qed
qed

lemma repeat_cut:
  assumes "\<And>v r'. v \<in> set vs \<Longrightarrow> P (enc v @ r') = IOk r' (f v)"
    and "\<And>v p q. v \<in> set vs \<Longrightarrow> p @ q = enc v \<Longrightarrow> q \<noteq> [] \<Longrightarrow> P p = IError"
    and "p @ q = concat (map enc vs)" "q \<noteq> []"
  shows "repeat_exact (length vs) P p = IError"
  using assms
proof (induction vs arbitrary: p)
  case (Cons v vs)
  from Cons.prems(3) have "p @ q = enc v @ concat (map enc vs)" by simp
  then show ?case
  proof (cases rule: cut_append)
    case (left us)
    then show ?thesis using Cons.prems(2) [of v p us] by simp
  next
    case 2: (right p2)
    have "repeat_exact (length vs) P p2 = IError"
      by (rule Cons.IH [OF _ _ 2(2) Cons.prems(4)]) (simp add: Cons.prems(1), rule Cons.prems(2), simp_all)
    then show ?thesis using Cons.prems(1) [of v p2] 2(1) by simp
  qed
qed simp

lemma value_bulk:
  assumes laws: "nom_laws nm"
  shows "i = [] \<or> hd i = CHR ''$'' \<Longrightarrow> resp_value_depth nm (Suc m) i = parse_bulk_string nm i"
proof (cases i)
  case Nil
  then show ?thesis
    by (simp add: alt_eq [OF laws] simple_string_def parse_error_def parse_integer_def parse_array_def
        parse_bulk_string_def tags_cut [OF laws])
next
  case (Cons c r)
  assume "i = [] \<or> hd i = CHR ''$''"
  then have c: "i = CHR ''$'' # r" using Cons by simp
  have "parse_array nm q i = IError" for q by (simp add: c parse_array_def tag_miss [OF laws])
  then show ?thesis
    by (cases "parse_bulk_string nm i") (simp_all add: c alt_eq [OF laws] other_tags_miss [OF laws])
qed

lemma args_cut:
  assumes laws: "nom_laws nm" and len: "list_all (\<lambda>a. in_i64 (int (length a))) args"
    and pq: "p @ q = concat (map encode_arg args)" "q \<noteq> []"
  shows "repeat_exact (length args) (resp_value_depth nm (Suc m)) p = IError"
proof (rule repeat_cut [OF _ _ pq, where f = "\<lambda>x. BulkString (Some x)"])
  fix v r' assume "v \<in> set args"
  then show "resp_value_depth nm (Suc m) (encode_arg v @ r') = IOk r' (BulkString (Some v))"
    using value_bulk [OF laws, of "encode_arg v @ r'"] bulk_hit [OF laws, of v r'] len
    by (simp add: encode_arg_def list_all_iff del: resp_value_depth.simps)
next
  fix v p' q' assume "v \<in> set args" and e: "p' @ q' = encode_arg v" "q' \<noteq> []"
  moreover have "p' = [] \<or> hd p' = CHR ''$''" using e(1) by (cases p') (simp_all add: encode_arg_def)
  ultimately show "resp_value_depth nm (Suc m) p' = IError"
    using value_bulk [OF laws] bulk_cut [OF laws _ e] len by (simp add: list_all_iff del: resp_value_depth.simps)
qed

lemma array_cut:
  assumes laws: "nom_laws nm" and fits: "frame_fits args" and pq: "p @ q = encode_command_for_aof args" "q \<noteq> []"
    and le: "length p \<le> u64_max"
  shows "parse_array nm (resp_value_depth nm (Suc m)) p = IError"
proof (cases p)
  case Nil
  then show ?thesis by (simp add: parse_array_def tags_cut [OF laws])
next
  case (Cons c p1)
  let ?P = "resp_value_depth nm (Suc m)" and ?n = "length args"
  have n: "in_i64 (int ?n)" using fits by (simp add: frame_fits_def)
  have c: "c = CHR ''*''" "p1 @ q = (nat_to_string ?n @ crlf) @ concat (map encode_arg args)"
    using pq(1) Cons by (simp_all add: encode_command_for_aof_def)
  from c(2) show ?thesis
  proof (cases rule: cut_append)
    case (left us)
    from number_cut [OF laws n left] show ?thesis by (simp add: Cons c(1) parse_array_def tag_hit [OF laws])
  next
    case 2: (right p2)
    have "consuming ?P"
      using resp_value_depth_decided [OF laws] by (auto simp: consuming_def decided_def simp del: resp_value_depth.simps)
    moreover have "length p2 \<le> u64_max" using le Cons 2(1) by simp
    ultimately have "n_many_m_n nm ?n ?n ?P p2 = IError"
      using many_eq [OF laws] args_cut [OF laws _ 2(2) pq(2)] fits
      by (simp add: frame_fits_def del: resp_value_depth.simps)
    then show ?thesis
      using bind_number [OF laws n, of p2] n
      by (simp add: Cons c(1) 2(1) parse_array_def tag_hit [OF laws] i64_as_usize_nonneg del: resp_value_depth.simps)
  qed
qed

lemma parse_cut_frame:
  assumes laws: "nom_laws nm" and fits: "frame_fits args" and k: "k < length (encode_command_for_aof args)"
    and le: "length (take k (encode_command_for_aof args)) \<le> u64_max"
  shows "parse_command nm (take k (encode_command_for_aof args)) = IError"
proof -
  let ?p = "take k (encode_command_for_aof args)"
  have arr: "parse_array nm (resp_value_depth nm (Suc m)) ?p = IError" for m
    by (rule array_cut [OF laws fits, of _ "drop k (encode_command_for_aof args)"]) (use k le in simp_all)
  show ?thesis
  proof (cases ?p)
    case Nil
    show ?thesis
      unfolding Nil using value_bulk [OF laws, of "[]" 0]
      by (simp add: parse_command_def parse_resp_value_def parse_bulk_string_def tags_cut [OF laws] del: resp_value_depth.simps)
  next
    case (Cons c r)
    then have c: "c = CHR ''*''" by (cases k) (simp_all add: encode_command_for_aof_def)
    have "length ?p = Suc (length r)" by (simp only: Cons) simp
    moreover have "resp_value_depth nm (Suc (Suc (length r))) ?p = IError"
      unfolding resp_value_depth.simps(2) [of nm "Suc (length r)"] alt_eq [OF laws]
      using arr [of "length r"] unfolding Cons c
      by (simp add: other_tags_miss [OF laws] del: resp_value_depth.simps)
    ultimately show ?thesis
      unfolding parse_command_def parse_resp_value_def by (simp del: resp_value_depth.simps)
  qed
qed

lemma parse_bulk_first:
  assumes "nom_laws nm" "in_i64 (int (length a))"
  shows "parse_command nm (encode_arg a @ r) = IOk r []"
  using value_bulk [OF assms(1), of "encode_arg a @ r"] bulk_hit [OF assms, of r]
  by (simp add: parse_command_def parse_resp_value_def encode_arg_def del: resp_value_depth.simps)

section \<open>Properties\<close>

text \<open>
  C5: Replaying an append-only file runs exactly the commands that were logged, in their order, each
  decoded to the very arguments it was logged with, whatever bytes they contain.  When the server died in
  the middle of an append, wherever in the command the bytes break off, the replay runs the commands before it
  and ignores the rest.
\<close>

theorem aof_replay_exact:
  assumes "nom_laws nm" "list_all frame_fits cmds" "frame_fits torn" "k < length (encode_command_for_aof torn)"
    and "length (concat (map encode_command_for_aof cmds) @ take k (encode_command_for_aof torn)) \<le> u64_max"
  shows "replay_aof nm es d s (concat (map encode_command_for_aof cmds) @ take k (encode_command_for_aof torn)) =
    run_log es d cmds s client_context_new 0"
  unfolding replay_aof_def
  by (rule replay_loop_frames [OF assms(1,2) _ assms(5)]) (use parse_cut_frame [OF assms(1,3,4)] assms(5) in simp)

theorem aof_replay_exact_witness:
  "replay_aof nom_ref (\<lambda>_. env0) 1 (store_new 1)
      (concat (map encode_command_for_aof [[''SET'', ''k'', ''v''], [''SELECT'', ''0'']]) @
       take 9 (encode_command_for_aof [''DEL'', ''k''])) =
   run_log (\<lambda>_. env0) 1 [[''SET'', ''k'', ''v''], [''SELECT'', ''0'']] (store_new 1) client_context_new 0"
proof (rule aof_replay_exact [OF nom_laws_ref])
  have len: "length (encode_command_for_aof [''DEL'', ''k'']) = 20"
    "length (concat (map encode_command_for_aof [[''SET'', ''k'', ''v''], [''SELECT'', ''0'']])) = 50" by code_simp+
  then show "9 < length (encode_command_for_aof [''DEL'', ''k''])" by simp
  show "length (concat (map encode_command_for_aof [[''SET'', ''k'', ''v''], [''SELECT'', ''0'']]) @
      take 9 (encode_command_for_aof [''DEL'', ''k''])) \<le> u64_max"
    unfolding length_append len by (simp add: len u64_max_def)
qed (simp_all add: frame_fits_def in_i64_def i64_min_def i64_max_def)

end
