(* ===== verification/Backlog.thy ===== *)
theory Backlog
  imports RustStd
begin

text \<open>
  \<open>replication/backlog.rs\<close>: the ring buffer of the last bytes of the replication stream, with the live
  replicas that get every write as it is made.  What the master relies on is the locale
  \<open>stream_log\<close>: a log that stands for the whole stream so far, can be appended to, and returns the rest
  of the stream from any offset it can still serve.  The ring buffer is proved to be such a log.

  A replica is known by the number of its channel; \<open>is_open\<close> says which channels still have a
  receiver.  A buffer of capacity 0 has no place to write to: \<open>push\<close> panics, \<^term>\<open>None\<close>.
\<close>

section \<open>The ring buffer\<close>

record repl_backlog =
  buffer :: bytes
  capacity :: nat
  write_pos :: nat
  global_offset :: u64
  replicas :: "(u64 \<times> nat) list"
  next_replica_id :: u64

definition repl_backlog_new :: "nat \<Rightarrow> repl_backlog" where
  "repl_backlog_new cap =
     \<lparr>buffer = replicate cap (CHR 0x00), capacity = cap, write_pos = 0, global_offset = 0,
      replicas = [], next_replica_id = 0\<rparr>"

fun push_bytes :: "bytes \<Rightarrow> bytes \<Rightarrow> nat \<Rightarrow> nat \<Rightarrow> (bytes \<times> nat) option" where
  "push_bytes [] buf cap pos = Some (buf, pos)"
| "push_bytes (b # bs) buf cap pos =
     (if pos < length buf then push_bytes bs (buf[pos := b]) cap ((pos + 1) mod cap) else None)"

text \<open>The new backlog and the messages sent: the data to every replica that is still there.\<close>

definition backlog_push ::
  "(nat \<Rightarrow> bool) \<Rightarrow> repl_backlog \<Rightarrow> bytes \<Rightarrow> (repl_backlog \<times> (nat \<times> bytes) list) option" where
  "backlog_push is_open bl data =
     (case push_bytes data (buffer bl) (capacity bl) (write_pos bl) of
        None \<Rightarrow> None
      | Some (buf, pos) \<Rightarrow>
          (let live = filter (\<lambda>(i, tx). is_open tx) (replicas bl)
           in Some (bl\<lparr>buffer := buf, write_pos := pos,
                       global_offset := global_offset bl + of_nat (length data), replicas := live\<rparr>,
                    map (\<lambda>(i, tx). (tx, data)) live)))"

definition register_replica :: "repl_backlog \<Rightarrow> nat \<Rightarrow> repl_backlog \<times> u64" where
  "register_replica bl tx =
     (let i = next_replica_id bl
      in (bl\<lparr>next_replica_id := i + 1, replicas := replicas bl @ [(i, tx)]\<rparr>, i))"

definition unregister_replica :: "repl_backlog \<Rightarrow> u64 \<Rightarrow> repl_backlog" where
  "unregister_replica bl i = bl\<lparr>replicas := filter (\<lambda>(rid, _). rid \<noteq> i) (replicas bl)\<rparr>"

definition replica_count :: "repl_backlog \<Rightarrow> nat" where
  "replica_count bl = length (replicas bl)"

definition window_start :: "repl_backlog \<Rightarrow> u64" where
  "window_start bl = saturating_sub (global_offset bl) (of_nat (capacity bl))"

definition read_from :: "repl_backlog \<Rightarrow> u64 \<Rightarrow> bytes" where
  "read_from bl offset =
     (if offset < window_start bl \<or> global_offset bl < offset then []
      else map (\<lambda>i. buffer bl ! unat ((offset + of_nat i) mod of_nat (capacity bl)))
             [0..<unat (global_offset bl - offset)])"

definition can_serve_partial :: "repl_backlog \<Rightarrow> bytes \<Rightarrow> bytes \<Rightarrow> u64 \<Rightarrow> bool" where
  "can_serve_partial bl requested_replid current_replid offset \<longleftrightarrow>
     requested_replid = current_replid \<and> window_start bl \<le> offset \<and> offset \<le> global_offset bl"

text \<open>A sequence of writes: the backlog after them and the messages to the channel \<open>tx\<close>, in order.\<close>

fun push_all :: "(nat \<Rightarrow> bool) \<Rightarrow> nat \<Rightarrow> repl_backlog \<Rightarrow> bytes list \<Rightarrow> (repl_backlog \<times> bytes list) option" where
  "push_all is_open tx bl [] = Some (bl, [])"
| "push_all is_open tx bl (d # ds) =
     (case backlog_push is_open bl d of
        None \<Rightarrow> None
      | Some (bl', sent) \<Rightarrow>
          map_option (\<lambda>(bl'', msgs). (bl'', map snd (filter (\<lambda>m. fst m = tx) sent) @ msgs))
            (push_all is_open tx bl' ds))"

section \<open>PSYNC on the master\<close>

text \<open>
  \<open>replication/master.rs\<close>, \<open>handle_psync\<close>: what is decided and registered under the lock, and what is
  written to the socket before the live stream begins.  The backlog of the second step is the one at
  the time of the second lock, after any writes in between.
\<close>

record psync_session =
  is_partial :: bool
  catch_up :: bytes
  current_offset :: u64
  replica_id :: u64

definition psync_begin ::
  "repl_backlog \<Rightarrow> bytes \<Rightarrow> bytes list \<Rightarrow> nat \<Rightarrow> repl_backlog \<times> psync_session" where
  "psync_begin bl replid args tx =
     (let req_replid = (case args of [] \<Rightarrow> ''?'' | a # _ \<Rightarrow> utf8_lossy a);
          offset = (if 1 < length args then
                      (case parse_i64 (utf8_lossy (args ! 1)) of None \<Rightarrow> - 1 | Some i \<Rightarrow> i) else - 1);
          partial = (0 \<le> offset \<and> can_serve_partial bl req_replid replid (i64_as_u64 offset));
          data = (if partial then read_from bl (i64_as_u64 offset) else []);
          (bl', rid) = register_replica bl tx
      in (bl', \<lparr>is_partial = partial, catch_up = data, current_offset = global_offset bl, replica_id = rid\<rparr>))"

definition eol :: bytes where "eol = [CHR 0x0D, CHR 0x0A]"

definition psync_preamble :: "bytes \<Rightarrow> psync_session \<Rightarrow> bytes \<Rightarrow> repl_backlog \<Rightarrow> bytes" where
  "psync_preamble replid ses rdb bl =
     (if is_partial ses then ''+CONTINUE'' @ eol @ catch_up ses
      else ''+FULLRESYNC '' @ replid @ '' '' @ nat_to_string (unat (current_offset ses)) @ eol @
           ''$'' @ nat_to_string (length rdb) @ eol @ rdb @ read_from bl (current_offset ses))"

section \<open>What a log of a stream promises\<close>

locale stream_log =
  fixes holds :: "'l \<Rightarrow> bytes \<Rightarrow> bool"
    and append_log :: "'l \<Rightarrow> bytes \<Rightarrow> 'l option"
    and read_log :: "'l \<Rightarrow> nat \<Rightarrow> bytes"
    and servable :: "'l \<Rightarrow> nat \<Rightarrow> bool"
  assumes append_holds:
      "holds l h \<Longrightarrow> length h + length d < 2 ^ 64 \<Longrightarrow> \<exists>l'. append_log l d = Some l' \<and> holds l' (h @ d)"
    and read_suffix: "holds l h \<Longrightarrow> servable l n \<Longrightarrow> n \<le> length h \<and> read_log l n = drop n h"
begin

primrec append_all :: "'l \<Rightarrow> bytes list \<Rightarrow> 'l option" where
  "append_all l [] = Some l"
| "append_all l (d # ds) = Option.bind (append_log l d) (\<lambda>l'. append_all l' ds)"

lemma append_all_holds:
  "holds l h \<Longrightarrow> length h + length (concat ds) < 2 ^ 64 \<Longrightarrow>
   \<exists>l'. append_all l ds = Some l' \<and> holds l' (h @ concat ds)"
proof (induction ds arbitrary: l h)
  case (Cons d ds)
  then obtain l1 where l1: "append_log l d = Some l1" "holds l1 (h @ d)"
    using append_holds [of l h d] by auto
  with Cons.IH [of l1 "h @ d"] Cons.prems show ?case by (auto simp: add.assoc)
qed simp

text \<open>A replica that has the first \<open>n\<close> bytes and gets the catch-up and then every later write has all.\<close>

lemma resync_complete:
  assumes "holds l h" "servable l n" "length h + length (concat ds) < 2 ^ 64"
  shows "\<exists>l'. append_all l ds = Some l' \<and> holds l' (take n h @ read_log l n @ concat ds)"
proof -
  have "take n h @ read_log l n = h" using read_suffix [OF assms(1,2)] by simp
  then show ?thesis using append_all_holds [OF assms(1,3)] by (metis append.assoc)
qed

end

section \<open>The ring buffer is a log\<close>

text \<open>The stream a ring buffer stands for: the byte at offset \<open>j\<close> is at index \<open>j mod capacity\<close>.\<close>

definition ring_holds :: "nat \<Rightarrow> repl_backlog \<Rightarrow> bytes \<Rightarrow> bool" where
  "ring_holds cap bl h \<longleftrightarrow> capacity bl = cap \<and>
     0 < capacity bl \<and> capacity bl < 2 ^ 64 \<and> length (buffer bl) = capacity bl \<and> length h < 2 ^ 64 \<and>
     write_pos bl = length h mod capacity bl \<and> global_offset bl = of_nat (length h) \<and>
     (\<forall>j<length h. length h \<le> j + capacity bl \<longrightarrow> buffer bl ! (j mod capacity bl) = h ! j)"

lemma ring_holds_new: "0 < cap \<Longrightarrow> cap < 2 ^ 64 \<Longrightarrow> ring_holds cap (repl_backlog_new cap) []"
  by (simp add: ring_holds_def repl_backlog_new_def)

lemma mod_distinct_in_window:
  "j < n \<Longrightarrow> n < j + cap \<Longrightarrow> j mod cap \<noteq> n mod cap" for j n cap :: nat
proof
  assume *: "j < n" "n < j + cap" "j mod cap = n mod cap"
  then have "cap dvd n - j" by (metis less_imp_le_nat mod_eq_dvd_iff_nat)
  then have "cap \<le> n - j" using * by (simp add: dvd_imp_le)
  with * show False by simp
qed

text \<open>One byte more.\<close>

lemma ring_byte:
  assumes "length buf = cap" "0 < cap" "pos = length h mod cap"
    and "\<forall>j<length h. length h \<le> j + cap \<longrightarrow> buf ! (j mod cap) = h ! j"
  shows "\<forall>j<length (h @ [b]). length (h @ [b]) \<le> j + cap \<longrightarrow> buf[pos := b] ! (j mod cap) = (h @ [b]) ! j"
proof (intro allI impI)
  fix j assume j: "j < length (h @ [b])" "length (h @ [b]) \<le> j + cap"
  have pos: "pos < length buf" using assms by simp
  show "buf[pos := b] ! (j mod cap) = (h @ [b]) ! j"
  proof (cases "j = length h")
    case True
    then show ?thesis using pos assms(3) by simp
  next
    case False
    then have "j < length h" "length h < j + cap" using j by auto
    then show ?thesis
      using mod_distinct_in_window [of j "length h" cap] assms(3,4) by (simp add: nth_append)
  qed
qed

lemma push_bytes_holds:
  assumes "length buf = cap" "0 < cap"
    and "\<forall>j<length h. length h \<le> j + cap \<longrightarrow> buf ! (j mod cap) = h ! j"
  shows "\<exists>buf'. push_bytes data buf cap (length h mod cap) = Some (buf', length (h @ data) mod cap) \<and>
     length buf' = cap \<and>
     (\<forall>j<length (h @ data). length (h @ data) \<le> j + cap \<longrightarrow> buf' ! (j mod cap) = (h @ data) ! j)"
  using assms
proof (induction data arbitrary: buf h)
  case (Cons b data)
  let ?pos = "length h mod cap"
  have pos: "?pos < length buf" using Cons.prems by simp
  have step: "push_bytes (b # data) buf cap ?pos = push_bytes data (buf[?pos := b]) cap (length (h @ [b]) mod cap)"
    using pos by (simp add: mod_Suc_eq)
  show ?case
    unfolding step
    using Cons.IH [of "buf[?pos := b]" "h @ [b]"] ring_byte [OF Cons.prems(1,2) refl Cons.prems(3), of b] Cons.prems(1,2)
    by simp
qed simp

lemma push_holds:
  assumes "ring_holds cap bl h" "length h + length data < 2 ^ 64"
  shows "\<exists>bl'. backlog_push is_open bl data =
           Some (bl', map (\<lambda>(i, tx). (tx, data)) (filter (\<lambda>(i, tx). is_open tx) (replicas bl))) \<and>
         ring_holds cap bl' (h @ data) \<and> replicas bl' = filter (\<lambda>(i, tx). is_open tx) (replicas bl)"
proof -
  have len: "length (buffer bl) = capacity bl" "0 < capacity bl" "write_pos bl = length h mod capacity bl"
    and old: "\<forall>j<length h. length h \<le> j + capacity bl \<longrightarrow> buffer bl ! (j mod capacity bl) = h ! j"
    using assms(1) by (auto simp: ring_holds_def)
  obtain buf' where p: "push_bytes data (buffer bl) (capacity bl) (write_pos bl) =
      Some (buf', length (h @ data) mod capacity bl)" "length buf' = capacity bl"
      "\<forall>j<length (h @ data). length (h @ data) \<le> j + capacity bl \<longrightarrow> buf' ! (j mod capacity bl) = (h @ data) ! j"
    using push_bytes_holds [OF len(1,2) old, of data] len(3) by auto
  show ?thesis
    using assms p by (simp add: backlog_push_def ring_holds_def Let_def)
qed

lemma unat_u64: "n < 2 ^ 64 \<Longrightarrow> unat (of_nat n :: u64) = n"
  by (simp add: unsigned_of_nat take_bit_nat_eq_self)

definition ring_servable :: "repl_backlog \<Rightarrow> nat \<Rightarrow> bool" where
  "ring_servable bl n \<longleftrightarrow> n < 2 ^ 64 \<and> window_start bl \<le> of_nat n \<and> of_nat n \<le> global_offset bl"

lemma window_start_holds:
  assumes "ring_holds cap bl h"
  shows "unat (window_start bl) = length h - capacity bl"
proof -
  have u: "unat (global_offset bl) = length h" "unat (of_nat (capacity bl) :: u64) = capacity bl"
    using assms unat_u64 by (auto simp: ring_holds_def)
  show ?thesis
  proof (cases "global_offset bl < of_nat (capacity bl)")
    case True
    then show ?thesis using u by (simp add: window_start_def saturating_sub_def word_less_nat_alt)
  next
    case False
    then have "unat (global_offset bl - of_nat (capacity bl)) = length h - capacity bl"
      using u unat_sub [of "of_nat (capacity bl)" "global_offset bl"] by (simp add: not_less)
    then show ?thesis using False by (simp add: window_start_def saturating_sub_def)
  qed
qed

lemma ring_servable_iff:
  assumes "ring_holds cap bl h"
  shows "ring_servable bl n \<longleftrightarrow> n \<le> length h \<and> length h \<le> n + capacity bl"
proof -
  have h: "length h < 2 ^ 64" "unat (global_offset bl) = length h"
    using assms unat_u64 by (auto simp: ring_holds_def)
  show ?thesis
  proof (cases "n < 2 ^ 64")
    case True
    then show ?thesis
      using window_start_holds [OF assms] h unat_u64 [OF True]
      by (auto simp: ring_servable_def word_le_nat_alt)
  qed (use h in \<open>auto simp: ring_servable_def\<close>)
qed

lemma read_from_holds:
  assumes "ring_holds cap bl h" "ring_servable bl n"
  shows "n \<le> length h \<and> read_from bl (of_nat n) = drop n h"
proof -
  have n: "n \<le> length h" "length h \<le> n + capacity bl" using ring_servable_iff [OF assms(1)] assms(2) by auto
  have h: "length h < 2 ^ 64" "global_offset bl = of_nat (length h)" "capacity bl < 2 ^ 64"
    and ring: "\<forall>j<length h. length h \<le> j + capacity bl \<longrightarrow> buffer bl ! (j mod capacity bl) = h ! j"
    using assms(1) by (auto simp: ring_holds_def)
  have range: "\<not> (of_nat n < window_start bl \<or> global_offset bl < of_nat n)"
    using assms(2) by (auto simp: ring_servable_def)
  have len: "unat (global_offset bl - of_nat n) = length h - n"
    using n(1) h(1,2) unat_u64 by (metis le_less_trans of_nat_diff diff_le_self)
  have byte: "buffer bl ! unat ((of_nat n + of_nat i :: u64) mod of_nat (capacity bl)) = h ! (n + i)"
    if "i < length h - n" for i
  proof -
    have "n + i < 2 ^ 64" using that h(1) by simp
    then have "unat ((of_nat (n + i) :: u64) mod of_nat (capacity bl)) = (n + i) mod capacity bl"
      unfolding unat_mod_distrib using unat_u64 [of "n + i"] unat_u64 [OF h(3)] by (simp only:)
    then show ?thesis using ring that n(2) by simp
  qed
  have "read_from bl (of_nat n) = map (\<lambda>i. h ! (n + i)) [0..<length h - n]"
    unfolding read_from_def len using range byte by simp
  also have "\<dots> = drop n h" by (rule nth_equalityI) simp_all
  finally show ?thesis using n(1) by simp
qed

interpretation ring: stream_log "ring_holds cap" "\<lambda>bl d. map_option fst (backlog_push is_open bl d)"
  "\<lambda>bl n. read_from bl (of_nat n)" ring_servable for cap is_open
proof
  fix bl h and d :: bytes assume "ring_holds cap bl h" "length h + length d < 2 ^ 64"
  from push_holds [OF this, of is_open]
  show "\<exists>l'. map_option fst (backlog_push is_open bl d) = Some l' \<and> ring_holds cap l' (h @ d)" by auto
qed (rule read_from_holds)

section \<open>Runs of writes\<close>

lemma push_all_holds:
  assumes "ring_holds cap bl h" "length h + length (concat ds) < 2 ^ 64"
  shows "\<exists>bl' msgs. push_all is_open tx bl ds = Some (bl', msgs) \<and> ring_holds cap bl' (h @ concat ds)"
  using assms
proof (induction ds arbitrary: bl h)
  case (Cons d ds)
  from push_holds [OF Cons.prems(1), of d is_open] Cons.prems(2) obtain bl1 where
    p: "backlog_push is_open bl d =
          Some (bl1, map (\<lambda>(i, tx). (tx, d)) (filter (\<lambda>(i, tx). is_open tx) (replicas bl)))"
      "ring_holds cap bl1 (h @ d)" by auto
  from Cons.IH [OF p(2)] Cons.prems(2) show ?case by (auto simp: p(1))
qed simp

text \<open>A replica that stays connected gets every write exactly once, in order.\<close>

lemma push_all_messages:
  assumes "filter (\<lambda>(i, t). t = tx) (replicas bl) = [(rid, tx)]" "is_open tx"
    and "push_all is_open tx bl ds = Some (bl', msgs)"
  shows "msgs = ds"
  using assms(1,3)
proof (induction ds arbitrary: bl msgs)
  case (Cons d ds)
  let ?live = "filter (\<lambda>(i, t). is_open t) (replicas bl)"
  obtain bl1 msgs1 where p: "backlog_push is_open bl d = Some (bl1, map (\<lambda>(i, t). (t, d)) ?live)"
    and rest: "push_all is_open tx bl1 ds = Some (bl', msgs1)"
    and msgs: "msgs = map snd (filter (\<lambda>m. fst m = tx) (map (\<lambda>(i, t). (t, d)) ?live)) @ msgs1"
    using Cons.prems(2) by (auto simp: backlog_push_def Let_def split: option.splits prod.splits)
  have bl1: "replicas bl1 = ?live"
    using p by (auto simp: backlog_push_def Let_def split: option.splits prod.splits)
  have one: "filter (\<lambda>(i, t). t = tx) ?live = [(rid, tx)]"
  proof -
    have "filter (\<lambda>(i, t). t = tx) ?live = filter (\<lambda>(i, t). is_open t) (filter (\<lambda>(i, t). t = tx) (replicas bl))"
      by (simp add: conj_commute case_prod_unfold)
    then show ?thesis using Cons.prems(1) assms(2) by simp
  qed
  have "map snd (filter (\<lambda>m. fst m = tx) (map (\<lambda>(i, t). (t, d)) ?live)) =
      map (\<lambda>_. d) (filter (\<lambda>(i, t). t = tx) ?live)"
    by (simp add: filter_map comp_def case_prod_unfold)
  then show ?case using Cons.IH [OF _ rest] one bl1 msgs by simp
qed simp

lemma register_holds: "ring_holds cap (fst (register_replica bl tx)) h = ring_holds cap bl h"
  by (simp add: register_replica_def Let_def ring_holds_def)

lemma register_fresh:
  "tx \<notin> snd ` set (replicas bl) \<Longrightarrow>
   filter (\<lambda>(i, t). t = tx) (replicas (fst (register_replica bl tx))) = [(next_replica_id bl, tx)]"
  by (force simp: register_replica_def Let_def filter_empty_conv)

section \<open>Properties\<close>

text \<open>
  C13: The backlog is a window on the stream.  After any sequence of writes to a new backlog of capacity
  \<open>cap\<close>, a read from an offset within the last \<open>cap\<close> bytes returns exactly the bytes of the stream from
  there on, a read from any other offset returns nothing, and \<open>can_serve_partial\<close> accepts exactly the
  former.
\<close>

theorem backlog_window:
  assumes "0 < cap" "cap < 2 ^ 64" "length (concat ds) < 2 ^ 64"
  shows "\<exists>bl msgs. push_all is_open tx (repl_backlog_new cap) ds = Some (bl, msgs) \<and>
     (\<forall>n < 2 ^ 64.
        read_from bl (of_nat n) =
          (if n \<le> length (concat ds) \<and> length (concat ds) \<le> n + cap then drop n (concat ds) else []) \<and>
        (can_serve_partial bl i i (of_nat n) \<longleftrightarrow> n \<le> length (concat ds) \<and> length (concat ds) \<le> n + cap))"
proof -
  obtain bl msgs where bl: "push_all is_open tx (repl_backlog_new cap) ds = Some (bl, msgs)"
    "ring_holds cap bl (concat ds)"
    using push_all_holds [OF ring_holds_new [OF assms(1,2)], of ds is_open tx] assms(3) by auto
  have cap: "capacity bl = cap" using bl(2) by (simp add: ring_holds_def)
  have "read_from bl (of_nat n) =
          (if n \<le> length (concat ds) \<and> length (concat ds) \<le> n + cap then drop n (concat ds) else []) \<and>
        (can_serve_partial bl i i (of_nat n) \<longleftrightarrow> n \<le> length (concat ds) \<and> length (concat ds) \<le> n + cap)"
    if n: "n < 2 ^ 64" for n
  proof -
    have serv: "ring_servable bl n \<longleftrightarrow> n \<le> length (concat ds) \<and> length (concat ds) \<le> n + cap"
      using ring_servable_iff [OF bl(2)] cap by simp
    have "can_serve_partial bl i i (of_nat n) \<longleftrightarrow> ring_servable bl n"
      using n by (simp add: can_serve_partial_def ring_servable_def)
    moreover have "read_from bl (of_nat n) = (if ring_servable bl n then drop n (concat ds) else [])"
      using ring.read_suffix [OF bl(2)] n by (auto simp: ring_servable_def read_from_def not_le)
    ultimately show ?thesis using serv by simp
  qed
  with bl(1) show ?thesis by blast
qed

theorem backlog_window_witness:
  "\<exists>bl msgs. push_all (\<lambda>_. True) 0 (repl_backlog_new 8) [''abcd'', ''efgh'', ''ij''] = Some (bl, msgs) \<and>
     read_from bl 2 = ''cdefghij'' \<and> read_from bl 1 = []"
proof -
  let ?ds = "[''abcd'', ''efgh'', ''ij'']"
  have c: "concat ?ds = ''abcdefghij''" "length (concat ?ds) = 10" by simp_all
  obtain bl msgs where p: "push_all (\<lambda>_. True) 0 (repl_backlog_new 8) ?ds = Some (bl, msgs)"
    and r: "\<forall>n < 2 ^ 64. read_from bl (of_nat n) = (if n \<le> 10 \<and> 10 \<le> n + 8 then drop n ''abcdefghij'' else [])"
    using backlog_window [of 8 ?ds "\<lambda>_. True" 0 "''id''", unfolded c(2), unfolded c(1)]
    by (simp del: push_all.simps) blast
  show ?thesis using p r [THEN spec, of 2] r [THEN spec, of 1] by (auto simp del: push_all.simps)
qed

text \<open>
  Partial resynchronisation is exact.  A replica that has the first \<open>n\<close> bytes of the stream and
  asks to continue from there, while the backlog still has the rest, is sent exactly the bytes it
  misses, and then, over its channel, exactly the later writes: together with what it had, the whole
  stream, nothing twice and nothing left out.
\<close>

theorem partial_resync_exact:
  assumes "ring_holds cap bl h" "n \<le> length h" "length h \<le> n + cap" "int n \<le> i64_max"
    and "utf8_lossy replid = replid" "tx \<notin> snd ` set (replicas bl)" "is_open tx"
    and "psync_begin bl replid [replid, nat_to_string n] tx = (bl1, ses)"
    and "push_all is_open tx bl1 ds = Some (bl2, msgs)"
  shows "is_partial ses \<and> psync_preamble replid ses rdb bl2 = ''+CONTINUE'' @ eol @ drop n h \<and> msgs = ds \<and>
    take n h @ catch_up ses @ concat msgs = h @ concat ds"
proof (intro conjI)
  have n: "in_i64 (int n)" "int n mod 2 ^ 64 = int n" using assms(4) by (simp_all add: in_i64_def i64_min_def i64_max_def)
  have parse: "parse_i64 (utf8_lossy (nat_to_string n)) = Some (int n)"
    using parse_i64_int_to_string [OF n(1)] by (simp add: utf8_lossy_ascii int_to_string_def)
  have serv: "ring_servable bl n"
    using ring_servable_iff [OF assms(1)] assms(1-3) by (simp add: ring_holds_def)
  have word: "i64_as_u64 (int n) = of_nat n" by (simp add: i64_as_u64_def)
  have can: "can_serve_partial bl replid replid (of_nat n)"
    using serv by (simp add: can_serve_partial_def ring_servable_def)
  have read: "read_from bl (of_nat n) = drop n h" using read_from_holds [OF assms(1) serv] by simp
  have ses: "ses = \<lparr>is_partial = True, catch_up = drop n h, current_offset = global_offset bl,
      replica_id = next_replica_id bl\<rparr>" and bl1: "bl1 = fst (register_replica bl tx)"
    using assms(8) by (simp_all add: psync_begin_def parse word assms(5) can read register_replica_def Let_def)
  show "is_partial ses" "psync_preamble replid ses rdb bl2 = ''+CONTINUE'' @ eol @ drop n h"
    by (simp_all add: ses psync_preamble_def)
  have one: "filter (\<lambda>(i, t). t = tx) (replicas bl1) = [(next_replica_id bl, tx)]"
    unfolding bl1 by (rule register_fresh [OF assms(6)])
  show msgs: "msgs = ds" by (rule push_all_messages [OF one assms(7,9)])
  show "take n h @ catch_up ses @ concat msgs = h @ concat ds" by (simp add: ses msgs)
qed

theorem partial_resync_exact_witness:
  "\<exists>bl1 ses bl2 msgs.
     psync_begin (fst (the (backlog_push (\<lambda>_. True) (repl_backlog_new 8) ''abcdef''))) ''id'' [''id'', nat_to_string 4] 7 = (bl1, ses) \<and>
     push_all (\<lambda>_. True) 7 bl1 [''gh'', ''i''] = Some (bl2, msgs) \<and>
     psync_preamble ''id'' ses [] bl2 = ''+CONTINUE'' @ eol @ ''ef'' \<and> msgs = [''gh'', ''i'']"
proof -
  let ?bl = "fst (the (backlog_push (\<lambda>_. True) (repl_backlog_new 8) ''abcdef''))"
  have h: "ring_holds 8 ?bl ''abcdef''"
    using push_holds [OF ring_holds_new, of 8 "''abcdef''" "\<lambda>_. True"] by fastforce
  have fresh: "replicas ?bl = []"
    using push_holds [OF ring_holds_new, of 8 "''abcdef''" "\<lambda>_. True"] by (fastforce simp: repl_backlog_new_def)
  obtain bl1 ses where b: "psync_begin ?bl ''id'' [''id'', nat_to_string 4] 7 = (bl1, ses)" by fastforce
  have "ring_holds 8 bl1 ''abcdef''"
    using b h register_holds [of 8 ?bl 7] by (auto simp: psync_begin_def Let_def split: prod.splits)
  then obtain bl2 msgs where p: "push_all (\<lambda>_. True) 7 bl1 [''gh'', ''i''] = Some (bl2, msgs)"
    using push_all_holds [of 8 bl1 "''abcdef''" "[''gh'', ''i'']" "\<lambda>_. True" 7] by auto
  have u: "utf8_lossy ''id'' = ''id''" by code_simp
  have "4 \<le> length ''abcdef''" "length ''abcdef'' \<le> 4 + 8" "int 4 \<le> i64_max" "7 \<notin> snd ` set (replicas ?bl)" "True"
    by (simp_all add: fresh i64_max_def)
  note r = partial_resync_exact [OF h this(1-3) u this(4,5) b p]
  show ?thesis using b p r [of "[]"] by auto
qed

text \<open>
  Full resynchronisation sends some writes twice.  The replica's channel is registered before the
  snapshot is taken, and the gap is read from the backlog after it, so every write made while the
  snapshot was being written and sent is sent once in the gap and a second time over the channel.
\<close>

theorem full_resync_repeats_gap:
  assumes "ring_holds cap bl h" "length h + length (concat ds) < 2 ^ 64" "length (concat ds) \<le> cap"
    and "tx \<notin> snd ` set (replicas bl)" "is_open tx"
    and "psync_begin bl replid [''?'', ''-1''] tx = (bl1, ses)"
  shows "\<exists>bl2. push_all is_open tx bl1 ds = Some (bl2, ds) \<and>
     psync_preamble replid ses rdb bl2 =
       ''+FULLRESYNC '' @ replid @ '' '' @ nat_to_string (length h) @ eol @
       ''$'' @ nat_to_string (length rdb) @ eol @ rdb @ concat ds"
proof -
  have parse: "parse_i64 (utf8_lossy ''-1'') = Some (- 1)" by code_simp
  have args: "length [''?'', ''-1''] = 2" "[''?'', ''-1''] ! 1 = ''-1''" by simp_all
  have ses: "\<not> is_partial ses" "current_offset ses = of_nat (length h)" and bl1: "bl1 = fst (register_replica bl tx)"
    using assms(1,6) unfolding psync_begin_def args parse
    by (auto simp: register_replica_def Let_def ring_holds_def)
  have h1: "ring_holds cap bl1 h" using assms(1) by (simp add: bl1 register_holds)
  obtain bl2 msgs where p: "push_all is_open tx bl1 ds = Some (bl2, msgs)" "ring_holds cap bl2 (h @ concat ds)"
    using push_all_holds [OF h1 assms(2)] by blast
  have "msgs = ds"
    using push_all_messages [OF _ assms(5) p(1)] register_fresh [OF assms(4)] by (simp add: bl1)
  moreover have "ring_servable bl2 (length h)"
    using ring_servable_iff [OF p(2)] p(2) assms(3) by (simp add: ring_holds_def)
  then have "read_from bl2 (of_nat (length h)) = concat ds" using read_from_holds [OF p(2)] by simp
  moreover have "unat (of_nat (length h) :: u64) = length h" using assms(2) by (intro unat_u64) simp
  ultimately show ?thesis using p(1) ses by (simp add: psync_preamble_def)
qed

theorem full_resync_repeats_gap_witness:
  "\<exists>bl1 ses bl2.
     psync_begin (repl_backlog_new 8) ''id'' [''?'', ''-1''] 7 = (bl1, ses) \<and>
     push_all (\<lambda>_. True) 7 bl1 [''gh'', ''i''] = Some (bl2, [''gh'', ''i'']) \<and>
     psync_preamble ''id'' ses ''R'' bl2 =
       ''+FULLRESYNC id 0'' @ eol @ ''$1'' @ eol @ ''R'' @ ''ghi''"
proof -
  obtain bl1 ses where b: "psync_begin (repl_backlog_new 8) ''id'' [''?'', ''-1''] 7 = (bl1, ses)" by fastforce
  have h: "ring_holds 8 (repl_backlog_new 8) []" by (rule ring_holds_new) simp_all
  have n: "nat_to_string 0 = ''0''" "nat_to_string (Suc 0) = ''1''" by code_simp+
  have "replicas (repl_backlog_new 8) = []" by (simp add: repl_backlog_new_def)
  then show ?thesis
    using full_resync_repeats_gap [OF h _ _ _ _ b, of "[''gh'', ''i'']" "\<lambda>_. True" "''R''"] b
    by (auto simp: n simp del: push_all.simps)
qed

text \<open>With \<^verbatim>\<open>repl-backlog-size 0\<close> the first write of a byte panics while the lock is held.\<close>

lemma backlog_empty_panics: "backlog_push is_open (repl_backlog_new 0) (b # data) = None"
  by (simp add: backlog_push_def repl_backlog_new_def)

end
