(* ===== verification/Config.thy ===== *)
theory Config
  imports RustStd
begin

text \<open>
  \<open>config.rs\<close>: the settings of the server and the parser of the configuration file, from the text of the
  file.  \<open>available_parallelism()\<close> is the parameter \<open>cpus\<close> (\<^term>\<open>None\<close> when the system does not
  say).  Multiplication of a size by its unit wraps around, as in a release build.
\<close>

section \<open>Text\<close>

text \<open>
  The number of bytes of the white-space character a text begins with, 0 when it begins with another:
  Unicode's \<open>White_Space\<close>, encoded in UTF-8.
\<close>

definition space_len :: "bytes \<Rightarrow> nat" where
  "space_len s =
     (let codes = map of_char (take 3 s) :: nat list in
      if take 1 codes \<in> {[9], [10], [11], [12], [13], [32]} then 1
      else if take 2 codes \<in> {[194, 133], [194, 160]} then 2
      else if codes \<in> {[225, 154, 128], [226, 129, 159], [227, 128, 128], [226, 128, 168], [226, 128, 169], [226, 128, 175]} then 3
      else if length codes = 3 \<and> take 2 codes = [226, 128] \<and> 128 \<le> codes ! 2 \<and> codes ! 2 \<le> 138 then 3
      else 0)"

text \<open>The same at the end of a text.\<close>

definition space_len_end :: "bytes \<Rightarrow> nat" where
  "space_len_end s =
     (if s = [] then 0
      else if space_len (drop (length s - 1) s) = 1 then 1
      else if 2 \<le> length s \<and> space_len (drop (length s - 2) s) = 2 then 2
      else if 3 \<le> length s \<and> space_len (drop (length s - 3) s) = 3 then 3
      else 0)"

fun trim_start :: "bytes \<Rightarrow> bytes" where
  "trim_start [] = []"
| "trim_start (c # cs) = (case space_len (c # cs) of 0 \<Rightarrow> c # cs | Suc n \<Rightarrow> trim_start (drop n cs))"

function trim_end :: "bytes \<Rightarrow> bytes" where
  "trim_end s = (if space_len_end s = 0 \<or> s = [] then s else trim_end (take (length s - space_len_end s) s))"
  by pat_completeness auto

termination
  by (relation "measure length") auto

declare trim_end.simps [simp del]

definition trim :: "bytes \<Rightarrow> bytes" where
  "trim s = trim_end (trim_start s)"

text \<open>
  \<open>str::to_lowercase\<close> as far as a comparison with an ASCII keyword can tell: the Kelvin sign is the one
  character outside ASCII whose lower case is an ASCII letter; the others stay outside ASCII.
\<close>

fun lower_text :: "bytes \<Rightarrow> bytes" where
  "lower_text [] = []"
| "lower_text (c # cs) =
     (if map of_char (take 3 (c # cs)) = [226, 132, 170 :: nat] then CHR ''k'' # lower_text (drop 2 cs)
      else lower_char c # lower_text cs)"

definition trim_quotes :: "bytes \<Rightarrow> bytes" where
  "trim_quotes s = rev (dropWhile (\<lambda>c. c = CHR 0x22) (rev (dropWhile (\<lambda>c. c = CHR 0x22) s)))"

text \<open>\<open>str::lines\<close>: split at line feeds, a carriage return before one left out, no line after the last.\<close>

fun split_lines :: "bytes \<Rightarrow> bytes \<Rightarrow> bytes list" where
  "split_lines cur [] = (if cur = [] then [] else [cur])"
| "split_lines cur (c # cs) =
     (if c = CHR 0x0A
      then (if cur \<noteq> [] \<and> last cur = CHR 0x0D then butlast cur else cur) # split_lines [] cs
      else split_lines (cur @ [c]) cs)"

definition lines :: "bytes \<Rightarrow> bytes list" where
  "lines s = split_lines [] s"

definition strip_suffix :: "bytes \<Rightarrow> bytes \<Rightarrow> bytes option" where
  "strip_suffix suf s =
     (if suf \<noteq> [] \<and> length suf \<le> length s \<and> drop (length s - length suf) s = suf
      then Some (take (length s - length suf) s) else None)"

definition parse_bounded :: "nat \<Rightarrow> bytes \<Rightarrow> nat option" where
  "parse_bounded mx s = (case parse_u64_nat s of None \<Rightarrow> None | Some n \<Rightarrow> if n \<le> mx then Some n else None)"

section \<open>Settings\<close>

record server_config =
  cfg_port :: nat
  bind_address :: bytes
  cfg_timeout :: u64
  tcp_keepalive :: u64
  cfg_databases :: nat
  cfg_maxmemory :: u64
  maxmemory_policy :: bytes
  loglevel :: bytes
  dbfilename :: bytes
  cfg_dir :: bytes
  appendonly :: bool
  appendfsync :: bytes
  cfg_save :: "(u64 \<times> u64) list"
  replicaof :: "bytes option"
  masterauth :: "bytes option"
  repl_backlog_size :: nat
  cthreads :: nat
  cluster_enabled :: bool
  cfg_cluster_port :: nat
  cluster_node_timeout :: u64
  cluster_config_file :: bytes
  requirepass :: "bytes option"
  tls_port :: nat
  tls_cert_file :: "bytes option"
  tls_key_file :: "bytes option"

definition default_config :: "nat option \<Rightarrow> server_config" where
  "default_config cpus =
     \<lparr>cfg_port = 6379, bind_address = ''127.0.0.1'', cfg_timeout = 0, tcp_keepalive = 300,
      cfg_databases = 16, cfg_maxmemory = 0, maxmemory_policy = ''noeviction'', loglevel = ''notice'',
      dbfilename = ''dump.rdb'', cfg_dir = ''./'', appendonly = False, appendfsync = ''everysec'',
      cfg_save = [], replicaof = None, masterauth = None, repl_backlog_size = 1048576,
      cthreads = (case cpus of None \<Rightarrow> 4 | Some n \<Rightarrow> n), cluster_enabled = False, cfg_cluster_port = 16379,
      cluster_node_timeout = 15000, cluster_config_file = ''nodes.conf'', requirepass = None,
      tls_port = 0, tls_cert_file = None, tls_key_file = None\<rparr>"

text \<open>The only failures are numbers that do not parse.\<close>

datatype config_error = ParseIntError

definition require :: "'a option \<Rightarrow> config_error + 'a" where
  "require x = (case x of None \<Rightarrow> Inl ParseIntError | Some a \<Rightarrow> Inr a)"

definition parse_memory_size :: "bytes \<Rightarrow> config_error + u64" where
  "parse_memory_size value =
     (let v = lower_text (trim value);
          (num, mult) =
            (case strip_suffix ''gb'' v of Some n \<Rightarrow> (n, 1024 * 1024 * 1024)
             | None \<Rightarrow> (case strip_suffix ''mb'' v of Some n \<Rightarrow> (n, 1024 * 1024)
             | None \<Rightarrow> (case strip_suffix ''kb'' v of Some n \<Rightarrow> (n, 1024)
             | None \<Rightarrow> (case strip_suffix ''b'' v of Some n \<Rightarrow> (n, 1)
             | None \<Rightarrow> (v, 1)))))
      in map_res (\<lambda>n. n * mult) (require (parse_u64 (trim num))))"

definition parse_save :: "bytes \<Rightarrow> (u64 \<times> u64) option" where
  "parse_save value =
     (case splitn2 (CHR '' '') value of
        [secs, changes] \<Rightarrow>
          (case (parse_u64 secs, parse_u64 changes) of (Some a, Some b) \<Rightarrow> Some (a, b) | _ \<Rightarrow> None)
      | _ \<Rightarrow> None)"

definition set_option :: "server_config \<Rightarrow> bytes \<Rightarrow> bytes \<Rightarrow> config_error + server_config" where
  "set_option cfg key value =
     (if key = ''port'' then map_res (\<lambda>n. cfg\<lparr>cfg_port := n\<rparr>) (require (parse_bounded 65535 value))
      else if key = ''bind'' then Inr (cfg\<lparr>bind_address := value\<rparr>)
      else if key = ''timeout'' then map_res (\<lambda>n. cfg\<lparr>cfg_timeout := n\<rparr>) (require (parse_u64 value))
      else if key = ''tcp-keepalive'' then map_res (\<lambda>n. cfg\<lparr>tcp_keepalive := n\<rparr>) (require (parse_u64 value))
      else if key = ''databases'' then map_res (\<lambda>n. cfg\<lparr>cfg_databases := n\<rparr>) (require (parse_usize value))
      else if key = ''maxmemory'' then map_res (\<lambda>n. cfg\<lparr>cfg_maxmemory := n\<rparr>) (parse_memory_size value)
      else if key = ''maxmemory-policy'' then Inr (cfg\<lparr>maxmemory_policy := value\<rparr>)
      else if key = ''loglevel'' then Inr (cfg\<lparr>loglevel := value\<rparr>)
      else if key = ''dbfilename'' then Inr (cfg\<lparr>dbfilename := value\<rparr>)
      else if key = ''dir'' then Inr (cfg\<lparr>cfg_dir := value\<rparr>)
      else if key = ''appendonly'' then Inr (cfg\<lparr>appendonly := (to_lowercase value = ''yes'')\<rparr>)
      else if key = ''appendfsync'' then Inr (cfg\<lparr>appendfsync := value\<rparr>)
      else if key = ''save'' then
        Inr (case parse_save value of None \<Rightarrow> cfg | Some p \<Rightarrow> cfg\<lparr>cfg_save := cfg_save cfg @ [p]\<rparr>)
      else if key = ''replicaof'' then Inr (cfg\<lparr>replicaof := Some value\<rparr>)
      else if key = ''masterauth'' then Inr (cfg\<lparr>masterauth := Some value\<rparr>)
      else if key = ''repl-backlog-size'' then
        Inr (case parse_usize value of None \<Rightarrow> cfg | Some sz \<Rightarrow> cfg\<lparr>repl_backlog_size := sz\<rparr>)
      else if key = ''requirepass'' then Inr (cfg\<lparr>requirepass := (if value = [] then None else Some value)\<rparr>)
      else if key = ''tls-port'' then map_res (\<lambda>n. cfg\<lparr>tls_port := n\<rparr>) (require (parse_bounded 65535 value))
      else if key = ''tls-cert-file'' then Inr (cfg\<lparr>tls_cert_file := Some value\<rparr>)
      else if key = ''tls-key-file'' then Inr (cfg\<lparr>tls_key_file := Some value\<rparr>)
      else Inr cfg)"

definition config_line :: "server_config \<Rightarrow> bytes \<Rightarrow> config_error + server_config" where
  "config_line cfg raw_line =
     (let line = trim raw_line
      in if line = [] \<or> hd line = CHR ''#'' then Inr cfg
         else case splitn2 (CHR '' '') line of
           [key, value] \<Rightarrow> set_option cfg (lower_text key) (trim_quotes (trim value))
         | _ \<Rightarrow> Inr cfg)"

definition parse_redis_config :: "nat option \<Rightarrow> bytes \<Rightarrow> config_error + server_config" where
  "parse_redis_config cpus content =
     foldl (\<lambda>r line. bind_res r (\<lambda>cfg. config_line cfg line)) (Inr (default_config cpus)) (lines content)"

text \<open>\<open>load\<close>: the settings from the contents of the file, the defaults when there is none.\<close>

definition config_load :: "nat option \<Rightarrow> bytes option \<Rightarrow> config_error + server_config" where
  "config_load cpus file =
     (case file of None \<Rightarrow> Inr (default_config cpus) | Some content \<Rightarrow> parse_redis_config cpus content)"

section \<open>Numbers with a unit\<close>

lemma byte_in_lower: "byte_in 0 127 c \<Longrightarrow> \<not> byte_in 65 90 c \<Longrightarrow> lower_char c = c"
  by (simp add: lower_char_def)

lemma lower_text_ascii: "ascii s \<Longrightarrow> lower_text s = map lower_char s"
proof (induction s)
  case (Cons c cs)
  then have "(of_char c :: nat) \<le> 127" by (simp add: byte_in_def)
  then have "map of_char (take 3 (c # cs)) \<noteq> [226, 132, 170 :: nat]" by auto
  then show ?case using Cons by auto
qed simp

lemma digit_code: "digit_val c = Some d \<Longrightarrow> 48 \<le> (of_char c :: nat) \<and> (of_char c :: nat) \<le> 57"
  by (auto simp: digit_val_def Let_def split: if_splits)

lemma digit_not_space: "digit_val c = Some d \<Longrightarrow> space_len (c # cs) = 0"
  using digit_code [of c d] by (auto simp: space_len_def Let_def)

lemma trim_digits_unit:
  assumes "digits \<noteq> []" "\<forall>c\<in>set digits. \<exists>d. digit_val c = Some d" "\<forall>c\<in>set unit. 97 \<le> (of_char c :: nat) \<and> (of_char c :: nat) \<le> 122"
  shows "trim (digits @ unit) = digits @ unit"
proof -
  let ?s = "digits @ unit"
  obtain c cs where s: "?s = c # cs" and c: "\<exists>d. digit_val c = Some d"
    using assms(1,2) by (cases digits) auto
  have start: "trim_start ?s = ?s" unfolding s using c digit_not_space by auto
  have byte: "48 \<le> (of_char x :: nat) \<and> (of_char x :: nat) \<le> 122" if "x \<in> set ?s" for x
    using that assms(2,3) digit_code [of x] by auto
  have none: "space_len (drop n ?s) = 0" for n
  proof (cases "drop n ?s")
    case (Cons x xs)
    then have "x \<in> set ?s" using in_set_dropD [of x n ?s] by simp
    then show ?thesis using byte [of x] Cons by (auto simp: space_len_def Let_def)
  qed (simp add: space_len_def)
  have "space_len_end ?s = 0" by (simp add: space_len_end_def none del: drop_append length_append)
  then have "trim_end ?s = ?s" by (subst trim_end.simps) simp
  then show ?thesis by (simp add: trim_def start)
qed

lemma nat_digits: "\<forall>c\<in>set (nat_to_string n). \<exists>d. digit_val c = Some d"
  using nat_to_string_digits by blast

lemma lower_digits: "digit_val c = Some d \<Longrightarrow> lower_char c = c"
  using digit_code [of c d] by (simp add: lower_char_def byte_in_def)

lemma lower_text_digits_unit:
  assumes "ascii unit"
  shows "lower_text (nat_to_string n @ unit) = nat_to_string n @ map lower_char unit"
proof -
  have "map lower_char (nat_to_string n) = nat_to_string n"
    using nat_digits lower_digits by (metis map_idI)
  moreover have "ascii (nat_to_string n @ unit)"
    using assms ascii_nat_to_string [of n] by (simp add: ascii_def)
  ultimately show ?thesis by (simp add: lower_text_ascii)
qed

lemma strip_suffix_append: "suf \<noteq> [] \<Longrightarrow> strip_suffix suf (s @ suf) = Some s"
  by (simp add: strip_suffix_def)

lemma strip_suffix_last: "suf \<noteq> [] \<Longrightarrow> s \<noteq> [] \<Longrightarrow> last s \<noteq> last suf \<Longrightarrow> strip_suffix suf s = None"
proof -
  assume *: "suf \<noteq> []" "s \<noteq> []" "last s \<noteq> last suf"
  then have "drop (length s - length suf) s \<noteq> suf" if "length suf \<le> length s"
    using that last_drop [of "length s - length suf" s] by (metis diff_less length_greater_0_conv)
  then show "strip_suffix suf s = None" by (auto simp: strip_suffix_def)
qed

definition memory_units :: "(bytes \<times> nat) list" where
  "memory_units = [([], 1), (''b'', 1), (''kb'', 1024), (''mb'', 1024 * 1024), (''gb'', 1024 * 1024 * 1024)]"

lemma last_digit_no_suffix:
  assumes "suf \<in> {''b'', ''kb'', ''mb'', ''gb''}"
  shows "strip_suffix suf (nat_to_string n) = None"
proof (rule strip_suffix_last)
  have "last (nat_to_string n) \<in> set (nat_to_string n)" by simp
  then obtain d where "digit_val (last (nat_to_string n)) = Some d" using nat_digits by blast
  from digit_code [OF this] show "last (nat_to_string n) \<noteq> last suf" using assms by auto
qed (use assms in auto)

lemma digit_before_unit:
  assumes "suf \<in> {''kb'', ''mb'', ''gb''}"
  shows "strip_suffix suf (nat_to_string n @ ''b'') = None"
proof -
  have "last (nat_to_string n) \<in> set (nat_to_string n)" by simp
  then obtain d where d: "digit_val (last (nat_to_string n)) = Some d" using nat_digits by blast
  have "nat_to_string n = butlast (nat_to_string n) @ [last (nat_to_string n)]" by simp
  then obtain xs c where s: "nat_to_string n = xs @ [c]" and c: "digit_val c = Some d" using d by metis
  from digit_code [OF c] show ?thesis using assms by (auto simp: s strip_suffix_def)
qed

lemma units_parsed:
  assumes "(unit, mult) \<in> set memory_units" "n \<le> u64_max"
  shows "parse_memory_size (nat_to_string n @ unit) = Inr (of_nat n * of_nat mult)"
proof -
  let ?s = "nat_to_string n @ unit"
  have unit: "\<forall>c\<in>set unit. 97 \<le> (of_char c :: nat) \<and> (of_char c :: nat) \<le> 122" "ascii unit" "map lower_char unit = unit"
    using assms(1) by (auto simp: memory_units_def ascii_def byte_in_def lower_char_def)
  have trim: "trim ?s = ?s" using trim_digits_unit [OF _ nat_digits unit(1)] by simp
  have num: "trim (nat_to_string n) = nat_to_string n" using trim_digits_unit [OF _ nat_digits, of n "[]"] by simp
  have low: "lower_text ?s = ?s" using lower_text_digits_unit [OF unit(2)] unit(3) by simp
  have parse: "parse_u64 (nat_to_string n) = Some (of_nat n)"
    using parse_u64_nat_to_string [OF assms(2)] by (simp add: parse_u64_def)
  have gb: "strip_suffix ''gb'' (nat_to_string n @ ''gb'') = Some (nat_to_string n)"
    and mb: "strip_suffix ''gb'' (nat_to_string n @ ''mb'') = None" "strip_suffix ''mb'' (nat_to_string n @ ''mb'') = Some (nat_to_string n)"
    and kb: "strip_suffix ''gb'' (nat_to_string n @ ''kb'') = None" "strip_suffix ''mb'' (nat_to_string n @ ''kb'') = None"
      "strip_suffix ''kb'' (nat_to_string n @ ''kb'') = Some (nat_to_string n)"
    and b: "strip_suffix ''b'' (nat_to_string n @ ''b'') = Some (nat_to_string n)"
    by (simp_all add: strip_suffix_def)
  show ?thesis
    using assms(1)
    by (auto simp: memory_units_def parse_memory_size_def trim low num parse require_def gb mb kb b
        last_digit_no_suffix digit_before_unit)
qed

section \<open>Properties\<close>

text \<open>
  Memory sizes.  A number with one of the units of the configuration file is read as that number of
  bytes, kilobytes, megabytes or gigabytes of 1024, modulo the size of the counter: a product that does
  not fit 64 bits is cut off without an error.
\<close>

theorem memory_size_units:
  assumes "(unit, mult) \<in> set memory_units" "n \<le> u64_max"
  shows "\<exists>w. parse_memory_size (nat_to_string n @ unit) = Inr w \<and> unat w = n * mult mod 2 ^ 64"
proof -
  have "unat (of_nat (n * mult) :: u64) = n * mult mod 2 ^ 64"
    unfolding unsigned_of_nat by (simp add: take_bit_eq_mod)
  then show ?thesis using units_parsed [OF assms] by simp
qed

theorem memory_size_units_witness:
  "\<exists>w. parse_memory_size (nat_to_string 17179869184 @ ''gb'') = Inr w \<and> unat w = 17179869184 * 2 ^ 30 mod 2 ^ 64"
  using memory_size_units [of "''gb''" "1024 * 1024 * 1024" 17179869184] by (simp add: memory_units_def u64_max_def)

text \<open>
  No configuration file turns cluster mode on: the keywords of the cluster settings are not read, and
  the settings keep their defaults.
\<close>

theorem cluster_never_enabled:
  assumes "config_load cpus file = Inr cfg"
  shows "\<not> cluster_enabled cfg" "cfg_cluster_port cfg = 16379"
proof -
  have opt: "set_option c k v = Inr c' \<Longrightarrow> cluster_enabled c' = cluster_enabled c \<and> cfg_cluster_port c' = cfg_cluster_port c"
    for c c' k v
    by (auto simp: set_option_def require_def map_res_def split: if_splits option.splits sum.splits)
  then have line: "config_line c l = Inr c' \<Longrightarrow> cluster_enabled c' = cluster_enabled c \<and> cfg_cluster_port c' = cfg_cluster_port c"
    for c c' l
    by (auto simp: config_line_def Let_def split: if_splits list.splits)
  have err: "foldl (\<lambda>r line. bind_res r (\<lambda>cfg. config_line cfg line)) (Inl x) ls = Inl x" for x ls
    by (induction ls) auto
  have "foldl (\<lambda>r line. bind_res r (\<lambda>cfg. config_line cfg line)) (Inr c) ls = Inr c' \<Longrightarrow>
      cluster_enabled c' = cluster_enabled c \<and> cfg_cluster_port c' = cfg_cluster_port c" for c c' ls
  proof (induction ls arbitrary: c)
    case (Cons l ls)
    then show ?case using line [of c l] by (cases "config_line c l") (auto simp: err)
  qed simp
  then show "\<not> cluster_enabled cfg" "cfg_cluster_port cfg = 16379"
    using assms by (auto simp: config_load_def parse_redis_config_def default_config_def split: option.splits)
qed

theorem cluster_never_enabled_witness:
  "\<exists>cfg. config_load None (Some (''cluster-enabled yes'')) = Inr cfg \<and> \<not> cluster_enabled cfg"
proof -
  let ?l = "''cluster-enabled yes''"
  have "lines ?l = [?l]" "trim ?l = ?l" "splitn2 (CHR '' '') ?l = [''cluster-enabled'', ''yes'']"
    "lower_text ''cluster-enabled'' = ''cluster-enabled''" by code_simp+
  then have "config_load None (Some ?l) = Inr (default_config None)"
    by (simp add: config_load_def parse_redis_config_def config_line_def set_option_def)
  then show ?thesis using cluster_never_enabled by blast
qed

end
