(* ===== verification/Connection.thy ===== *)
theory Connection
  imports Aof Backlog Config
begin

text \<open>
  \<open>net/connection.rs\<close>: what a connection does with the bytes it reads.  \<open>handle_command\<close> is the body of the
  loop for one parsed command in normal mode: PSYNC, AUTH and HELLO, the check for authentication, the
  queue of a transaction, the command itself, the append-only file and the replication backlog, and the
  reply.  \<open>drain_buffer\<close> is the loop over a read buffer; it stops when it needs more bytes, closes the connection, is handed
  over to replication or blocks.  \<open>drain_sub\<close> is the loop in subscriber mode.

  A blocked client is two steps, \<open>block_begin\<close> and \<open>block_end\<close>, with the steps of other connections in
  between.  Sockets, timers and tasks are left out: a step returns the reply it would write.  Writing
  the file of a rewrite (BGREWRITEAOF) is the step \<open>aof_rewrite\<close>, which runs in the background.
\<close>

section \<open>State\<close>

text \<open>
  What the connections share: the store, the contents of the append-only file and the backlog, the
  latter two \<^term>\<open>None\<close> when they are switched off.
\<close>

record server =
  srv_store :: store
  srv_aof :: "bytes option"
  srv_backlog :: "repl_backlog option"

text \<open>What the loop does after a command.\<close>

datatype action =
    Respond resp_value
  | StartRewrite resp_value
  | BlockOn block_state
  | StartPsync "bytes list"

definition connect :: "server_config \<Rightarrow> client_context" where
  "connect cfg = client_context_new\<lparr>authenticated := (requirepass cfg = None)\<rparr>"

section \<open>Authentication\<close>

definition is_auth_exempt :: "bytes \<Rightarrow> bool" where
  "is_auth_exempt name \<longleftrightarrow> name \<in> set [''AUTH'', ''HELLO'', ''PING'', ''QUIT'', ''RESET'']"

definition auth_arity_error :: resp_value where
  "auth_arity_error = RespError (''ERR wrong number of arguments for '' @ [CHR 0x27] @ ''auth'' @ [CHR 0x27] @ '' command'')"

definition no_password_error :: resp_value where
  "no_password_error =
     RespError ''ERR Client sent AUTH, but no password is set. Did you mean AUTH <username> <password>?''"

definition wrongpass_error :: resp_value where
  "wrongpass_error = RespError ''WRONGPASS invalid username-password pair or user is disabled.''"

definition noauth_error :: resp_value where
  "noauth_error = RespError ''NOAUTH Authentication required.''"

definition hello_noauth_error :: resp_value where
  "hello_noauth_error =
     RespError (''NOAUTH HELLO must be called with the client already authenticated, '' @
       ''otherwise the HELLO <proto> AUTH <user> <pass> option can be used to authenticate the client '' @
       ''and select the RESP protocol version at the same time'')"

definition auth_password :: "bytes list \<Rightarrow> bytes option" where
  "auth_password args =
     (case args of
        [p] \<Rightarrow> Some p
      | [u, p] \<Rightarrow> if to_lowercase u = ''default'' then Some p else None
      | _ \<Rightarrow> None)"

definition handle_auth :: "server_config \<Rightarrow> client_context \<Rightarrow> bytes list \<Rightarrow> client_context \<times> resp_value" where
  "handle_auth cfg c args =
     (case auth_password args of
        None \<Rightarrow> (c, auth_arity_error)
      | Some password \<Rightarrow>
          (case requirepass cfg of
             None \<Rightarrow> (c, no_password_error)
           | Some expected \<Rightarrow>
               (if expected = password then (c\<lparr>authenticated := True\<rparr>, resp_ok) else (c, wrongpass_error))))"

definition is_error :: "resp_value \<Rightarrow> bool" where
  "is_error v = (case v of RespError _ \<Rightarrow> True | _ \<Rightarrow> False)"

text \<open>The options of HELLO after the version.\<close>

fun hello_options :: "server_config \<Rightarrow> client_context \<Rightarrow> bytes list \<Rightarrow> client_context \<times> resp_value option" where
  "hello_options cfg c [] = (c, None)"
| "hello_options cfg c (opt # rest) =
     (if upper opt = ''AUTH'' \<and> 2 \<le> length rest then
        (case handle_auth cfg c (take 2 rest) of
           (c', r) \<Rightarrow> if is_error r then (c', Some r) else hello_options cfg c' (drop 2 rest))
      else if upper opt = ''SETNAME'' \<and> 1 \<le> length rest then hello_options cfg c (drop 1 rest)
      else (c, Some (RespError ''ERR syntax error in HELLO'')))"

definition hello_reply :: "nat \<Rightarrow> resp_value" where
  "hello_reply proto =
     RMap [(resp_bulk ''server'', resp_bulk ''velodb''), (resp_bulk ''version'', resp_bulk ''0.1.0''),
           (resp_bulk ''proto'', RInteger (int proto)), (resp_bulk ''id'', RInteger 0),
           (resp_bulk ''mode'', resp_bulk ''standalone''), (resp_bulk ''role'', resp_bulk ''master''),
           (resp_bulk ''modules'', RArray (Some []))]"

definition hello_finish :: "server_config \<Rightarrow> client_context \<Rightarrow> bytes list \<Rightarrow> client_context \<times> resp_value" where
  "hello_finish cfg c rest =
     (case hello_options cfg c rest of
        (c', Some err) \<Rightarrow> (c', err)
      | (c', None) \<Rightarrow> if authenticated c' then (c', hello_reply (protocol c')) else (c', hello_noauth_error))"

definition handle_hello :: "server_config \<Rightarrow> client_context \<Rightarrow> bytes list \<Rightarrow> client_context \<times> resp_value" where
  "handle_hello cfg c args =
     (case args of
        [] \<Rightarrow> hello_finish cfg c []
      | v # rest \<Rightarrow>
          (case parse_bounded 255 (utf8_lossy v) of
             Some n \<Rightarrow> if n = 2 \<or> n = 3 then hello_finish cfg (c\<lparr>protocol := n\<rparr>) rest
                       else (c, RespError ''NOPROTO unsupported protocol version'')
           | None \<Rightarrow> (c, RespError ''NOPROTO unsupported protocol version'')))"

section \<open>One command\<close>

definition is_write_command :: "bytes \<Rightarrow> bool" where
  "is_write_command name \<longleftrightarrow> name \<in> set
     [''SET'', ''SETRANGE'', ''MSET'', ''INCR'', ''INCRBY'', ''DECR'', ''DECRBY'', ''APPEND'', ''GETSET'',
      ''LPUSH'', ''RPUSH'', ''LPOP'', ''RPOP'', ''LSET'', ''LTRIM'', ''LREM'',
      ''SADD'', ''SREM'', ''SPOP'', ''HSET'', ''HDEL'', ''HINCRBY'', ''ZADD'', ''ZREM'',
      ''XADD'', ''XDEL'', ''XTRIM'', ''NHSET'', ''NHDEL'', ''DEL'', ''RENAME'', ''RENAMENX'',
      ''EXPIRE'', ''EXPIREAT'', ''PEXPIRE'', ''PEXPIREAT'', ''PERSIST'', ''FLUSHDB'', ''FLUSHALL'', ''SELECT'']"

text \<open>The append-only file and the backlog after a command; \<^term>\<open>None\<close> when the push panics.\<close>

definition log_command :: "(nat \<Rightarrow> bool) \<Rightarrow> server \<Rightarrow> bytes \<Rightarrow> bytes list \<Rightarrow> server option" where
  "log_command rx_open srv name args =
     (if is_write_command name then
        (let entry = encode_command_for_aof args;
             srv = srv\<lparr>srv_aof := map_option (\<lambda>log. log @ entry) (srv_aof srv)\<rparr>
         in case srv_backlog srv of
              None \<Rightarrow> Some srv
            | Some bl \<Rightarrow> map_option (\<lambda>(bl', _). srv\<lparr>srv_backlog := Some bl'\<rparr>) (backlog_push rx_open bl entry))
      else Some srv)"

definition rewrite_started :: resp_value where
  "rewrite_started = SimpleString ''Background append only file rewriting started''"

text \<open>The command itself, before it is logged.\<close>

definition execute :: "env \<Rightarrow> nat \<Rightarrow> server \<Rightarrow> client_context \<Rightarrow> bytes \<Rightarrow> bytes list \<Rightarrow> (server \<times> client_context \<times> action) option" where
  "execute e d srv c name args =
     (if name = ''BGREWRITEAOF'' then
        Some (srv, c, if srv_aof srv \<noteq> None then StartRewrite rewrite_started
                      else Respond (RespError ''ERR AOF is not enabled''))
      else map_option (\<lambda>(s, c, r). (srv\<lparr>srv_store := s\<rparr>, c, Respond r)) (dispatch d name e (srv_store srv) c args))"

definition may_queue :: "bytes \<Rightarrow> bool" where
  "may_queue name \<longleftrightarrow> name \<notin> set [''EXEC'', ''DISCARD'', ''WATCH'', ''UNWATCH'', ''MULTI'']"

definition handle_command ::
  "(nat \<Rightarrow> bool) \<Rightarrow> server_config \<Rightarrow> env \<Rightarrow> nat \<Rightarrow> server \<Rightarrow> client_context \<Rightarrow> bytes list \<Rightarrow>
   (server \<times> client_context \<times> action) option" where
  "handle_command rx_open cfg e d srv c args =
     (let name = upper (hd args)
      in if name = ''PSYNC'' then Some (srv, c, StartPsync (tl args))
         else if name = ''AUTH'' then
           (let (c', r) = handle_auth cfg c (tl args) in Some (srv, c', Respond r))
         else if name = ''HELLO'' then
           (let (c', r) = handle_hello cfg c (tl args) in Some (srv, c', Respond r))
         else if \<not> authenticated c \<and> \<not> is_auth_exempt name then Some (srv, c, Respond noauth_error)
         else if multi_mode c \<and> may_queue name then
           Some (srv, c\<lparr>multi_queue := multi_queue c @ [args]\<rparr>, Respond (SimpleString ''QUEUED''))
         else case execute e d srv c name (tl args) of
           None \<Rightarrow> None
         | Some (srv1, c1, act) \<Rightarrow>
             (case log_command rx_open srv1 name args of
                None \<Rightarrow> None
              | Some srv2 \<Rightarrow>
                  (if sub_mode c1 then Some (srv2, c1, act)
                   else case ctx_block_state c1 of
                     Some b \<Rightarrow> Some (srv2, c1\<lparr>ctx_block_state := None\<rparr>, BlockOn b)
                   | None \<Rightarrow> Some (srv2, c1, act))))"

section \<open>Blocked clients\<close>

definition block_begin :: "server \<Rightarrow> block_state \<Rightarrow> notify_id \<Rightarrow> server \<times> u64" where
  "block_begin srv b n =
     (let (r, i) = register (block_reg (srv_store srv)) (bs_keys b) n
      in (srv\<lparr>srv_store := (srv_store srv)\<lparr>block_reg := r\<rparr>\<rparr>, i))"

text \<open>
  The wait.  \<open>notify_waiters\<close> keeps no permit: it wakes the \<open>Notified\<close> futures that exist when it is called.  So a client hears the calls that
  come after its own call of \<open>notified()\<close>, which is after the registration: \<open>listen\<close> is the number of calls so far, \<open>notified\<close>
  whether one of the later calls was for the client.
\<close>

definition listen :: "server \<Rightarrow> nat" where
  "listen srv = length (woken (block_reg (srv_store srv)))"

definition notified :: "nat \<Rightarrow> notify_id \<Rightarrow> server \<Rightarrow> bool" where
  "notified mark n srv \<longleftrightarrow> n \<in> set (drop mark (woken (block_reg (srv_store srv))))"

fun unblock_pop :: "u64 \<Rightarrow> store \<Rightarrow> nat \<Rightarrow> bytes list \<Rightarrow> pop_direction \<Rightarrow> store \<times> resp_value" where
  "unblock_pop t s i [] dir = (s, RArray (Some []))"
| "unblock_pop t s i (key # keys) dir =
     (case (case dir of PopLeft \<Rightarrow> store_lpop_one t s i key | PopRight \<Rightarrow> store_rpop_one t s i key) of
        (s', Inr (Some v)) \<Rightarrow> (s', RArray (Some [resp_bulk key, resp_bulk v]))
      | (s', _) \<Rightarrow> unblock_pop t s' i keys dir)"

definition block_end :: "env \<Rightarrow> server \<Rightarrow> client_context \<Rightarrow> block_state \<Rightarrow> u64 \<Rightarrow> bool \<Rightarrow> server \<times> resp_value" where
  "block_end e srv c b i triggered =
     (let s = srv_store srv;
          s = s\<lparr>block_reg := unregister (block_reg s) i (bs_keys b)\<rparr>;
          (s', r) = (if triggered then unblock_pop (now e) s (db_index c) (bs_keys b) (pop_direction b)
                     else (s, RArray (Some [])))
      in (srv\<lparr>srv_store := s'\<rparr>, r))"

definition aof_rewrite :: "env \<Rightarrow> (nat \<Rightarrow> u64) \<Rightarrow> server \<Rightarrow> server" where
  "aof_rewrite e clock srv =
     srv\<lparr>srv_aof := map_option (\<lambda>_. write_dataset (f64_display e) clock (srv_store srv)) (srv_aof srv)\<rparr>"

section \<open>The loops\<close>

definition MAX_QUERY_BUFFER :: nat where "MAX_QUERY_BUFFER = 1024 * 1024 * 1024"

text \<open>Why the loop over the buffer stops.\<close>

datatype stop =
    ReadMore
  | Blocked block_state
  | Replica "bytes list"
  | Closed

text \<open>
  The loop over the buffer in normal mode: the rest of the buffer, the state, the bytes written and why
  it stops.  The command number \<open>n\<close> runs in the environment \<open>es n\<close>.  A rewrite is started in the background,
  so the loop only replies.
\<close>

partial_function (option) drain_buffer ::
  "nom \<Rightarrow> (nat \<Rightarrow> bool) \<Rightarrow> server_config \<Rightarrow> (nat \<Rightarrow> env) \<Rightarrow> nat \<Rightarrow> nat \<Rightarrow> bytes \<Rightarrow> server \<Rightarrow> client_context \<Rightarrow> bytes \<Rightarrow>
   (bytes \<times> server \<times> client_context \<times> bytes \<times> stop) option" where
  "drain_buffer nm rx_open cfg es d n buf srv c out =
     (if buf = [] then Some (buf, srv, c, out, ReadMore)
      else case parse_command nm buf of
        IOk remaining args \<Rightarrow>
          (if args = [] then Some (buf, srv, c, out, ReadMore)
           else case handle_command rx_open cfg (es n) d srv c args of
             None \<Rightarrow> None
           | Some r \<Rightarrow>
               (case snd (snd r) of
                  StartPsync pargs \<Rightarrow> Some (remaining, fst r, fst (snd r), out, Replica pargs)
                | BlockOn b \<Rightarrow> Some (remaining, fst r, fst (snd r), out, Blocked b)
                | Respond v \<Rightarrow>
                    drain_buffer nm rx_open cfg es d (n + 1) remaining (fst r) (fst (snd r))
                      (out @ serialize_response_proto (f64_display (es n)) v (protocol (fst (snd r))))
                | StartRewrite v \<Rightarrow>
                    drain_buffer nm rx_open cfg es d (n + 1) remaining (fst r) (fst (snd r))
                      (out @ serialize_response_proto (f64_display (es n)) v (protocol (fst (snd r))))))
      | IIncomplete \<Rightarrow> Some (buf, srv, c, out, ReadMore)
      | _ \<Rightarrow> Some (buf, srv, c, out @ serialize_response_proto (f64_display (es n)) (RespError ''ERR protocol error'') (protocol c),
                   Closed))"

text \<open>What happens after a read in normal mode: the new bytes come after what was left.\<close>

definition on_read ::
  "nom \<Rightarrow> (nat \<Rightarrow> bool) \<Rightarrow> server_config \<Rightarrow> (nat \<Rightarrow> env) \<Rightarrow> nat \<Rightarrow> bytes \<Rightarrow> server \<Rightarrow> client_context \<Rightarrow> bytes \<Rightarrow>
   (bytes \<times> server \<times> client_context \<times> bytes \<times> stop) option" where
  "on_read nm rx_open cfg es d buf srv c chunk =
     (if MAX_QUERY_BUFFER < length (buf @ chunk) then Some (buf @ chunk, srv, c, [], Closed)
      else drain_buffer nm rx_open cfg es d 0 (buf @ chunk) srv c [])"

text \<open>The loop in subscriber mode: no authentication, no queue, no log.\<close>

partial_function (option) drain_sub ::
  "nom \<Rightarrow> (nat \<Rightarrow> env) \<Rightarrow> nat \<Rightarrow> nat \<Rightarrow> bytes \<Rightarrow> store \<Rightarrow> client_context \<Rightarrow> bytes \<Rightarrow> (bytes \<times> store \<times> client_context \<times> bytes) option" where
  "drain_sub nm es d n buf s c out =
     (if buf = [] then Some (buf, s, c, out)
      else case parse_command nm buf of
        IOk remaining args \<Rightarrow>
          (if args = [] then Some (buf, s, c, out)
           else case dispatch d (upper (hd args)) (es n) s c (tl args) of
             None \<Rightarrow> None
           | Some r \<Rightarrow>
               (let out' = out @ serialize_response_proto (f64_display (es n)) (snd (snd r)) (protocol (fst (snd r)))
                in if \<not> sub_mode (fst (snd r)) then Some (remaining, fst r, fst (snd r), out')
                   else drain_sub nm es d (n + 1) remaining (fst r) (fst (snd r)) out'))
      | IIncomplete \<Rightarrow> Some (buf, s, c, out)
      | _ \<Rightarrow> Some ([], s, c, out))"

section \<open>A run of commands on one connection\<close>

text \<open>
  The commands of one client, up to the one with which the loop stops, and what was done for each; command number \<open>n\<close> runs
  in the environment \<open>es n\<close>.  A command that blocks, or PSYNC, ends the run before the wait or the transfer begins: what
  they change is in \<open>block_begin\<close> and \<open>block_end\<close>, and in \<open>psync_begin\<close>.
\<close>

definition stops :: "action \<Rightarrow> bool" where
  "stops a = (case a of BlockOn _ \<Rightarrow> True | StartPsync _ \<Rightarrow> True | _ \<Rightarrow> False)"

fun run_commands ::
  "(nat \<Rightarrow> bool) \<Rightarrow> server_config \<Rightarrow> (nat \<Rightarrow> env) \<Rightarrow> nat \<Rightarrow> nat \<Rightarrow> bytes list list \<Rightarrow> server \<Rightarrow> client_context \<Rightarrow>
   (server \<times> client_context \<times> action list) option" where
  "run_commands rx_open cfg es d n [] srv c = Some (srv, c, [])"
| "run_commands rx_open cfg es d n (args # cmds) srv c =
     (case handle_command rx_open cfg (es n) d srv c args of
        None \<Rightarrow> None
      | Some (srv1, c1, a) \<Rightarrow>
          (if stops a then Some (srv1, c1, [a])
           else map_option (\<lambda>(srv2, c2, as). (srv2, c2, a # as)) (run_commands rx_open cfg es d (n + 1) cmds srv1 c1)))"

section \<open>The gate\<close>

text \<open>A connection that has not authenticated, and has done nothing that authentication is for.\<close>

definition locked :: "client_context \<Rightarrow> bool" where
  "locked c \<longleftrightarrow> \<not> authenticated c \<and> \<not> multi_mode c \<and> \<not> sub_mode c \<and> ctx_block_state c = None"

lemma auth_wrong_password:
  "requirepass cfg = Some pw \<Longrightarrow> pw \<notin> set args \<Longrightarrow> \<exists>r. handle_auth cfg c args = (c, r) \<and> is_error r"
  by (auto simp: handle_auth_def auth_password_def is_error_def auth_arity_error_def wrongpass_error_def
      split: list.splits option.splits)

lemma hello_options_locked:
  assumes "requirepass cfg = Some pw" "pw \<notin> set args"
  shows "\<exists>r. hello_options cfg c args = (c, r)"
  using assms
proof (induction cfg c args rule: hello_options.induct)
  case (2 cfg c opt rest)
  have no: "pw \<notin> set (take 2 rest)" "pw \<notin> set (drop 1 rest)"
    using "2.prems"(2) by (auto dest: in_set_takeD in_set_dropD)
  obtain r where r: "handle_auth cfg c (take 2 rest) = (c, r)" "is_error r"
    using auth_wrong_password [OF "2.prems"(1) no(1)] by blast
  show ?case using "2.IH"(2) [OF _ _ "2.prems"(1) no(2)] by (auto simp: r)
qed simp

lemma handle_hello_locked:
  assumes "requirepass cfg = Some pw" "pw \<notin> set args"
  shows "\<exists>p r. handle_hello cfg c args = (c\<lparr>protocol := p\<rparr>, r)"
proof -
  have fin: "\<exists>r. hello_finish cfg c' rest = (c', r)" if no: "pw \<notin> set rest" for c' rest
  proof -
    obtain r where "hello_options cfg c' rest = (c', r)" using hello_options_locked [OF assms(1) no] by blast
    then show ?thesis by (cases r) (simp_all add: hello_finish_def)
  qed
  have same: "c\<lparr>protocol := protocol c\<rparr> = c" by simp
  show ?thesis
  proof (cases args)
    case Nil
    then show ?thesis using fin [of "[]" c] same by (auto simp: handle_hello_def intro: exI [of _ "protocol c"])
  next
    case (Cons v rest)
    have "\<exists>r. hello_finish cfg (c\<lparr>protocol := n\<rparr>) rest = (c\<lparr>protocol := n\<rparr>, r)" for n
      using fin [of rest] assms(2) Cons by simp
    moreover have "\<exists>p r. (c, x) = (c\<lparr>protocol := p\<rparr>, r)" for x :: resp_value
      by (rule exI [of _ "protocol c"]) simp
    ultimately show ?thesis unfolding handle_hello_def Cons by (simp split: option.splits) blast
  qed
qed

lemma exempt_dispatch:
  assumes "name \<in> {''PING'', ''QUIT'', ''RESET''}"
  shows "\<exists>r. dispatch (Suc d) name e s c args = Some (s, c, r)"
proof -
  have lookup: "map_of (command_table (dispatch d)) ''PING'' = Some (- 1, cmd_ping)"
    "map_of (command_table (dispatch d)) ''QUIT'' = None" "map_of (command_table (dispatch d)) ''RESET'' = None"
    by (simp_all add: table_defs)
  have oom: "\<not> is_deny_oom_command name" using assms by (auto simp: is_deny_oom_command_def)
  have ping: "\<exists>r. cmd_ping e s c args = Some (s, c, Inr r)"
    by (simp add: cmd_ping_def reply_def split: list.split)
  from assms consider "name = ''PING''" | "name = ''QUIT''" | "name = ''RESET''" by auto
  then show ?thesis
    by cases (use lookup oom ping in \<open>auto simp: dispatch_with_def\<close>)
qed

lemma locked_step:
  assumes "requirepass cfg = Some pw" "locked c" "pw \<notin> set args" "args \<noteq> []" "upper (hd args) \<noteq> ''PSYNC''"
  shows "\<exists>c' r. handle_command rx_open cfg e (Suc d) srv c args = Some (srv, c', Respond r) \<and> locked c' \<and>
     (\<not> is_auth_exempt (upper (hd args)) \<longrightarrow> r = noauth_error)"
proof -
  let ?n = "upper (hd args)"
  have tl: "pw \<notin> set (tl args)" using assms(3,4) by (cases args) auto
  obtain r where auth: "handle_auth cfg c (tl args) = (c, r)" using auth_wrong_password [OF assms(1) tl] by blast
  obtain p r' where hello: "handle_hello cfg c (tl args) = (c\<lparr>protocol := p\<rparr>, r')"
    using handle_hello_locked [OF assms(1) tl] by blast
  have exempt: "\<exists>r. dispatch (Suc d) ?n e (srv_store srv) c (tl args) = Some (srv_store srv, c, r)"
    if "is_auth_exempt ?n" "?n \<noteq> ''AUTH''" "?n \<noteq> ''HELLO''"
    using that by (intro exempt_dispatch) (auto simp: is_auth_exempt_def)
  have not_logged: "\<not> is_write_command ?n" if "is_auth_exempt ?n"
    using that by (auto simp: is_auth_exempt_def is_write_command_def)
  show ?thesis
  proof (cases "?n \<in> {''AUTH'', ''HELLO''} \<or> \<not> is_auth_exempt ?n")
    case True
    then show ?thesis
      using assms(2,5) auth hello by (auto simp: handle_command_def Let_def locked_def is_auth_exempt_def)
  next
    case False
    then obtain r where "dispatch (Suc d) ?n e (srv_store srv) c (tl args) = Some (srv_store srv, c, r)"
      using exempt by auto
    then show ?thesis
      using False assms(2) not_logged
      by (auto simp: handle_command_def Let_def locked_def execute_def log_command_def is_auth_exempt_def
          simp del: dispatch.simps)
  qed
qed

lemma locked_run:
  assumes "requirepass cfg = Some pw"
  shows "locked c \<Longrightarrow> list_all (\<lambda>args. args \<noteq> [] \<and> pw \<notin> set args \<and> upper (hd args) \<noteq> ''PSYNC'') cmds \<Longrightarrow>
    \<exists>c' rs. run_commands rx_open cfg es (Suc d) n cmds srv c = Some (srv, c', map Respond rs) \<and> locked c' \<and>
      list_all2 (\<lambda>args r. \<not> is_auth_exempt (upper (hd args)) \<longrightarrow> r = noauth_error) cmds rs"
proof (induction cmds arbitrary: c n)
  case (Cons args cmds)
  from locked_step [OF assms Cons.prems(1), of args rx_open "es n" d srv] Cons.prems(2)
  obtain c1 r where s: "handle_command rx_open cfg (es n) (Suc d) srv c args = Some (srv, c1, Respond r)" "locked c1"
    "\<not> is_auth_exempt (upper (hd args)) \<longrightarrow> r = noauth_error" by auto
  from Cons.IH [OF s(2), of "n + 1"] Cons.prems(2) obtain c' rs where
    "run_commands rx_open cfg es (Suc d) (n + 1) cmds srv c1 = Some (srv, c', map Respond rs)" "locked c'"
    "list_all2 (\<lambda>args r. \<not> is_auth_exempt (upper (hd args)) \<longrightarrow> r = noauth_error) cmds rs" by auto
  then show ?case using s by (intro exI [of _ c'] exI [of _ "r # rs"]) (simp add: stops_def)
qed simp

section \<open>What is logged\<close>

text \<open>A handler that leaves the connection as it is, apart from the selected database.\<close>

named_theorems keep_intros \<open>the rules for outcomes that keep the connection\<close>

definition keeps :: "client_context \<Rightarrow> client_context \<Rightarrow> bool" where
  "keeps c0 c \<longleftrightarrow> c = c0\<lparr>db_index := db_index c\<rparr>"

definition keeps_from :: "client_context \<Rightarrow> outcome \<Rightarrow> bool" where
  "keeps_from c0 x \<longleftrightarrow> (\<forall>s c r. x = Some (s, c, r) \<longrightarrow> keeps c0 c)"

lemma keeps_refl [keep_intros]: "keeps c c"
  by (simp add: keeps_def)

lemma keeps_select [keep_intros]: "keeps c (c\<lparr>db_index := i\<rparr>)"
  by (simp add: keeps_def)

lemma keeps_reply [keep_intros]: "keeps c0 c \<Longrightarrow> keeps_from c0 (reply s c v)"
  by (simp add: keeps_from_def reply_def)

lemma keeps_fail [keep_intros]: "keeps c0 c \<Longrightarrow> keeps_from c0 (fail s c err)"
  by (simp add: keeps_from_def fail_def)

lemma keeps_None [keep_intros]: "keeps_from c0 None"
  by (simp add: keeps_from_def)

lemma keeps_arg [keep_intros]: "(\<And>a. keeps_from c0 (f a)) \<Longrightarrow> keeps_from c0 (arg args i f)"
  by (simp add: arg_def keeps_None)

lemma keeps_args_from [keep_intros]: "(\<And>a. keeps_from c0 (f a)) \<Longrightarrow> keeps_from c0 (args_from args n f)"
  by (simp add: args_from_def keeps_None)

lemma keeps_try_read [keep_intros]:
  "keeps c0 c \<Longrightarrow> (\<And>a. keeps_from c0 (f a)) \<Longrightarrow> keeps_from c0 (try_read s c r f)"
  by (cases r) (simp_all add: keeps_fail)

lemma keeps_try_opt [keep_intros]:
  "keeps c0 c \<Longrightarrow> (\<And>a. keeps_from c0 (f a)) \<Longrightarrow> keeps_from c0 (try_opt s c r f)"
  by (cases r) (simp_all add: keeps_try_read keeps_None)

lemma keeps_try_mut [keep_intros]:
  "keeps c0 c \<Longrightarrow> (\<And>s a. keeps_from c0 (f s a)) \<Longrightarrow> keeps_from c0 (try_mut c p f)"
  by (cases p; cases "snd p") (auto simp: keeps_fail)

definition keeps_handler :: "handler \<Rightarrow> bool" where
  "keeps_handler h \<longleftrightarrow> (\<forall>e s c args. keeps_from c (h e s c args))"

lemma keeps_handlerI: "(\<And>e s c args. keeps_from c (h e s c args)) \<Longrightarrow> keeps_handler h"
  by (simp add: keeps_handler_def)

lemma keeps_incr_fn [keep_intros]: "keeps c0 c \<Longrightarrow> keeps_from c0 (incr_fn e s c key n)"
  by (auto simp: incr_fn_def Let_def intro!: keep_intros split: option.splits)

lemma keeps_mset_loop [keep_intros]: "keeps c0 c \<Longrightarrow> keeps_from c0 (mset_loop s c ps)"
  by (induction s c ps rule: mset_loop.induct) (auto intro!: keep_intros)

lemma keeps_del_loop [keep_intros]: "keeps c0 c \<Longrightarrow> keeps_from c0 (del_loop s c keys n)"
  by (induction s c keys n rule: del_loop.induct) (auto intro!: keep_intros)

lemma keeps_string_writes:
  "keeps_handler cmd_set" "keeps_handler cmd_setrange" "keeps_handler cmd_mset" "keeps_handler cmd_incr"
  "keeps_handler cmd_incrby" "keeps_handler cmd_decr" "keeps_handler cmd_decrby" "keeps_handler cmd_append"
  "keeps_handler cmd_getset"
  by (auto simp: cmd_set_def cmd_setrange_def cmd_mset_def cmd_incr_def cmd_incrby_def cmd_decr_def
      cmd_decrby_def cmd_append_def cmd_getset_def Let_def intro!: keeps_handlerI keep_intros split: option.splits)

lemma keeps_collection_writes:
  "keeps_handler cmd_lpush" "keeps_handler cmd_rpush" "keeps_handler cmd_lpop" "keeps_handler cmd_rpop"
  "keeps_handler cmd_lset" "keeps_handler cmd_ltrim" "keeps_handler cmd_lrem"
  "keeps_handler cmd_sadd" "keeps_handler cmd_srem" "keeps_handler cmd_spop"
  "keeps_handler cmd_hset" "keeps_handler cmd_hdel" "keeps_handler cmd_hincrby"
  "keeps_handler cmd_zadd" "keeps_handler cmd_zrem" "keeps_handler cmd_nhset" "keeps_handler cmd_nhdel"
  by (auto simp: cmd_lpush_def cmd_rpush_def cmd_lpop_def cmd_rpop_def cmd_lset_def cmd_ltrim_def cmd_lrem_def
      cmd_sadd_def cmd_srem_def cmd_spop_def cmd_hset_def cmd_hdel_def cmd_hincrby_def cmd_zadd_def cmd_zrem_def
      cmd_nhset_def cmd_nhdel_def Let_def intro!: keeps_handlerI keep_intros split: option.splits)

lemma keeps_stream_writes: "keeps_handler cmd_xadd" "keeps_handler cmd_xdel" "keeps_handler cmd_xtrim"
  by (auto simp: cmd_xadd_def cmd_xdel_def cmd_xtrim_def Let_def intro!: keeps_handlerI keep_intros
      split: option.splits list.splits prod.splits)

lemma keeps_generic_writes:
  "keeps_handler cmd_del" "keeps_handler cmd_rename" "keeps_handler cmd_renamenx" "keeps_handler cmd_expire"
  "keeps_handler cmd_expireat" "keeps_handler cmd_pexpire" "keeps_handler cmd_pexpireat" "keeps_handler cmd_persist"
  "keeps_handler cmd_flushdb" "keeps_handler cmd_flushall" "keeps_handler cmd_select"
  by (auto simp: cmd_del_def cmd_rename_def cmd_renamenx_def cmd_expire_def cmd_expireat_def cmd_pexpire_def
      cmd_pexpireat_def cmd_persist_def cmd_flushdb_def cmd_flushall_def cmd_select_def Let_def
      intro!: keeps_handlerI keep_intros split: option.splits)

lemmas keeps_writes = keeps_string_writes keeps_collection_writes keeps_stream_writes keeps_generic_writes

lemma write_table_keeps:
  "list_all (\<lambda>(name, arity, h). is_write_command name \<longrightarrow> keeps_handler h) (command_table disp)"
  by (simp add: table_defs is_write_command_def keeps_writes)

lemma write_dispatch_keeps:
  assumes "is_write_command name" "dispatch d name e s c args = Some (s', c', r)"
  shows "keeps c c'"
proof (cases d)
  case (Suc n)
  from assms(2) have "dispatch_with (command_table (dispatch n)) name e s c args = Some (s', c', r)"
    by (simp add: Suc)
  then show ?thesis
  proof (cases rule: dispatch_with_cases)
    case (handled arity h res)
    then have "keeps_handler h"
      using write_table_keeps [of "dispatch n"] map_of_SomeD [of _ name "(arity, h)"] assms(1)
      by (fastforce simp: list_all_iff)
    then show ?thesis using handled(2) unfolding keeps_handler_def keeps_from_def by blast
  qed (simp add: keeps_refl)
qed (use assms in simp)

text \<open>A connection in the ordinary state: nothing queued, nothing blocked, no subscription.\<close>

definition plain :: "client_context \<Rightarrow> bool" where
  "plain c \<longleftrightarrow> authenticated c \<and> \<not> multi_mode c \<and> \<not> sub_mode c \<and> ctx_block_state c = None"

lemma plain_keeps: "keeps c c' \<Longrightarrow> plain c \<Longrightarrow> plain c'"
  by (cases c; cases c') (simp add: keeps_def plain_def)

lemma write_names: "is_write_command name \<Longrightarrow>
  name \<noteq> ''PSYNC'' \<and> name \<noteq> ''AUTH'' \<and> name \<noteq> ''HELLO'' \<and> name \<noteq> ''BGREWRITEAOF''"
  by (auto simp: is_write_command_def)

lemma handle_write:
  assumes "is_write_command (upper (hd args))" "plain c"
    and "handle_command rx_open cfg e d srv c args = Some (srv', c', a)"
  shows "\<exists>s r. dispatch d (upper (hd args)) e (srv_store srv) c (tl args) = Some (s, c', r) \<and> plain c' \<and>
     a = Respond r \<and> log_command rx_open (srv\<lparr>srv_store := s\<rparr>) (upper (hd args)) args = Some srv'"
proof -
  obtain s c1 r where d: "dispatch d (upper (hd args)) e (srv_store srv) c (tl args) = Some (s, c1, r)"
    using assms write_names [OF assms(1)]
    by (auto simp: handle_command_def Let_def plain_def execute_def split: option.splits)
  have p: "plain c1" using write_dispatch_keeps [OF assms(1) d] plain_keeps assms(2) by blast
  have "execute e d srv c (upper (hd args)) (tl args) = Some (srv\<lparr>srv_store := s\<rparr>, c1, Respond r)"
    using write_names [OF assms(1)] d by (simp add: execute_def)
  then show ?thesis
    using assms write_names [OF assms(1)] d p
    by (auto simp: handle_command_def Let_def plain_def split: option.splits)
qed

lemma log_command_aof:
  assumes "is_write_command name" "log_command rx_open srv name args = Some srv'"
  shows "srv_aof srv' = map_option (\<lambda>log. log @ encode_command_for_aof args) (srv_aof srv)" "srv_store srv' = srv_store srv"
  using assms by (auto simp: log_command_def Let_def split: option.splits)

lemma run_writes:
  assumes "list_all (\<lambda>args. is_write_command (upper (hd args))) cmds" "plain c" "srv_aof srv = Some log"
    and "run_commands rx_open cfg es d n cmds srv c = Some (srv', c', as)"
  shows "srv_aof srv' = Some (log @ concat (map encode_command_for_aof cmds)) \<and>
    run_log es d cmds (srv_store srv) c n = Some (srv_store srv', c', n + length cmds)"
  using assms
proof (induction cmds arbitrary: c srv log n as)
  case (Cons args cmds)
  obtain srv1 c1 a where h: "handle_command rx_open cfg (es n) d srv c args = Some (srv1, c1, a)"
    using Cons.prems(4) by (auto split: option.splits)
  from handle_write [OF _ Cons.prems(2) h] Cons.prems(1) obtain s r where
    d: "dispatch d (upper (hd args)) (es n) (srv_store srv) c (tl args) = Some (s, c1, r)" "plain c1" "a = Respond r"
      "log_command rx_open (srv\<lparr>srv_store := s\<rparr>) (upper (hd args)) args = Some srv1" by auto
  have s1: "srv_aof srv1 = Some (log @ encode_command_for_aof args)" "srv_store srv1 = s"
    using log_command_aof [OF _ d(4)] Cons.prems(1,3) by simp_all
  obtain as' where "run_commands rx_open cfg es d (n + 1) cmds srv1 c1 = Some (srv', c', as')"
    using Cons.prems(4) h d(3) by (auto simp: stops_def)
  from Cons.IH [OF _ d(2) s1(1) this] Cons.prems(1) d(1) s1(2) show ?case by simp
qed simp

section \<open>Properties\<close>

text \<open>
  C4: The password gate.  On a server with a password, a client that never sends it, in whatever
  command and whatever form, and does not send PSYNC, is answered every time, with the NOAUTH error to every command outside the exempt list, stays
  unauthenticated, and changes nothing: not the store, not the append-only file, not the backlog.  PSYNC is left out because the code
  handles it before the gate (\<open>psync_before_auth\<close>).
\<close>

theorem auth_gate:
  assumes "requirepass cfg = Some pw" "list_all (\<lambda>args. args \<noteq> [] \<and> pw \<notin> set args \<and> upper (hd args) \<noteq> ''PSYNC'') cmds"
  shows "\<exists>c' rs. run_commands rx_open cfg es (Suc d) n cmds srv (connect cfg) = Some (srv, c', map Respond rs) \<and> \<not> authenticated c' \<and>
    list_all2 (\<lambda>args r. \<not> is_auth_exempt (upper (hd args)) \<longrightarrow> r = noauth_error) cmds rs"
proof -
  have "locked (connect cfg)" using assms(1) by (simp add: locked_def connect_def client_context_new_def)
  from locked_run [OF assms(1) this assms(2)] show ?thesis unfolding locked_def by blast
qed

definition locked_config :: server_config where
  "locked_config = (default_config None)\<lparr>requirepass := Some ''secret''\<rparr>"

definition test_server :: server where
  "test_server = \<lparr>srv_store = store_new 1, srv_aof = Some [], srv_backlog = None\<rparr>"

theorem auth_gate_witness:
  "\<exists>c' r2 r3. run_commands (\<lambda>_. True) locked_config (\<lambda>_. env0) (Suc 0) 0
      [[''SET'', ''k'', ''v''], [''AUTH'', ''guess''], [''HELLO'', ''3'', ''AUTH'', ''default'', ''x''], [''FLUSHALL'']]
      test_server (connect locked_config) =
        Some (test_server, c', [Respond noauth_error, Respond r2, Respond r3, Respond noauth_error]) \<and> \<not> authenticated c'"
proof -
  let ?cmds = "[[''SET'', ''k'', ''v''], [''AUTH'', ''guess''], [''HELLO'', ''3'', ''AUTH'', ''default'', ''x''], [''FLUSHALL'']]"
  have u: "upper ''SET'' = ''SET''" "upper ''AUTH'' = ''AUTH''" "upper ''HELLO'' = ''HELLO''" "upper ''FLUSHALL'' = ''FLUSHALL''"
    by code_simp+
  have "requirepass locked_config = Some ''secret''" "list_all (\<lambda>args. args \<noteq> [] \<and> ''secret'' \<notin> set args \<and> upper (hd args) \<noteq> ''PSYNC'') ?cmds"
    by (simp_all add: locked_config_def u)
  from auth_gate [OF this, of "\<lambda>_. True" "\<lambda>_. env0" 0 0 test_server] show ?thesis
    by (auto simp: list_all2_Cons1 u is_auth_exempt_def simp del: run_commands.simps)
qed

text \<open>
  PSYNC passes the gate.  The command that starts replication is handled before the check for
  authentication, so a client without the password, which is refused a GET, is given the whole
  dataset.
\<close>

theorem psync_before_auth:
  assumes "\<not> authenticated c"
  shows "handle_command rx_open cfg e d srv c [''GET'', key] = Some (srv, c, Respond noauth_error) \<and>
    handle_command rx_open cfg e d srv c [''PSYNC'', ''?'', ''-1''] = Some (srv, c, StartPsync [''?'', ''-1''])"
proof -
  have u: "upper ''GET'' = ''GET''" "upper ''PSYNC'' = ''PSYNC''" by code_simp+
  show ?thesis using assms by (simp add: handle_command_def u is_auth_exempt_def)
qed

theorem psync_before_auth_witness:
  "handle_command (\<lambda>_. True) locked_config env0 1 test_server (connect locked_config) [''PSYNC'', ''?'', ''-1''] =
     Some (test_server, connect locked_config, StartPsync [''?'', ''-1''])"
  by (rule psync_before_auth [THEN conjunct2]) (simp add: connect_def locked_config_def client_context_new_def)

text \<open>
  An empty command wedges a connection.  A request with no elements is never taken off the read
  buffer: whatever the client sends after it is appended and nothing is ever run or answered again.
\<close>

theorem empty_request_wedges:
  assumes "nom_laws nm" "length (''*0'' @ crlf @ rest @ chunk) \<le> MAX_QUERY_BUFFER"
  shows "on_read nm rx_open cfg es d (''*0'' @ crlf @ rest) srv c chunk =
    Some (''*0'' @ crlf @ rest @ chunk, srv, c, [], ReadMore)"
proof -
  let ?buf = "''*0'' @ crlf @ rest @ chunk"
  have "nat_to_string 0 = ''0''" by code_simp
  then have "encode_command_for_aof [] = ''*0'' @ crlf" by (simp add: encode_command_for_aof_def)
  then have "parse_command nm ?buf = IOk (rest @ chunk) []"
    using parse_command_args [OF assms(1), of "[]" "\<lambda>_. []" "rest @ chunk"] assms(2)
    by (simp add: encode_command_serialize [of _ "\<lambda>_. []"] in_i64_def i64_min_def i64_max_def MAX_QUERY_BUFFER_def u64_max_def)
  then have "drain_buffer nm rx_open cfg es d 0 ?buf srv c [] = Some (?buf, srv, c, [], ReadMore)"
    by (subst drain_buffer.simps) simp
  then show ?thesis using assms(2) by (simp add: on_read_def)
qed

theorem empty_request_wedges_witness:
  "on_read nom_ref (\<lambda>_. True) locked_config (\<lambda>_. env0) 1 (''*0'' @ crlf @ []) test_server (connect locked_config)
     (''*1'' @ crlf @ ''$4'' @ crlf @ ''PING'' @ crlf) =
   Some (''*0'' @ crlf @ [] @ ''*1'' @ crlf @ ''$4'' @ crlf @ ''PING'' @ crlf, test_server, connect locked_config, [], ReadMore)"
  by (rule empty_request_wedges [OF nom_laws_ref]) (simp add: crlf_def MAX_QUERY_BUFFER_def)

text \<open>
  Transactions are not durable.  Only the names of the commands that a client sends directly are checked for
  the log; the commands that EXEC runs leave no trace in the append-only file, so a replay does not have
  them.
\<close>

theorem transactions_not_logged:
  "\<exists>srv' c' as. run_commands rx_open (default_config None) (\<lambda>_. e) 2 0
       [[''MULTI''], [''SET'', ''k'', ''v''], [''EXEC'']] test_server (connect (default_config None)) = Some (srv', c', as) \<and>
     store_get t (srv_store srv') 0 ''k'' = Inr (Some ''v'') \<and> srv_aof srv' = Some []"
proof -
  let ?cfg = "default_config None" and ?c1 = "client_context_new\<lparr>multi_mode := True, multi_queue := []\<rparr>"
  let ?c2 = "?c1\<lparr>multi_queue := [[''SET'', ''k'', ''v'']]\<rparr>"
  define s1 where "s1 = fst (store_set (store_new 1) 0 ''k'' ''v'' None)"
  have u: "upper ''SET'' = ''SET''" "upper ''MULTI'' = ''MULTI''" "upper ''EXEC'' = ''EXEC''" by code_simp+
  have c0: "connect ?cfg = client_context_new" by (simp add: connect_def default_config_def client_context_new_def)
  have lookup: "map_of (command_table dsp) ''MULTI'' = Some (1, cmd_multi)"
    "map_of (command_table dsp) ''SET'' = Some (- 3, cmd_set)" for dsp by (simp_all add: table_defs)
  have multi: "dispatch 2 ''MULTI'' e s client_context_new [] = Some (s, ?c1, resp_ok)" for s
    by (simp add: numeral_2_eq_2 dispatch_with_def lookup is_deny_oom_command_def cmd_multi_def reply_def)
  have set: "dispatch (Suc 0) ''SET'' e (store_new 1) c [''k'', ''v''] = Some (s1, c, resp_ok)" if "db_index c = 0" for c
    using that by (simp add: s1_def dispatch_with_def lookup over_memory_limit_def cmd_set_def args_from_def
        no_set_options_def store_set_def db_def store_new_def reply_def Let_def)
  have c2: "multi_mode ?c2" "client_wf ?c2" "watches_hold t (store_new 1) ?c2" "db_index (end_transaction ?c2) = 0" for t
    by (simp_all add: client_wf_def watches_hold_def client_context_new_def end_transaction_def)
  have exec: "dispatch 2 ''EXEC'' e (store_new 1) ?c2 [] = Some (s1, end_transaction ?c2, RArray (Some [resp_ok]))"
    unfolding numeral_2_eq_2 dispatch_exec [OF c2(1,2)] using c2(3,4) set [of "end_transaction ?c2"]
    by (simp add: u reply_def del: dispatch.simps)
  have "store_get t s1 0 ''k'' = Inr (Some ''v'')" by (simp add: s1_def) code_simp
  moreover have new: "authenticated client_context_new" "\<not> multi_mode client_context_new" "\<not> sub_mode client_context_new"
    "ctx_block_state client_context_new = None" by (simp_all add: client_context_new_def)
  have srv: "srv_store test_server = store_new 1" "test_server\<lparr>srv_store := store_new 1\<rparr> = test_server"
    by (simp_all add: test_server_def)
  have "handle_command rx_open ?cfg e 2 test_server client_context_new [''MULTI''] = Some (test_server, ?c1, Respond resp_ok)"
    by (simp add: handle_command_def u execute_def multi log_command_def is_write_command_def new srv
        del: dispatch.simps One_nat_def)
  moreover have "handle_command rx_open ?cfg e 2 test_server ?c1 [''SET'', ''k'', ''v''] =
      Some (test_server, ?c2, Respond (SimpleString ''QUEUED''))"
    by (simp add: handle_command_def u may_queue_def new)
  moreover have "handle_command rx_open ?cfg e 2 test_server ?c2 [''EXEC''] =
      Some (test_server\<lparr>srv_store := s1\<rparr>, end_transaction ?c2, Respond (RArray (Some [resp_ok])))"
    using exec by (simp add: handle_command_def u execute_def log_command_def is_write_command_def may_queue_def new srv
        end_transaction_def del: dispatch.simps One_nat_def)
  ultimately show ?thesis by (simp add: c0 stops_def test_server_def)
qed

text \<open>
  C36: A request that arrives in two reads is refused.  When the bytes read so far end inside
  a request, wherever that is, the parser reports an error and not that it needs more, so the connection
  writes the protocol error, and nothing else, and is closed; the request is not run.
\<close>

theorem split_request_refused:
  assumes "nom_laws nm" "frame_fits args" "0 < k" "k < length (encode_command_for_aof args)" "k \<le> MAX_QUERY_BUFFER"
  shows "on_read nm rx_open cfg es d [] srv c (take k (encode_command_for_aof args)) =
    Some (take k (encode_command_for_aof args), srv, c, ''-ERR protocol error'' @ crlf, Closed)"
proof -
  let ?p = "take k (encode_command_for_aof args)"
  have le: "length ?p \<le> u64_max" "length ?p \<le> MAX_QUERY_BUFFER"
    using assms(5) by (simp_all add: MAX_QUERY_BUFFER_def u64_max_def)
  have "?p \<noteq> []" using assms(3,4) by auto
  then show ?thesis
    using le(2) assms(5) by (simp add: on_read_def drain_buffer.simps [of _ _ _ _ _ _ ?p] parse_cut_frame [OF assms(1,2,4) le(1)]
        serialize_response_proto_def)
qed

theorem split_request_refused_witness:
  "on_read nom_ref (\<lambda>_. True) (default_config None) (\<lambda>_. env0) 1 [] test_server client_context_new
      (take 26 (encode_command_for_aof [''SET'', ''k'', ''value''])) =
    Some (take 26 (encode_command_for_aof [''SET'', ''k'', ''value'']), test_server, client_context_new, ''-ERR protocol error'' @ crlf, Closed)"
proof (rule split_request_refused [OF nom_laws_ref])
  have "length (encode_command_for_aof [''SET'', ''k'', ''value'']) = 31" by code_simp
  then show "26 < length (encode_command_for_aof [''SET'', ''k'', ''value''])" by simp
qed (simp_all add: frame_fits_def in_i64_def i64_min_def i64_max_def MAX_QUERY_BUFFER_def)

end
