(* ===== verification/AofFile.thy ===== *)
theory AofFile
  imports Connection
begin

text \<open>
  \<open>persist/aof.rs\<close>: the writer of the append-only file, on a file system.  \<^typ>\<open>nat\<close> numbers stand for files;
  a name may come to stand for another file while a handle keeps its own, which is what the rewrite has to get right.
  For each file there are the bytes a reader sees and the bytes that are on the disk.

  A system call may fail: \<open>io\<close> gives for each call \<^term>\<open>None\<close> when it succeeds and \<^term>\<open>Some n\<close> when
  it fails, a write after \<^term>\<open>n\<close> bytes.  The lemmas show that the writer keeps the log of
  \<open>Connection\<close>, which has only the bytes of the log, across appends and rewrites.
\<close>

section \<open>Files\<close>

record disk =
  dir_names :: "bytes \<rightharpoonup> nat"
  contents :: "nat \<Rightarrow> bytes"
  synced :: "nat \<Rightarrow> bytes"
  next_file :: nat

definition read_file :: "disk \<Rightarrow> bytes \<Rightarrow> bytes option" where
  "read_file d p = map_option (contents d) (dir_names d p)"

definition create_file :: "disk \<Rightarrow> bytes \<Rightarrow> disk \<times> nat" where
  "create_file d p =
     (case dir_names d p of
        Some i \<Rightarrow> (d\<lparr>contents := (contents d)(i := [])\<rparr>, i)
      | None \<Rightarrow> (d\<lparr>dir_names := (dir_names d)(p \<mapsto> next_file d),
                  contents := (contents d)(next_file d := []),
                  synced := (synced d)(next_file d := []),
                  next_file := next_file d + 1\<rparr>, next_file d))"

definition open_append :: "disk \<Rightarrow> bytes \<Rightarrow> disk \<times> nat" where
  "open_append d p = (case dir_names d p of Some i \<Rightarrow> (d, i) | None \<Rightarrow> create_file d p)"

definition write_all :: "disk \<Rightarrow> nat \<Rightarrow> bytes \<Rightarrow> disk" where
  "write_all d i data = d\<lparr>contents := (contents d)(i := contents d i @ data)\<rparr>"

text \<open>\<open>File::flush\<close> does nothing: a file has no buffer of its own.  \<open>sync_all\<close> reaches the disk.\<close>

definition flush_file :: "disk \<Rightarrow> nat \<Rightarrow> disk" where
  "flush_file d i = d"

definition sync_all :: "disk \<Rightarrow> nat \<Rightarrow> disk" where
  "sync_all d i = d\<lparr>synced := (synced d)(i := contents d i)\<rparr>"

definition remove_file :: "disk \<Rightarrow> bytes \<Rightarrow> disk" where
  "remove_file d p = d\<lparr>dir_names := (dir_names d)(p := None)\<rparr>"

definition rename_file :: "disk \<Rightarrow> bytes \<Rightarrow> bytes \<Rightarrow> disk" where
  "rename_file d p q =
     (case dir_names d p of None \<Rightarrow> d | Some i \<Rightarrow> d\<lparr>dir_names := (dir_names d)(p := None, q \<mapsto> i)\<rparr>)"

text \<open>
  \<open>Path::with_extension\<close> on a path that ends in a file name: the extension is what follows the last point
  of the name, unless the name begins with it.
\<close>

definition with_extension :: "bytes \<Rightarrow> bytes \<Rightarrow> bytes" where
  "with_extension p ext =
     (let name = rev (takeWhile (\<lambda>c. c \<noteq> CHR ''/'') (rev p));
          dir = take (length p - length name) p;
          stem = rev (drop 1 (dropWhile (\<lambda>c. c \<noteq> CHR ''.'') (rev name)))
      in dir @ (if stem = [] then name else stem) @ ''.'' @ ext)"

section \<open>The writer\<close>

datatype fsync_policy = FsyncNo | EverySec | Always

record aof_writer =
  aw_file :: nat
  aw_policy :: fsync_policy
  aw_path :: bytes

datatype io_call = OpenCall | WriteCall | CreateTmp | WriteTmp | FlushTmp | SyncTmp | RemoveCall | RenameCall | ReopenCall

type_synonym io = "io_call \<Rightarrow> nat option"

definition aof_open :: "io \<Rightarrow> disk \<Rightarrow> bytes \<Rightarrow> fsync_policy \<Rightarrow> disk \<times> aof_writer option" where
  "aof_open io d p policy =
     (if io OpenCall \<noteq> None then (d, None)
      else let (d', i) = open_append d p in (d', Some \<lparr>aw_file = i, aw_policy = policy, aw_path = p\<rparr>))"

definition aof_append :: "io \<Rightarrow> bytes \<Rightarrow> disk \<times> aof_writer \<Rightarrow> disk \<times> aof_writer" where
  "aof_append io data dw =
     (case io WriteCall of
        Some n \<Rightarrow> (write_all (fst dw) (aw_file (snd dw)) (take n data), snd dw)
      | None \<Rightarrow>
          (let d = write_all (fst dw) (aw_file (snd dw)) data
           in (if aw_policy (snd dw) = Always then flush_file d (aw_file (snd dw)) else d, snd dw)))"

definition aof_sync :: "disk \<times> aof_writer \<Rightarrow> disk \<times> aof_writer" where
  "aof_sync dw = (flush_file (fst dw) (aw_file (snd dw)), snd dw)"

definition rewrite_tmp :: "aof_writer \<Rightarrow> bytes" where
  "rewrite_tmp w = with_extension (aw_path w) ''aof.rewrite''"

text \<open>
  \<open>rewrite\<close>, for the bytes \<open>data\<close> of the dataset, in two parts: writing the new file, and putting it in the place of
  the old one.  The flags say whether they succeeded.  The failure of the removal is ignored.
\<close>

definition write_tmp :: "io \<Rightarrow> bytes \<Rightarrow> disk \<Rightarrow> bytes \<Rightarrow> disk \<times> bool" where
  "write_tmp io data d tmp =
     (if io CreateTmp \<noteq> None then (d, False)
      else case create_file d tmp of
        (d1, i) \<Rightarrow>
          (case io WriteTmp of
             Some n \<Rightarrow> (write_all d1 i (take n data), False)
           | None \<Rightarrow>
               (if io FlushTmp \<noteq> None then (write_all d1 i data, False)
                else if io SyncTmp \<noteq> None then (flush_file (write_all d1 i data) i, False)
                else (sync_all (flush_file (write_all d1 i data) i) i, True))))"

definition swap_file :: "io \<Rightarrow> disk \<Rightarrow> bytes \<Rightarrow> aof_writer \<Rightarrow> (disk \<times> aof_writer) \<times> bool" where
  "swap_file io d tmp w =
     (let d1 = (if io RemoveCall \<noteq> None then d else remove_file d (aw_path w)) in
      if io RenameCall \<noteq> None then ((d1, w), False)
      else let d2 = rename_file d1 tmp (aw_path w) in
      if io ReopenCall \<noteq> None then ((d2, w), False)
      else case open_append d2 (aw_path w) of (d3, i) \<Rightarrow> ((d3, w\<lparr>aw_file := i\<rparr>), True))"

definition writer_rewrite :: "io \<Rightarrow> bytes \<Rightarrow> disk \<times> aof_writer \<Rightarrow> (disk \<times> aof_writer) \<times> bool" where
  "writer_rewrite io data dw =
     (case write_tmp io data (fst dw) (rewrite_tmp (snd dw)) of
        (d, False) \<Rightarrow> ((d, snd dw), False)
      | (d, True) \<Rightarrow> swap_file io d (rewrite_tmp (snd dw)) (snd dw))"

text \<open>
  \<open>load_aof\<close> reads the file line by line; nothing in the server calls it.  \<^term>\<open>None\<close> is the error of a
  line that is not UTF-8.
\<close>

fun aof_lines :: "bytes \<Rightarrow> bytes \<Rightarrow> bytes list" where
  "aof_lines cur [] = (if cur = [] then [] else [cur])"
| "aof_lines cur (c # cs) = (if c = CHR 0x0A then (cur @ [c]) # aof_lines [] cs else aof_lines (cur @ [c]) cs)"

definition load_aof :: "bytes \<Rightarrow> bytes list option" where
  "load_aof data =
     (let ls = aof_lines [] data
      in if list_all (\<lambda>l. utf8_lossy l = l) ls then Some (filter (\<lambda>l. l \<noteq> []) (map trim ls)) else None)"

section \<open>A log\<close>

text \<open>
  What the server relies on: a state with a log, to which bytes are appended and which a rewrite replaces.
  The contract is proved for the log in the state of the connections and for the writer on the disk, so
  that both hold the same bytes after the same operations.
\<close>

datatype log_op = LogAppend bytes | LogReplace bytes

definition log_step :: "(bytes \<Rightarrow> 's \<Rightarrow> 's) \<Rightarrow> (bytes \<Rightarrow> 's \<Rightarrow> 's) \<Rightarrow> log_op \<Rightarrow> 's \<Rightarrow> 's" where
  "log_step app rep op s = (case op of LogAppend x \<Rightarrow> app x s | LogReplace x \<Rightarrow> rep x s)"

definition log_effect :: "log_op \<Rightarrow> bytes \<Rightarrow> bytes" where
  "log_effect op log = (case op of LogAppend x \<Rightarrow> log @ x | LogReplace x \<Rightarrow> x)"

locale command_log =
  fixes ok :: "'s \<Rightarrow> bool" and log_of :: "'s \<Rightarrow> bytes"
    and app :: "bytes \<Rightarrow> 's \<Rightarrow> 's" and rep :: "bytes \<Rightarrow> 's \<Rightarrow> 's"
  assumes ok_app: "ok s \<Longrightarrow> ok (app x s)" and log_app: "ok s \<Longrightarrow> log_of (app x s) = log_of s @ x"
    and ok_rep: "ok s \<Longrightarrow> ok (rep x s)" and log_rep: "ok s \<Longrightarrow> log_of (rep x s) = x"
begin

lemma ok_run: "ok s \<Longrightarrow> ok (fold (log_step app rep) ops s)"
  by (induction ops arbitrary: s) (simp_all add: log_step_def ok_app ok_rep split: log_op.split)

lemma log_run: "ok s \<Longrightarrow> log_of (fold (log_step app rep) ops s) = fold log_effect ops (log_of s)"
proof (induction ops arbitrary: s)
  case (Cons op ops)
  have "ok (log_step app rep op s)" "log_of (log_step app rep op s) = log_effect op (log_of s)"
    using Cons.prems by (simp_all add: log_step_def log_effect_def ok_app ok_rep log_app log_rep split: log_op.split)
  then show ?case using Cons.IH by simp
qed simp

end

text \<open>The log of the connections: the update of \<open>log_command\<close> and that of \<open>aof_rewrite\<close>.\<close>

definition server_append :: "bytes \<Rightarrow> server \<Rightarrow> server" where
  "server_append x srv = srv\<lparr>srv_aof := map_option (\<lambda>log. log @ x) (srv_aof srv)\<rparr>"

definition server_replace :: "bytes \<Rightarrow> server \<Rightarrow> server" where
  "server_replace x srv = srv\<lparr>srv_aof := map_option (\<lambda>_. x) (srv_aof srv)\<rparr>"

lemma log_command_append: "is_write_command name \<Longrightarrow> srv_backlog srv = None \<Longrightarrow>
    log_command rx_open srv name args = Some (server_append (encode_command_for_aof args) srv)"
  by (simp add: log_command_def server_append_def Let_def)

lemma aof_rewrite_replace:
  "aof_rewrite e clock srv = server_replace (write_dataset (f64_display e) clock (srv_store srv)) srv"
  by (simp add: aof_rewrite_def server_replace_def)

interpretation in_server: command_log "\<lambda>srv. srv_aof srv \<noteq> None" "\<lambda>srv. the (srv_aof srv)" server_append server_replace
  by unfold_locales (auto simp: server_append_def server_replace_def)

text \<open>The writer on the disk: its handle is the file the name stands for.\<close>

definition disk_wf :: "disk \<Rightarrow> bool" where
  "disk_wf d \<longleftrightarrow> (\<forall>p i. dir_names d p = Some i \<longrightarrow> i < next_file d) \<and>
     (\<forall>p q i. dir_names d p = Some i \<and> dir_names d q = Some i \<longrightarrow> p = q)"

definition writer_ok :: "disk \<times> aof_writer \<Rightarrow> bool" where
  "writer_ok dw \<longleftrightarrow> disk_wf (fst dw) \<and> dir_names (fst dw) (aw_path (snd dw)) = Some (aw_file (snd dw)) \<and>
     rewrite_tmp (snd dw) \<noteq> aw_path (snd dw)"

definition writer_log :: "disk \<times> aof_writer \<Rightarrow> bytes" where
  "writer_log dw = contents (fst dw) (aw_file (snd dw))"

definition io_ok :: io where "io_ok = (\<lambda>_. None)"

lemma writer_read: "writer_ok dw \<Longrightarrow> read_file (fst dw) (aw_path (snd dw)) = Some (writer_log dw)"
  by (simp add: writer_ok_def read_file_def writer_log_def)

lemmas disk_defs = create_file_def open_append_def write_all_def flush_file_def sync_all_def remove_file_def
  rename_file_def

lemma disk_wf_write: "disk_wf (write_all d i x) = disk_wf d"
  by (simp add: disk_wf_def write_all_def)

lemma append_ok:
  assumes "writer_ok dw"
  shows "writer_ok (aof_append io data dw)"
    and "writer_log (aof_append io data dw) =
      writer_log dw @ (case io WriteCall of None \<Rightarrow> data | Some n \<Rightarrow> take n data)"
  using assms
  by (auto simp: writer_ok_def writer_log_def aof_append_def disk_wf_def disk_defs Let_def split: option.splits)

lemma create_tmp:
  assumes "disk_wf d" "create_file d p = (d', i)"
  shows "disk_wf d'" "dir_names d' = (dir_names d)(p \<mapsto> i)" "contents d' i = []"
    and "dir_names d q = Some j \<Longrightarrow> q \<noteq> p \<Longrightarrow> contents d' j = contents d j \<and> j \<noteq> i"
proof -
  have lt: "j < next_file d" if "dir_names d q = Some j" for q j using assms(1) that by (auto simp: disk_wf_def)
  then have new: "dir_names d q \<noteq> Some (next_file d)" for q by blast
  show "disk_wf d'"
  proof (cases "dir_names d p")
    case None
    then have d': "dir_names d' = (dir_names d)(p \<mapsto> next_file d)" "next_file d' = Suc (next_file d)"
      using assms(2) by (auto simp: create_file_def)
    show ?thesis
      unfolding disk_wf_def d' using assms(1) lt new less_SucI [OF lt]
      by (auto simp: disk_wf_def split: if_splits)
  next
    case (Some j)
    then show ?thesis using assms by (auto simp: disk_wf_def create_file_def)
  qed
  show "dir_names d' = (dir_names d)(p \<mapsto> i)" "contents d' i = []"
    using assms(2) by (auto simp: create_file_def split: option.splits)
  show "dir_names d q = Some j \<Longrightarrow> q \<noteq> p \<Longrightarrow> contents d' j = contents d j \<and> j \<noteq> i"
    using assms lt new unfolding disk_wf_def create_file_def by (fastforce split: option.splits)
qed

lemma disk_wf_rename:
  assumes "disk_wf d" "dir_names d t = Some i" "dir_names d' = (dir_names d)(t := None, p \<mapsto> i)" "next_file d' = next_file d"
  shows "disk_wf d'"
  unfolding disk_wf_def assms(3,4)
proof (intro conjI allI impI)
  have inj: "dir_names d q = Some i \<Longrightarrow> q = t" for q using assms(1,2) unfolding disk_wf_def by blast
  fix q r j assume "((dir_names d)(t := None, p \<mapsto> i)) q = Some j \<and> ((dir_names d)(t := None, p \<mapsto> i)) r = Some j"
  then show "q = r" using assms(1) inj unfolding disk_wf_def by (auto split: if_splits)
qed (use assms(1,2) in \<open>auto simp: disk_wf_def split: if_splits\<close>)

lemma write_tmp_cases:
  assumes "create_file d tmp = (d1, i)"
  shows "write_tmp io data d tmp = (d, False) \<or> (\<exists>x. write_tmp io data d tmp = (write_all d1 i x, False)) \<or>
    write_tmp io data d tmp = (sync_all (write_all d1 i data) i, True)"
  using assms by (auto simp: write_tmp_def flush_file_def split: option.split)

lemma rewrite_ok:
  assumes "writer_ok dw" "\<forall>call. call \<noteq> RemoveCall \<longrightarrow> io call = None"
  shows "snd (writer_rewrite io data dw)"
    and "writer_ok (fst (writer_rewrite io data dw))"
    and "writer_log (fst (writer_rewrite io data dw)) = data"
    and "aw_path (snd (fst (writer_rewrite io data dw))) = aw_path (snd dw)"
proof -
  obtain d w where dw: "dw = (d, w)" by fastforce
  obtain d1 i where c: "create_file d (rewrite_tmp w) = (d1, i)" by fastforce
  have wf: "disk_wf d" "dir_names d (aw_path w) = Some (aw_file w)" "rewrite_tmp w \<noteq> aw_path w"
    using assms(1) by (simp_all add: writer_ok_def dw)
  note c1 = create_tmp [OF wf(1) c]
  let ?d4 = "sync_all (flush_file (write_all d1 i data) i) i"
  define d6 where "d6 = d1\<lparr>contents := (contents d1)(i := data), synced := (synced d1)(i := data),
      dir_names := (dir_names d1)(rewrite_tmp w := None, aw_path w \<mapsto> i)\<rparr>"
  have names: "f(aw_path w := None, rewrite_tmp w := None, aw_path w \<mapsto> i) = f(rewrite_tmp w := None, aw_path w \<mapsto> i)"
    "f(rewrite_tmp w \<mapsto> i, aw_path w := None, rewrite_tmp w := None, aw_path w \<mapsto> i) =
     f(rewrite_tmp w := None, aw_path w \<mapsto> i)" for f :: "bytes \<rightharpoonup> nat"
    by (rule ext, simp)+
  have "rename_file ?d4 (rewrite_tmp w) (aw_path w) = d6"
    "rename_file (remove_file ?d4 (aw_path w)) (rewrite_tmp w) (aw_path w) = d6"
    using c1(2,3) wf(3) names by (simp_all add: d6_def disk_defs)
  moreover have "open_append d6 (aw_path w) = (d6, i)" by (simp add: d6_def open_append_def)
  ultimately have r: "writer_rewrite io data dw = ((d6, w\<lparr>aw_file := i\<rparr>), True)"
    using assms(2) by (simp add: writer_rewrite_def write_tmp_def swap_file_def dw c Let_def)
  then show "snd (writer_rewrite io data dw)" "aw_path (snd (fst (writer_rewrite io data dw))) = aw_path (snd dw)"
    "writer_log (fst (writer_rewrite io data dw)) = data"
    by (simp_all add: dw writer_log_def d6_def)
  have "disk_wf d6" by (rule disk_wf_rename [OF c1(1), of "rewrite_tmp w" i]) (simp_all add: c1(2) d6_def)
  then show "writer_ok (fst (writer_rewrite io data dw))"
    using wf(3) by (simp add: r writer_ok_def rewrite_tmp_def d6_def)
qed

interpretation on_disk: command_log writer_ok writer_log "aof_append io_ok" "\<lambda>x dw. fst (writer_rewrite io_ok x dw)"
proof unfold_locales
  fix s x assume "writer_ok s"
  then show "writer_ok (aof_append io_ok x s)" "writer_log (aof_append io_ok x s) = writer_log s @ x"
    using append_ok [of s io_ok x] by (simp_all add: io_ok_def)
  show "writer_ok (fst (writer_rewrite io_ok x s))" "writer_log (fst (writer_rewrite io_ok x s)) = x"
    using rewrite_ok [OF \<open>writer_ok s\<close>, of io_ok x] by (simp_all add: io_ok_def)
qed

section \<open>Properties\<close>

lemma path_run:
  assumes "writer_ok dw"
  shows "aw_path (snd (fold (log_step (aof_append io_ok) (\<lambda>x dw. fst (writer_rewrite io_ok x dw))) ops dw)) = aw_path (snd dw)"
  using assms
proof (induction ops arbitrary: dw)
  case (Cons op ops)
  let ?dw = "log_step (aof_append io_ok) (\<lambda>x dw. fst (writer_rewrite io_ok x dw)) op dw"
  have "writer_ok ?dw" using on_disk.ok_run [OF Cons.prems, of "[op]"] by simp
  moreover have "aw_path (snd ?dw) = aw_path (snd dw)"
    using rewrite_ok(4) [OF Cons.prems, of io_ok]
    by (cases op) (simp_all add: log_step_def aof_append_def io_ok_def Let_def)
  ultimately show ?case using Cons.IH by simp
qed simp

text \<open>
  C16: The writer keeps the log.  After any sequence of appends and rewrites the file that the name stands for, which is the
  one a restart reads, holds exactly the bytes of the log as the connections have it; in particular what is
  appended after a rewrite goes to the new file.
\<close>

theorem writer_keeps_log:
  assumes "writer_ok (d, w)" "srv_aof srv = Some (writer_log (d, w))"
    and "fold (log_step (aof_append io_ok) (\<lambda>x dw. fst (writer_rewrite io_ok x dw))) ops (d, w) = (d', w')"
  shows "read_file d' (aw_path w) = srv_aof (fold (log_step server_append server_replace) ops srv)"
proof -
  have "writer_ok (d', w')" using on_disk.ok_run [OF assms(1), of ops] assms(3) by simp
  moreover have "aw_path w' = aw_path w" using path_run [OF assms(1), of ops] assms(3) by simp
  ultimately have "read_file d' (aw_path w) = Some (writer_log (d', w'))" using writer_read [of "(d', w')"] by simp
  also have "writer_log (d', w') = fold log_effect ops (writer_log (d, w))"
    using on_disk.log_run [OF assms(1), of ops] assms(3) by simp
  also have "Some \<dots> = srv_aof (fold (log_step server_append server_replace) ops srv)"
    using in_server.log_run [of srv ops] in_server.ok_run [of srv ops] assms(2) by auto
  finally show ?thesis .
qed

definition test_disk :: disk where
  "test_disk = \<lparr>dir_names = [''./appendonly.aof'' \<mapsto> 0], contents = (\<lambda>_. []), synced = (\<lambda>_. []), next_file = 1\<rparr>"

definition test_writer :: aof_writer where
  "test_writer = \<lparr>aw_file = 0, aw_policy = Always, aw_path = ''./appendonly.aof''\<rparr>"

lemma test_writer_ok: "writer_ok (test_disk, test_writer)"
proof -
  have "rewrite_tmp test_writer \<noteq> aw_path test_writer" by code_simp
  then show ?thesis by (simp add: writer_ok_def disk_wf_def test_disk_def test_writer_def split: if_splits)
qed

theorem writer_keeps_log_witness:
  "\<exists>d' w'. fold (log_step (aof_append io_ok) (\<lambda>x dw. fst (writer_rewrite io_ok x dw)))
       [LogAppend ''ab'', LogReplace ''c'', LogAppend ''d''] (test_disk, test_writer) = (d', w') \<and>
     read_file d' ''./appendonly.aof'' = Some ''cd''"
proof -
  let ?ops = "[LogAppend ''ab'', LogReplace ''c'', LogAppend ''d'']"
  obtain d' w' where f: "fold (log_step (aof_append io_ok) (\<lambda>x dw. fst (writer_rewrite io_ok x dw))) ?ops
      (test_disk, test_writer) = (d', w')" by fastforce
  have "srv_aof test_server = Some (writer_log (test_disk, test_writer))"
    by (simp add: test_server_def writer_log_def test_disk_def)
  from writer_keeps_log [OF test_writer_ok this f] f show ?thesis
    by (simp add: test_writer_def log_step_def server_append_def server_replace_def test_server_def)
qed

text \<open>
  C37: What a failed rewrite leaves behind.  When creating, writing or syncing the new file fails, the log is as it was,
  under its name and for the writer.  The new file does not replace the old one in one step, though: the old
  name is removed first, so when the renaming then fails, or the server dies in between, there is
  no append-only file any more and a restart finds no data.
\<close>

theorem rewrite_failure:
  assumes "writer_ok (d, w)" "writer_rewrite io data (d, w) = ((d', w'), False)"
  shows "w' = w \<and>
    (io RenameCall = None \<and> io ReopenCall = None \<longrightarrow>
       writer_ok (d', w) \<and> read_file d' (aw_path w) = read_file d (aw_path w)) \<and>
    (io CreateTmp = None \<and> io WriteTmp = None \<and> io FlushTmp = None \<and> io SyncTmp = None \<and> io RemoveCall = None \<and>
       io RenameCall \<noteq> None \<longrightarrow> read_file d' (aw_path w) = None)"
proof -
  have wf: "disk_wf d" "dir_names d (aw_path w) = Some (aw_file w)" "rewrite_tmp w \<noteq> aw_path w"
    using assms(1) by (simp_all add: writer_ok_def)
  obtain d1 i where c: "create_file d (rewrite_tmp w) = (d1, i)" by fastforce
  note c1 = create_tmp [OF wf(1) c]
  note c2 = c1(4) [OF wf(2) wf(3) [symmetric]]
  have touched: "writer_ok (write_all d1 i x, w) \<and> read_file (write_all d1 i x) (aw_path w) = read_file d (aw_path w)" for x
  proof -
    have "dir_names (write_all d1 i x) (aw_path w) = Some (aw_file w)" "contents (write_all d1 i x) (aw_file w) = contents d (aw_file w)"
      using c1(2) c2 wf(2,3) by (simp_all add: write_all_def)
    then show ?thesis using wf c1(1) by (simp add: writer_ok_def read_file_def disk_wf_write)
  qed
  from write_tmp_cases [OF c, of io data] show ?thesis
  proof (elim disjE exE)
    assume t: "write_tmp io data d (rewrite_tmp w) = (d, False)"
    then have "io CreateTmp \<noteq> None \<or> io WriteTmp \<noteq> None \<or> io FlushTmp \<noteq> None \<or> io SyncTmp \<noteq> None"
      by (auto simp: write_tmp_def c split: if_splits option.splits)
    then show ?thesis using assms t by (auto simp: writer_rewrite_def)
  next
    fix x assume t: "write_tmp io data d (rewrite_tmp w) = (write_all d1 i x, False)"
    then have "io CreateTmp \<noteq> None \<or> io WriteTmp \<noteq> None \<or> io FlushTmp \<noteq> None \<or> io SyncTmp \<noteq> None"
      by (auto simp: write_tmp_def c split: if_splits option.splits)
    then show ?thesis using assms(2) t touched [of x] by (auto simp: writer_rewrite_def)
  next
    assume "write_tmp io data d (rewrite_tmp w) = (sync_all (write_all d1 i data) i, True)"
    then have s: "swap_file io (sync_all (write_all d1 i data) i) (rewrite_tmp w) w = ((d', w'), False)"
      using assms(2) by (simp add: writer_rewrite_def)
    then have "w' = w" "io RenameCall \<noteq> None \<or> io ReopenCall \<noteq> None"
      by (auto simp: swap_file_def Let_def split: if_splits prod.splits)
    moreover have "read_file d' (aw_path w) = None" if "io RemoveCall = None" "io RenameCall \<noteq> None"
      using s that by (auto simp: swap_file_def remove_file_def read_file_def)
    ultimately show ?thesis by blast
  qed
qed

theorem rewrite_failure_witness:
  "\<exists>d'. writer_rewrite (\<lambda>call. if call = RenameCall then Some 0 else None) ''x'' (test_disk, test_writer) =
       ((d', test_writer), False) \<and> read_file d' ''./appendonly.aof'' = None"
proof -
  let ?io = "\<lambda>call. if call = RenameCall then Some 0 else None"
  obtain d1 i where "create_file test_disk (rewrite_tmp test_writer) = (d1, i)" by fastforce
  then obtain d' w' where r: "writer_rewrite ?io ''x'' (test_disk, test_writer) = ((d', w'), False)"
    by (simp add: writer_rewrite_def write_tmp_def swap_file_def Let_def)
  from rewrite_failure [OF test_writer_ok r] r show ?thesis by (auto simp: test_writer_def)
qed

text \<open>
  A crash during an append is survived: a restart on the file as the crash left it runs the
  commands that were logged completely.
\<close>

theorem torn_append_recovers:
  assumes "nom_laws nm" "list_all frame_fits cmds" "frame_fits torn" "k < length (encode_command_for_aof torn)"
    and "writer_ok (d, w)" "writer_log (d, w) = concat (map encode_command_for_aof cmds)" "io WriteCall = Some k"
    and "length (concat (map encode_command_for_aof cmds) @ take k (encode_command_for_aof torn)) \<le> u64_max"
  shows "\<exists>file. read_file (fst (aof_append io (encode_command_for_aof torn) (d, w))) (aw_path w) = Some file \<and>
     replay_aof nm es n s file = run_log es n cmds s client_context_new 0"
proof -
  let ?dw = "aof_append io (encode_command_for_aof torn) (d, w)"
  have "read_file (fst ?dw) (aw_path (snd ?dw)) = Some (writer_log ?dw)"
    using writer_read append_ok(1) [OF assms(5)] by blast
  moreover have "aw_path (snd ?dw) = aw_path w" by (simp add: aof_append_def assms(7))
  moreover have "writer_log ?dw = concat (map encode_command_for_aof cmds) @ take k (encode_command_for_aof torn)"
    using append_ok(2) [OF assms(5)] assms(6,7) by simp
  moreover have "replay_loop nm es n (concat (map encode_command_for_aof cmds) @ take k (encode_command_for_aof torn)) s
      client_context_new 0 = run_log es n cmds s client_context_new 0"
    by (rule replay_loop_frames [OF assms(1,2) _ assms(8)]) (use parse_cut_frame [OF assms(1,3,4)] assms(8) in simp)
  ultimately show ?thesis by (simp add: replay_aof_def)
qed

text \<open>
  What is appended after a torn command is not recovered, and may be corrupted.  The server opens the
  file for appending as the crash left it.  When the value of a SET broke off two bytes before its end, the beginning of
  the next command of three words becomes the end of the value: the next restart
  sets the key to a value nobody wrote, and ignores the command itself and everything after it.
\<close>

theorem torn_append_corrupts:
  assumes "nom_laws nm" "list_all frame_fits cmds" "frame_fits [''SET'', key, v @ [a, b]]" "frame_fits [x, y, z]"
    and "length (concat (map encode_command_for_aof cmds) @
           take (length (encode_command_for_aof [''SET'', key, v @ [a, b]]) - 4)
             (encode_command_for_aof [''SET'', key, v @ [a, b]]) @ encode_command_for_aof [x, y, z] @ later) \<le> u64_max"
  shows "replay_aof nm es n s
      (concat (map encode_command_for_aof cmds) @
       take (length (encode_command_for_aof [''SET'', key, v @ [a, b]]) - 4)
         (encode_command_for_aof [''SET'', key, v @ [a, b]]) @ encode_command_for_aof [x, y, z] @ later) =
    run_log es n (cmds @ [[''SET'', key, v @ ''*3'']]) s client_context_new 0"
proof -
  let ?cmds = "cmds @ [[''SET'', key, v @ ''*3'']]" and ?set = "encode_command_for_aof [''SET'', key, v @ [a, b]]"
  let ?tail = "encode_arg x @ encode_arg y @ encode_arg z @ later"
  define head where "head = ''*'' @ nat_to_string 3 @ crlf @ encode_arg ''SET'' @ encode_arg key @ ''$'' @
      nat_to_string (length v + 2) @ crlf @ v"
  have three: "nat_to_string 3 = ''3''" by code_simp
  have frame: "encode_command_for_aof [p, q, r] = ''*'' @ nat_to_string 3 @ crlf @ encode_arg p @ encode_arg q @ encode_arg r" for p q r
    by (simp add: encode_command_for_aof_def numeral_3_eq_3)
  have set: "?set = head @ [a, b] @ crlf" "encode_command_for_aof [''SET'', key, v @ ''*3''] = head @ ''*3'' @ crlf"
    by (simp_all add: head_def frame encode_arg_def [of "v @ _"])
  have "take (length ?set - 4) ?set = head" unfolding set(1) by (simp add: crlf_def)
  then have "take (length ?set - 4) ?set @ encode_command_for_aof [x, y, z] @ later =
      encode_command_for_aof [''SET'', key, v @ ''*3''] @ ?tail"
    unfolding set(2) by (simp add: frame three)
  then have data: "concat (map encode_command_for_aof cmds) @ take (length ?set - 4) ?set @
      encode_command_for_aof [x, y, z] @ later = concat (map encode_command_for_aof ?cmds) @ ?tail" by simp
  have fits: "list_all frame_fits ?cmds" using assms(2,3) by (simp add: frame_fits_def)
  show ?thesis
    unfolding replay_aof_def data
    by (rule replay_loop_frames [OF assms(1) fits])
       (use parse_bulk_first [OF assms(1), of x] assms(4,5) data in \<open>simp_all add: frame_fits_def\<close>)
qed

theorem torn_append_corrupts_witness:
  "replay_aof nom_ref (\<lambda>_. env0) 1 (store_new 1)
      (concat (map encode_command_for_aof []) @
       take (length (encode_command_for_aof [''SET'', ''k'', ''val'' @ [CHR ''u'', CHR ''e'']]) - 4)
         (encode_command_for_aof [''SET'', ''k'', ''val'' @ [CHR ''u'', CHR ''e'']]) @
       encode_command_for_aof [''SET'', ''a'', ''b''] @ []) =
    run_log (\<lambda>_. env0) 1 ([] @ [[''SET'', ''k'', ''val'' @ ''*3'']]) (store_new 1) client_context_new 0"
proof (rule torn_append_corrupts [OF nom_laws_ref])
  have "length (encode_command_for_aof [''SET'', ''k'', ''val'' @ [CHR ''u'', CHR ''e'']]) = 31"
    "length (encode_command_for_aof [''SET'', ''a'', ''b'']) = 27" by code_simp+
  then show "length (concat (map encode_command_for_aof []) @
       take (length (encode_command_for_aof [''SET'', ''k'', ''val'' @ [CHR ''u'', CHR ''e'']]) - 4)
         (encode_command_for_aof [''SET'', ''k'', ''val'' @ [CHR ''u'', CHR ''e'']]) @
       encode_command_for_aof [''SET'', ''a'', ''b''] @ []) \<le> u64_max" by (simp add: u64_max_def)
qed (simp_all add: frame_fits_def in_i64_def i64_min_def i64_max_def)

end
