(* ===== verification/Replica.thy ===== *)
theory Replica
  imports Connection
begin

text \<open>
  \<open>replication/replica.rs\<close>: the replica's side.  \<open>handshake\<close> is \<open>connect_to_master\<close> up to the stream, as a function
  of the bytes received so far; \<open>start_sync\<close> what it does with the snapshot; \<open>stream_loop\<close> the loop (\<open>stream_commands\<close>) over
  the buffer that applies the commands of the master and counts their bytes.  The reads of the socket between
  two runs of the loop append to the buffer.
\<close>

section \<open>The handshake\<close>

record replica_sync_state =
  sync_replid :: bytes
  sync_offset :: int

definition sync_state_default :: replica_sync_state where
  "sync_state_default = \<lparr>sync_replid = ''?'', sync_offset = - 1\<rparr>"

definition encode_psync :: "bytes \<Rightarrow> int \<Rightarrow> bytes" where
  "encode_psync replid offset = encode_command_for_aof [''PSYNC'', replid, int_to_string offset]"

text \<open>A line and what follows it; \<^term>\<open>None\<close> when more bytes are needed.\<close>

definition read_line :: "bytes \<Rightarrow> (bytes \<times> bytes) option" where
  "read_line carry =
     (case position (\<lambda>b. b = CHR 0x0A) carry of
        None \<Rightarrow> None
      | Some pos \<Rightarrow> Some (trim_end (utf8_lossy (take (pos + 1) carry)), drop (pos + 1) carry))"

fun split_spaces :: "bytes \<Rightarrow> bytes \<Rightarrow> bytes list" where
  "split_spaces cur [] = [cur]"
| "split_spaces cur (c # cs) = (if c = CHR '' '' then cur # split_spaces [] cs else split_spaces (cur @ [c]) cs)"

datatype handshake_result =
    NeedMore
  | FullSync bytes int bytes bytes
  | Continue bytes
  | UnexpectedResponse bytes

definition FULLRESYNC :: bytes where "FULLRESYNC = ''+FULLRESYNC''"
definition CONTINUE :: bytes where "CONTINUE = ''+CONTINUE''"

text \<open>The length line: \<^verbatim>\<open>$\<close> signs taken off, a number that does not parse counting as 0.\<close>

definition rdb_length :: "bytes \<Rightarrow> nat" where
  "rdb_length line = unwrap_or (parse_usize (trim (dropWhile (\<lambda>c. c = CHR ''$'') line))) 0"

definition handshake :: "bytes \<Rightarrow> handshake_result" where
  "handshake received =
     (case read_line received of
        None \<Rightarrow> NeedMore
      | Some (response, carry) \<Rightarrow>
          (if take (length FULLRESYNC) response = FULLRESYNC then
             (let parts = split_spaces [] (trim (drop (length FULLRESYNC) response));
                  new_replid = hd parts;
                  new_offset = (if 1 < length parts then unwrap_or (parse_i64 (parts ! 1)) 0 else 0)
              in case read_line carry of
                   None \<Rightarrow> NeedMore
                 | Some (len_line, rdb_data) \<Rightarrow>
                     (let rdb_len = rdb_length len_line
                      in if length rdb_data < rdb_len then NeedMore
                         else FullSync new_replid new_offset (take rdb_len rdb_data) (drop rdb_len rdb_data)))
           else if take (length CONTINUE) response = CONTINUE then Continue carry
           else UnexpectedResponse response))"

text \<open>
  The snapshot goes into the store as it is; an error of the load is only reported.  The result is the
  store, the new state of the link and the buffer from which the stream starts; \<^term>\<open>None\<close> when the
  load panics.
\<close>

definition start_sync ::
  "store \<Rightarrow> replica_sync_state \<Rightarrow> handshake_result \<Rightarrow> (store \<times> replica_sync_state \<times> bytes) option" where
  "start_sync s st h =
     (case h of
        FullSync replid offset rdb trailing \<Rightarrow>
          map_option (\<lambda>(s', _). (s', \<lparr>sync_replid = replid, sync_offset = offset\<rparr>, trailing)) (load_rdb s rdb)
      | Continue carry \<Rightarrow> Some (s, st, carry)
      | _ \<Rightarrow> None)"

section \<open>The stream\<close>

text \<open>One run of the inner loop: the rest of the buffer, the store, the connection's context, the offset, and the number of
  commands run so far.\<close>

partial_function (option) stream_loop ::
  "nom \<Rightarrow> (nat \<Rightarrow> env) \<Rightarrow> nat \<Rightarrow> nat \<Rightarrow> bytes \<Rightarrow> store \<Rightarrow> client_context \<Rightarrow> int \<Rightarrow>
   (bytes \<times> store \<times> client_context \<times> int \<times> nat) option" where
  "stream_loop nm es d n buf s c offset =
     (if buf = [] then Some (buf, s, c, offset, n)
      else case parse_command nm buf of
        IOk remaining args \<Rightarrow>
          (if args = [] then Some (buf, s, c, offset, n)
           else case dispatch d (upper (hd args)) (es n) s c (tl args) of
             None \<Rightarrow> None
           | Some r \<Rightarrow> stream_loop nm es d (n + 1) remaining (fst r) (fst (snd r))
                        (wrap_i64 (offset + int (length buf - length remaining))))
      | IIncomplete \<Rightarrow> Some (buf, s, c, offset, n)
      | _ \<Rightarrow> Some ([], s, c, offset, n))"

section \<open>Applying the stream\<close>

lemma stream_frames:
  assumes "nom_laws nm" "list_all frame_fits cmds" "length (concat (map encode_command_for_aof cmds)) \<le> u64_max"
    and "run_log es d cmds s c n = Some (s', c', n')"
    and "0 \<le> offset" "offset + int (length (concat (map encode_command_for_aof cmds))) \<le> i64_max"
  shows "stream_loop nm es d n (concat (map encode_command_for_aof cmds)) s c offset =
     Some ([], s', c', offset + int (length (concat (map encode_command_for_aof cmds))), n')"
  using assms(2-)
proof (induction cmds arbitrary: s c n offset)
  case Nil
  then show ?case by (subst stream_loop.simps) simp
next
  case (Cons args cmds)
  let ?rest = "concat (map encode_command_for_aof cmds)"
  have args: "frame_fits args" "args \<noteq> []" using Cons.prems(1) by (auto simp: frame_fits_def)
  have parse: "parse_command nm (encode_command_for_aof args @ ?rest) = IOk ?rest args"
    using parse_encoded [OF assms(1) args(1), of ?rest] Cons.prems(2) by simp
  have ne: "encode_command_for_aof args @ ?rest \<noteq> []" by (simp add: encode_command_for_aof_def)
  obtain s1 c1 r where d: "dispatch d (upper (hd args)) (es n) s c (tl args) = Some (s1, c1, r)"
    and rest: "run_log es d cmds s1 c1 (n + 1) = Some (s', c', n')"
    using Cons.prems(3) by (auto split: option.splits)
  let ?off = "offset + int (length (encode_command_for_aof args))"
  have "wrap_i64 ?off = ?off" using Cons.prems(4,5) by (intro wrap_i64_id) (simp add: in_i64_def i64_min_def)
  then have "stream_loop nm es d n (encode_command_for_aof args @ ?rest) s c offset =
      stream_loop nm es d (n + 1) ?rest s1 c1 ?off"
    unfolding stream_loop.simps [of nm es d n "encode_command_for_aof args @ ?rest"] if_not_P [OF ne] parse
    using args(2) d by simp
  then show ?case using Cons.IH [OF _ _ rest, of ?off] Cons.prems(1,2,4,5) by (simp add: algebra_simps)
qed

section \<open>The handshake reads what the master writes\<close>

definition is_space :: "char \<Rightarrow> bool" where
  "is_space c \<longleftrightarrow> (of_char c :: nat) \<in> {9, 10, 11, 12, 13, 32}"

lemma space_len_ascii:
  assumes "byte_in 0 127 c"
  shows "space_len (c # cs) = (if is_space c then 1 else 0)"
proof -
  have "(of_char c :: nat) \<le> 127" using assms by (simp add: byte_in_def)
  then show ?thesis by (auto simp: space_len_def Let_def is_space_def)
qed

lemma trim_end_snoc_space:
  assumes "byte_in 0 127 c" "is_space c"
  shows "trim_end (s @ [c]) = trim_end s"
proof -
  have "space_len_end (s @ [c]) = 1" using space_len_ascii [OF assms(1), of "[]"] assms(2) by (simp add: space_len_end_def)
  then show ?thesis by (subst trim_end.simps) simp
qed

lemma ascii_drop: "ascii s \<Longrightarrow> ascii (drop n s)"
  unfolding ascii_def by (auto simp: list_all_iff dest: in_set_dropD)

lemma trim_end_ascii:
  assumes "ascii s" "s \<noteq> []" "\<not> is_space (last s)"
  shows "trim_end s = s"
proof -
  have one: "space_len (drop n s) \<le> 1" if "n < length s" for n
    using ascii_drop [OF assms(1), of n] that by (cases "drop n s") (auto simp: space_len_ascii)
  have "drop (length s - 1) s = [last s]"    using assms(2) by (metis append_butlast_last_id append_eq_conv_conj length_butlast)
  then have "space_len (drop (length s - 1) s) = 0"
    using assms ascii_drop [OF assms(1), of "length s - 1"] by (simp add: space_len_ascii)
  then have "space_len_end s = 0"
    using one [of "length s - 2"] one [of "length s - 3"] assms(2) by (auto simp: space_len_end_def)
  then show ?thesis by (subst trim_end.simps) simp
qed

lemma read_line_eol:
  assumes "ascii line" "line \<noteq> []" "\<not> is_space (last line)" "CHR 0x0A \<notin> set line"
  shows "read_line (line @ eol @ rest) = Some (line, rest)"
proof -
  let ?l = "line @ [CHR 0x0D]"
  have "position (\<lambda>b. b = CHR 0x0A) (?l @ CHR 0x0A # rest) = Some (length ?l)"
    using assms(4) by (intro position_append) auto
  then have pos: "position (\<lambda>b. b = CHR 0x0A) (line @ eol @ rest) = Some (length line + 1)" by (simp add: eol_def)
  have tk: "take (length line + 1 + 1) (line @ eol @ rest) = (line @ [CHR 0x0D]) @ [CHR 0x0A]"
    "drop (length line + 1 + 1) (line @ eol @ rest) = rest" by (simp_all add: eol_def)
  have asc: "ascii ((line @ [CHR 0x0D]) @ [CHR 0x0A])" using assms(1) by (simp add: ascii_def byte_in_def)
  have sp: "is_space (CHR 0x0D)" "is_space (CHR 0x0A)" "byte_in 0 127 (CHR 0x0D)" "byte_in 0 127 (CHR 0x0A)"
    by (simp_all add: is_space_def byte_in_def)
  have "trim_end ((line @ [CHR 0x0D]) @ [CHR 0x0A]) = line"
    by (simp only: trim_end_snoc_space [OF sp(4,2)] trim_end_snoc_space [OF sp(3,1)] trim_end_ascii [OF assms(1-3)])
  then show ?thesis unfolding read_line_def pos by (simp only: option.case tk utf8_lossy_ascii [OF asc])
qed

lemma split_spaces_two:
  assumes "CHR '' '' \<notin> set a" "CHR '' '' \<notin> set b"
  shows "split_spaces [] (a @ '' '' @ b) = [a, b]"
proof -
  have one: "CHR '' '' \<notin> set x \<Longrightarrow> split_spaces cur (x @ '' '' @ y) = (cur @ x) # split_spaces [] y" for cur x y
    by (induction x arbitrary: cur) auto
  have two: "CHR '' '' \<notin> set x \<Longrightarrow> split_spaces cur x = [cur @ x]" for cur x
    by (induction x arbitrary: cur) auto
  show ?thesis using one [OF assms(1), of "[]" b] two [OF assms(2), of "[]"] by simp
qed

lemma digit_not_space_char: "digit_val c = Some d \<Longrightarrow> \<not> is_space c"
  using digit_code [of c d] by (auto simp: is_space_def)

lemma last_nat_to_string: "\<not> is_space (last (nat_to_string n))"
  using nat_digits [of n] digit_not_space_char last_in_set [of "nat_to_string n"] by fastforce

lemma handshake_full:
  assumes "read_line received = Some (response, carry)" "take (length FULLRESYNC) response = FULLRESYNC"
    and "split_spaces [] (trim (drop (length FULLRESYNC) response)) = [replid, off]" "parse_i64 off = Some n"
    and "read_line carry = Some (len_line, rdb @ rest)" "rdb_length len_line = length rdb"
  shows "handshake received = FullSync replid n rdb rest"
  using assms by (simp add: handshake_def)

text \<open>An identifier of a stream, as \<^verbatim>\<open>generate_replid\<close> makes it: ASCII without white space.\<close>

definition replid_ok :: "bytes \<Rightarrow> bool" where
  "replid_ok r \<longleftrightarrow> r \<noteq> [] \<and> ascii r \<and> list_all (\<lambda>c. \<not> is_space c) r"

section \<open>Properties\<close>

text \<open>
  The replica applies the stream.  Whole commands that the master has pushed are applied in order,
  each exactly as it was run, and the replica's offset advances by exactly the bytes of the master's
  backlog they take.
\<close>

theorem replica_applies_stream:
  assumes "nom_laws nm" "list_all frame_fits cmds" "length (concat (map encode_command_for_aof cmds)) \<le> u64_max"
    and "run_log es d cmds s c 0 = Some (s', c', n')"
    and "0 \<le> offset" "offset + int (length (concat (map encode_command_for_aof cmds))) \<le> i64_max"
  shows "stream_loop nm es d 0 (concat (map encode_command_for_aof cmds)) s c offset =
     Some ([], s', c', offset + int (length (concat (map encode_command_for_aof cmds))), n')"
  by (rule stream_frames [OF assms])

theorem replica_applies_stream_witness:
  "\<exists>s' c' n'. run_log (\<lambda>_. env0) 1 [[''SELECT'', ''0'']] (store_new 1) client_context_new 0 = Some (s', c', n') \<and>
     stream_loop nom_ref (\<lambda>_. env0) 1 0 (concat (map encode_command_for_aof [[''SELECT'', ''0'']])) (store_new 1)
       client_context_new 100 = Some ([], s', c', 123, n')"
proof -
  let ?cmds = "[[''SELECT'', ''0'']]"
  have len: "length (concat (map encode_command_for_aof ?cmds)) = 23" by code_simp
  have u: "upper ''SELECT'' = ''SELECT''" by code_simp
  have "\<exists>s' c' n'. run_log (\<lambda>_. env0) 1 ?cmds (store_new 1) client_context_new 0 = Some (s', c', n')"
    by (simp add: u dispatch_with_def table_defs is_deny_oom_command_def cmd_select_def reply_def)
  then obtain s' c' n' where r: "run_log (\<lambda>_. env0) 1 ?cmds (store_new 1) client_context_new 0 = Some (s', c', n')" by blast
  have "list_all frame_fits ?cmds" "length (concat (map encode_command_for_aof ?cmds)) \<le> u64_max" "(0::int) \<le> 100"
    "100 + int (length (concat (map encode_command_for_aof ?cmds))) \<le> i64_max"
    unfolding len by (simp_all add: frame_fits_def in_i64_def i64_min_def i64_max_def u64_max_def)
  from replica_applies_stream [OF nom_laws_ref this(1,2) r this(3,4)] r len show ?thesis by auto
qed

text \<open>
  A command split over two reads is lost on the replica.  When the buffer ends inside a command, wherever
  that is, the replica throws the buffer away without applying anything and without
  advancing its offset, and goes on with the rest of the command.
\<close>

theorem replica_loses_split_command:
  assumes "nom_laws nm" "frame_fits args" "k < length (encode_command_for_aof args)"
    and "length (take k (encode_command_for_aof args)) \<le> u64_max"
  shows "stream_loop nm es d n (take k (encode_command_for_aof args)) s c offset = Some ([], s, c, offset, n)"
  by (subst stream_loop.simps) (simp add: parse_cut_frame [OF assms])

theorem replica_loses_split_command_witness:
  "stream_loop nom_ref (\<lambda>_. env0) 1 0 (take 26 (encode_command_for_aof [''SET'', ''k'', ''value''])) (store_new 1)
     client_context_new 7 = Some ([], store_new 1, client_context_new, 7, 0)"
proof (rule replica_loses_split_command [OF nom_laws_ref])
  have "length (encode_command_for_aof [''SET'', ''k'', ''value'']) = 31" by code_simp
  then show "26 < length (encode_command_for_aof [''SET'', ''k'', ''value''])"
    "length (take 26 (encode_command_for_aof [''SET'', ''k'', ''value''])) \<le> u64_max" by (simp_all add: u64_max_def)
qed (simp_all add: frame_fits_def in_i64_def i64_min_def i64_max_def)

text \<open>
  A full resynchronisation does not empty the replica first.  A key that the master does not have
  when the snapshot is taken, but the replica has, is still there afterwards with its old value.
\<close>

theorem full_sync_keeps_stale:
  assumes "store_wf m" "store_fits m" "length (databases m) \<le> 256"
    and "store_wf s" "length (databases s) = length (databases m)" "i < length (databases m)"
    and "save_rdb clock m (length (databases m)) = Inr rdb" "live (clock i) m i k = None"
  shows "\<exists>s' ss trailing'. start_sync s st (FullSync replid offset rdb trailing) = Some (s', ss, trailing') \<and>
     raw s' i k = raw s i k"
proof -
  let ?is = "[0..<length (databases m)]"
  obtain body where body: "encode_dbs clock m ?is = Inr body" "rdb = rdb_header @ write_u64_le (crc64 body) @ body"
    using assms(7) by (cases "encode_dbs clock m ?is") (auto simp: save_rdb_def)
  have valid: "\<forall>i\<in>set ?is. valid_db m i \<and> i < 256 \<and> valid_db s i" using assms(3,5) by (auto simp: valid_db_def)
  obtain t cur n where t: "load_loop (body @ []) s 0 0 = load_loop [] t cur n"
      "\<forall>j k. if j \<in> set ?is then reloads (db_records (clock j) m j) k (raw s j k) (raw t j k) else raw t j k = raw s j k"
    using load_dbs [OF assms(1,2) valid distinct_upt assms(4) body(1), of "[]" 0 0] by blast
  have "hm_get (db_records (clock i) m i) k = None"
    using db_records_ok(3) [OF assms(1,2), of i "clock i" k] assms(6,8) by (simp add: valid_db_def)
  then have "raw t i k = raw s i k" using t(2) [rule_format, of i k] assms(6) by (auto simp: reloads_def split: if_splits)
  moreover have "load_rdb s rdb = Some (t, Inr n)" using t(1) by (simp add: body(2) load_rdb_file)
  ultimately show ?thesis by (simp add: start_sync_def)
qed

theorem full_sync_keeps_stale_witness:
  "\<exists>rdb s' ss trailing'. save_rdb (\<lambda>_. 0) (store_new 1) 1 = Inr rdb \<and>
     start_sync (put_entry (store_new 1) 0 ''k'' (new_entry (StringV ''old''))) sync_state_default (FullSync ''id'' 0 rdb []) =
       Some (s', ss, trailing') \<and> raw s' 0 ''k'' = Some (new_entry (StringV ''old''))"
proof -
  let ?s = "put_entry (store_new 1) 0 ''k'' (new_entry (StringV ''old''))"
  have s: "store_wf ?s" "length (databases ?s) = 1" "raw ?s 0 ''k'' = Some (new_entry (StringV ''old''))"
    using store_wf_put [of "store_new 1" "new_entry (StringV ''old'')" 0 "''k''"] store_wf_new [of 1]
    by (simp_all add: store_new_def valid_db_def new_entry_def raw_def put_entry_def set_db_def)
  have m: "length (databases (store_new 1)) = 1" "store_fits (store_new 1)" "live 0 (store_new 1) 0 ''k'' = None"
    by (simp_all add: store_new_def store_fits_def live_def raw_def)
  obtain rdb where rdb: "save_rdb (\<lambda>_. 0) (store_new 1) 1 = Inr rdb"
    by (simp add: save_rdb_def encode_db_def iterate_db_def db_def store_new_def)
  from full_sync_keeps_stale [of "store_new 1" ?s 0 "\<lambda>_. 0" rdb "''k''" sync_state_default "''id''" 0 "[]"] rdb s m store_wf_new
  show ?thesis by (simp del: One_nat_def)
qed

lemma handshake_continue:
  assumes "is_partial ses"
  shows "handshake (psync_preamble replid ses rdb bl) = Continue (catch_up ses)"
proof -
  have "ascii CONTINUE" "CONTINUE \<noteq> []" "\<not> is_space (last CONTINUE)" "CHR 0x0A \<notin> set CONTINUE" by code_simp+
  from read_line_eol [OF this, of "catch_up ses"] assms show ?thesis
    by (simp add: psync_preamble_def handshake_def CONTINUE_def FULLRESYNC_def)
qed

lemma handshake_fullsync:
  assumes "replid_ok replid" "length rdb \<le> u64_max" "int (unat (current_offset ses)) \<le> i64_max" "\<not> is_partial ses"
  shows "handshake (psync_preamble replid ses rdb bl) =
      FullSync replid (int (unat (current_offset ses))) rdb (read_from bl (current_offset ses))"
proof -
  let ?off = "nat_to_string (unat (current_offset ses))" and ?gap = "read_from bl (current_offset ses)"
  let ?args = "replid @ '' '' @ ?off"
  let ?line = "FULLRESYNC @ '' '' @ ?args"
  have chars: "CHR '' '' \<notin> set replid" "CHR 0x0A \<notin> set replid"
    using assms(1) by (auto simp: replid_ok_def list_all_iff is_space_def)
  have digits: "CHR '' '' \<notin> set (nat_to_string n)" "CHR 0x0A \<notin> set (nat_to_string n)" for n
    by (auto intro!: not_in_nat_to_string simp: digit_val_def)
  have asc: "ascii ?args" "ascii ?line" "ascii (''$'' @ nat_to_string (length rdb))"
    using assms(1) ascii_nat_to_string by (auto simp: replid_ok_def ascii_def FULLRESYNC_def byte_in_def)
  have line1: "read_line (?line @ eol @ x) = Some (?line, x)" for x
    by (rule read_line_eol [OF asc(2)])
       (use chars digits last_nat_to_string in \<open>auto simp: FULLRESYNC_def\<close>)
  have line2: "read_line ((''$'' @ nat_to_string (length rdb)) @ eol @ x) = Some (''$'' @ nat_to_string (length rdb), x)" for x
    by (rule read_line_eol [OF asc(3)]) (use digits last_nat_to_string in auto)
  have hd: "\<not> is_space (hd replid)" "byte_in 0 127 (hd replid)" "replid \<noteq> []"
    using assms(1) by (auto simp: replid_ok_def ascii_def list_all_iff)
  then have "trim_start (CHR '' '' # ?args) = ?args"
    by (cases replid) (auto simp: space_len_ascii is_space_def byte_in_def)
  moreover have "trim_end ?args = ?args" by (rule trim_end_ascii [OF asc(1)]) (use last_nat_to_string in auto)
  ultimately have parts: "split_spaces [] (trim (CHR '' '' # ?args)) = [replid, ?off]"
    using split_spaces_two [OF chars(1) digits(1)] by (simp add: trim_def)
  have off: "parse_i64 ?off = Some (int (unat (current_offset ses)))"
  proof -
    have "in_i64 (int (unat (current_offset ses)))"
      unfolding in_i64_def i64_min_def
      by (intro conjI assms(3) order_trans [OF _ of_nat_0_le_iff]) simp
    from parse_i64_int_to_string [OF this] show ?thesis unfolding int_to_string_nat .
  qed
  have "CHR ''$'' \<notin> set (nat_to_string n)" for n by (rule not_in_nat_to_string) (simp add: digit_val_def)
  then have "dropWhile (\<lambda>c. c = CHR ''$'') (''$'' @ nat_to_string n) = nat_to_string n" for n
    using dropWhile_eq_self_iff [of "\<lambda>c. c = CHR ''$''" "nat_to_string n"] hd_in_set [of "nat_to_string n"] by fastforce
  then have len: "rdb_length (''$'' @ nat_to_string (length rdb)) = length rdb"
    using trim_digits_unit [OF _ nat_digits, of "length rdb" "[]"] parse_u64_nat_to_string [OF assms(2)]
    by (simp add: rdb_length_def parse_usize_def)
  have "psync_preamble replid ses rdb bl = ?line @ eol @ (''$'' @ nat_to_string (length rdb)) @ eol @ rdb @ ?gap"
    using assms(4) by (simp add: psync_preamble_def FULLRESYNC_def)
  moreover have "take (length FULLRESYNC) ?line = FULLRESYNC" "split_spaces [] (trim (drop (length FULLRESYNC) ?line)) = [replid, ?off]"
    using parts by simp_all
  ultimately show ?thesis
    using handshake_full [of _ ?line _ replid ?off] line1 line2 off len by metis
qed

text \<open>
  Master and replica agree on the handshake.  The replica reads the answer of the master to PSYNC,
  however it was cut into reads, as what the master meant: for a full resynchronisation the identifier, the
  offset, the bytes of the snapshot and the bytes of the stream after them, for a partial one the
  catch-up bytes.
\<close>

theorem handshake_roundtrip:
  assumes "replid_ok replid" "length rdb \<le> u64_max" "int (unat (current_offset ses)) \<le> i64_max"
  shows "handshake (psync_preamble replid ses rdb bl) =
     (if is_partial ses then Continue (catch_up ses)
      else FullSync replid (int (unat (current_offset ses))) rdb (read_from bl (current_offset ses)))"
  using handshake_continue handshake_fullsync [OF assms] by simp

theorem handshake_roundtrip_witness:
  "handshake (psync_preamble ''abc'' \<lparr>is_partial = False, catch_up = [], current_offset = 0, replica_id = 0\<rparr> ''RDB'' (repl_backlog_new 8)) =
     FullSync ''abc'' 0 ''RDB'' []"
proof -
  have "replid_ok ''abc''" by code_simp
  from handshake_roundtrip [OF this, of "''RDB''" "\<lparr>is_partial = False, catch_up = [], current_offset = 0, replica_id = 0\<rparr>" "repl_backlog_new 8"]
  show ?thesis by (simp add: u64_max_def i64_max_def read_from_def repl_backlog_new_def)
qed

end
