(* ===== verification/Server.thy ===== *)
theory Server
  imports Replica
begin

text \<open>
  \<open>server.rs\<close>: what the server loads when it starts, its background tasks, and the whole server as a state
  machine.  A step of \<open>server_step\<close> is one thing that one task does between two points where others
  may run: a client's command, a step of a blocked client, the start or end of a replica's stream, a task of
  the server, a command from the master of a replica.  The connections' contexts are a map from the
  number of a connection; the interleaving of connections is the order of the steps.

  The bound on the nesting of commands (\<open>dispatch\<close>) is the number \<open>d\<close> of a step, chosen freely; \<open>None\<close>, the
  panic of a handler, takes down the task of that connection only, and no step is made.
\<close>

section \<open>Starting\<close>

text \<open>
  The store with which the server starts, from the contents of the snapshot and of the append-only file
  (\<^term>\<open>None\<close> for a file that does not exist).  A snapshot is preferred; an error of the load is only
  reported.
\<close>

definition initial_store ::
  "nom \<Rightarrow> (nat \<Rightarrow> env) \<Rightarrow> nat \<Rightarrow> server_config \<Rightarrow> bytes option \<Rightarrow> bytes option \<Rightarrow> store option" where
  "initial_store nm es d cfg rdb_file aof_file =
     (let policy = (case eviction_policy_parse (maxmemory_policy cfg) of None \<Rightarrow> NoEviction | Some p \<Rightarrow> p);
          s = configure_memory (store_new (cfg_databases cfg)) (unat (cfg_maxmemory cfg)) policy
      in case rdb_file of
           Some data \<Rightarrow> map_option fst (load_rdb s data)
         | None \<Rightarrow>
             (case aof_file of
                Some data \<Rightarrow> if appendonly cfg then map_option fst (replay_aof nm es d s data) else Some s
              | None \<Rightarrow> Some s))"

definition server_start ::
  "nom \<Rightarrow> (nat \<Rightarrow> env) \<Rightarrow> nat \<Rightarrow> server_config \<Rightarrow> bytes option \<Rightarrow> bytes option \<Rightarrow> server option" where
  "server_start nm es d cfg rdb_file aof_file =
     map_option (\<lambda>s. \<lparr>srv_store = s,
         srv_aof = (if appendonly cfg then Some (case aof_file of None \<Rightarrow> [] | Some data \<Rightarrow> data) else None),
         srv_backlog = Some (repl_backlog_new (repl_backlog_size cfg))\<rparr>)
       (initial_store nm es d cfg rdb_file aof_file)"

section \<open>Background tasks\<close>

definition memory_cycle :: "store \<Rightarrow> store" where
  "memory_cycle s =
     (let (s1, usage) = refresh_memory_usage s; limit = maxmemory s1
      in if 0 < limit \<and> limit < usage then fst (evict_until_under s1 limit (eviction_policy s1)) else s1)"

definition SAMPLE_SIZE :: nat where "SAMPLE_SIZE = 20"

definition expiry_task :: "u64 \<Rightarrow> store \<Rightarrow> store" where
  "expiry_task t s = fst (active_expire_cycle t s SAMPLE_SIZE)"

section \<open>The server as a state machine\<close>

record world =
  the_server :: server
  clients :: "nat \<Rightarrow> client_context option"

definition with_store :: "world \<Rightarrow> store \<Rightarrow> world" where
  "with_store w s = w\<lparr>the_server := (the_server w)\<lparr>srv_store := s\<rparr>\<rparr>"

definition set_client :: "world \<Rightarrow> nat \<Rightarrow> client_context \<Rightarrow> world" where
  "set_client w i c = w\<lparr>clients := (clients w)(i \<mapsto> c)\<rparr>"

definition set_backlog :: "world \<Rightarrow> repl_backlog \<Rightarrow> world" where
  "set_backlog w bl = w\<lparr>the_server := (the_server w)\<lparr>srv_backlog := Some bl\<rparr>\<rparr>"

abbreviation the_store :: "world \<Rightarrow> store" where
  "the_store w \<equiv> srv_store (the_server w)"

inductive server_step :: "server_config \<Rightarrow> world \<Rightarrow> world \<Rightarrow> bool" for cfg where
  accept: "clients w i = None \<Longrightarrow> server_step cfg w (set_client w i (connect cfg))"
| close: "server_step cfg w (w\<lparr>clients := (clients w)(i := None)\<rparr>)"
| command: "clients w i = Some c \<Longrightarrow> args \<noteq> [] \<Longrightarrow>
    handle_command rx_open cfg e d (the_server w) c args = Some (srv, c', a) \<Longrightarrow>
    server_step cfg w (set_client (w\<lparr>the_server := srv\<rparr>) i c')"
| sub_command: "clients w i = Some c \<Longrightarrow> sub_mode c \<Longrightarrow>
    dispatch d name e (the_store w) c args = Some (s, c', r) \<Longrightarrow>
    server_step cfg w (set_client (with_store w s) i c')"
| block: "server_step cfg w (w\<lparr>the_server := fst (block_begin (the_server w) b n)\<rparr>)"
| unblock: "clients w i = Some c \<Longrightarrow>
    server_step cfg w (w\<lparr>the_server := fst (block_end e (the_server w) c b bid triggered)\<rparr>)"
| psync: "srv_backlog (the_server w) = Some bl \<Longrightarrow>
    server_step cfg w (set_backlog w (fst (psync_begin bl replid args tx)))"
| replica_gone: "srv_backlog (the_server w) = Some bl \<Longrightarrow> server_step cfg w (set_backlog w (unregister_replica bl rid))"
| rewrite: "server_step cfg w (w\<lparr>the_server := aof_rewrite e clock (the_server w)\<rparr>)"
| expiry: "server_step cfg w (with_store w (expiry_task t (the_store w)))"
| memory: "server_step cfg w (with_store w (memory_cycle (the_store w)))"
| full_sync: "start_sync (the_store w) st (FullSync replid off rdb trailing) = Some (s, st', buf) \<Longrightarrow>
    server_step cfg w (with_store w s)"
| replicated: "dispatch d name e (the_store w) c args = Some (s, c', r) \<Longrightarrow> server_step cfg w (with_store w s)"

inductive_cases server_stepE: "server_step cfg w w'"

section \<open>The invariant\<close>

definition backlog_wf :: "nat \<Rightarrow> repl_backlog \<Rightarrow> bool" where
  "backlog_wf cap bl \<longleftrightarrow> capacity bl = cap \<and> length (buffer bl) = cap \<and> (0 < cap \<longrightarrow> write_pos bl < cap)"

text \<open>
  The containers of the store are well formed and there are as many databases as configured; the backlog has its
  configured size and its position is inside; every connection has as many versions as watched keys,
  and is authenticated when there is no password.
\<close>

definition world_ok :: "server_config \<Rightarrow> world \<Rightarrow> bool" where
  "world_ok cfg w \<longleftrightarrow>
     store_wf (the_store w) \<and> length (databases (the_store w)) = cfg_databases cfg \<and>
     (\<forall>bl. srv_backlog (the_server w) = Some bl \<longrightarrow> backlog_wf (repl_backlog_size cfg) bl) \<and>
     (\<forall>i c. clients w i = Some c \<longrightarrow> client_wf c \<and> (requirepass cfg = None \<longrightarrow> authenticated c))"

lemma push_bytes_wf:
  "push_bytes data buf cap pos = Some (buf', pos') \<Longrightarrow> length buf = cap \<Longrightarrow> (0 < cap \<longrightarrow> pos < cap) \<Longrightarrow>
   length buf' = cap \<and> (0 < cap \<longrightarrow> pos' < cap)"
  by (induction data buf cap pos rule: push_bytes.induct) (auto split: if_splits)

lemma backlog_push_wf: "backlog_push rx_open bl data = Some (bl', sent) \<Longrightarrow> backlog_wf cap bl \<Longrightarrow> backlog_wf cap bl'"
proof -
  assume p: "backlog_push rx_open bl data = Some (bl', sent)" and wf: "backlog_wf cap bl"
  then obtain buf pos where "push_bytes data (buffer bl) (capacity bl) (write_pos bl) = Some (buf, pos)"
    "capacity bl' = capacity bl" "buffer bl' = buf" "write_pos bl' = pos"
    by (auto simp: backlog_push_def Let_def split: option.splits)
  with push_bytes_wf [OF this(1)] wf show "backlog_wf cap bl'" by (auto simp: backlog_wf_def)
qed

lemma log_command_wf:
  assumes "log_command rx_open srv name args = Some srv'"
  shows "srv_store srv' = srv_store srv"
    and "(\<forall>bl. srv_backlog srv = Some bl \<longrightarrow> backlog_wf cap bl) \<Longrightarrow> srv_backlog srv' = Some bl' \<Longrightarrow> backlog_wf cap bl'"
proof -
  from assms have "srv_store srv' = srv_store srv \<and>
      (srv_backlog srv' = srv_backlog srv \<or> (\<exists>bl bl' sent. srv_backlog srv = Some bl \<and> srv_backlog srv' = Some bl' \<and>
         backlog_push rx_open bl (encode_command_for_aof args) = Some (bl', sent)))"
    by (auto simp: log_command_def Let_def split: if_splits option.splits)
  then show "srv_store srv' = srv_store srv"
    and "(\<forall>bl. srv_backlog srv = Some bl \<longrightarrow> backlog_wf cap bl) \<Longrightarrow> srv_backlog srv' = Some bl' \<Longrightarrow> backlog_wf cap bl'"
    using backlog_push_wf by (blast, metis option.inject)
qed

lemma handle_auth_wf:
  "handle_auth cfg c args = (c', r) \<Longrightarrow> client_wf c' = client_wf c \<and> (authenticated c \<longrightarrow> authenticated c')"
  by (auto simp: handle_auth_def client_wf_def split: option.splits if_splits)

lemma hello_options_wf:
  "hello_options cfg c args = (c', r) \<Longrightarrow> client_wf c' = client_wf c \<and> (authenticated c \<longrightarrow> authenticated c')"
proof (induction cfg c args rule: hello_options.induct)
  case (2 cfg c opt rest)
  then show ?case
    using handle_auth_wf [of cfg c "take 2 rest"] by (auto split: if_splits prod.splits)
qed simp

lemma handle_hello_wf:
  "handle_hello cfg c args = (c', r) \<Longrightarrow> client_wf c' = client_wf c \<and> (authenticated c \<longrightarrow> authenticated c')"
proof -
  have fin: "hello_finish cfg c1 rest = (c', r) \<Longrightarrow> client_wf c' = client_wf c1 \<and> (authenticated c1 \<longrightarrow> authenticated c')" for c1 rest
    using hello_options_wf [of cfg c1 rest] by (auto simp: hello_finish_def split: prod.splits option.splits if_splits)
  have "client_wf (c\<lparr>protocol := n\<rparr>) = client_wf c" for n by (simp add: client_wf_def)
  then show "handle_hello cfg c args = (c', r) \<Longrightarrow> ?thesis"
    using fin by (fastforce simp: handle_hello_def split: list.splits option.splits if_splits)
qed

lemma execute_ok:
  assumes "execute e d srv c name args = Some (srv', c', a)" "store_wf (srv_store srv)"
  shows "store_wf (srv_store srv') \<and> length (databases (srv_store srv')) = length (databases (srv_store srv)) \<and>
    srv_backlog srv' = srv_backlog srv \<and> keeps_client c c'"
proof (cases "name = ''BGREWRITEAOF''")
  case True
  then show ?thesis using assms by (auto simp: execute_def keeps_client_refl)
next
  case False
  with assms(1) obtain s r where d: "dispatch d name e (srv_store srv) c args = Some (s, c', r)" "srv' = srv\<lparr>srv_store := s\<rparr>"
    by (auto simp: execute_def)
  then show ?thesis
    using store_steps_inv [OF nested.disp_steps [OF d(1)] assms(2)] commands.disp_client [OF d(1)] by simp
qed

lemma handle_command_cases:
  assumes h: "handle_command rx_open cfg e d srv c args = Some (srv', c', a)"
  obtains (same) "srv' = srv" "c' = c"
    | (auth) "srv' = srv" "fst (handle_auth cfg c (tl args)) = c'"
    | (hello) "srv' = srv" "fst (handle_hello cfg c (tl args)) = c'"
    | (queue) "srv' = srv" "c' = c\<lparr>multi_queue := multi_queue c @ [args]\<rparr>"
    | (run) srv1 c1 act where "execute e d srv c (upper (hd args)) (tl args) = Some (srv1, c1, act)"
        "log_command rx_open srv1 (upper (hd args)) args = Some srv'" "c' = c1 \<or> c' = c1\<lparr>ctx_block_state := None\<rparr>"
proof -
  let ?n = "upper (hd args)"
  consider "?n = ''PSYNC''" | "?n \<notin> {''PSYNC'', ''AUTH'', ''HELLO''}" "\<not> authenticated c" "\<not> is_auth_exempt ?n"
    | "?n = ''AUTH''" | "?n = ''HELLO''"
    | "?n \<notin> {''PSYNC'', ''AUTH'', ''HELLO''}" "authenticated c \<or> is_auth_exempt ?n" "multi_mode c \<and> may_queue ?n"
    | "?n \<notin> {''PSYNC'', ''AUTH'', ''HELLO''}" "authenticated c \<or> is_auth_exempt ?n" "\<not> (multi_mode c \<and> may_queue ?n)"
    by blast
  then show thesis
  proof cases
    case 1
    then show thesis using h same by (simp add: handle_command_def)
  next
    case 2
    then show thesis using h same by (simp add: handle_command_def)
  next
    case 3
    obtain c1 r where "handle_auth cfg c (tl args) = (c1, r)" by fastforce
    with 3 show thesis using h auth by (simp add: handle_command_def)
  next
    case 4
    obtain c1 r where "handle_hello cfg c (tl args) = (c1, r)" by fastforce
    with 4 show thesis using h hello by (simp add: handle_command_def)
  next
    case 5
    from 5(2,3) 5(1) show thesis using h queue by (auto simp: handle_command_def)
  next
    case 6
    define r where "r = execute e d srv c ?n (tl args)"
    have "(case r of
           None \<Rightarrow> None
         | Some (srv1, c1, act) \<Rightarrow>
             (case log_command rx_open srv1 ?n args of
                None \<Rightarrow> None
              | Some srv2 \<Rightarrow>
                  (if sub_mode c1 then Some (srv2, c1, act)
                   else case ctx_block_state c1 of
                     Some b \<Rightarrow> Some (srv2, c1\<lparr>ctx_block_state := None\<rparr>, BlockOn b)
                   | None \<Rightarrow> Some (srv2, c1, act)))) = Some (srv', c', a)"
      using h 6 unfolding handle_command_def Let_def r_def [symmetric] by auto
    then obtain srv1 c1 act where "r = Some (srv1, c1, act)" "log_command rx_open srv1 ?n args = Some srv'"
      "c' = c1 \<or> c' = c1\<lparr>ctx_block_state := None\<rparr>"
      by (auto split: option.splits if_splits)
    then show thesis using run by (simp add: r_def)
  qed
qed

lemma handle_command_ok:
  assumes h: "handle_command rx_open cfg e d srv c args = Some (srv', c', a)"
    and wf: "store_wf (srv_store srv)" "client_wf c"
  shows "store_wf (srv_store srv')" "length (databases (srv_store srv')) = length (databases (srv_store srv))"
    "client_wf c'" "authenticated c \<Longrightarrow> authenticated c'"
    "(\<forall>bl. srv_backlog srv = Some bl \<longrightarrow> backlog_wf cap bl) \<Longrightarrow> (\<forall>bl. srv_backlog srv' = Some bl \<longrightarrow> backlog_wf cap bl)"
proof -
  let ?n = "upper (hd args)"
  let ?ok = "store_wf (srv_store srv') \<and> length (databases (srv_store srv')) = length (databases (srv_store srv)) \<and>
    client_wf c' \<and> (authenticated c \<longrightarrow> authenticated c') \<and>
    ((\<forall>bl. srv_backlog srv = Some bl \<longrightarrow> backlog_wf cap bl) \<longrightarrow> (\<forall>bl. srv_backlog srv' = Some bl \<longrightarrow> backlog_wf cap bl))"
  from h consider (same) "srv' = srv" "c' = c"
    | (auth) "srv' = srv" "fst (handle_auth cfg c (tl args)) = c'"
    | (hello) "srv' = srv" "fst (handle_hello cfg c (tl args)) = c'"
    | (queue) "srv' = srv" "c' = c\<lparr>multi_queue := multi_queue c @ [args]\<rparr>"
    | (run) srv1 c1 act where "execute e d srv c ?n (tl args) = Some (srv1, c1, act)"
        "log_command rx_open srv1 ?n args = Some srv'" "c' = c1 \<or> c' = c1\<lparr>ctx_block_state := None\<rparr>"
    by (rule handle_command_cases)
  then have ?ok
  proof cases
    case auth
    then show ?thesis using handle_auth_wf [of cfg c "tl args"] wf by (cases "handle_auth cfg c (tl args)") auto
  next
    case hello
    then show ?thesis using handle_hello_wf [of cfg c "tl args"] wf by (cases "handle_hello cfg c (tl args)") auto
  next
    case run
    have e: "store_wf (srv_store srv1)" "length (databases (srv_store srv1)) = length (databases (srv_store srv))"
      "srv_backlog srv1 = srv_backlog srv" "keeps_client c c1" using execute_ok [OF run(1) wf(1)] by auto
    have "client_wf c1" "authenticated c \<longrightarrow> authenticated c1" using e(4) wf(2) by (auto simp: keeps_client_def)
    then have c': "client_wf c'" "authenticated c \<longrightarrow> authenticated c'" using run(3) by (auto simp: client_wf_def)
    have "backlog_wf cap bl" if "\<forall>bl. srv_backlog srv = Some bl \<longrightarrow> backlog_wf cap bl" "srv_backlog srv' = Some bl" for bl
      by (rule log_command_wf(2) [OF run(2) _ that(2)]) (use that(1) e(3) in simp)
    moreover have "store_wf (srv_store srv')" "length (databases (srv_store srv')) = length (databases (srv_store srv))"
      using e(1,2) log_command_wf(1) [OF run(2)] by simp_all
    ultimately show ?thesis using c' by blast
  qed (use wf in \<open>auto simp: client_wf_def\<close>)
  then show "store_wf (srv_store srv')" "length (databases (srv_store srv')) = length (databases (srv_store srv))"
    "client_wf c'" "authenticated c \<Longrightarrow> authenticated c'"
    "(\<forall>bl. srv_backlog srv = Some bl \<longrightarrow> backlog_wf cap bl) \<Longrightarrow> (\<forall>bl. srv_backlog srv' = Some bl \<longrightarrow> backlog_wf cap bl)"
    by blast+
qed

lemma unblock_pop_steps: "unblock_pop t s i keys dir = (s', r) \<Longrightarrow> store_steps s s'"
proof (induction t s i keys dir rule: unblock_pop.induct)
  case (2 t s i key keys dir)
  let ?p = "case dir of PopLeft \<Rightarrow> store_lpop_one t s i key | PopRight \<Rightarrow> store_rpop_one t s i key"
  have "store_step s (fst ?p)" by (cases dir) (auto intro: step_lpop step_rpop)
  then have one: "store_steps s s1" if "?p = (s1, q)" for s1 q using that by (metis fst_conv r_into_rtranclp)
  obtain s1 q where p: "?p = (s1, q)" by fastforce
  show ?case
  proof (cases "\<exists>v. q = Inr (Some v)")
    case True
    then show ?thesis using "2.prems" one [OF p] p by auto
  next
    case False
    then have "unblock_pop t s1 i keys dir = (s', r)" using "2.prems" p by (auto split: sum.splits option.splits)
    moreover have "store_steps s1 s'" if "unblock_pop t s1 i keys dir = (s', r)"
      using "2.IH" p that False by (cases q) (auto split: option.splits)
    ultimately show ?thesis using one [OF p] by (auto intro: rtranclp_trans)
  qed
qed simp

lemma memory_cycle_steps: "store_steps s (memory_cycle s)"
proof -
  have "store_steps s (fst (refresh_memory_usage s))" by (intro r_into_rtranclp step_refresh)
  moreover have "store_step s1 (fst (evict_until_under s1 l p))" for s1 l p by (rule step_evict)
  ultimately show ?thesis
    by (auto simp: memory_cycle_def Let_def intro: rtranclp.rtrancl_into_rtrancl split: prod.splits)
qed

lemma store_wf_block_reg: "store_wf (s\<lparr>block_reg := r\<rparr>) = store_wf s"
  by (simp add: store_wf_def)

lemma block_end_ok:
  assumes "store_wf (srv_store srv)"
  shows "store_wf (srv_store (fst (block_end e srv c b i triggered)))"
    "length (databases (srv_store (fst (block_end e srv c b i triggered)))) = length (databases (srv_store srv))"
    "srv_backlog (fst (block_end e srv c b i triggered)) = srv_backlog srv"
proof -
  let ?s = "(srv_store srv)\<lparr>block_reg := unregister (block_reg (srv_store srv)) i (bs_keys b)\<rparr>"
  obtain s' r where p: "unblock_pop (now e) ?s (db_index c) (bs_keys b) (pop_direction b) = (s', r)" by fastforce
  have "store_wf s' \<and> length (databases s') = length (databases ?s)"
    using store_steps_inv [OF unblock_pop_steps [OF p]] assms by (simp add: store_wf_block_reg)
  then show "store_wf (srv_store (fst (block_end e srv c b i triggered)))"
    "length (databases (srv_store (fst (block_end e srv c b i triggered)))) = length (databases (srv_store srv))"
    "srv_backlog (fst (block_end e srv c b i triggered)) = srv_backlog srv"
    using assms p by (simp_all add: block_end_def Let_def store_wf_block_reg)
qed

lemma psync_begin_wf: "backlog_wf cap bl \<Longrightarrow> backlog_wf cap (fst (psync_begin bl replid args tx))"
  by (simp add: psync_begin_def register_replica_def Let_def backlog_wf_def)

lemma world_ok_store:
  "world_ok cfg w \<Longrightarrow> store_steps (the_store w) s \<Longrightarrow> world_ok cfg (with_store w s)"
  using store_steps_inv [of "the_store w" s] by (simp add: world_ok_def with_store_def)

lemma world_ok_client:
  "world_ok cfg w \<Longrightarrow> client_wf c \<Longrightarrow> (requirepass cfg = None \<Longrightarrow> authenticated c) \<Longrightarrow> world_ok cfg (set_client w i c)"
  by (simp add: world_ok_def set_client_def)

lemma world_ok_dispatch:
  assumes "world_ok cfg w" "dispatch d name e (the_store w) c args = Some (s, c', r)"
  shows "world_ok cfg (with_store w s)"
  using world_ok_store [OF assms(1) nested.disp_steps [OF assms(2)]] .

lemma server_step_ok:
  assumes "server_step cfg w w'" "world_ok cfg w"
  shows "world_ok cfg w'"
  using assms
proof (cases rule: server_step.cases)
  case (accept i)
  have "client_wf (connect cfg)" by (simp add: connect_def client_wf_def client_context_new_def)
  then show ?thesis using world_ok_client [OF assms(2), of "connect cfg" i] accept by (simp add: connect_def)
next
  case (command i c args rx_open e d srv c' a)
  have ok: "store_wf (the_store w)" "client_wf c" "requirepass cfg = None \<longrightarrow> authenticated c"
    "\<forall>bl. srv_backlog (the_server w) = Some bl \<longrightarrow> backlog_wf (repl_backlog_size cfg) bl"
    using assms(2) command(2) by (auto simp: world_ok_def)
  note h = handle_command_ok [OF command(4) ok(1,2)]
  have "world_ok cfg (w\<lparr>the_server := srv\<rparr>)"
    using assms(2) h(1,2) h(5) [OF ok(4)] by (simp add: world_ok_def)
  then show ?thesis using world_ok_client h(3,4) ok(3) command(1) by auto
next
  case (sub_command i c d name e args s c' r)
  have c: "client_wf c" "requirepass cfg = None \<longrightarrow> authenticated c" using assms(2) sub_command(2) by (auto simp: world_ok_def)
  have "keeps_client c c'" by (rule commands.disp_client [OF sub_command(4)])
  then show ?thesis
    using world_ok_client [OF world_ok_dispatch [OF assms(2) sub_command(4)], of c' i] c sub_command(1)
    by (auto simp: keeps_client_def)
next
  case (block b n)
  then show ?thesis using assms(2) by (simp add: block_begin_def Let_def register_def world_ok_def store_wf_block_reg)
next
  case (unblock i c e b bid triggered)
  then show ?thesis using assms(2) block_end_ok [of "the_server w" e c b bid triggered] by (simp add: world_ok_def)
next
  case (psync bl replid args tx)
  then show ?thesis using assms(2) psync_begin_wf by (simp add: world_ok_def set_backlog_def)
next
  case (full_sync st replid off rdb trailing s st' buf)
  then obtain r where "load_rdb (the_store w) rdb = Some (s, r)" by (auto simp: start_sync_def)
  from load_rdb_wf [OF this] assms(2) full_sync(1) show ?thesis by (simp add: world_ok_def with_store_def)
next
  case (expiry t)
  have "store_steps (the_store w) (expiry_task t (the_store w))"
    unfolding expiry_task_def by (intro r_into_rtranclp step_active_expire)
  then show ?thesis using world_ok_store [OF assms(2)] expiry by simp
next
  case memory
  then show ?thesis using world_ok_store [OF assms(2) memory_cycle_steps] by simp
next
  case (replicated d name e c args s c' r)
  then show ?thesis using world_ok_dispatch [OF assms(2)] by simp
qed (auto simp: world_ok_def set_backlog_def unregister_replica_def backlog_wf_def aof_rewrite_def)

text \<open>What the server starts with, and what it can reach from there.\<close>

abbreviation server_steps :: "server_config \<Rightarrow> world \<Rightarrow> world \<Rightarrow> bool" where
  "server_steps cfg \<equiv> rtranclp (server_step cfg)"

lemma replay_loop_steps:
  assumes "replay_loop nm es d buf s c n = Some y"
  shows "store_steps s (fst y)"
  using assms
proof (induction nm es d buf s c n y rule: replay_loop.raw_induct [rotated, consumes 1, case_names step])
  case (step replay nm es d buf s c n y)
  show ?case
  proof (cases "buf = [] \<or> (\<forall>remaining args. parse_command nm buf = IOk remaining args \<longrightarrow> args = [])")
    case True
    then have "y = (s, c, n)" using step(2) by (cases "parse_command nm buf") (auto split: if_splits)
    then show ?thesis by simp
  next
    case False
    then obtain remaining args where p: "parse_command nm buf = IOk remaining args" "args \<noteq> []" "buf \<noteq> []" by auto
    with step(2) obtain s1 c1 v where r: "dispatch d (upper (hd args)) (es n) s c (tl args) = Some (s1, c1, v)"
      and y: "replay nm es d remaining s1 c1 (n + 1) = Some y" by (auto split: option.splits)
    from nested.disp_steps [OF r] step(1) [OF y] show ?thesis by (rule rtranclp_trans)
  qed
qed

lemma push_bytes_total:
  "length buf = cap \<Longrightarrow> pos < cap \<Longrightarrow> \<exists>r. push_bytes data buf cap pos = Some r"
  by (induction data buf cap pos rule: push_bytes.induct) auto

lemma backlog_push_total:
  assumes "backlog_wf cap bl" "0 < cap"
  shows "\<exists>r. backlog_push rx_open bl data = Some r"
proof -
  obtain r where "push_bytes data (buffer bl) (capacity bl) (write_pos bl) = Some r"
    using push_bytes_total [of "buffer bl" "capacity bl" "write_pos bl" data] assms by (auto simp: backlog_wf_def)
  then show ?thesis by (cases r) (simp add: backlog_push_def Let_def)
qed

lemma backlog_wf_new: "backlog_wf cap (repl_backlog_new cap)"
  by (simp add: backlog_wf_def repl_backlog_new_def)

lemma server_start_ok:
  assumes "server_start nm es d cfg rdb_file aof_file = Some srv"
  shows "world_ok cfg \<lparr>the_server = srv, clients = (\<lambda>_. None)\<rparr>"
proof -
  define s0 where "s0 = configure_memory (store_new (cfg_databases cfg)) (unat (cfg_maxmemory cfg))
      (case eviction_policy_parse (maxmemory_policy cfg) of None \<Rightarrow> NoEviction | Some p \<Rightarrow> p)"
  have s0: "store_wf s0" "length (databases s0) = cfg_databases cfg"
    using store_wf_new [of "cfg_databases cfg"] by (simp_all add: s0_def configure_memory_def store_wf_def store_new_def)
  obtain s where s: "initial_store nm es d cfg rdb_file aof_file = Some s" "srv_store srv = s"
    and bl: "srv_backlog srv = Some (repl_backlog_new (repl_backlog_size cfg))"
    using assms by (auto simp: server_start_def)
  have "store_wf s \<and> length (databases s) = length (databases s0)"
  proof -
    consider "s = s0" | data r where "load_rdb s0 data = Some (s, r)" | data y where "replay_aof nm es d s0 data = Some y" "s = fst y"
      using s(1) by (auto simp: initial_store_def s0_def [symmetric] split: option.splits if_splits)
    then show ?thesis
    proof cases
      case 2
      then show ?thesis using load_rdb_wf s0(1) by blast
    next
      case 3
      then show ?thesis using store_steps_inv [OF replay_loop_steps s0(1)] by (auto simp: replay_aof_def)
    qed (use s0 in simp)
  qed
  then show ?thesis using s(2) bl s0(2) by (simp add: world_ok_def backlog_wf_new)
qed

section \<open>Properties\<close>

text \<open>
  C1: The server keeps its state well formed.  Whatever the files it starts from contain, and whatever
  the clients, the replicas, the master and the background tasks do in whatever order, in every state the server can
  reach the containers of the store are well formed, there are as many databases as configured, the
  backlog has its size and its position is inside, and every connection's watches and authentication
  are consistent.
\<close>

theorem reachable_ok:
  assumes "server_start nm es d cfg rdb_file aof_file = Some srv"
    and "server_steps cfg \<lparr>the_server = srv, clients = (\<lambda>_. None)\<rparr> w"
  shows "world_ok cfg w"
  using assms(2) by (induction rule: rtranclp_induct) (use server_start_ok [OF assms(1)] server_step_ok in blast)+

theorem reachable_ok_witness:
  "\<exists>srv w. server_start nom_ref (\<lambda>_. env0) 1 (default_config None) None None = Some srv \<and>
     server_steps (default_config None) \<lparr>the_server = srv, clients = (\<lambda>_. None)\<rparr> w \<and> clients w 0 \<noteq> None \<and>
     world_ok (default_config None) w"
proof -
  obtain srv where s: "server_start nom_ref (\<lambda>_. env0) 1 (default_config None) None None = Some srv"
    by (simp add: server_start_def initial_store_def Let_def)
  let ?w0 = "\<lparr>the_server = srv, clients = (\<lambda>_. None)\<rparr>" and ?cfg = "default_config None"
  have st: "server_steps ?cfg ?w0 (set_client ?w0 0 (connect ?cfg))" by (intro r_into_rtranclp accept) simp
  from reachable_ok [OF s st] s st show ?thesis by (intro exI [of _ srv] exI conjI) (auto simp: set_client_def)
qed

text \<open>
  A write never panics on the backlog.  In every state of the world that is well formed, with a backlog of at least
  one byte, logging a command succeeds.
\<close>

theorem backlog_never_panics:
  assumes "world_ok cfg w" "0 < repl_backlog_size cfg"
  shows "\<exists>srv. log_command rx_open (the_server w) name args = Some srv"
proof -
  have total: "\<exists>r. backlog_push rx_open bl data = Some r" if "srv_backlog (the_server w) = Some bl" for bl data
    using that assms by (intro backlog_push_total [of "repl_backlog_size cfg"]) (simp_all add: world_ok_def)
  show ?thesis
  proof (cases "srv_backlog (the_server w)")
    case (Some bl)
    obtain r where "backlog_push rx_open bl (encode_command_for_aof args) = Some r" using total [OF Some] by blast
    then show ?thesis using Some by (simp add: log_command_def Let_def)
  qed (simp add: log_command_def)
qed

theorem backlog_never_panics_witness:
  "\<exists>srv. log_command (\<lambda>_. True) \<lparr>srv_store = store_new 1, srv_aof = None, srv_backlog = Some (repl_backlog_new 8)\<rparr>
      ''SET'' [''SET'', ''k'', ''v''] = Some srv"
proof -
  let ?srv = "\<lparr>srv_store = store_new 1, srv_aof = None, srv_backlog = Some (repl_backlog_new 8)\<rparr>"
  let ?cfg = "(default_config None)\<lparr>repl_backlog_size := 8, cfg_databases := 1\<rparr>"
  have "length (databases (store_new 1)) = 1" by (simp add: store_new_def)
  then have "world_ok ?cfg \<lparr>the_server = ?srv, clients = (\<lambda>_. None)\<rparr>"
    using store_wf_new [of 1] backlog_wf_new [of 8] by (simp add: world_ok_def del: One_nat_def)
  from backlog_never_panics [OF this, of "\<lambda>_. True" "''SET''" "[''SET'', ''k'', ''v'']"] show ?thesis by simp
qed

end
