(* ===== verification/Rewrite.thy ===== *)
theory Rewrite
  imports AofFile Server
begin

text \<open>
  \<open>persist/aof_rewrite.rs\<close>, what it is for: the command stream of a rewrite rebuilds the dataset.  \<open>stored\<close> says what a
  command of the stream leaves in the store; the lemmas follow the types of values, then the entries of a database and
  the databases, and the theorem is about the bytes of the file and their replay.

  Printing and parsing a score are parameters of the environment; \<open>scores_reparse\<close> is the documented property of Rust's
  \<open>f64\<close> that the text of a number that is not a NaN parses back to it.
\<close>

section \<open>Running commands\<close>

lemma run_log_append:
  "run_log es d (xs @ ys) s c n =
     (case run_log es d xs s c n of None \<Rightarrow> None | Some (s', c', n') \<Rightarrow> run_log es d ys s' c' n')"
  by (induction xs arbitrary: s c n) (auto split: option.splits)

lemma dispatch_handler:
  assumes "\<not> over_memory_limit s" "map_of (command_table (dispatch n)) name = Some (a, h)"
    and "\<not> 0 < a \<or> int (length args) + 1 = a" "h e s c args = Some (s', c', Inr r)"
  shows "dispatch (Suc n) name e s c args = Some (s', c', r)"
  using assms by (auto simp: dispatch_with_def)

lemma rewrite_names:
  "upper ''SET'' = ''SET''" "upper ''RPUSH'' = ''RPUSH''" "upper ''SADD'' = ''SADD''" "upper ''HSET'' = ''HSET''"
  "upper ''ZADD'' = ''ZADD''" "upper ''XADD'' = ''XADD''" "upper ''NHSET'' = ''NHSET''" "upper ''PEXPIREAT'' = ''PEXPIREAT''"
  "upper ''SELECT'' = ''SELECT''"
  by code_simp+

lemma rewrite_lookups:
  "map_of (command_table disp) ''SET'' = Some (- 3, cmd_set)"
  "map_of (command_table disp) ''RPUSH'' = Some (- 3, cmd_rpush)"
  "map_of (command_table disp) ''SADD'' = Some (- 3, cmd_sadd)"
  "map_of (command_table disp) ''HSET'' = Some (- 4, cmd_hset)"
  "map_of (command_table disp) ''ZADD'' = Some (- 4, cmd_zadd)"
  "map_of (command_table disp) ''XADD'' = Some (- 4, cmd_xadd)"
  "map_of (command_table disp) ''NHSET'' = Some (5, cmd_nhset)"
  "map_of (command_table disp) ''PEXPIREAT'' = Some (3, cmd_pexpireat)"
  "map_of (command_table disp) ''SELECT'' = Some (2, cmd_select)"
  by (simp_all add: table_defs)

section \<open>What a command leaves\<close>

definition stored :: "store \<Rightarrow> nat \<Rightarrow> bytes \<Rightarrow> entry \<Rightarrow> store \<Rightarrow> bool" where
  "stored s i k e s' \<longleftrightarrow>
     (\<forall>j k'. raw s' j k' = (if j = i \<and> k' = k then Some e else raw s j k')) \<and>
     over_memory_limit s' = over_memory_limit s \<and> length (databases s') = length (databases s)"

lemma over_memory_put: "over_memory_limit (put_entry s i k e) = over_memory_limit s"
  by (simp add: over_memory_limit_def put_entry_def set_db_def)

lemma stored_put: "valid_db s i \<Longrightarrow> stored s i k e (put_entry s i k e)"
  by (simp add: stored_def lookup_simps over_memory_put)

lemma stored_put_notify: "valid_db s i \<Longrightarrow> stored s i k e ((put_entry s i k e)\<lparr>block_reg := r\<rparr>)"
  using over_memory_put [of s i k e] by (simp add: stored_def lookup_simps over_memory_limit_def)

lemma stored_trans: "stored s i k e s1 \<Longrightarrow> stored s1 i k e' s2 \<Longrightarrow> stored s i k e' s2"
  by (simp add: stored_def)

lemma stored_refl: "raw s i k = Some e \<Longrightarrow> stored s i k e s"
  by (auto simp: stored_def)

lemma storedD:
  assumes "stored s i k e s'"
  shows "raw s' i k = Some e" "over_memory_limit s' = over_memory_limit s" "valid_db s' j = valid_db s j"
  using assms by (simp_all add: stored_def valid_db_def)

text \<open>A store that can take the commands of the stream on the connection \<^term>\<open>c\<close>.\<close>

definition ready :: "store \<Rightarrow> client_context \<Rightarrow> bool" where
  "ready s c \<longleftrightarrow> \<not> over_memory_limit s \<and> valid_db s (db_index c)"

lemma stored_ready: "stored s i k e s' \<Longrightarrow> ready s c \<Longrightarrow> ready s' c"
  using storedD(2,3) by (simp add: ready_def)

section \<open>Values\<close>

definition scores_reparse :: "(nat \<Rightarrow> env) \<Rightarrow> (f64 \<Rightarrow> bytes) \<Rightarrow> bool" where
  "scores_reparse es disp \<longleftrightarrow> (\<forall>n x. \<not> f64_is_nan x \<longrightarrow> f64_parse (es n) (utf8_lossy (disp x)) = Some x)"

text \<open>
  The values that a stream of commands can express: no empty container, no NaN, entries of a stream with fields and with identifiers in order
  of which the newest is the last one given out.
\<close>

fun rewritable :: "storage_value \<Rightarrow> bool" where
  "rewritable (StringV v) \<longleftrightarrow> True"
| "rewritable (ListV l) \<longleftrightarrow> l \<noteq> []"
| "rewritable (SetV st) \<longleftrightarrow> st \<noteq> []"
| "rewritable (HashV h) \<longleftrightarrow> h \<noteq> []"
| "rewritable (ZSetV m sc) \<longleftrightarrow> m \<noteq> [] \<and> (\<forall>p\<in>set m. \<not> f64_is_nan (snd p))"
| "rewritable (StreamV entries last_ms last_seq) \<longleftrightarrow>
     entries \<noteq> [] \<and> sorted_wrt (<) (map sid entries) \<and> (\<forall>e\<in>set entries. se_fields e \<noteq> [] \<and> sid e \<noteq> (0, 0)) \<and>
     sid (last entries) = (last_ms, last_seq)"
| "rewritable (NestedHashV nh) \<longleftrightarrow> nh \<noteq> [] \<and> (\<forall>p\<in>set nh. snd p \<noteq> [])"

definition rebuilds :: "(nat \<Rightarrow> env) \<Rightarrow> nat \<Rightarrow> bytes list list \<Rightarrow> store \<Rightarrow> client_context \<Rightarrow> bytes \<Rightarrow> entry \<Rightarrow> bool" where
  "rebuilds es d cmds s c k e \<longleftrightarrow>
     (\<forall>n. \<exists>s'. run_log es d cmds s c n = Some (s', c, n + length cmds) \<and> stored s (db_index c) k e s')"

lemma rebuilds_single:
  assumes "\<And>n. \<exists>s' r. dispatch d (upper name) (es n) s c args = Some (s', c, r) \<and> stored s (db_index c) k e s'"
  shows "rebuilds es d [name # args] s c k e"
  unfolding rebuilds_def
proof
  fix n from assms obtain s' r where "dispatch d (upper name) (es n) s c args = Some (s', c, r)" "stored s (db_index c) k e s'"
    by blast
  then show "\<exists>s'. run_log es d [name # args] s c n = Some (s', c, n + length [name # args]) \<and> stored s (db_index c) k e s'"
    by (intro exI [of _ s']) simp
qed

lemma rebuilds_append:
  assumes "rebuilds es d xs s c k e" "\<And>s'. stored s (db_index c) k e s' \<Longrightarrow> rebuilds es d ys s' c k e'"
  shows "rebuilds es d (xs @ ys) s c k e'"
  unfolding rebuilds_def
proof
  fix n obtain s1 where 1: "run_log es d xs s c n = Some (s1, c, n + length xs)" "stored s (db_index c) k e s1"
    using assms(1) unfolding rebuilds_def by blast
  obtain s2 where "run_log es d ys s1 c (n + length xs) = Some (s2, c, n + length xs + length ys)" "stored s1 (db_index c) k e' s2"
    using assms(2) [OF 1(2)] unfolding rebuilds_def by blast
  then show "\<exists>s'. run_log es d (xs @ ys) s c n = Some (s', c, n + length (xs @ ys)) \<and> stored s (db_index c) k e' s'"
    using 1 stored_trans by (intro exI [of _ s2]) (auto simp: run_log_append)
qed

lemma rebuilds_handler:
  assumes "ready s c" "map_of (command_table (dispatch d)) name = Some (a, h)" "\<not> 0 < a \<or> int (length args) + 1 = a"
    and "upper name = name" "\<And>n. \<exists>s' r. h (es n) s c args = Some (s', c, Inr r) \<and> stored s (db_index c) k e s'"
  shows "rebuilds es (Suc d) [name # args] s c k e"
proof (rule rebuilds_single)
  fix n obtain s' r where "h (es n) s c args = Some (s', c, Inr r)" "stored s (db_index c) k e s'" using assms(5) by blast
  with dispatch_handler [OF _ assms(2,3), of s "es n" c s' c r] assms(1,4)
  show "\<exists>s' r. dispatch (Suc d) (upper name) (es n) s c args = Some (s', c, r) \<and> stored s (db_index c) k e s'"
    by (auto simp: ready_def simp del: dispatch.simps)
qed

lemma fresh_entry:
  assumes "ready s c" "raw s (db_index c) k = None"
  shows "entry_or_insert (databases s ! db_index c) k v = new_entry v"
  using assms by (simp add: entry_or_insert_def hm_get_raw ready_def)

lemma ready_db: "ready s c \<Longrightarrow> db s (db_index c) = Inr (databases s ! db_index c)"
  by (simp add: ready_def db_valid)

lemma rebuild_string:
  assumes "ready s c"
  shows "\<exists>e. rebuilds es (Suc d) [[''SET'', k, v]] s c k e \<and> ent_value e = StringV v \<and> ent_expire_at e = None"
proof -
  let ?i = "db_index c"
  let ?e = "(entry_or_insert (databases s ! ?i) k (StringV []))\<lparr>ent_value := StringV v, ent_expire_at := None,
      ent_version := ent_version (entry_or_insert (databases s ! ?i) k (StringV [])) + 1\<rparr>"
  have "store_set s ?i k v None = (put_entry s ?i k ?e, Inr ())" by (simp add: store_set_def ready_db [OF assms] Let_def)
  then have "cmd_set (es n) s c [k, v] = Some (put_entry s ?i k ?e, c, Inr resp_ok)" for n
    by (simp add: cmd_set_def args_from_def no_set_options_def reply_def)
  then have "rebuilds es (Suc d) [[''SET'', k, v]] s c k ?e"
    using stored_put assms
    by (intro rebuilds_handler [OF assms rewrite_lookups(1)]) (auto simp: rewrite_names ready_def)
  then show ?thesis by (intro exI [of _ ?e]) simp
qed

lemma rebuild_list:
  assumes "ready s c" "raw s (db_index c) k = None"
  shows "rebuilds es (Suc d) [''RPUSH'' # k # l] s c k (new_entry (ListV l))"
proof (rule rebuilds_handler [OF assms(1) rewrite_lookups(2)])
  let ?s = "put_entry s (db_index c) k (new_entry (ListV l))"
  have "foldl (\<lambda>l v. l @ [v]) [] l = l" by (induction l rule: rev_induct) simp_all
  then have "store_rpush s (db_index c) k l = (?s\<lparr>block_reg := notify (block_reg ?s) k\<rparr>, Inr (length l))"
    using fresh_entry [OF assms, of "ListV []"] by (simp add: store_rpush_def ready_db [OF assms(1)] Let_def new_entry_def)
  then show "\<exists>s' r. cmd_rpush (es n) s c (k # l) = Some (s', c, Inr r) \<and>
      stored s (db_index c) k (new_entry (ListV l)) s'" for n
    using stored_put_notify assms(1) by (auto simp: cmd_rpush_def args_from_def reply_def ready_def)
qed (simp_all add: rewrite_names)

lemma rebuild_set:
  assumes "ready s c" "raw s (db_index c) k = None"
  shows "\<exists>st'. rebuilds es (Suc d) [''SADD'' # k # st] s c k (new_entry (SetV st')) \<and> set st' = set st"
proof -
  obtain st' r where l: "sadd_loop st [] 0 = (st', r)" by fastforce
  have "rebuilds es (Suc d) [''SADD'' # k # st] s c k (new_entry (SetV st'))"
  proof (rule rebuilds_handler [OF assms(1) rewrite_lookups(3)])
    have "store_sadd s (db_index c) k st = (put_entry s (db_index c) k (new_entry (SetV st')), Inr r)"
      using fresh_entry [OF assms, of "SetV []"] l by (simp add: store_sadd_def ready_db [OF assms(1)] Let_def new_entry_def)
    then show "\<exists>s' r. cmd_sadd (es n) s c (k # st) = Some (s', c, Inr r) \<and>
        stored s (db_index c) k (new_entry (SetV st')) s'" for n
      using stored_put assms(1) by (auto simp: cmd_sadd_def args_from_def reply_def ready_def)
  qed (simp_all add: rewrite_names)
  moreover have "set st' = set st" using sadd_loop_spec [OF _ l] by simp
  ultimately show ?thesis by blast
qed

lemma rebuild_hash:
  assumes "ready s c" "raw s (db_index c) k = None" "h \<noteq> []" "hm_wf h"
  shows "\<exists>h'. rebuilds es (Suc d) [''HSET'' # k # flatten_pairs h] s c k (new_entry (HashV h')) \<and> hm_get h' = hm_get h"
proof -
  obtain h' r where l: "hset_loop h [] 0 = (h', r)" by fastforce
  have "rebuilds es (Suc d) [''HSET'' # k # flatten_pairs h] s c k (new_entry (HashV h'))"
  proof (rule rebuilds_handler [OF assms(1) rewrite_lookups(4)])
    have "store_hset s (db_index c) k h = (put_entry s (db_index c) k (new_entry (HashV h')), Inr r)"
      using fresh_entry [OF assms(1,2), of "HashV []"] l by (simp add: store_hset_def ready_db [OF assms(1)] Let_def new_entry_def)
    then show "\<exists>s' r. cmd_hset (es n) s c (k # flatten_pairs h) = Some (s', c, Inr r) \<and>
        stored s (db_index c) k (new_entry (HashV h')) s'" for n
      using stored_put assms(1,3) by (auto simp: cmd_hset_def args_from_def reply_def ready_def parse_pairs_def)
  qed (simp_all add: rewrite_names)
  moreover have "hm_get h' = hm_get h"
    using hset_loop_spec [OF _ l] assms(4) by (simp add: hm_wf_def map_of_inject_set rev_map [symmetric])
  ultimately show ?thesis by blast
qed

lemma parse_scores:
  assumes "scores_reparse es disp" "\<forall>p\<in>set m. \<not> f64_is_nan (snd p)"
  shows "parse_score_member_pairs (es n) (flatten_pairs (map (\<lambda>(m, score). (disp score, m)) m)) acc = Inr (acc @ map prod.swap m)"
  using assms(2)
proof (induction m arbitrary: acc)
  case (Cons p m)
  obtain x y where p: "p = (x, y)" by fastforce
  have "f64_parse (es n) (utf8_lossy (disp y)) = Some y" using assms(1) Cons.prems by (simp add: scores_reparse_def p)
  then show ?case using Cons by (simp add: p)
qed simp

lemma rebuild_zset:
  assumes "ready s c" "raw s (db_index c) k = None" "hm_wf m" "\<forall>p\<in>set m. \<not> f64_is_nan (snd p)" "scores_reparse es disp"
  shows "\<exists>m' sc'. rebuilds es (Suc d) [''ZADD'' # k # flatten_pairs (map (\<lambda>(m, score). (disp score, m)) m)] s c k
      (new_entry (ZSetV m' sc')) \<and> hm_get m' = hm_get m \<and> zset_inv m' sc'"
proof -
  obtain m' sc' r where l: "zadd_loop (map prod.swap m) [] [] 0 = (m', sc', r)" by (metis prod_cases3)
  have "rebuilds es (Suc d) [''ZADD'' # k # flatten_pairs (map (\<lambda>(m, score). (disp score, m)) m)] s c k (new_entry (ZSetV m' sc'))"
  proof (rule rebuilds_handler [OF assms(1) rewrite_lookups(5)])
    have "store_zadd s (db_index c) k (map prod.swap m) = (put_entry s (db_index c) k (new_entry (ZSetV m' sc')), Inr r)"
      using fresh_entry [OF assms(1,2), of "ZSetV [] []"] l by (simp add: store_zadd_def ready_db [OF assms(1)] Let_def new_entry_def)
    then show "\<exists>s' r. cmd_zadd (es n) s c (k # flatten_pairs (map (\<lambda>(m, score). (disp score, m)) m)) = Some (s', c, Inr r) \<and>
        stored s (db_index c) k (new_entry (ZSetV m' sc')) s'" for n
      using stored_put assms(1) parse_scores [OF assms(5,4), of n "[]"]
      by (auto simp: cmd_zadd_def args_from_def reply_def ready_def)
  qed (simp_all add: rewrite_names)
  moreover have "zset_inv m' sc'" "hm_get m' = map_of (rev m)"
    using zadd_loop_inv [OF zset_inv_empty _ l] assms(4) by (simp_all add: comp_def)
  moreover have "map_of (rev m) = hm_get m" using assms(3) by (simp add: hm_wf_def map_of_inject_set rev_map [symmetric])
  ultimately show ?thesis by auto
qed

text \<open>A stream grows entry by entry; each command finds the entries before it.\<close>

definition stream_entry :: "stream_entry list \<Rightarrow> entry" where
  "stream_entry es = new_entry (StreamV es (id_ms (last es)) (id_seq (last es)))"

definition xadd_command :: "bytes \<Rightarrow> stream_entry \<Rightarrow> bytes list" where
  "xadd_command k x = ''XADD'' # k # format_id (id_ms x) (id_seq x) # flatten_pairs (se_fields x)"

lemma upper_digit:
  assumes "digit_val ch \<noteq> None"
  shows "to_uppercase (ch # cs) = ch # to_uppercase cs"
proof -
  have code: "(of_char ch :: nat) \<le> 57" "48 \<le> (of_char ch :: nat)"
    using assms by (auto simp: digit_val_def Let_def split: if_splits)
  then have "upper_special (ch # cs) = None" "upper_char ch = ch"
    by (auto simp: upper_special_def Let_def upper_char_def byte_in_def)
  then show ?thesis by simp
qed

lemma upper_id: "upper (format_id a b) \<noteq> ''MAXLEN''"
proof -
  obtain ch cs where n: "nat_to_string (unat a) = ch # cs" by (cases "nat_to_string (unat a)") auto
  have "digit_val ch \<noteq> None" by (rule hd_nat_to_string_digit [OF n])
  then have "upper (format_id a b) = ch # to_uppercase (cs @ ''-'' @ nat_to_string (unat b))" "ch \<noteq> CHR ''M''"
    using upper_digit unfolding upper_def utf8_lossy_format_id by (auto simp: format_id_def n digit_val_def)
  then show ?thesis by auto
qed

lemma generate_explicit:
  assumes "(a, b) \<noteq> (0, 0)"
  shows "generate_stream_id t s i k (format_id a b) = Inr (a, b)"
proof -
  have "nat_to_string (unat b) \<noteq> ''*''" using nat_to_string_digits [of "CHR ''*''" "unat b"] by (auto simp: digit_val_def)
  then show ?thesis
    using assms unfolding generate_stream_id_def Let_def utf8_lossy_format_id splitn2_format_id
    by (auto simp: format_id_shape parse_u64_word)
qed

lemma xadd_step:
  assumes "ready s c" "sid x \<noteq> (0, 0)" "se_fields x \<noteq> []"
    and "raw s (db_index c) k = (if xs = [] then None else Some (stream_entry xs))" "xs \<noteq> [] \<Longrightarrow> sid (last xs) < sid x"
  shows "rebuilds es (Suc d) [xadd_command k x] s c k (stream_entry (xs @ [x]))"
  unfolding xadd_command_def
proof (rule rebuilds_handler [OF assms(1) rewrite_lookups(6)])
  let ?i = "db_index c" and ?id = "format_id (id_ms x) (id_seq x)"
  have v: "valid_db s ?i" using assms(1) by (simp add: ready_def)
  have gen: "generate_stream_id t s ?i k ?id = Inr (id_ms x, id_seq x)" for t
    by (rule generate_explicit) (use assms(2) in \<open>simp add: sid_def\<close>)
  have small: "\<not> id_too_small t s ?i k (id_ms x) (id_seq x)" for t
    using assms(4,5) by (cases "xs = []")
      (auto simp: id_too_small_def entry_live [OF v] live_def stream_entry_def new_entry_def expired_def sid_def less_prod_def)
  have ent: "entry_or_insert (databases s ! ?i) k (StreamV [] 0 0) = (if xs = [] then new_entry (StreamV [] 0 0) else stream_entry xs)"
    using assms(4) by (simp add: entry_or_insert_def hm_get_raw [OF v])
  let ?s = "put_entry s ?i k (stream_entry (xs @ [x]))"
  have x: "\<lparr>id_ms = id_ms x, id_seq = id_seq x, se_fields = se_fields x\<rparr> = x" by (cases x) simp
  have add: "store_xadd t s ?i k ?id (se_fields x) None = (?s\<lparr>block_reg := notify (block_reg ?s) k\<rparr>, Inr ?id)" for t
    using ent by (cases "xs = []") (simp_all add: store_xadd_def gen small db_valid [OF v] Let_def stream_entry_def new_entry_def x)
  obtain a b where f: "flatten_pairs (se_fields x) = a # b # flatten_pairs (tl (se_fields x))"
    using assms(3) by (cases "se_fields x") auto
  have opts: "xadd_opts (?id # flatten_pairs (se_fields x)) None = (?id # flatten_pairs (se_fields x), None)"
    unfolding f using upper_id by simp
  show "\<exists>s' r. cmd_xadd (es n) s c (k # ?id # flatten_pairs (se_fields x)) = Some (s', c, Inr r) \<and>
      stored s ?i k (stream_entry (xs @ [x])) s'" for n
    using add [of "now (es n)"] opts assms(3) stored_put_notify [OF v, of k "stream_entry (xs @ [x])"]
    by (auto simp: cmd_xadd_def parse_pairs_def reply_def try_mut_def)
qed (simp_all add: rewrite_names)

lemma rebuild_stream:
  assumes "ready s c" "raw s (db_index c) k = (if xs = [] then None else Some (stream_entry xs))" "xs @ ys \<noteq> []"
    and "sorted_wrt (<) (map sid (xs @ ys))" "\<forall>e\<in>set ys. se_fields e \<noteq> [] \<and> sid e \<noteq> (0, 0)"
  shows "rebuilds es (Suc d) (map (xadd_command k) ys) s c k (stream_entry (xs @ ys))"
  using assms
proof (induction ys arbitrary: s xs)
  case Nil
  then show ?case by (auto simp: rebuilds_def intro: stored_refl)
next
  case (Cons y ys)
  have "sid (last xs) < sid y" if "xs \<noteq> []"
    using Cons.prems(4) that by (auto simp: sorted_wrt_append)
  then have one: "rebuilds es (Suc d) [xadd_command k y] s c k (stream_entry (xs @ [y]))"
    using xadd_step [OF Cons.prems(1) _ _ Cons.prems(2)] Cons.prems(5) by simp
  have "rebuilds es (Suc d) ([xadd_command k y] @ map (xadd_command k) ys) s c k (stream_entry (xs @ y # ys))"
  proof (rule rebuilds_append [OF one])
    fix s' assume st: "stored s (db_index c) k (stream_entry (xs @ [y])) s'"
    have "rebuilds es (Suc d) (map (xadd_command k) ys) s' c k (stream_entry ((xs @ [y]) @ ys))"
      by (rule Cons.IH) (use st stored_ready Cons.prems in \<open>auto simp: storedD(1)\<close>)
    then show "rebuilds es (Suc d) (map (xadd_command k) ys) s' c k (stream_entry (xs @ y # ys))" by simp
  qed
  then show ?case by simp
qed

text \<open>A nested hash grows pair by pair, field after field.\<close>

lemma nhset_step:
  assumes "ready s c" "raw s (db_index c) k = (if m = [] then None else Some (new_entry (NestedHashV m)))"
  shows "rebuilds es (Suc d) [[''NHSET'', k, f, sub, v]] s c k
    (new_entry (NestedHashV (hm_insert f (hm_insert sub v (nh_inner m f)) m)))"
proof (rule rebuilds_handler [OF assms(1) rewrite_lookups(7)])
  let ?i = "db_index c" and ?e = "new_entry (NestedHashV (hm_insert f (hm_insert sub v (nh_inner m f)) m))"
  have v: "valid_db s ?i" using assms(1) by (simp add: ready_def)
  have "entry_or_insert (databases s ! ?i) k (NestedHashV []) = new_entry (NestedHashV m)"
    using assms(2) by (simp add: entry_or_insert_def hm_get_raw [OF v])
  then have "\<exists>r. store_nhset s ?i k f sub v = (put_entry s ?i k ?e, Inr r)"
    by (simp add: store_nhset_def db_valid [OF v] Let_def new_entry_def)
  then show "\<exists>s' r. cmd_nhset (es n) s c [k, f, sub, v] = Some (s', c, Inr r) \<and> stored s ?i k ?e s'" for n
    using stored_put [OF v] by (auto simp: cmd_nhset_def arg_def reply_def try_mut_def)
qed (simp_all add: rewrite_names)

lemma hm_insert_last: "f \<notin> fst ` set m \<Longrightarrow> hm_insert f v (m @ [(f, x)]) = m @ [(f, v)]"
  unfolding hm_insert_def by (induction m) auto

lemma rebuild_field:
  assumes "ready s c" "raw s (db_index c) k = (if m @ (if xs = [] then [] else [(f, xs)]) = [] then None
      else Some (new_entry (NestedHashV (m @ (if xs = [] then [] else [(f, xs)])))))"
    and "f \<notin> fst ` set m" "hm_wf (xs @ ys)" "xs @ ys \<noteq> []"
  shows "rebuilds es (Suc d) (map (\<lambda>(sub, v). [''NHSET'', k, f, sub, v]) ys) s c k (new_entry (NestedHashV (m @ [(f, xs @ ys)])))"
  using assms
proof (induction ys arbitrary: s xs)
  case Nil
  then show ?case by (auto simp: rebuilds_def intro: stored_refl)
next
  case (Cons y ys)
  obtain sub v where y: "y = (sub, v)" by fastforce
  let ?m = "m @ (if xs = [] then [] else [(f, xs)])"
  have get: "nh_inner ?m f = xs"
    using Cons.prems(3) by (auto simp: nh_inner_def map_add_def split: option.split dest: map_of_SomeD intro: rev_image_eqI)
  have "sub \<notin> fst ` set xs" using Cons.prems(4) by (auto simp: hm_wf_def y)
  then have ins: "hm_insert f (hm_insert sub v (nh_inner ?m f)) ?m = m @ [(f, xs @ [y])]"
    using Cons.prems(3) hm_insert_last [of f m] hm_insert_fresh [of f m] by (simp add: get hm_insert_fresh y)
  have "rebuilds es (Suc d) ([[''NHSET'', k, f, sub, v]] @ map (\<lambda>(sub, v). [''NHSET'', k, f, sub, v]) ys) s c k
      (new_entry (NestedHashV (m @ [(f, (xs @ [y]) @ ys)])))"
  proof (rule rebuilds_append [OF nhset_step [OF Cons.prems(1,2), where f = f and sub = sub and v = v, unfolded ins]])
    fix s' assume "stored s (db_index c) k (new_entry (NestedHashV (m @ [(f, xs @ [y])]))) s'"
    then show "rebuilds es (Suc d) (map (\<lambda>(sub, v). [''NHSET'', k, f, sub, v]) ys) s' c k
        (new_entry (NestedHashV (m @ [(f, (xs @ [y]) @ ys)])))"
      by (intro Cons.IH) (use stored_ready Cons.prems in \<open>auto simp: storedD(1)\<close>)
  qed
  then show ?case by (simp add: y)
qed

lemma rebuild_nested:
  assumes "ready s c" "raw s (db_index c) k = (if m = [] then None else Some (new_entry (NestedHashV m)))"
    and "hm_wf (m @ nh)" "\<forall>p\<in>set nh. snd p \<noteq> [] \<and> hm_wf (snd p)" "m @ nh \<noteq> []"
  shows "rebuilds es (Suc d) (concat (map (\<lambda>(field, inner). map (\<lambda>(sub, v). [''NHSET'', k, field, sub, v]) inner) nh)) s c k
    (new_entry (NestedHashV (m @ nh)))"
  using assms
proof (induction nh arbitrary: s m)
  case Nil
  then show ?case by (auto simp: rebuilds_def intro: stored_refl)
next
  case (Cons p nh)
  obtain f inner where p: "p = (f, inner)" by fastforce
  have f: "f \<notin> fst ` set m" "hm_wf inner" "inner \<noteq> []" using Cons.prems(3,4) by (auto simp: hm_wf_def p)
  have one: "rebuilds es (Suc d) (map (\<lambda>(sub, v). [''NHSET'', k, f, sub, v]) inner) s c k (new_entry (NestedHashV (m @ [p])))"
    using rebuild_field [OF Cons.prems(1), of k m "[]" f inner] Cons.prems(2) f by (simp add: p)
  have "rebuilds es (Suc d) (map (\<lambda>(sub, v). [''NHSET'', k, f, sub, v]) inner @
      concat (map (\<lambda>(field, inner). map (\<lambda>(sub, v). [''NHSET'', k, field, sub, v]) inner) nh)) s c k
      (new_entry (NestedHashV ((m @ [p]) @ nh)))"
  proof (rule rebuilds_append [OF one])
    fix s' assume "stored s (db_index c) k (new_entry (NestedHashV (m @ [p]))) s'"
    then show "rebuilds es (Suc d) (concat (map (\<lambda>(field, inner). map (\<lambda>(sub, v). [''NHSET'', k, field, sub, v]) inner) nh)) s' c k
        (new_entry (NestedHashV ((m @ [p]) @ nh)))"
      by (intro Cons.IH) (use stored_ready Cons.prems in \<open>auto simp: storedD(1)\<close>)
  qed
  then show ?case by (simp add: p)
qed

section \<open>Entries\<close>

lemma rebuild_value:
  assumes "ready s c" "raw s (db_index c) k = None" "value_wf v" "rewritable v" "scores_reparse es disp"
  shows "\<exists>e. rebuilds es (Suc d) (commands_for_value disp k v) s c k e \<and> restored v (ent_value e) \<and> ent_expire_at e = None"
proof (cases v)
  case (StringV x)
  then show ?thesis using rebuild_string [OF assms(1), of es d k x] by auto
next
  case (ListV l)
  then show ?thesis using rebuild_list [OF assms(1,2), of es d l] assms(4) by (auto simp: new_entry_def)
next
  case (SetV st)
  then show ?thesis using rebuild_set [OF assms(1,2), of es d st] assms(4) by (auto simp: new_entry_def)
next
  case (HashV h)
  then show ?thesis using rebuild_hash [OF assms(1,2), of h es d] assms(3,4) by (auto simp: new_entry_def)
next
  case (ZSetV m sc)
  then show ?thesis using rebuild_zset [OF assms(1,2), of m es disp d] assms(3-5) by (auto simp: new_entry_def)
next
  case (StreamV entries lms lseq)
  have cmds: "commands_for_value disp k v = map (xadd_command k) entries" by (simp add: StreamV xadd_command_def [abs_def] format_id_def)
  have ent: "new_entry v = stream_entry ([] @ entries)" using assms(4) by (auto simp: StreamV stream_entry_def sid_def)
  have "rebuilds es (Suc d) (commands_for_value disp k v) s c k (new_entry v)"
    unfolding cmds ent by (rule rebuild_stream [OF assms(1)]) (use assms(2,4) StreamV in auto)
  moreover have "restored v v" by (simp add: StreamV)
  ultimately show ?thesis by (intro exI [of _ "new_entry v"]) (simp add: new_entry_def)
next
  case (NestedHashV nh)
  then show ?thesis using rebuild_nested [OF assms(1), of k "[]" nh es d] assms(2-4) by (auto simp: new_entry_def)
qed

lemma rebuild_expiry:
  assumes "ready s c" "raw s (db_index c) k = Some e"
  shows "rebuilds es (Suc d) [[''PEXPIREAT'', k, nat_to_string (unat at)]] s c k (e\<lparr>ent_expire_at := Some at\<rparr>)"
proof (rule rebuilds_handler [OF assms(1) rewrite_lookups(8)])
  have v: "valid_db s (db_index c)" using assms(1) by (simp add: ready_def)
  have "arg_u64 (nat_to_string (unat at)) = Some at" by (simp add: arg_u64_def utf8_lossy_ascii parse_u64_word)
  moreover have "set_expire s (db_index c) k at = (put_entry s (db_index c) k (e\<lparr>ent_expire_at := Some at\<rparr>), Inr True)"
    using assms(2) by (simp add: set_expire_def db_valid [OF v] hm_get_raw [OF v])
  ultimately show "\<exists>s' r. cmd_pexpireat (es n) s c [k, nat_to_string (unat at)] = Some (s', c, Inr r) \<and>
      stored s (db_index c) k (e\<lparr>ent_expire_at := Some at\<rparr>) s'" for n
    using stored_put [OF v] by (simp add: cmd_pexpireat_def arg_def reply_def try_mut_def)
qed (simp_all add: rewrite_names)

lemma rebuild_entry:
  assumes "ready s c" "raw s (db_index c) k = None" "value_wf (ent_value en)" "rewritable (ent_value en)" "scores_reparse es disp"
  shows "\<exists>e. rebuilds es (Suc d) (commands_for_entry disp (k, en)) s c k e \<and> restored_entry (Some en) (Some e)"
proof -
  obtain e where e: "rebuilds es (Suc d) (commands_for_value disp k (ent_value en)) s c k e"
    "restored (ent_value en) (ent_value e)" "ent_expire_at e = None"
    using rebuild_value [OF assms] by blast
  show ?thesis
  proof (cases "ent_expire_at en")
    case None
    then show ?thesis using e by (intro exI [of _ e]) (simp add: commands_for_entry_def)
  next
    case (Some at)
    have "rebuilds es (Suc d) (commands_for_value disp k (ent_value en) @ [[''PEXPIREAT'', k, nat_to_string (unat at)]]) s c k
        (e\<lparr>ent_expire_at := Some at\<rparr>)"
      by (rule rebuilds_append [OF e(1)], rule rebuild_expiry) (use stored_ready assms(1) storedD(1) in blast)+
    then show ?thesis using e(2) Some by (intro exI [of _ "e\<lparr>ent_expire_at := Some at\<rparr>"]) (simp add: commands_for_entry_def)
  qed
qed

section \<open>Databases\<close>

lemma rebuild_entries:
  assumes "ready s c" "hm_wf ps" "scores_reparse es disp"
    and "\<forall>p\<in>set ps. raw s (db_index c) (fst p) = None \<and> value_wf (ent_value (snd p)) \<and> rewritable (ent_value (snd p))"
  shows "\<exists>s' n'. run_log es (Suc d) (concat (map (commands_for_entry disp) ps)) s c n = Some (s', c, n') \<and>
     ready s' c \<and> length (databases s') = length (databases s) \<and>
     (\<forall>j k. if j = db_index c \<and> k \<in> fst ` set ps then restored_entry (hm_get ps k) (raw s' j k) else raw s' j k = raw s j k)"
  using assms
proof (induction ps arbitrary: s n)
  case (Cons p ps)
  obtain k en where p: "p = (k, en)" by fastforce
  let ?i = "db_index c"
  have en: "raw s ?i k = None" "value_wf (ent_value en)" "rewritable (ent_value en)" using Cons.prems(4) by (auto simp: p)
  obtain e s1 where s1: "run_log es (Suc d) (commands_for_entry disp (k, en)) s c n =
      Some (s1, c, n + length (commands_for_entry disp (k, en)))" "stored s ?i k e s1" "restored_entry (Some en) (Some e)"
    using rebuild_entry [OF Cons.prems(1) en Cons.prems(3), of d] unfolding rebuilds_def by blast
  have k: "k \<notin> fst ` set ps" "hm_wf ps" using Cons.prems(2) by (auto simp: hm_wf_def p)
  have raw1: "raw s1 j k' = (if j = ?i \<and> k' = k then Some e else raw s j k')" for j k'
    using s1(2) by (simp add: stored_def)
  have "\<forall>q\<in>set ps. raw s1 ?i (fst q) = None \<and> value_wf (ent_value (snd q)) \<and> rewritable (ent_value (snd q))"
    using Cons.prems(4) k(1) by (auto simp: raw1 p)
  from Cons.IH [OF stored_ready [OF s1(2) Cons.prems(1)] k(2) Cons.prems(3) this] obtain s' n' where
    s': "run_log es (Suc d) (concat (map (commands_for_entry disp) ps)) s1 c (n + length (commands_for_entry disp (k, en))) = Some (s', c, n')"
      "ready s' c" "length (databases s') = length (databases s1)"
      "\<forall>j k. if j = ?i \<and> k \<in> fst ` set ps then restored_entry (hm_get ps k) (raw s' j k) else raw s' j k = raw s1 j k"
    by blast
  have "if j = ?i \<and> k' \<in> fst ` set (p # ps) then restored_entry (hm_get (p # ps) k') (raw s' j k') else raw s' j k' = raw s j k'" for j k'
    using s'(4) [rule_format, of j k'] k(1) s1(3) by (auto simp: raw1 p split: if_splits)
  moreover have "length (databases s1) = length (databases s)" using s1(2) by (simp add: stored_def)
  moreover have "run_log es (Suc d) (concat (map (commands_for_entry disp) (p # ps))) s c n = Some (s', c, n')"
    using s1(1) s'(1) by (simp add: run_log_append p)
  ultimately show ?case using s'(2,3) by (intro exI [of _ s'] exI [of _ n']) presburger
qed simp

lemma db_records_live:
  assumes "store_wf s" "valid_db s i"
  shows "hm_wf (db_records t s i)" "hm_get (db_records t s i) k = live t s i k"
    "p \<in> set (db_records t s i) \<Longrightarrow> p \<in> set (databases s ! i)"
proof -
  have wf: "hm_wf (databases s ! i)" by (rule store_wf_db [OF assms])
  then show "hm_wf (db_records t s i)" unfolding db_records_def by (rule hm_wf_filter)
  show "hm_get (db_records t s i) k = live t s i k"
    using wf assms(2) unfolding db_records_def hm_get_filter [OF wf] by (simp add: live_def hm_get_raw split: option.split)
  show "p \<in> set (db_records t s i) \<Longrightarrow> p \<in> set (databases s ! i)" by (simp add: db_records_def)
qed

lemma run_select:
  assumes "\<not> over_memory_limit s" "i \<le> u64_max"
  shows "run_log es (Suc d) [[''SELECT'', nat_to_string i]] s c n = Some (s, c\<lparr>db_index := i\<rparr>, n + 1)"
proof -
  have "arg_usize (nat_to_string i) = Some i"
    using assms(2) by (simp add: arg_usize_def parse_usize_def utf8_lossy_ascii parse_u64_nat_to_string)
  then have "cmd_select (es n) s c [nat_to_string i] = Some (s, c\<lparr>db_index := i\<rparr>, Inr resp_ok)"
    by (simp add: cmd_select_def arg_def reply_def)
  from dispatch_handler [OF assms(1) rewrite_lookups(9) _ this] show ?thesis
    by (simp add: rewrite_names del: dispatch.simps)
qed

definition store_rewritable :: "store \<Rightarrow> bool" where
  "store_rewritable s \<longleftrightarrow> list_all (list_all (\<lambda>p. rewritable (ent_value (snd p)))) (databases s)"

lemma rebuild_db:
  assumes "store_wf s" "store_rewritable s" "scores_reparse es disp" "length (databases s) \<le> u64_max" "valid_db s i"
    and t: "\<not> over_memory_limit t" "length (databases t) = length (databases s)" "\<forall>k. raw t i k = None"
    and c: "length (databases s) = 1 \<longrightarrow> db_index c = 0"
  shows "\<exists>t' c' n'. run_log es (Suc d) (commands_for_db disp clock s i) t c n = Some (t', c', n') \<and>
     \<not> over_memory_limit t' \<and> length (databases t') = length (databases s) \<and>
     (length (databases s) = 1 \<longrightarrow> db_index c' = 0) \<and> (\<forall>j k. j \<noteq> i \<longrightarrow> raw t' j k = raw t j k) \<and>
     (\<forall>k. restored_entry (live (clock i) s i k) (raw t' i k))"
proof -
  let ?ps = "db_records (clock i) s i" and ?many = "1 < length (databases s)"
  have iter: "iterate_db (clock i) s i = Inr ?ps" by (simp add: iterate_db_def db_valid [OF assms(5)] db_records_def)
  note rec = db_records_live [OF assms(1,5), where t = "clock i"]
  show ?thesis
  proof (cases "?ps = []")
    case True
    then have "live (clock i) s i k = None" for k using rec(2) [of k] by simp
    moreover have "commands_for_db disp clock s i = []" by (simp add: commands_for_db_def iter True)
    ultimately show ?thesis using t c by simp
  next
    case False
    let ?sel = "if ?many then [[''SELECT'', nat_to_string i]] else []"
    have cmds: "commands_for_db disp clock s i = ?sel @ concat (map (commands_for_entry disp) ?ps)"
      using False by (cases ?ps) (simp_all add: commands_for_db_def iter)
    define c1 where "c1 = (if ?many then c\<lparr>db_index := i\<rparr> else c)"
    have i: "i < length (databases s)" using assms(5) by (simp add: valid_db_def)
    then have c1: "db_index c1 = i" "ready t c1" using c t(1,2) by (auto simp: c1_def ready_def valid_db_def)
    have "\<exists>n1. run_log es (Suc d) ?sel t c n = Some (t, c1, n1)"
      using run_select [OF t(1), of i es d c n] i assms(4) by (simp add: c1_def del: run_log.simps(2))
    then obtain n1 where n1: "run_log es (Suc d) ?sel t c n = Some (t, c1, n1)" ..
    have "\<forall>p\<in>set ?ps. raw t (db_index c1) (fst p) = None \<and> value_wf (ent_value (snd p)) \<and> rewritable (ent_value (snd p))"
    proof
      fix p assume "p \<in> set ?ps"
      then have "p \<in> set (databases s ! i)" "databases s ! i \<in> set (databases s)" using rec(3) i by simp_all
      then show "raw t (db_index c1) (fst p) = None \<and> value_wf (ent_value (snd p)) \<and> rewritable (ent_value (snd p))"
        using assms(1,2) t(3) c1(1) by (auto simp: store_wf_def store_rewritable_def list_all_iff)
    qed
    from rebuild_entries [OF c1(2) rec(1) assms(3) this, of d n1] obtain t' n' where
      r: "run_log es (Suc d) (concat (map (commands_for_entry disp) ?ps)) t c1 n1 = Some (t', c1, n')" "ready t' c1"
        "length (databases t') = length (databases t)"
        "\<forall>j k. if j = db_index c1 \<and> k \<in> fst ` set ?ps then restored_entry (hm_get ?ps k) (raw t' j k) else raw t' j k = raw t j k"
      by blast
    have "restored_entry (live (clock i) s i k) (raw t' i k)" for k
    proof (cases "k \<in> fst ` set ?ps")
      case True
      then show ?thesis using r(4) [rule_format, of i k] rec(2) [of k] c1(1) by simp
    next
      case False
      then have "hm_get ?ps k = None" by (simp add: map_of_eq_None_iff)
      then have "live (clock i) s i k = None" unfolding rec(2) .
      moreover have "raw t' i k = None" using r(4) [rule_format, of i k] False t(3) by simp
      ultimately show ?thesis by simp
    qed
    moreover have "\<forall>j k. j \<noteq> i \<longrightarrow> raw t' j k = raw t j k" using r(4) c1(1) by auto
    moreover have "length (databases s) = 1 \<longrightarrow> db_index c1 = 0" using c by (simp add: c1_def)
    ultimately show ?thesis
      using n1 r(1-3) t(2) unfolding cmds by (intro exI [of _ t'] exI [of _ c1] exI [of _ n']) (simp add: run_log_append ready_def)
  qed
qed

lemma rebuild_dbs:
  assumes "store_wf s" "store_rewritable s" "scores_reparse es disp" "length (databases s) \<le> u64_max"
    and "\<forall>i\<in>set is. valid_db s i" "distinct is"
    and "\<not> over_memory_limit t" "length (databases t) = length (databases s)" "\<forall>i\<in>set is. \<forall>k. raw t i k = None"
    and "length (databases s) = 1 \<longrightarrow> db_index c = 0"
  shows "\<exists>t' c' n'. run_log es (Suc d) (concat (map (commands_for_db disp clock s) is)) t c n = Some (t', c', n') \<and>
     (\<forall>i\<in>set is. \<forall>k. restored_entry (live (clock i) s i k) (raw t' i k)) \<and> (\<forall>j k. j \<notin> set is \<longrightarrow> raw t' j k = raw t j k)"
  using assms(5-)
proof (induction "is" arbitrary: t c n)
  case (Cons i "is")
  obtain t1 c1 n1 where 1: "run_log es (Suc d) (commands_for_db disp clock s i) t c n = Some (t1, c1, n1)"
    "\<not> over_memory_limit t1" "length (databases t1) = length (databases s)" "length (databases s) = 1 \<longrightarrow> db_index c1 = 0"
    "\<forall>j k. j \<noteq> i \<longrightarrow> raw t1 j k = raw t j k" "\<forall>k. restored_entry (live (clock i) s i k) (raw t1 i k)"
    using rebuild_db [OF assms(1-4), of i t c d clock n] Cons.prems by auto
  have "\<forall>j\<in>set is. \<forall>k. raw t1 j k = None" using 1(5) Cons.prems(2,5) by (metis distinct.simps(2) list.set_intros(2))
  with Cons.IH [OF _ _ 1(2,3) _ 1(4), of n1] Cons.prems(1,2) obtain t' c' n' where
    2: "run_log es (Suc d) (concat (map (commands_for_db disp clock s) is)) t1 c1 n1 = Some (t', c', n')"
      "\<forall>i\<in>set is. \<forall>k. restored_entry (live (clock i) s i k) (raw t' i k)" "\<forall>j k. j \<notin> set is \<longrightarrow> raw t' j k = raw t1 j k"
    by auto
  then show ?case using 1(1,5,6) Cons.prems(2) by (intro exI [of _ t'] exI [of _ c'] exI [of _ n']) (auto simp: run_log_append)
qed simp

section \<open>Properties\<close>

lemma length_le_concat: "x \<in> set xs \<Longrightarrow> length (f x) \<le> length (concat (map f xs))"
  by (induction xs) auto

lemma frame_fits_small:
  assumes "args \<noteq> []" "int (length (encode_command_for_aof args)) \<le> i64_max"
  shows "frame_fits args"
proof -
  have "length args \<le> length (concat (map encode_arg args))"
    by (induction args) (simp_all add: encode_arg_def crlf_def)
  moreover have "length a \<le> length (concat (map encode_arg args))" if "a \<in> set args" for a
    using that by (induction args) (auto simp: encode_arg_def crlf_def)
  moreover have "length (concat (map encode_arg args)) \<le> length (encode_command_for_aof args)"
    by (simp add: encode_command_for_aof_def)
  ultimately have "int (length args) \<le> i64_max" "\<And>a. a \<in> set args \<Longrightarrow> int (length a) \<le> i64_max"
    using assms(2) by fastforce+
  moreover have "i64_min \<le> int m" for m by (rule order_trans [OF _ of_nat_0_le_iff]) (simp add: i64_min_def)
  ultimately show ?thesis using assms(1) by (auto simp: frame_fits_def list_all_iff in_i64_def)
qed

definition frames :: "bytes list list \<Rightarrow> bytes" where
  "frames cmds = concat (map encode_command_for_aof cmds)"

lemma frames_append: "frames (xs @ ys) = frames xs @ frames ys"
  by (simp add: frames_def)

lemma frames_concat: "frames (concat gs) = concat (map frames gs)"
  by (induction gs) (simp_all add: frames_append, simp add: frames_def)

lemma frames_Nil_iff: "frames cmds = [] \<longleftrightarrow> cmds = []"
  by (cases cmds) (simp_all add: frames_def encode_command_for_aof_def)

lemma replay_frames:
  assumes "nom_laws nm" "\<forall>args\<in>set cmds. args \<noteq> []" "int (length (frames cmds)) \<le> i64_max"
  shows "replay_aof nm es d s (frames cmds) = run_log es d cmds s client_context_new 0"
proof -
  have "int (length (encode_command_for_aof args)) \<le> i64_max" if "args \<in> set cmds" for args
    using length_le_concat [OF that, of encode_command_for_aof] assms(3) unfolding frames_def by linarith
  then have "list_all frame_fits cmds" using frame_fits_small assms(2) by (simp add: list_all_iff)
  from replay_loop_frames [OF assms(1) this, of "[]"] assms(3) show ?thesis
    by (simp add: replay_aof_def frames_def i64_max_def u64_max_def)
qed

lemma rewrite_commands_nonempty: "args \<in> set (commands_for_db disp clock s i) \<Longrightarrow> args \<noteq> []"
proof -
  have "args \<in> set (commands_for_value disp k v) \<Longrightarrow> args \<noteq> []" for k v
    by (cases v) (auto split: if_splits)
  then have "args \<in> set (commands_for_entry disp p) \<Longrightarrow> args \<noteq> []" for p
    by (auto simp: commands_for_entry_def split: option.splits)
  then show "args \<in> set (commands_for_db disp clock s i) \<Longrightarrow> args \<noteq> []"
    by (auto simp: commands_for_db_def split: sum.splits list.splits if_splits)
qed

text \<open>
  C10: A rewrite keeps the data.  Replaying the file that a rewrite writes for a store, on a server without
  keys, gives under every key of every database the entry that was live when it was written, with its value and expiry, and
  nothing else.  The conditions on the store say what commands can express: a container without elements, and the
  last identifier of a stream whose newest entry was deleted, are lost.
\<close>

theorem rewrite_restores:
  assumes "nom_laws nm" "store_wf s" "store_rewritable s" "scores_reparse es disp" "length (databases s) \<le> u64_max"
    and "int (length (write_dataset disp clock s)) \<le> i64_max"
    and "\<not> over_memory_limit t" "length (databases t) = length (databases s)" "\<forall>i k. raw t i k = None"
  shows "\<exists>t' c n. replay_aof nm es (Suc d) t (write_dataset disp clock s) = Some (t', c, n) \<and>
     (\<forall>i<length (databases s). \<forall>k. restored_entry (live (clock i) s i k) (raw t' i k))"
proof -
  let ?cmds = "concat (map (commands_for_db disp clock s) [0..<length (databases s)])"
  have data: "write_dataset disp clock s = frames ?cmds" by (simp add: write_dataset_def frames_def)
  have "\<forall>args\<in>set ?cmds. args \<noteq> []" using rewrite_commands_nonempty by fastforce
  from replay_frames [OF assms(1) this assms(6) [unfolded data]]
  have replay: "replay_aof nm es (Suc d) t (write_dataset disp clock s) = run_log es (Suc d) ?cmds t client_context_new 0"
    unfolding data .
  have "\<exists>t' c n. run_log es (Suc d) ?cmds t client_context_new 0 = Some (t', c, n) \<and>
      (\<forall>i\<in>set [0..<length (databases s)]. \<forall>k. restored_entry (live (clock i) s i k) (raw t' i k)) \<and>
      (\<forall>j k. j \<notin> set [0..<length (databases s)] \<longrightarrow> raw t' j k = raw t j k)"
    by (rule rebuild_dbs [OF assms(2-5)]) (use assms(7-9) in \<open>auto simp: valid_db_def client_context_new_def\<close>)
  then show ?thesis unfolding replay by auto
qed

text \<open>An environment in which a score is printed as the number of its bits.\<close>

definition env_bits :: env where
  "env_bits = env0\<lparr>f64_parse := parse_u64, f64_display := (\<lambda>x. nat_to_string (unat x))\<rparr>"

definition mixed_store :: store where
  "mixed_store = put_entry (put_entry (store_new 2) 0 ''z'' (new_entry (ZSetV [(''m'', 5)] [(5, [''m''])])))
     1 ''l'' \<lparr>ent_value = ListV [''a'', ''b''], ent_expire_at = Some 9, ent_version = 4\<rparr>"

theorem rewrite_restores_witness:
  "\<exists>t' c n. replay_aof nom_ref (\<lambda>_. env_bits) 1 (store_new 2) (write_dataset (f64_display env_bits) (\<lambda>_. 7) mixed_store) = Some (t', c, n) \<and>
     restored_entry (live 7 mixed_store 1 ''l'') (raw t' 1 ''l'') \<and> live 7 mixed_store 1 ''l'' \<noteq> None"
proof -
  have len: "length (databases mixed_store) = 2" by (simp add: mixed_store_def store_new_def)
  have wf: "store_wf mixed_store" unfolding mixed_store_def
    by (intro store_wf_put store_wf_new) (simp_all add: store_new_def valid_db_def new_entry_def hm_wf_def)
  have "\<not> f64_is_nan 5" by (simp add: f64_is_nan_def f64_mag_def)
  then have rw: "store_rewritable mixed_store"
    by (simp add: mixed_store_def store_rewritable_def store_new_def put_entry_def set_db_def hm_insert_def new_entry_def
        numeral_2_eq_2)
  have sc: "scores_reparse (\<lambda>_. env_bits) (f64_display env_bits)"
    by (simp add: scores_reparse_def env_bits_def utf8_lossy_ascii parse_u64_word)
  have num: "nat_to_string 0 = ''0''" "nat_to_string (Suc 0) = ''1''" "nat_to_string 5 = ''5''" "nat_to_string 9 = ''9''"
    by code_simp+
  have two: "[0..<2] = [0, Suc 0]" "replicate 2 x = [x, x]" for x :: database by (simp_all add: upt_rec numeral_2_eq_2)
  have "concat (map (commands_for_db (f64_display env_bits) (\<lambda>_. 7) mixed_store) [0..<length (databases mixed_store)]) =
      [[''SELECT'', ''0''], [''ZADD'', ''z'', ''5'', ''m''], [''SELECT'', ''1''], [''RPUSH'', ''l'', ''a'', ''b''],
       [''PEXPIREAT'', ''l'', ''9'']]"
    unfolding len two
    by (simp add: mixed_store_def commands_for_db_def iterate_db_def db_def store_new_def put_entry_def set_db_def hm_insert_def
        new_entry_def commands_for_entry_def expired_def env_bits_def num two)
  then have size: "length (write_dataset (f64_display env_bits) (\<lambda>_. 7) mixed_store) =
      length (concat (map encode_command_for_aof [[''SELECT'', ''0''], [''ZADD'', ''z'', ''5'', ''m''], [''SELECT'', ''1''],
        [''RPUSH'', ''l'', ''a'', ''b''], [''PEXPIREAT'', ''l'', ''9'']]))"
    by (simp add: write_dataset_def)
  have n: "length (concat (map encode_command_for_aof [[''SELECT'', ''0''], [''ZADD'', ''z'', ''5'', ''m''], [''SELECT'', ''1''],
        [''RPUSH'', ''l'', ''a'', ''b''], [''PEXPIREAT'', ''l'', ''9'']])) \<le> 1000"
    by code_simp
  have live: "live 7 mixed_store 1 ''l'' \<noteq> None" by code_simp
  have t: "\<not> over_memory_limit (store_new 2)" "length (databases (store_new 2)) = length (databases mixed_store)"
    "\<forall>i k. raw (store_new 2) i k = None" using len by (simp_all add: over_memory_limit_def store_new_def raw_def)
  have "length (databases mixed_store) \<le> u64_max" "int (length (write_dataset (f64_display env_bits) (\<lambda>_. 7) mixed_store)) \<le> i64_max"
    using n unfolding len size by (simp_all add: u64_max_def i64_max_def)
  from rewrite_restores [OF nom_laws_ref wf rw sc this t, of 0, unfolded len, folded One_nat_def] obtain t' c n where
    "replay_aof nom_ref (\<lambda>_. env_bits) 1 (store_new 2) (write_dataset (f64_display env_bits) (\<lambda>_. 7) mixed_store) = Some (t', c, n)"
    "\<forall>i<2. \<forall>k. restored_entry (live 7 mixed_store i k) (raw t' i k)" by blast
  moreover have "(1 :: nat) < 2" by simp
  ultimately show ?thesis using live by blast
qed

section \<open>The log has one connection\<close>

text \<open>A write on a plain connection, with what it logs.\<close>

lemma logged_write:
  assumes "is_write_command (upper (hd args))" "plain c" "srv_aof srv = Some log"
    and "handle_command rx_open cfg e d srv c args = Some (srv', c', a)"
  shows "srv_aof srv' = Some (log @ encode_command_for_aof args)"
    and "run_log (\<lambda>_. e) d [args] (srv_store srv) c n = Some (srv_store srv', c', n + 1)"
proof -
  obtain s r where d: "dispatch d (upper (hd args)) e (srv_store srv) c (tl args) = Some (s, c', r)"
    and l: "log_command rx_open (srv\<lparr>srv_store := s\<rparr>) (upper (hd args)) args = Some srv'"
    using handle_write [OF assms(1,2,4)] by auto
  from log_command_aof [OF assms(1) l] assms(3)
  show "srv_aof srv' = Some (log @ encode_command_for_aof args)"
    and "run_log (\<lambda>_. e) d [args] (srv_store srv) c n = Some (srv_store srv', c', n + 1)" using d by simp_all
qed

text \<open>
  C38: The log confuses the databases of its clients.  A SELECT of one client is logged like a write, and the replay runs the
  commands of all clients on one connection.  When one client selects database 1 and another, still in database 0, sets a
  key, the key is in database 0; the log, replayed on the store as it was before, puts it into database 1.
\<close>

theorem interleaved_select_misdirects:
  assumes "nom_laws nm" "requirepass cfg = None" "srv_aof srv = Some []"
    and "\<not> over_memory_limit (srv_store srv)" "2 \<le> length (databases (srv_store srv))"
    and "int (length (encode_command_for_aof [''SELECT'', ''1''] @ encode_command_for_aof [''SET'', k, v])) \<le> i64_max"
    and "handle_command rx_open cfg e (Suc d) srv (connect cfg) [''SELECT'', ''1''] = Some (srv1, c1, a1)"
    and "handle_command rx_open cfg e (Suc d) srv1 (connect cfg) [''SET'', k, v] = Some (srv2, c2, a2)"
  shows "\<exists>log s c n en en'. srv_aof srv2 = Some log \<and>
     raw (srv_store srv2) 0 k = Some en \<and> ent_value en = StringV v \<and> raw (srv_store srv2) 1 k = raw (srv_store srv) 1 k \<and>
     replay_aof nm (\<lambda>_. e) (Suc d) (srv_store srv) log = Some (s, c, n) \<and>
     raw s 1 k = Some en' \<and> ent_value en' = StringV v \<and> raw s 0 k = raw (srv_store srv) 0 k"
proof -
  let ?s = "srv_store srv" and ?sel = "[''SELECT'', ''1'']" and ?set = "[''SET'', k, v]"
  have c: "connect cfg = client_context_new" using assms(2) by (simp add: connect_def client_context_new_def)
  have plain: "plain (connect cfg)" by (simp add: c plain_def client_context_new_def)
  have w: "is_write_command (upper (hd ?sel))" "is_write_command (upper (hd ?set))"
    by (simp_all add: rewrite_names is_write_command_def)
  have one: "nat_to_string 1 = ''1''" by code_simp
  have sel: "run_log (\<lambda>_. e) (Suc d) [?sel] ?s x n = Some (?s, x\<lparr>db_index := 1\<rparr>, n + 1)" for x n
    using run_select [OF assms(4), of 1 "\<lambda>_. e" d x n] unfolding one by (simp add: u64_max_def del: run_log.simps)
  note l1 = logged_write [OF w(1) plain assms(3,7)]
  note l2 = logged_write [OF w(2) plain l1(1) assms(8)]
  have s1: "srv_store srv1 = ?s" using l1(2) [of 0] sel [of "connect cfg" 0] by (simp del: run_log.simps)
  have ready: "ready ?s (connect cfg)" "ready ?s (client_context_new\<lparr>db_index := 1\<rparr>)"
    using assms(4,5) by (auto simp: c ready_def valid_db_def client_context_new_def)
  obtain en where en: "rebuilds (\<lambda>_. e) (Suc d) [?set] ?s (connect cfg) k en" "ent_value en = StringV v"
    using rebuild_string [OF ready(1)] by blast
  have "db_index (connect cfg) = 0" by (simp add: c client_context_new_def)
  then have s2: "stored ?s 0 k en (srv_store srv2)"
    using en(1) l2(2) [of 0] unfolding rebuilds_def s1 by (metis Pair_inject option.inject)
  obtain en' where en': "rebuilds (\<lambda>_. e) (Suc d) [?set] ?s (client_context_new\<lparr>db_index := 1\<rparr>) k en'" "ent_value en' = StringV v"
    using rebuild_string [OF ready(2)] by blast
  obtain s' where s': "run_log (\<lambda>_. e) (Suc d) [?set] ?s (client_context_new\<lparr>db_index := 1\<rparr>) (0 + 1) =
      Some (s', client_context_new\<lparr>db_index := 1\<rparr>, 0 + 1 + length [?set])" "stored ?s 1 k en' s'"
    using en'(1) unfolding rebuilds_def by (auto simp del: run_log.simps)
  have run: "run_log (\<lambda>_. e) (Suc d) ([?sel] @ [?set]) ?s client_context_new 0 =
      Some (s', client_context_new\<lparr>db_index := 1\<rparr>, 0 + 1 + length [?set])"
    unfolding run_log_append sel using s'(1) by (simp del: run_log.simps)
  have "replay_aof nm (\<lambda>_. e) (Suc d) ?s (encode_command_for_aof ?sel @ encode_command_for_aof ?set) =
      Some (s', client_context_new\<lparr>db_index := 1\<rparr>, 0 + 1 + length [?set])"
    using replay_frames [OF assms(1), of "[?sel] @ [?set]" "\<lambda>_. e" "Suc d" ?s] assms(6) unfolding run by (simp add: frames_def)
  moreover have "raw (srv_store srv2) 1 k = raw ?s 1 k" "raw s' 0 k = raw ?s 0 k"
    using s2 s'(2) by (simp_all add: stored_def)
  ultimately show ?thesis
    using l2(1) en(2) en'(2) storedD(1) [OF s2] storedD(1) [OF s'(2)] by auto
qed

definition two_dbs :: server where
  "two_dbs = \<lparr>srv_store = store_new 2, srv_aof = Some [], srv_backlog = None\<rparr>"

theorem interleaved_select_misdirects_witness:
  "\<exists>srv1 c1 a1 srv2 c2 a2 log s c n en.
     handle_command (\<lambda>_. True) (default_config None) env0 1 two_dbs (connect (default_config None)) [''SELECT'', ''1''] = Some (srv1, c1, a1) \<and>
     handle_command (\<lambda>_. True) (default_config None) env0 1 srv1 (connect (default_config None)) [''SET'', ''k'', ''v''] = Some (srv2, c2, a2) \<and>
     raw (srv_store srv2) 1 ''k'' = None \<and> srv_aof srv2 = Some log \<and>
     replay_aof nom_ref (\<lambda>_. env0) 1 (store_new 2) log = Some (s, c, n) \<and> raw s 1 ''k'' = Some en \<and> raw s 0 ''k'' = None"
proof -
  let ?cfg = "default_config None" and ?sel = "[''SELECT'', ''1'']" and ?set = "[''SET'', ''k'', ''v'']"
  have u: "upper ''SET'' = ''SET''" "upper ''SELECT'' = ''SELECT''" by code_simp+
  have one: "nat_to_string 1 = ''1''" by code_simp
  have mem: "\<not> over_memory_limit (store_new 2)" by (simp add: over_memory_limit_def store_new_def)
  have dbs: "2 \<le> length (databases (store_new 2))" by (simp add: store_new_def)
  have "run_log (\<lambda>_. env0) (Suc 0) [?sel] (store_new 2) (connect ?cfg) 0 \<noteq> None"
    using run_select [OF mem, of 1 "\<lambda>_. env0" 0 "connect ?cfg" 0] unfolding one by (simp add: u64_max_def del: run_log.simps)
  then obtain x where "dispatch 1 ''SELECT'' env0 (store_new 2) (connect ?cfg) [''1''] = Some x"
    by (auto simp: u simp del: dispatch.simps split: option.splits)
  then have "\<exists>srv1 c1 a1. handle_command (\<lambda>_. True) ?cfg env0 1 two_dbs (connect ?cfg) ?sel = Some (srv1, c1, a1) \<and> srv_backlog srv1 = None"
    by (cases x) (simp add: two_dbs_def handle_command_def u is_auth_exempt_def connect_def default_config_def client_context_new_def execute_def
        log_command_def Let_def del: dispatch.simps split: option.split)
  then obtain srv1 c1 a1 where r1: "handle_command (\<lambda>_. True) ?cfg env0 1 two_dbs (connect ?cfg) ?sel = Some (srv1, c1, a1)"
    "srv_backlog srv1 = None" by blast
  have "\<exists>srv2 c2 a2. handle_command (\<lambda>_. True) ?cfg env0 1 srv1 (connect ?cfg) ?set = Some (srv2, c2, a2)"
    using r1(2) by (simp add: handle_command_def u is_auth_exempt_def connect_def default_config_def client_context_new_def
        execute_def dispatch_with_def table_defs cmd_set_def args_from_def no_set_options_def store_set_def db_def
        reply_def fail_def log_command_def is_write_command_def Let_def is_deny_oom_command_def split: option.splits)
  then obtain srv2 c2 a2 where r2: "handle_command (\<lambda>_. True) ?cfg env0 1 srv1 (connect ?cfg) ?set = Some (srv2, c2, a2)" by blast
  have len: "length (encode_command_for_aof ?sel @ encode_command_for_aof ?set) \<le> 100" by code_simp
  have "\<exists>log s c n en en'. srv_aof srv2 = Some log \<and>
     raw (srv_store srv2) 0 ''k'' = Some en \<and> ent_value en = StringV ''v'' \<and> raw (srv_store srv2) 1 ''k'' = raw (srv_store two_dbs) 1 ''k'' \<and>
     replay_aof nom_ref (\<lambda>_. env0) (Suc 0) (srv_store two_dbs) log = Some (s, c, n) \<and>
     raw s 1 ''k'' = Some en' \<and> ent_value en' = StringV ''v'' \<and> raw s 0 ''k'' = raw (srv_store two_dbs) 0 ''k''"
    by (rule interleaved_select_misdirects [OF nom_laws_ref, where cfg = ?cfg and ?srv1.0 = srv1])
       (use r1(1) r2 mem dbs len in \<open>simp_all add: two_dbs_def default_config_def i64_max_def\<close>)
  moreover have "raw (srv_store two_dbs) i ''k'' = None" for i by (simp add: two_dbs_def store_new_def raw_def)
  ultimately show ?thesis using r1(1) r2 by (auto simp: two_dbs_def simp del: dispatch.simps)
qed

end
