(* ===== verification/Link.thy ===== *)
theory Link
  imports Rewrite
begin

text \<open>
  The two ends of a replication link: the identifier of a stream (\<open>ReplicationState\<close> of \<open>replication/backlog.rs\<close>), the master's loop that
  forwards live writes (\<open>handle_psync\<close>), and \<open>connect_to_master\<close> and \<open>stream_commands\<close> of \<open>replication/replica.rs\<close> as they read from the socket.

  A socket is the list of what successive reads return: a chunk, of whatever length, or an error; an empty
  chunk and the end of the list are a closed connection.  A read that would block only runs the loop again on
  a buffer it has finished with, and has no element.  \<open>None\<close> is a panic of a command or of the load of a snapshot.
\<close>

section \<open>The identifier of a stream\<close>

datatype repl_role = MasterRole | ReplicaRole

record replication_state =
  rs_replid :: bytes
  rs_replid2 :: "bytes option"
  rs_role :: repl_role
  connected_replicas :: nat

definition hex_digits :: bytes where "hex_digits = ''0123456789abcdef''"

text \<open>Forty digits; the random numbers below 16 are the parameter.\<close>

definition generate_replid :: "(nat \<Rightarrow> nat) \<Rightarrow> bytes" where
  "generate_replid rng = map (\<lambda>i. hex_digits ! rng i) [0..<40]"

definition replication_state_new :: "(nat \<Rightarrow> nat) \<Rightarrow> replication_state" where
  "replication_state_new rng =
     \<lparr>rs_replid = generate_replid rng, rs_replid2 = None, rs_role = MasterRole, connected_replicas = 0\<rparr>"

definition promote_to_master :: "(nat \<Rightarrow> nat) \<Rightarrow> replication_state \<Rightarrow> replication_state" where
  "promote_to_master rng st =
     st\<lparr>rs_replid2 := Some (rs_replid st), rs_replid := generate_replid rng, rs_role := MasterRole\<rparr>"

section \<open>The master\<close>

text \<open>
  What \<open>select!\<close> finds: a write pushed to the replica's channel, with whether it could be sent; a closed channel; bytes
  from the replica, which are ignored; a replica that is gone.
\<close>

datatype live_event = Pushed bytes bool | ChannelClosed | AckRead | ReplicaGone

fun live_loop :: "live_event list \<Rightarrow> bytes" where
  "live_loop [] = []"
| "live_loop (Pushed bs ok # evs) = (if ok then bs @ live_loop evs else [])"
| "live_loop (ChannelClosed # evs) = []"
| "live_loop (AckRead # evs) = live_loop evs"
| "live_loop (ReplicaGone # evs) = []"

text \<open>
  After the loop the channel is taken out of the backlog.  When the answer itself cannot be written or the snapshot fails,
  the function returns at once, and the channel stays until the next write finds it closed.
\<close>

definition psync_end :: "bool \<Rightarrow> psync_session \<Rightarrow> repl_backlog \<Rightarrow> repl_backlog" where
  "psync_end answered ses bl = (if answered then unregister_replica bl (replica_id ses) else bl)"

section \<open>The replica\<close>

datatype sock_read = Chunk bytes | SockError

datatype link_error = ClosedInHandshake | ClosedInTransfer | BadResponse bytes | ReadFailed

fun fetch_line :: "bytes \<Rightarrow> sock_read list \<Rightarrow> link_error + (bytes \<times> bytes \<times> sock_read list)" where
  "fetch_line carry rs =
     (case read_line carry of
        Some (line, rest) \<Rightarrow> Inr (line, rest, rs)
      | None \<Rightarrow>
          (case rs of
             [] \<Rightarrow> Inl ClosedInHandshake
           | Chunk bs # rs' \<Rightarrow> if bs = [] then Inl ClosedInHandshake else fetch_line (carry @ bs) rs'
           | SockError # _ \<Rightarrow> Inl ReadFailed))"

fun fetch_rdb :: "nat \<Rightarrow> bytes \<Rightarrow> sock_read list \<Rightarrow> link_error + (bytes \<times> sock_read list)" where
  "fetch_rdb rdb_len rdb_data rs =
     (if rdb_len \<le> length rdb_data then Inr (rdb_data, rs)
      else case rs of
        [] \<Rightarrow> Inl ClosedInTransfer
      | Chunk bs # rs' \<Rightarrow> if bs = [] then Inl ClosedInTransfer else fetch_rdb rdb_len (rdb_data @ bs) rs'
      | SockError # _ \<Rightarrow> Inl ReadFailed)"

text \<open>\<open>connect_to_master\<close> up to the end of the handshake.\<close>

definition receive_sync :: "bytes \<Rightarrow> sock_read list \<Rightarrow> link_error + (handshake_result \<times> sock_read list)" where
  "receive_sync carry rs =
     bind_res (fetch_line carry rs) (\<lambda>(response, carry, rs).
       if take (length FULLRESYNC) response = FULLRESYNC then
         (let parts = split_spaces [] (trim (drop (length FULLRESYNC) response));
              new_replid = hd parts;
              new_offset = (if 1 < length parts then unwrap_or (parse_i64 (parts ! 1)) 0 else 0)
          in bind_res (fetch_line carry rs) (\<lambda>(len_line, rdb_data, rs).
               bind_res (fetch_rdb (rdb_length len_line) rdb_data rs) (\<lambda>(rdb_data, rs).
                 Inr (FullSync new_replid new_offset (take (rdb_length len_line) rdb_data) (drop (rdb_length len_line) rdb_data), rs))))
       else if take (length CONTINUE) response = CONTINUE then Inr (Continue carry, rs)
       else Inl (BadResponse response))"

datatype link_end = LinkClosed | LinkFailed link_error

text \<open>The outer loop of \<open>stream_commands\<close>: the buffer is worked off, then more is read.\<close>

fun apply_stream ::
  "nom \<Rightarrow> (nat \<Rightarrow> env) \<Rightarrow> nat \<Rightarrow> nat \<Rightarrow> bytes \<Rightarrow> sock_read list \<Rightarrow> store \<Rightarrow> client_context \<Rightarrow> replica_sync_state \<Rightarrow>
   (store \<times> replica_sync_state \<times> link_end) option" where
  "apply_stream nm es d n buf [] s c st =
     map_option (\<lambda>(_, s, _, offset, _). (s, st\<lparr>sync_offset := offset\<rparr>, LinkClosed))
       (stream_loop nm es d n buf s c (sync_offset st))"
| "apply_stream nm es d n buf (r # rs) s c st =
     Option.bind (stream_loop nm es d n buf s c (sync_offset st)) (\<lambda>(buf, s, c, offset, n).
       case r of
         Chunk bs \<Rightarrow>
           (if bs = [] then Some (s, st\<lparr>sync_offset := offset\<rparr>, LinkClosed)
            else apply_stream nm es d n (buf @ bs) rs s c (st\<lparr>sync_offset := offset\<rparr>))
       | SockError \<Rightarrow> Some (s, st\<lparr>sync_offset := offset\<rparr>, LinkFailed ReadFailed))"

definition connect_to_master ::
  "nom \<Rightarrow> (nat \<Rightarrow> env) \<Rightarrow> nat \<Rightarrow> store \<Rightarrow> replica_sync_state \<Rightarrow> sock_read list \<Rightarrow>
   (store \<times> replica_sync_state \<times> link_end) option" where
  "connect_to_master nm es d s st rs =
     (case receive_sync [] rs of
        Inl err \<Rightarrow> Some (s, st, LinkFailed err)
      | Inr (h, rs') \<Rightarrow>
          Option.bind (start_sync s st h) (\<lambda>(s', st', buf). apply_stream nm es d 0 buf rs' s' client_context_new st'))"

text \<open>The task of \<open>server.rs\<close> that keeps the link up: one socket for each attempt, \<open>None\<close> when the master cannot be reached.\<close>

fun replica_task ::
  "nom \<Rightarrow> (nat \<Rightarrow> nat \<Rightarrow> env) \<Rightarrow> nat \<Rightarrow> sock_read list option list \<Rightarrow> store \<Rightarrow> replica_sync_state \<Rightarrow>
   (store \<times> replica_sync_state) option" where
  "replica_task nm es d [] s st = Some (s, st)"
| "replica_task nm es d (None # links) s st = replica_task nm es d links s st"
| "replica_task nm es d (Some rs # links) s st =
     Option.bind (connect_to_master nm (es (length links)) d s st rs) (\<lambda>(s', st', _). replica_task nm es d links s' st')"

section \<open>The handshake does not depend on how it is read\<close>

lemma read_line_more:
  assumes "read_line carry = Some (line, rest)"
  shows "read_line (carry @ b) = Some (line, rest @ b)"
proof -
  obtain pos where p: "position (\<lambda>b. b = CHR 0x0A) carry = Some pos" using assms by (auto simp: read_line_def split: option.splits)
  note pos = position_Some_split [OF p]
  have "carry @ b = take pos carry @ carry ! pos # (drop (Suc pos) carry @ b)"
    using pos id_take_nth_drop [of pos carry] by (metis append.assoc append_Cons)
  then have "position (\<lambda>b. b = CHR 0x0A) (carry @ b) = Some (length (take pos carry))"
    using position_append [of "take pos carry" "\<lambda>b. b = CHR 0x0A"] pos by metis
  then show ?thesis using p pos assms by (auto simp: read_line_def)
qed

lemma receive_more:
  assumes "handshake carry = NeedMore" "b \<noteq> []"
  shows "receive_sync carry (Chunk b # rs) = receive_sync (carry @ b) rs"
proof (cases "read_line carry")
  case None
  then show ?thesis using assms(2) by (simp add: receive_sync_def)
next
  case (Some x)
  obtain response c where x: "x = (response, c)" by fastforce
  have full: "take (length FULLRESYNC) response = FULLRESYNC"
    using assms(1) Some by (auto simp: handshake_def x split: if_splits)
  have more: "read_line (carry @ b) = Some (response, c @ b)" using read_line_more Some x by blast
  show ?thesis
  proof (cases "read_line c")
    case None
    then show ?thesis using assms(2) full Some more by (simp add: receive_sync_def x Let_def)
  next
    case (Some y)
    obtain len_line data where y: "y = (len_line, data)" by fastforce
    have "length data < rdb_length len_line"
      using assms(1) \<open>read_line carry = Some x\<close> Some full by (auto simp: handshake_def x y Let_def split: if_splits)
    then show ?thesis
      using assms(2) full \<open>read_line carry = Some x\<close> Some read_line_more [of c len_line data b] more
      by (simp add: receive_sync_def x y Let_def)
  qed
qed

lemma receive_done:
  "handshake carry \<noteq> NeedMore \<Longrightarrow> receive_sync carry rs =
     (case handshake carry of UnexpectedResponse r \<Rightarrow> Inl (BadResponse r) | h \<Rightarrow> Inr (h, rs))"
  by (auto simp: handshake_def receive_sync_def Let_def split: option.splits prod.splits if_splits)

lemma receive_chunks:
  assumes "list_all (\<lambda>b. b \<noteq> []) cs" "\<forall>k<length cs. handshake (carry @ concat (take k cs)) = NeedMore"
    and "handshake (carry @ concat cs) = h" "h \<noteq> NeedMore" "\<forall>r. h \<noteq> UnexpectedResponse r"
  shows "receive_sync carry (map Chunk cs @ rs) = Inr (h, rs)"
  using assms(1-3)
proof (induction cs arbitrary: carry)
  case Nil
  then show ?case using receive_done [of carry rs] assms(4,5) by (auto split: handshake_result.splits)
next
  case (Cons b cs)
  have "handshake (carry @ concat (take 0 (b # cs))) = NeedMore" using Cons.prems(2) by blast
  then have now: "handshake carry = NeedMore" by simp
  have "handshake ((carry @ b) @ concat (take k cs)) = NeedMore" if "k < length cs" for k
    using Cons.prems(2) [rule_format, of "Suc k"] that by simp
  then have "receive_sync (carry @ b) (map Chunk cs @ rs) = Inr (h, rs)"
    using Cons.IH [of "carry @ b"] Cons.prems(1,3) by simp
  then show ?case using receive_more [OF now, of b] Cons.prems(1) by simp
qed

section \<open>The stream, read at the boundaries of commands\<close>

lemma stream_groups:
  assumes "nom_laws nm" "list_all frame_fits (g @ concat gs)" "list_all (\<lambda>g. g \<noteq> []) gs"
    and "run_log es d (g @ concat gs) s c n = Some (s', c', n')"
    and "0 \<le> sync_offset st" "sync_offset st + int (length (frames (g @ concat gs))) \<le> i64_max"
  shows "apply_stream nm es d n (frames g) (map (\<lambda>g. Chunk (frames g)) gs) s c st =
     Some (s', st\<lparr>sync_offset := sync_offset st + int (length (frames (g @ concat gs)))\<rparr>, LinkClosed)"
  using assms(2-)
proof (induction gs arbitrary: g s c n st)
  case Nil
  have "length (frames g) \<le> u64_max" using Nil.prems(4,5) by (simp add: i64_max_def u64_max_def)
  from stream_frames [OF assms(1) _ this [unfolded frames_def] _ Nil.prems(4)] Nil.prems
  show ?case by (simp add: frames_def)
next
  case (Cons h gs)
  obtain s1 c1 n1 where g: "run_log es d g s c n = Some (s1, c1, n1)"
    and rest: "run_log es d (h @ concat gs) s1 c1 n1 = Some (s', c', n')"
    using Cons.prems(3) by (auto simp: run_log_append split: option.splits)
  let ?off = "sync_offset st + int (length (frames g))"
  have le: "?off + int (length (frames (h @ concat gs))) \<le> i64_max" using Cons.prems(5) by (simp add: frames_append)
  then have g': "length (frames g) \<le> u64_max" "?off \<le> i64_max" "0 \<le> ?off"
    using Cons.prems(4) by (simp_all add: i64_max_def u64_max_def)
  have "stream_loop nm es d n (frames g) s c (sync_offset st) = Some ([], s1, c1, ?off, n1)"
    using stream_frames [OF assms(1) _ g'(1) [unfolded frames_def] g Cons.prems(4)] Cons.prems(1) g'(2) by (simp add: frames_def)
  moreover have "apply_stream nm es d n1 (frames h) (map (\<lambda>g. Chunk (frames g)) gs) s1 c1 (st\<lparr>sync_offset := ?off\<rparr>) =
      Some (s', st\<lparr>sync_offset := ?off + int (length (frames (h @ concat gs)))\<rparr>, LinkClosed)"
    using Cons.IH [OF _ _ rest, of "st\<lparr>sync_offset := ?off\<rparr>"] Cons.prems(1,2) g'(3) le by simp
  moreover have "frames h \<noteq> []" using Cons.prems(2) by (simp add: frames_Nil_iff)
  ultimately show ?case by (simp add: frames_append add.assoc)
qed

section \<open>How reads cut the handshake\<close>

fun extend_result :: "bytes \<Rightarrow> handshake_result \<Rightarrow> handshake_result" where
  "extend_result b (FullSync replid off rdb trailing) = FullSync replid off rdb (trailing @ b)"
| "extend_result b (Continue carry) = Continue (carry @ b)"
| "extend_result b h = h"

lemma handshake_more:
  assumes "handshake carry \<noteq> NeedMore"
  shows "handshake (carry @ b) = extend_result b (handshake carry)"
  using assms
  by (auto simp: handshake_def Let_def read_line_more split: option.splits prod.splits if_splits)

lemma read_line_None: "CHR 0x0A \<notin> set carry \<Longrightarrow> read_line carry = None"
  by (auto simp: read_line_def position_None split: option.split dest!: position_Some_split)

lemma receive_pieces:
  assumes "list_all (\<lambda>b. b \<noteq> []) cs" "handshake (concat cs) = h" "h \<noteq> NeedMore" "\<forall>r. h \<noteq> UnexpectedResponse r"
  shows "\<exists>k h'. receive_sync [] (map Chunk cs @ rs) = Inr (h', map Chunk (drop k cs) @ rs) \<and>
     h = extend_result (concat (drop k cs)) h'"
proof -
  define k where "k = (LEAST k. handshake (concat (take k cs)) \<noteq> NeedMore)"
  have ex: "handshake (concat (take (length cs) cs)) \<noteq> NeedMore" using assms(2,3) by simp
  have k: "handshake (concat (take k cs)) \<noteq> NeedMore" unfolding k_def
    by (rule LeastI [where P = "\<lambda>k. handshake (concat (take k cs)) \<noteq> NeedMore", OF ex])
  have less: "handshake (concat (take j cs)) = NeedMore" if "j < k" for j
    using not_less_Least [of j "\<lambda>k. handshake (concat (take k cs)) \<noteq> NeedMore"] that unfolding k_def by blast
  have kl: "k \<le> length cs" unfolding k_def
    by (rule Least_le [where P = "\<lambda>k. handshake (concat (take k cs)) \<noteq> NeedMore", OF ex])
  let ?h = "handshake (concat (take k cs))"
  have split: "concat (take k cs) @ concat (drop k cs) = concat cs" by (metis append_take_drop_id concat_append)
  have h: "h = extend_result (concat (drop k cs)) ?h" using handshake_more [OF k, of "concat (drop k cs)"] assms(2) split by simp
  have "list_all (\<lambda>b. b \<noteq> []) (take k cs)" using assms(1) by (auto simp: list_all_iff dest: in_set_takeD)
  then have "receive_sync [] (map Chunk (take k cs) @ map Chunk (drop k cs) @ rs) = Inr (?h, map Chunk (drop k cs) @ rs)"
    by (rule receive_chunks) (use less k kl h assms(4) in \<open>auto simp: min_def\<close>)
  then have "receive_sync [] (map Chunk cs @ rs) = Inr (?h, map Chunk (drop k cs) @ rs)"
    by (metis append.assoc append_take_drop_id map_append)
  then show ?thesis using h by blast
qed

lemma generated_replid_ok:
  assumes "\<forall>i. rng i < 16"
  shows "replid_ok (generate_replid rng)"
proof -
  have "list_all (\<lambda>c. byte_in 0 127 c \<and> \<not> is_space c) hex_digits" by code_simp
  moreover have "length hex_digits = 16" by code_simp
  then have "hex_digits ! rng i \<in> set hex_digits" for i using assms by (intro nth_mem) simp
  ultimately show ?thesis by (auto simp: replid_ok_def ascii_def generate_replid_def list_all_iff)
qed

section \<open>Properties\<close>

text \<open>
  C14: The replica understands the master, however its answer is cut into reads.  Whatever non-empty pieces the answer to PSYNC
  arrives in, the replica reads as much as it needs and takes from it what the master meant: for a full
  resynchronisation the identifier, the offset and exactly the bytes of the snapshot, for a partial one that it may go
  on; the bytes of the stream that it has not yet read are the rest of the pieces.
\<close>

theorem sync_read_in_pieces:
  assumes "\<forall>i. rng i < 16" "length rdb \<le> u64_max" "int (unat (current_offset ses)) \<le> i64_max"
    and "list_all (\<lambda>b. b \<noteq> []) cs" "concat cs = psync_preamble (generate_replid rng) ses rdb bl"
  shows "\<exists>k h. receive_sync [] (map Chunk cs @ rs) = Inr (h, map Chunk (drop k cs) @ rs) \<and>
     (if is_partial ses then \<exists>buf. h = Continue buf \<and> buf @ concat (drop k cs) = catch_up ses
      else \<exists>buf. h = FullSync (generate_replid rng) (int (unat (current_offset ses))) rdb buf \<and>
                 buf @ concat (drop k cs) = read_from bl (current_offset ses))"
proof -
  have ok: "replid_ok (generate_replid rng)" by (rule generated_replid_ok [OF assms(1)])
  let ?m = "if is_partial ses then Continue (catch_up ses)
      else FullSync (generate_replid rng) (int (unat (current_offset ses))) rdb (read_from bl (current_offset ses))"
  have h: "handshake (concat cs) = ?m" "?m \<noteq> NeedMore" "\<forall>r. ?m \<noteq> UnexpectedResponse r"
    unfolding assms(5) using handshake_continue handshake_fullsync [OF ok assms(2,3)] by simp_all
  obtain k h' where "receive_sync [] (map Chunk cs @ rs) = Inr (h', map Chunk (drop k cs) @ rs)"
    "?m = extend_result (concat (drop k cs)) h'"
    using receive_pieces [OF assms(4) h] by blast
  then show ?thesis by (cases h') (auto split: if_splits)
qed

theorem sync_read_in_pieces_witness:
  "\<exists>k h. receive_sync [] (map Chunk [''+CONT'', ''INUE'' @ eol @ ''ab'', ''c''] @ []) = Inr (h, map Chunk (drop k [''+CONT'', ''INUE'' @ eol @ ''ab'', ''c'']) @ []) \<and>
     (\<exists>buf. h = Continue buf \<and> buf @ concat (drop k [''+CONT'', ''INUE'' @ eol @ ''ab'', ''c'']) = ''abc'')"
  using sync_read_in_pieces [of "\<lambda>_. 7" "[]" "\<lparr>is_partial = True, catch_up = ''abc'', current_offset = 3, replica_id = 0\<rparr>"
      "[''+CONT'', ''INUE'' @ eol @ ''ab'', ''c'']" "repl_backlog_new 8" "[]"]
  by (simp add: u64_max_def i64_max_def psync_preamble_def eol_def)

lemma live_loop_pushed:
  "filter (\<lambda>ev. ev \<noteq> AckRead) evs = map (\<lambda>m. Pushed m True) msgs \<Longrightarrow> live_loop evs = concat msgs"
proof (induction evs arbitrary: msgs)
  case (Cons ev evs)
  show ?case
  proof (cases "ev = AckRead")
    case True
    then show ?thesis using Cons by simp
  next
    case False
    then show ?thesis using Cons by (cases msgs) auto
  qed
qed simp

lemma length_nat_to_string: "5 * length (nat_to_string n) \<le> n + 5"
proof (induction n rule: nat_to_string.induct)
  case (1 n)
  then show ?case by (subst nat_to_string.simps) auto
qed

text \<open>The request of the replica, as the master parses it.\<close>

lemma psync_parsed:
  assumes "nom_laws nm" "int n \<le> i64_max" "\<forall>i. rng i < 16"
  shows "parse_command nm (encode_psync (generate_replid rng) (int n)) = IOk [] [''PSYNC'', generate_replid rng, nat_to_string n]"
proof -
  let ?args = "[''PSYNC'', generate_replid rng, nat_to_string n]"
  have id40: "length (generate_replid rng) = 40" by (simp add: generate_replid_def)
  have num: "nat_to_string 40 = ''40''" by code_simp
  have small: "length (nat_to_string (Suc (Suc (Suc 0)))) = 1" "length (nat_to_string (Suc (Suc (Suc (Suc (Suc 0)))))) = 1"
    by (subst nat_to_string.simps, simp)+
  have "length (encode_command_for_aof ?args) \<le> 80 + 2 * length (nat_to_string n)"
    using length_nat_to_string [of "length (nat_to_string n)"]
    by (simp add: encode_command_for_aof_def encode_arg_def crlf_def id40 num small)
  then have "int (length (encode_command_for_aof ?args)) \<le> i64_max"
    using length_nat_to_string [of n] assms(2) by (simp add: i64_max_def)
  then have "frame_fits ?args" "length (encode_command_for_aof ?args) \<le> u64_max"
    using frame_fits_small [of ?args] by (simp_all add: i64_max_def u64_max_def)
  from parse_encoded [OF assms(1) this(1), of "[]"] this(2) show ?thesis by (simp add: encode_psync_def int_to_string_nat)
qed

text \<open>
  C12: A replica that reconnects catches up.  It has applied the commands \<open>old\<close> of the stream and asks to go on from there; the
  backlog still has what it missed.  The master parses its request, sends the missed commands and
  then, as they are written, the later ones.  When no read ends in the middle of a command, the replica ends with the
  store that the missed and the later commands give, in order and each once, and with the offset of the end of the stream.
\<close>

theorem replica_catches_up:
  assumes "nom_laws nm" "\<forall>i. rng i < 16" "replid = generate_replid rng"
    and "ring_holds cap bl (frames (old @ missed))" "length (frames missed) \<le> cap"
    and "tx \<notin> snd ` set (replicas bl)" "rx_open tx"
    and "psync_begin bl replid [replid, nat_to_string (length (frames old))] tx = (bl1, ses)"
    and "push_all rx_open tx bl1 (map encode_command_for_aof later) = Some (bl2, msgs)"
    and "filter (\<lambda>ev. ev \<noteq> AckRead) evs = map (\<lambda>m. Pushed m True) msgs"
    and "list_all (\<lambda>b. b \<noteq> []) cs" "CHR 0x0A \<notin> set (concat (butlast cs))" "concat cs = CONTINUE @ eol @ frames g"
    and "list_all (\<lambda>g. g \<noteq> []) gs" "g @ concat gs = missed @ later"
    and "list_all frame_fits (missed @ later)" "int (length (frames (old @ missed @ later))) \<le> i64_max"
    and "run_log es d (missed @ later) s client_context_new 0 = Some (s', c', n')"
  shows "parse_command nm (encode_psync replid (int (length (frames old)))) =
       IOk [] [''PSYNC'', replid, nat_to_string (length (frames old))] \<and>
     psync_preamble replid ses rdb bl1 @ live_loop evs = concat cs @ concat (map frames gs) \<and>
     connect_to_master nm es d s \<lparr>sync_replid = replid, sync_offset = int (length (frames old))\<rparr>
         (map Chunk cs @ map (\<lambda>g. Chunk (frames g)) gs) =
       Some (s', \<lparr>sync_replid = replid, sync_offset = int (length (frames (old @ missed @ later)))\<rparr>, LinkClosed)"
proof (intro conjI)
  let ?n = "length (frames old)" and ?st = "\<lparr>sync_replid = replid, sync_offset = int (length (frames old))\<rparr>"
  have n: "int ?n \<le> i64_max" using assms(17) by (simp add: frames_append)
  then show "parse_command nm (encode_psync replid (int ?n)) = IOk [] [''PSYNC'', replid, nat_to_string ?n]"
    using psync_parsed [OF assms(1) _ assms(2)] assms(3) by simp
  have "utf8_lossy replid = replid" using generated_replid_ok [OF assms(2)] by (simp add: assms(3) replid_ok_def utf8_lossy_ascii)
  from partial_resync_exact [OF assms(4) _ _ n this assms(6-9), of rdb] assms(5)
  have sent: "psync_preamble replid ses rdb bl1 = CONTINUE @ eol @ frames missed" "msgs = map encode_command_for_aof later"
    by (auto simp: frames_append CONTINUE_def psync_preamble_def)
  have "frames g @ concat (map frames gs) = frames missed @ frames later"
    using arg_cong [OF assms(15), of frames] by (simp add: frames_append frames_concat)
  then show "psync_preamble replid ses rdb bl1 @ live_loop evs = concat cs @ concat (map frames gs)"
    using sent live_loop_pushed [OF assms(10)] assms(13) by (simp add: frames_def)
  have ne: "cs \<noteq> []" using assms(13) by (auto simp: CONTINUE_def)
  have "handshake (concat (take k cs)) = NeedMore" if "k < length cs" for k
  proof -
    have "take k cs = take k (butlast cs)" using that by (simp add: take_butlast)
    then have "CHR 0x0A \<notin> set (concat (take k cs))" using assms(12) by (auto dest: in_set_takeD)
    then show ?thesis by (simp add: handshake_def read_line_None)
  qed
  moreover have "handshake (concat cs) = Continue (frames g)"
    using handshake_continue [of "\<lparr>is_partial = True, catch_up = frames g, current_offset = 0, replica_id = 0\<rparr>"] assms(13)
    by (simp add: psync_preamble_def CONTINUE_def)
  ultimately have "receive_sync [] (map Chunk cs @ map (\<lambda>g. Chunk (frames g)) gs) = Inr (Continue (frames g), map (\<lambda>g. Chunk (frames g)) gs)"
    using receive_chunks [OF assms(11), of "[]"] by simp
  moreover have "apply_stream nm es d 0 (frames g) (map (\<lambda>g. Chunk (frames g)) gs) s client_context_new ?st =
      Some (s', ?st\<lparr>sync_offset := sync_offset ?st + int (length (frames (g @ concat gs)))\<rparr>, LinkClosed)"
    by (rule stream_groups [OF assms(1) _ assms(14)])
       (use assms(15-18) in \<open>simp_all add: frames_append\<close>)
  ultimately show "connect_to_master nm es d s ?st (map Chunk cs @ map (\<lambda>g. Chunk (frames g)) gs) =
       Some (s', \<lparr>sync_replid = replid, sync_offset = int (length (frames (old @ missed @ later)))\<rparr>, LinkClosed)"
    by (simp add: connect_to_master_def start_sync_def assms(15) frames_append)
qed

theorem replica_catches_up_witness:
  "\<exists>s' c' n'. run_log (\<lambda>_. env0) 1 [[''SELECT'', ''0''], [''SELECT'', ''0'']] (store_new 1) client_context_new 0 = Some (s', c', n') \<and>
     connect_to_master nom_ref (\<lambda>_. env0) 1 (store_new 1) \<lparr>sync_replid = generate_replid (\<lambda>_. 7), sync_offset = 0\<rparr>
         (map Chunk [''+CONT'', ''INUE'' @ eol @ frames [[''SELECT'', ''0'']]] @ map (\<lambda>g. Chunk (frames g)) [[[''SELECT'', ''0'']]]) =
       Some (s', \<lparr>sync_replid = generate_replid (\<lambda>_. 7), sync_offset = 46\<rparr>, LinkClosed)"
proof -
  let ?sel = "[[''SELECT'', ''0'']]" and ?id = "generate_replid (\<lambda>_. 7)"
  have len: "length (frames ?sel) = 23" "length (frames (?sel @ ?sel)) = 46" by code_simp+
  have u: "upper ''SELECT'' = ''SELECT''" by code_simp
  have "\<exists>s' c' n'. run_log (\<lambda>_. env0) 1 (?sel @ ?sel) (store_new 1) client_context_new 0 = Some (s', c', n')"
    by (simp add: u dispatch_with_def table_defs is_deny_oom_command_def cmd_select_def reply_def)
  then obtain s' c' n' where run: "run_log (\<lambda>_. env0) 1 (?sel @ ?sel) (store_new 1) client_context_new 0 = Some (s', c', n')" by blast
  obtain bl where bl: "ring_holds 64 bl (frames ([] @ ?sel))" "replicas bl = []"
    using push_holds [OF ring_holds_new, of 64 "frames ?sel" "\<lambda>_. True"] len by (auto simp: repl_backlog_new_def)
  obtain bl1 ses where b: "psync_begin bl ?id [?id, nat_to_string (length (frames []))] 7 = (bl1, ses)" by fastforce
  have "ring_holds 64 bl1 (frames ?sel)"
    using b bl(1) register_holds [of 64 bl 7] by (auto simp: psync_begin_def Let_def split: prod.splits)
  then obtain bl2 msgs where p: "push_all (\<lambda>_. True) 7 bl1 (map encode_command_for_aof ?sel) = Some (bl2, msgs)"
    using push_all_holds [of 64 bl1 "frames ?sel" "map encode_command_for_aof ?sel" "\<lambda>_. True" 7] len by (auto simp: frames_def)
  have fits: "list_all frame_fits (?sel @ ?sel)" "int (length (frames ([] @ ?sel @ ?sel))) \<le> i64_max"
    using len(2) by (simp_all add: frame_fits_def in_i64_def i64_min_def i64_max_def)
  have "CHR 0x0A \<notin> set (concat (butlast [''+CONT'', ''INUE'' @ eol @ frames ?sel]))"
    "concat [''+CONT'', ''INUE'' @ eol @ frames ?sel] = CONTINUE @ eol @ frames ?sel"
    "list_all (\<lambda>b. b \<noteq> []) [''+CONT'', ''INUE'' @ eol @ frames ?sel]" "?sel @ concat [?sel] = ?sel @ ?sel" "list_all (\<lambda>g. g \<noteq> []) [?sel]"
    by (simp_all add: CONTINUE_def)
  note r = replica_catches_up [OF nom_laws_ref _ refl bl(1) _ _ _ b p, where evs = "map (\<lambda>m. Pushed m True) msgs",
      OF _ _ _ _ _ this(3,1,2,5,4) fits run, of "[]"]
  then show ?thesis using run len bl(2) by (simp add: filter_map comp_def frames_def [of "[]"])
qed

text \<open>
  A link that is renewed forgets the selected database.  The stream of the master says SELECT 1 and, after the replica has lost
  and renewed its link, SET.  The replica, which goes on from its offset with a new connection in database 0, puts the key into database 0; the
  stream puts it into database 1.
\<close>

theorem reconnect_forgets_database:
  assumes "nom_laws nm" "\<not> over_memory_limit s" "2 \<le> length (databases s)"
    and "frame_fits [''SET'', k, v]" "0 \<le> sync_offset st" "sync_offset st + int (length (frames [[''SET'', k, v]])) \<le> i64_max"
  shows "\<exists>t st' en t' c n en'. connect_to_master nm es (Suc d) s st [Chunk (CONTINUE @ eol @ frames [[''SET'', k, v]])] =
       Some (t, st', LinkClosed) \<and>
     raw t 0 k = Some en \<and> ent_value en = StringV v \<and> raw t 1 k = raw s 1 k \<and>
     run_log es (Suc d) [[''SELECT'', ''1''], [''SET'', k, v]] s client_context_new 0 = Some (t', c, n) \<and>
     raw t' 1 k = Some en' \<and> ent_value en' = StringV v \<and> raw t' 0 k = raw s 0 k"
proof -
  let ?set = "[''SET'', k, v]" and ?c1 = "client_context_new\<lparr>db_index := 1\<rparr>"
  have ready: "ready s client_context_new" "ready s ?c1"
    using assms(2,3) by (auto simp: ready_def valid_db_def client_context_new_def)
  obtain en where en: "rebuilds es (Suc d) [?set] s client_context_new k en" "ent_value en = StringV v"
    using rebuild_string [OF ready(1)] by blast
  obtain en' where en': "rebuilds es (Suc d) [?set] s ?c1 k en'" "ent_value en' = StringV v"
    using rebuild_string [OF ready(2)] by blast
  obtain t where t: "run_log es (Suc d) ([?set] @ concat []) s client_context_new 0 = Some (t, client_context_new, 0 + length [?set])"
    "stored s 0 k en t" using en(1) unfolding rebuilds_def by (auto simp: client_context_new_def simp del: run_log.simps)
  have st: "apply_stream nm es (Suc d) 0 (frames [?set]) (map (\<lambda>g. Chunk (frames g)) []) s client_context_new st =
      Some (t, st\<lparr>sync_offset := sync_offset st + int (length (frames ([?set] @ concat [])))\<rparr>, LinkClosed)"
    by (rule stream_groups [OF assms(1) _ _ t(1)]) (use assms(4-6) in simp_all)
  have "handshake (CONTINUE @ eol @ frames [?set]) = Continue (frames [?set])"
    using handshake_continue [of "\<lparr>is_partial = True, catch_up = frames [?set], current_offset = 0, replica_id = 0\<rparr>"]
    by (simp add: psync_preamble_def CONTINUE_def)
  moreover have "handshake [] = NeedMore" by (simp add: handshake_def read_line_None)
  ultimately have "receive_sync [] [Chunk (CONTINUE @ eol @ frames [?set])] = Inr (Continue (frames [?set]), [])"
    using receive_chunks [of "[CONTINUE @ eol @ frames [?set]]" "[]" _ "[]"] by (simp add: CONTINUE_def)
  then have conn: "connect_to_master nm es (Suc d) s st [Chunk (CONTINUE @ eol @ frames [?set])] =
      Some (t, st\<lparr>sync_offset := sync_offset st + int (length (frames [?set]))\<rparr>, LinkClosed)"
    using st by (simp add: connect_to_master_def start_sync_def del: apply_stream.simps)
  have one: "nat_to_string 1 = ''1''" by code_simp
  have sel: "run_log es (Suc d) [[''SELECT'', ''1'']] s client_context_new 0 = Some (s, ?c1, 0 + 1)"
    using run_select [OF assms(2), of 1 es d client_context_new 0] unfolding one by (simp add: u64_max_def del: run_log.simps)
  obtain t' where t': "run_log es (Suc d) [?set] s ?c1 (0 + 1) = Some (t', ?c1, 0 + 1 + length [?set])" "stored s 1 k en' t'"
    using en'(1) unfolding rebuilds_def by (auto simp del: run_log.simps)
  have "run_log es (Suc d) ([[''SELECT'', ''1'']] @ [?set]) s client_context_new 0 = Some (t', ?c1, 0 + 1 + length [?set])"
    unfolding run_log_append sel using t'(1) by (simp del: run_log.simps)
  moreover have "raw t 1 k = raw s 1 k" "raw t' 0 k = raw s 0 k" using t(2) t'(2) by (simp_all add: stored_def)
  ultimately show ?thesis
    using conn en(2) en'(2) storedD(1) [OF t(2)] storedD(1) [OF t'(2)] by (auto simp del: run_log.simps)
qed

theorem reconnect_forgets_database_witness:
  "\<exists>t st' en. connect_to_master nom_ref (\<lambda>_. env0) 1 (store_new 2) \<lparr>sync_replid = ''id'', sync_offset = 23\<rparr>
       [Chunk (CONTINUE @ eol @ frames [[''SET'', ''k'', ''v'']])] = Some (t, st', LinkClosed) \<and>
     raw t 0 ''k'' = Some en \<and> raw t 1 ''k'' = None"
proof -
  have len: "length (frames [[''SET'', ''k'', ''v'']]) = 27" by code_simp
  have pre: "\<not> over_memory_limit (store_new 2)" "2 \<le> length (databases (store_new 2))" "frame_fits [''SET'', ''k'', ''v'']"
    "0 \<le> sync_offset \<lparr>sync_replid = ''id'', sync_offset = 23\<rparr>"
    "sync_offset \<lparr>sync_replid = ''id'', sync_offset = 23\<rparr> + int (length (frames [[''SET'', ''k'', ''v'']])) \<le> i64_max"
    "raw (store_new 2) 1 ''k'' = None"
    using len by (simp_all add: over_memory_limit_def store_new_def frame_fits_def in_i64_def i64_min_def i64_max_def raw_def)
  from reconnect_forgets_database [OF nom_laws_ref pre(1-5), of "\<lambda>_. env0" 0] pre(6) show ?thesis by fastforce
qed

section \<open>A first synchronisation\<close>

text \<open>The answer of the master to a replica without a state, as far as the end of the snapshot.\<close>

definition full_answer :: "bytes \<Rightarrow> nat \<Rightarrow> bytes \<Rightarrow> bytes" where
  "full_answer replid off rdb =
     ''+FULLRESYNC '' @ replid @ '' '' @ nat_to_string off @ eol @ ''$'' @ nat_to_string (length rdb) @ eol @ rdb"

lemma read_from_end: "global_offset bl = off \<Longrightarrow> read_from bl off = []"
  by (simp add: read_from_def)

lemma full_answer_read:
  assumes "replid_ok replid" "length rdb \<le> u64_max" "int n \<le> i64_max"
  shows "handshake (full_answer replid n rdb @ b) = FullSync replid (int n) rdb b"
proof -
  let ?ses = "\<lparr>is_partial = False, catch_up = [], current_offset = of_nat n, replica_id = 0\<rparr>"
  have n: "unat (of_nat n :: u64) = n" using assms(3) by (intro unat_u64) (simp add: i64_max_def)
  have "handshake (full_answer replid n rdb) = FullSync replid (int n) rdb []"
    using handshake_fullsync [of replid rdb ?ses "(repl_backlog_new 0)\<lparr>global_offset := of_nat n\<rparr>"] assms
    by (simp add: n psync_preamble_def full_answer_def read_from_end)
  from handshake_more [of "full_answer replid n rdb" b] this show ?thesis by simp
qed

lemma full_answer_not_before:
  assumes "replid_ok replid" "length rdb \<le> u64_max" "int n \<le> i64_max" "full_answer replid n rdb = p @ q" "q \<noteq> []"
  shows "handshake p = NeedMore"
proof (rule ccontr)
  assume "handshake p \<noteq> NeedMore"
  from handshake_more [OF this, of q] full_answer_read [OF assms(1-3), of "[]"] assms(4,5)
  show False by (cases "handshake p") auto
qed

lemma full_answer_in_pieces:
  assumes "replid_ok replid" "length rdb \<le> u64_max" "int n \<le> i64_max"
    and "list_all (\<lambda>b. b \<noteq> []) cs" "concat cs = full_answer replid n rdb @ b"
    and "length (concat (butlast cs)) < length (full_answer replid n rdb)"
  shows "receive_sync [] (map Chunk cs @ rs) = Inr (FullSync replid (int n) rdb b, rs)"
proof (rule receive_chunks [OF assms(4)])
  show "handshake ([] @ concat cs) = FullSync replid (int n) rdb b" using full_answer_read [OF assms(1-3)] assms(5) by simp
  show "\<forall>k<length cs. handshake ([] @ concat (take k cs)) = NeedMore"
  proof (intro allI impI)
    fix k assume k: "k < length cs"
    let ?p = "concat (take k cs)" and ?a = "full_answer replid n rdb"
    have "take k (butlast cs) = take k cs" using k by (simp add: take_butlast)
    then have "length ?p \<le> length (concat (butlast cs))" by (metis append_take_drop_id concat_append le_add1 length_append)
    then have short: "length ?p < length ?a" using assms(6) by simp
    have "?p @ concat (drop k cs) = ?a @ b" by (metis append_take_drop_id concat_append assms(5))
    then have "?a = ?p @ drop (length ?p) ?a" using short by (metis append_eq_append_conv_if append_take_drop_id less_imp_le)
    from full_answer_not_before [OF assms(1-3) this] short show "handshake ([] @ ?p) = NeedMore" by simp
  qed
qed simp_all

lemma push_all_append:
  "push_all rx_open tx bl (xs @ ys) =
     (case push_all rx_open tx bl xs of
        None \<Rightarrow> None
      | Some (bl1, m1) \<Rightarrow> map_option (\<lambda>(bl2, m2). (bl2, m1 @ m2)) (push_all rx_open tx bl1 ys))"
  by (induction xs arbitrary: bl) (auto simp: option.map_comp comp_def case_prod_unfold option.map_ident split: option.splits)

text \<open>What the master sends to a new replica: the snapshot, the gap, and all that was written since the registration.\<close>

lemma full_resync_sent:
  assumes "ring_holds cap bl h" "length h + length (frames gap) < 2 ^ 64" "length (frames gap) \<le> cap"
    and "tx \<notin> snd ` set (replicas bl)" "rx_open tx"
    and "psync_begin bl replid [''?'', ''-1''] tx = (bl1, ses)"
    and "push_all rx_open tx bl1 (map encode_command_for_aof gap) = Some (bl2, msgs1)"
    and "push_all rx_open tx bl2 (map encode_command_for_aof later) = Some (bl3, msgs2)"
  shows "psync_preamble replid ses rdb bl2 = full_answer replid (length h) rdb @ frames gap"
    "concat (msgs1 @ msgs2) = frames (gap @ later)"
proof -
  show "psync_preamble replid ses rdb bl2 = full_answer replid (length h) rdb @ frames gap"
    using full_resync_repeats_gap [where is_open = rx_open and ds = "map encode_command_for_aof gap" and rdb = rdb, OF assms(1) _ _ assms(4-6)] assms(2,3,7)
    by (simp add: full_answer_def frames_def)
  have "bl1 = fst (register_replica bl tx)" using assms(6) by (auto simp: psync_begin_def Let_def split: prod.splits)
  then have "filter (\<lambda>(i, t). t = tx) (replicas bl1) = [(next_replica_id bl, tx)]" using register_fresh [OF assms(4)] by simp
  from push_all_messages [where is_open = rx_open and ds = "map encode_command_for_aof (gap @ later)", OF this assms(5)] assms(7,8)
  show "concat (msgs1 @ msgs2) = frames (gap @ later)" by (simp add: push_all_append frames_def)
qed

text \<open>
  C15: A first synchronisation copies the master.  A replica without keys asks for everything.  While the master writes the snapshot
  \<open>rdb\<close> of its store \<open>m\<close> and sends it, clients may write: \<open>gap\<close> are the commands that reach the backlog from the
  registration of the replica to the second look at the backlog, and \<open>later\<close> those after it.  What the master puts on the socket
  arrives in whatever pieces, no read after the snapshot ending inside a command.  Then the replica has loaded the live entries of \<open>m\<close> under every
  key but the empty one, with values and expiries, and has run on them, in order, the commands \<open>gap\<close>, once more the commands \<open>gap\<close>, and then
  \<open>later\<close>.  So with no write during the snapshot the copy is exact and the offset is the end of the stream; otherwise
  those writes are applied twice, and counted twice in the offset.
\<close>

theorem first_sync_copies:
  assumes "nom_laws nm" "\<forall>i. rng i < 16" "replid = generate_replid rng"
    and "store_wf m" "store_fits m" "length (databases m) \<le> 256"
    and "store_wf t" "length (databases t) = length (databases m)" "\<forall>i k. raw t i k = None"
    and "save_rdb clock m (length (databases m)) = Inr rdb" "length rdb \<le> u64_max"
    and "ring_holds cap bl h" "length (frames gap) \<le> cap" "tx \<notin> snd ` set (replicas bl)" "rx_open tx"
    and "psync_begin bl replid [''?'', ''-1''] tx = (bl1, ses)"
    and "push_all rx_open tx bl1 (map encode_command_for_aof gap) = Some (bl2, msgs1)"
    and "push_all rx_open tx bl2 (map encode_command_for_aof later) = Some (bl3, msgs2)"
    and "filter (\<lambda>ev. ev \<noteq> AckRead) evs = map (\<lambda>m. Pushed m True) (msgs1 @ msgs2)"
    and "list_all (\<lambda>b. b \<noteq> []) cs" "concat cs = full_answer replid (length h) rdb @ frames g"
    and "length (concat (butlast cs)) < length (full_answer replid (length h) rdb)"
    and "list_all (\<lambda>g. g \<noteq> []) gs" "g @ concat gs = gap @ gap @ later" "list_all frame_fits (gap @ later)"
    and "int (length h) + int (length (frames (gap @ gap @ later))) \<le> i64_max"
  shows "psync_preamble replid ses rdb bl2 @ live_loop evs = concat cs @ concat (map frames gs) \<and>
     (\<exists>t1. (\<forall>i<length (databases m). \<forall>k. restored_entry (if k = [] then None else live (clock i) m i k) (raw t1 i k)) \<and>
       (\<forall>t2 c n. run_log es d (gap @ gap @ later) t1 client_context_new 0 = Some (t2, c, n) \<longrightarrow>
          connect_to_master nm es d t sync_state_default (map Chunk cs @ map (\<lambda>g. Chunk (frames g)) gs) =
            Some (t2, \<lparr>sync_replid = replid, sync_offset = int (length h) + int (length (frames (gap @ gap @ later)))\<rparr>,
              LinkClosed)))"
proof
  let ?rs = "map (\<lambda>g. Chunk (frames g)) gs" and ?st = "\<lparr>sync_replid = replid, sync_offset = int (length h)\<rparr>"
  have len: "length h + length (frames gap) < 2 ^ 64" "int (length h) \<le> i64_max"
    using assms(26) by (simp_all add: frames_append i64_max_def)
  note sent = full_resync_sent(1) [where rx_open = rx_open and rdb = rdb, OF assms(12) len(1) assms(13-18)]
    full_resync_sent(2) [where rx_open = rx_open, OF assms(12) len(1) assms(13-18)]
  have "frames g @ concat (map frames gs) = frames gap @ frames (gap @ later)"
    using arg_cong [OF assms(24), of frames] by (simp add: frames_append frames_concat)
  then show "psync_preamble replid ses rdb bl2 @ live_loop evs = concat cs @ concat (map frames gs)"
    unfolding sent(1) live_loop_pushed [OF assms(19)] sent(2) assms(21) by simp
  obtain t1 j where t1: "load_rdb t rdb = Some (t1, Inr j)"
    "\<forall>i<length (databases m). \<forall>k. restored_entry (if k = [] then None else live (clock i) m i k) (raw t1 i k)"
    using rdb_reload [OF assms(4-9), of clock] assms(10) by auto
  have recv: "receive_sync [] (map Chunk cs @ ?rs) = Inr (FullSync replid (int (length h)) rdb (frames g), ?rs)"
    by (rule full_answer_in_pieces [OF _ assms(11) len(2) assms(20-22)]) (simp add: assms(3) generated_replid_ok [OF assms(2)])
  have "connect_to_master nm es d t sync_state_default (map Chunk cs @ ?rs) =
      Some (t2, \<lparr>sync_replid = replid, sync_offset = int (length h) + int (length (frames (gap @ gap @ later)))\<rparr>, LinkClosed)"
    if "run_log es d (gap @ gap @ later) t1 client_context_new 0 = Some (t2, c, n)" for t2 c n
  proof -
    have "apply_stream nm es d 0 (frames g) ?rs t1 client_context_new ?st =
        Some (t2, ?st\<lparr>sync_offset := sync_offset ?st + int (length (frames (g @ concat gs)))\<rparr>, LinkClosed)"
      by (rule stream_groups [OF assms(1) _ assms(23)]) (use that assms(24-26) in simp_all)
    then show ?thesis using recv t1(1) assms(24) by (simp add: connect_to_master_def start_sync_def)
  qed
  then show "\<exists>t1. (\<forall>i<length (databases m). \<forall>k. restored_entry (if k = [] then None else live (clock i) m i k) (raw t1 i k)) \<and>
       (\<forall>t2 c n. run_log es d (gap @ gap @ later) t1 client_context_new 0 = Some (t2, c, n) \<longrightarrow>
          connect_to_master nm es d t sync_state_default (map Chunk cs @ ?rs) =
            Some (t2, \<lparr>sync_replid = replid, sync_offset = int (length h) + int (length (frames (gap @ gap @ later)))\<rparr>, LinkClosed))"
    using t1(2) by blast
qed

lemma select_runs: "\<exists>s' c' n'. run_log es (Suc d) (replicate j [''SELECT'', ''0'']) s client_context_new n = Some (s', c', n')"
proof -
  have u: "upper ''SELECT'' = ''SELECT''" by code_simp
  have "\<exists>s' c' n'. run_log es (Suc d) (replicate j [''SELECT'', ''0'']) s c n = Some (s', c', n')" if "\<not> multi_mode c" for c
    using that
  proof (induction j arbitrary: s c n)
    case (Suc j)
    then show ?case
      by (cases "0 < length (databases s)")
         (simp_all add: u dispatch_with_def table_defs is_deny_oom_command_def cmd_select_def reply_def)
  qed simp
  then show ?thesis by (simp add: client_context_new_def)
qed

text \<open>A master with one entry.\<close>

definition one_key :: store where
  "one_key = put_entry (store_new 1) 0 ''k'' (new_entry (StringV ''v''))"

lemma one_key_saved:
  "length (databases one_key) = 1" "store_wf one_key" "store_fits one_key" "live 5 one_key 0 ''k'' \<noteq> None"
  "\<exists>rdb. save_rdb (\<lambda>_. 5) one_key (length (databases one_key)) = Inr rdb \<and> length rdb \<le> u64_max"
proof -
  show len: "length (databases one_key) = 1" by (simp add: one_key_def store_new_def put_entry_def set_db_def)
  show "store_wf one_key" "store_fits one_key"
    using store_wf_put [of "store_new 1" "new_entry (StringV ''v'')" 0 "''k''"] store_wf_new [of 1] len
    by (simp_all add: one_key_def store_new_def valid_db_def new_entry_def store_fits_def put_entry_def set_db_def hm_insert_def len_fits_def)
  show "live 5 one_key 0 ''k'' \<noteq> None" by code_simp
  have "case encode_dbs (\<lambda>_. 5) one_key [0] of Inr b \<Rightarrow> length b \<le> 100 | Inl _ \<Rightarrow> False" by code_simp
  then obtain b where b: "encode_dbs (\<lambda>_. 5) one_key [0..<length (databases one_key)] = Inr b" "length b \<le> 100"
    unfolding len by (cases "encode_dbs (\<lambda>_. 5) one_key [0]") (simp_all del: encode_dbs.simps)
  then show "\<exists>rdb. save_rdb (\<lambda>_. 5) one_key (length (databases one_key)) = Inr rdb \<and> length rdb \<le> u64_max"
    unfolding save_rdb_def by (auto simp: rdb_header_def write_u64_le_def u64_max_def Let_def simp del: encode_dbs.simps)
qed

theorem first_sync_copies_witness:
  "\<exists>rdb t1 t2 c n. run_log (\<lambda>_. env0) 1 (replicate 3 [''SELECT'', ''0'']) t1 client_context_new 0 = Some (t2, c, n) \<and> raw t1 0 ''k'' \<noteq> None \<and>
     connect_to_master nom_ref (\<lambda>_. env0) 1 (store_new 1) sync_state_default
         [Chunk (take 9 (full_answer (generate_replid (\<lambda>_. 7)) 0 rdb)),
          Chunk (drop 9 (full_answer (generate_replid (\<lambda>_. 7)) 0 rdb) @ frames [[''SELECT'', ''0'']]),
          Chunk (frames (replicate 2 [''SELECT'', ''0'']))] =
       Some (t2, \<lparr>sync_replid = generate_replid (\<lambda>_. 7), sync_offset = 69\<rparr>, LinkClosed)"
proof -
  let ?id = "generate_replid (\<lambda>_. 7)" and ?sel = "[[''SELECT'', ''0'']]" and ?bl = "repl_backlog_new 64"
  have len: "length (frames ?sel) = 23" "length (frames (?sel @ ?sel @ ?sel)) = 69" by code_simp+
  have t: "store_wf (store_new 1)" "length (databases (store_new 1)) = length (databases one_key)" "\<forall>i k. raw (store_new 1) i k = None"
    using store_wf_new [of 1] one_key_saved(1) by (simp_all add: store_new_def raw_def)
  obtain rdb where rdb: "save_rdb (\<lambda>_. 5) one_key (length (databases one_key)) = Inr rdb" "length rdb \<le> u64_max"
    using one_key_saved(5) by blast
  have h: "ring_holds 64 ?bl []" "(3::nat) \<notin> snd ` set (replicas ?bl)"
    using ring_holds_new [of 64] by (simp_all add: repl_backlog_new_def)
  obtain bl1 ses where b: "psync_begin ?bl ?id [''?'', ''-1''] 3 = (bl1, ses)" by fastforce
  have "ring_holds 64 bl1 []"
    using b h(1) register_holds [of 64 ?bl 3] by (auto simp: psync_begin_def Let_def split: prod.splits)
  then obtain bl2 m1 where p1: "push_all (\<lambda>_. True) 3 bl1 (map encode_command_for_aof ?sel) = Some (bl2, m1)" "ring_holds 64 bl2 (frames ?sel)"
    using push_all_holds [of 64 bl1 "[]" "map encode_command_for_aof ?sel" "\<lambda>_. True" 3] len by (auto simp: frames_def)
  obtain bl3 m2 where p2: "push_all (\<lambda>_. True) 3 bl2 (map encode_command_for_aof ?sel) = Some (bl3, m2)"
    using push_all_holds [OF p1(2), of "map encode_command_for_aof ?sel" "\<lambda>_. True" 3] len by (auto simp: frames_def)
  let ?a = "full_answer ?id (length ([] :: bytes)) rdb"
  let ?cs = "[take 9 ?a, drop 9 ?a @ frames ?sel]"
  have la: "9 < length ?a" by (simp add: full_answer_def)
  have cs: "list_all (\<lambda>b. b \<noteq> []) ?cs" "concat ?cs = ?a @ frames ?sel" "length (concat (butlast ?cs)) < length ?a"
    using la by auto
  have gs: "list_all (\<lambda>g. g \<noteq> []) [?sel @ ?sel]" "?sel @ concat [?sel @ ?sel] = ?sel @ ?sel @ ?sel"
    "list_all frame_fits (?sel @ ?sel)" "int (length ([] :: bytes)) + int (length (frames (?sel @ ?sel @ ?sel))) \<le> i64_max"
    using len(2) by (simp_all add: frame_fits_def in_i64_def i64_min_def i64_max_def)
  have ev: "filter (\<lambda>ev. ev \<noteq> AckRead) (map (\<lambda>m. Pushed m True) (m1 @ m2)) = map (\<lambda>m. Pushed m True) (m1 @ m2)"
    by (simp add: filter_map comp_def)
  have cap: "length (frames ?sel) \<le> 64" "\<forall>i. (7::nat) < 16" "length (databases one_key) \<le> 256" using len one_key_saved(1) by simp_all
  from first_sync_copies [where rx_open = "\<lambda>_. True" and es = "\<lambda>_. env0" and d = 1 and clock = "\<lambda>_. 5" and rng = "\<lambda>_. 7",
      OF nom_laws_ref cap(2) refl one_key_saved(2,3) cap(3) t rdb h(1) cap(1) h(2) TrueI b p1(1) p2 ev cs gs]
  obtain t1 where t1: "\<forall>i<length (databases one_key). \<forall>k. restored_entry (if k = [] then None else live 5 one_key i k) (raw t1 i k)"
    "\<forall>t2 c n. run_log (\<lambda>_. env0) 1 (?sel @ ?sel @ ?sel) t1 client_context_new 0 = Some (t2, c, n) \<longrightarrow>
       connect_to_master nom_ref (\<lambda>_. env0) 1 (store_new 1) sync_state_default (map Chunk ?cs @ map (\<lambda>g. Chunk (frames g)) [?sel @ ?sel]) =
       Some (t2, \<lparr>sync_replid = ?id, sync_offset = int (length ([] :: bytes)) + int (length (frames (?sel @ ?sel @ ?sel)))\<rparr>, LinkClosed)"
    by blast
  have "restored_entry (live 5 one_key 0 ''k'') (raw t1 0 ''k'')" using t1(1) [rule_format, of 0 "''k''"] one_key_saved(1) by simp
  then have k: "raw t1 0 ''k'' \<noteq> None" using one_key_saved(4) by (cases "raw t1 0 ''k''") auto
  have three: "?sel @ ?sel @ ?sel = replicate 3 [''SELECT'', ''0'']" "?sel @ ?sel = replicate 2 [''SELECT'', ''0'']"
    by (simp_all add: numeral_3_eq_3 numeral_2_eq_2)
  obtain t2 c n where run: "run_log (\<lambda>_. env0) 1 (?sel @ ?sel @ ?sel) t1 client_context_new 0 = Some (t2, c, n)"
    unfolding three(1) One_nat_def using select_runs by blast
  from t1(2) [rule_format, OF this] have
    "connect_to_master nom_ref (\<lambda>_. env0) 1 (store_new 1) sync_state_default [Chunk (take 9 ?a), Chunk (drop 9 ?a @ frames ?sel), Chunk (frames (?sel @ ?sel))] =
       Some (t2, \<lparr>sync_replid = ?id, sync_offset = 69\<rparr>, LinkClosed)"
    unfolding len(2) by simp
  then show ?thesis using run [unfolded three(1)] k unfolding three(2) list.size(3) by blast
qed

end
