(* ===== verification/Session.thy ===== *)
theory Session
  imports Link
begin

text \<open>
  \<open>handle\<close> of \<open>net/connection.rs\<close> as a whole: a connection from its first read to its end.  What it waits for are events: bytes that
  arrive, the end of the socket, and, while a command blocks, the start of the wait, the notification or the timeout.  Between two events other connections run,
  so a step takes the shared state as it finds it and returns it.

  The loops over the buffer are those of \<open>Connection\<close>.  A blocked command stands in the middle of the loop: when it
  is answered the loop goes on with the rest of the buffer.  In subscriber mode the loop waits for the socket only; the channel with the published messages
  is not read anywhere, so no event has a message.
\<close>

section \<open>The loop\<close>

datatype session_end = ClosedByClient | SocketFailed | RequestRefused | HandedOver "bytes list"

record session =
  ss_buf :: bytes
  ss_ctx :: client_context
  ss_out :: bytes
  ss_wait :: "(block_state \<times> u64 \<times> notify_id \<times> nat option) option"
  ss_end :: "session_end option"

definition session_start :: "server_config \<Rightarrow> session" where
  "session_start cfg = \<lparr>ss_buf = [], ss_ctx = connect cfg, ss_out = [], ss_wait = None, ss_end = None\<rparr>"

datatype session_event = Received bytes | EndOfSocket | SocketError | Listens | Resumed bool

text \<open>
  What follows when the loop over the buffer stops.  The number of the \<open>Notify\<close> object that a blocked client makes is
  the argument \<open>nid\<close>.
\<close>

definition loop_stopped ::
  "notify_id \<Rightarrow> session \<Rightarrow> bytes \<times> server \<times> client_context \<times> bytes \<times> stop \<Rightarrow> server \<times> session" where
  "loop_stopped nid ss r =
     (case r of (buf, srv, c, out, st) \<Rightarrow>
        (let ss = ss\<lparr>ss_buf := buf, ss_ctx := c, ss_out := ss_out ss @ out, ss_wait := None\<rparr> in
         case st of
           ReadMore \<Rightarrow> (srv, ss)
         | Blocked b \<Rightarrow> (case block_begin srv b nid of (srv', i) \<Rightarrow> (srv', ss\<lparr>ss_wait := Some (b, i, nid, None)\<rparr>))
         | Replica pargs \<Rightarrow> (srv, ss\<lparr>ss_end := Some (HandedOver pargs)\<rparr>)
         | Closed \<Rightarrow> (srv, ss\<lparr>ss_end := Some RequestRefused\<rparr>)))"

text \<open>
  A blocked client first registers, which \<open>loop_stopped\<close> does, and then calls \<open>notified()\<close>, the event \<open>Listens\<close>: other
  connections can run in between.  It goes on when a notification reached it since then, or, with a timeout that is not 0, when the timeout has passed.
\<close>

definition may_resume :: "block_state \<Rightarrow> notify_id \<Rightarrow> nat option \<Rightarrow> bool \<Rightarrow> server \<Rightarrow> bool" where
  "may_resume b n mark triggered srv =
     (case mark of None \<Rightarrow> False | Some m \<Rightarrow> if triggered then notified m n srv else timeout_ms b \<noteq> 0)"

definition session_step ::
  "nom \<Rightarrow> (nat \<Rightarrow> bool) \<Rightarrow> server_config \<Rightarrow> (nat \<Rightarrow> env) \<Rightarrow> nat \<Rightarrow> notify_id \<Rightarrow> session_event \<Rightarrow> server \<Rightarrow> session \<Rightarrow>
   (server \<times> session) option" where
  "session_step nm rx_open cfg es d nid ev srv ss =
     (if ss_end ss \<noteq> None then Some (srv, ss)
      else case ss_wait ss of
        Some (b, i, n, mark) \<Rightarrow>
          (case ev of
             Listens \<Rightarrow> Some (srv, if mark = None then ss\<lparr>ss_wait := Some (b, i, n, Some (listen srv))\<rparr> else ss)
           | Resumed triggered \<Rightarrow>
              if \<not> may_resume b n mark triggered srv then Some (srv, ss)
              else (case block_end (es 0) srv (ss_ctx ss) b i triggered of
                  (srv', r) \<Rightarrow>
                    map_option (loop_stopped nid ss)
                      (drain_buffer nm rx_open cfg es d 1 (ss_buf ss) srv' (ss_ctx ss)
                        (serialize_response_proto (f64_display (es 0)) r (protocol (ss_ctx ss)))))
           | _ \<Rightarrow> Some (srv, ss))
      | None \<Rightarrow>
          (case ev of
             Received chunk \<Rightarrow>
               (if sub_mode (ss_ctx ss) then
                  map_option (\<lambda>(buf, s, c, out). (srv\<lparr>srv_store := s\<rparr>, ss\<lparr>ss_buf := buf, ss_ctx := c, ss_out := ss_out ss @ out\<rparr>))
                    (drain_sub nm es d 0 (ss_buf ss @ chunk) (srv_store srv) (ss_ctx ss) [])
                else map_option (loop_stopped nid ss) (on_read nm rx_open cfg es d (ss_buf ss) srv (ss_ctx ss) chunk))
           | EndOfSocket \<Rightarrow> Some (srv, ss\<lparr>ss_end := Some ClosedByClient\<rparr>)
           | SocketError \<Rightarrow> Some (srv, ss\<lparr>ss_end := Some SocketFailed\<rparr>)
           | _ \<Rightarrow> Some (srv, ss)))"

text \<open>A connection on its own: its events one after the other.\<close>

fun run_session ::
  "nom \<Rightarrow> (nat \<Rightarrow> bool) \<Rightarrow> server_config \<Rightarrow> (nat \<Rightarrow> env) \<Rightarrow> nat \<Rightarrow> notify_id \<Rightarrow> session_event list \<Rightarrow> server \<Rightarrow> session \<Rightarrow>
   (server \<times> session) option" where
  "run_session nm rx_open cfg es d nid [] srv ss = Some (srv, ss)"
| "run_session nm rx_open cfg es d nid (ev # evs) srv ss =
     Option.bind (session_step nm rx_open cfg es d nid ev srv ss)
       (\<lambda>(srv', ss'). run_session nm rx_open cfg es d nid evs srv' ss')"

section \<open>One request after the other\<close>

text \<open>
  What the loop is meant to do: run each request of a client in turn and write its reply.  Requests with which
  the loop stops or changes to subscriber mode are left out.
\<close>

definition emit :: "bytes \<Rightarrow> (server \<times> client_context \<times> bytes) option \<Rightarrow> (server \<times> client_context \<times> bytes) option" where
  "emit out r = map_option (\<lambda>(srv, c, rest). (srv, c, out @ rest)) r"

lemma emit_simps [simp]: "emit out None = None" "emit out (Some (srv, c, rest)) = Some (srv, c, out @ rest)"
  by (simp_all add: emit_def)

lemma emit_append: "emit [] r = r" "emit a (emit b r) = emit (a @ b) r"
  by (cases r; auto)+

lemma emit_Some_iff: "emit out r = Some (srv, c, all) \<longleftrightarrow> (\<exists>rest. r = Some (srv, c, rest) \<and> all = out @ rest)"
  by (cases r) auto

fun serve ::
  "(nat \<Rightarrow> bool) \<Rightarrow> server_config \<Rightarrow> env \<Rightarrow> nat \<Rightarrow> bytes list list \<Rightarrow> server \<Rightarrow> client_context \<Rightarrow> (server \<times> client_context \<times> bytes) option" where
  "serve rx_open cfg e d [] srv c = Some (srv, c, [])"
| "serve rx_open cfg e d (args # cmds) srv c =
     (case handle_command rx_open cfg e d srv c args of
        Some (srv1, c1, a) \<Rightarrow>
          (case (if sub_mode c1 then None else case a of Respond v \<Rightarrow> Some v | StartRewrite v \<Rightarrow> Some v | _ \<Rightarrow> None) of
             Some v \<Rightarrow>
               emit (serialize_response_proto (f64_display e) v (protocol c1)) (serve rx_open cfg e d cmds srv1 c1)
           | None \<Rightarrow> None)
      | None \<Rightarrow> None)"

lemma serve_append:
  "serve rx_open cfg e d (xs @ ys) srv c =
     (case serve rx_open cfg e d xs srv c of
        None \<Rightarrow> None
      | Some (srv1, c1, out) \<Rightarrow> emit out (serve rx_open cfg e d ys srv1 c1))"
  by (induction xs arbitrary: srv c) (auto simp: emit_append split: option.splits action.splits)

lemma serve_not_sub: "serve rx_open cfg e d cmds srv c = Some (srv', c', out) \<Longrightarrow> \<not> sub_mode c \<Longrightarrow> \<not> sub_mode c'"
  by (induction cmds arbitrary: srv c out) (auto simp: emit_Some_iff split: option.splits action.splits if_splits)

lemma drain_frames:
  assumes "nom_laws nm" "list_all frame_fits cmds" "length (frames cmds) \<le> u64_max"
    and "serve rx_open cfg e d cmds srv c = Some (srv', c', out)"
  shows "drain_buffer nm rx_open cfg (\<lambda>_. e) d n (frames cmds) srv c acc = Some ([], srv', c', acc @ out, ReadMore)"
  using assms(2-)
proof (induction cmds arbitrary: srv c n acc out)
  case Nil
  then show ?case by (subst drain_buffer.simps) (simp add: frames_def)
next
  case (Cons args cmds)
  have args: "frame_fits args" "args \<noteq> []" using Cons.prems(1) by (auto simp: frame_fits_def)
  have fr: "frames (args # cmds) = encode_command_for_aof args @ frames cmds" by (simp add: frames_def)
  have parse: "parse_command nm (frames (args # cmds)) = IOk (frames cmds) args"
    using parse_encoded [OF assms(1) args(1), of "frames cmds"] Cons.prems(2) by (simp add: fr)
  have ne: "frames (args # cmds) \<noteq> []" by (simp add: frames_Nil_iff)
  obtain srv1 c1 a v out2 where h: "handle_command rx_open cfg e d srv c args = Some (srv1, c1, a)"
    and v: "a = Respond v \<or> a = StartRewrite v" and rest: "serve rx_open cfg e d cmds srv1 c1 = Some (srv', c', out2)"
    and out: "out = serialize_response_proto (f64_display e) v (protocol c1) @ out2"
    using Cons.prems(3) by (auto simp: emit_Some_iff split: option.splits action.splits if_splits)
  have "drain_buffer nm rx_open cfg (\<lambda>_. e) d n (frames (args # cmds)) srv c acc =
      drain_buffer nm rx_open cfg (\<lambda>_. e) d (n + 1) (frames cmds) srv1 c1
        (acc @ serialize_response_proto (f64_display e) v (protocol c1))"
    unfolding drain_buffer.simps [of nm rx_open cfg "\<lambda>_. e" d n "frames (args # cmds)"] if_not_P [OF ne] parse
    using args(2) h v by auto
  also have "\<dots> = Some ([], srv', c', acc @ out, ReadMore)"
    using Cons.IH [OF _ _ rest, of "n + 1"] Cons.prems(1,2) by (simp add: fr out)
  finally show ?case .
qed

lemma session_frames:
  assumes "nom_laws nm" "list_all frame_fits (concat gs)" "\<forall>g\<in>set gs. g \<noteq> [] \<and> length (frames g) \<le> MAX_QUERY_BUFFER"
    and "serve rx_open cfg e d (concat gs) srv (ss_ctx ss) = Some (srv', c', out)"
    and "ss_buf ss = []" "ss_wait ss = None" "ss_end ss = None" "\<not> sub_mode (ss_ctx ss)"
  shows "run_session nm rx_open cfg (\<lambda>_. e) d nid (map (\<lambda>g. Received (frames g)) gs) srv ss =
    Some (srv', ss\<lparr>ss_ctx := c', ss_out := ss_out ss @ out\<rparr>)"
  using assms(2-)
proof (induction gs arbitrary: srv ss out)
  case (Cons g gs)
  obtain srv1 c1 out1 out2 where g: "serve rx_open cfg e d g srv (ss_ctx ss) = Some (srv1, c1, out1)"
    and rest: "serve rx_open cfg e d (concat gs) srv1 c1 = Some (srv', c', out2)" and out: "out = out1 @ out2"
    using Cons.prems(3) by (auto simp: serve_append emit_Some_iff split: option.splits)
  have len: "length (frames g) \<le> MAX_QUERY_BUFFER" "length (frames g) \<le> u64_max"
    using Cons.prems(2) by (auto simp: MAX_QUERY_BUFFER_def u64_max_def)
  have "drain_buffer nm rx_open cfg (\<lambda>_. e) d 0 (frames g) srv (ss_ctx ss) [] = Some ([], srv1, c1, out1, ReadMore)"
    using drain_frames [OF assms(1) _ len(2) g] Cons.prems(1) by simp
  then have "session_step nm rx_open cfg (\<lambda>_. e) d nid (Received (frames g)) srv ss =
      Some (srv1, ss\<lparr>ss_ctx := c1, ss_out := ss_out ss @ out1\<rparr>)"
    using Cons.prems(4-7) len(1) by (simp add: session_step_def on_read_def loop_stopped_def)
  moreover have "run_session nm rx_open cfg (\<lambda>_. e) d nid (map (\<lambda>g. Received (frames g)) gs) srv1 (ss\<lparr>ss_ctx := c1, ss_out := ss_out ss @ out1\<rparr>) =
      Some (srv', ss\<lparr>ss_ctx := c1, ss_out := ss_out ss @ out1\<rparr>\<lparr>ss_ctx := c', ss_out := (ss_out ss @ out1) @ out2\<rparr>)"
    using Cons.IH [of srv1 "ss\<lparr>ss_ctx := c1, ss_out := ss_out ss @ out1\<rparr>" out2] Cons.prems rest serve_not_sub [OF g] by simp
  ultimately show ?case by (simp add: out)
qed simp

section \<open>Connections are part of the server\<close>

lemma set_client_same: "clients w i = Some c \<Longrightarrow> set_client (w\<lparr>the_server := the_server w\<rparr>) i c = w"
  by (cases w) (auto simp: set_client_def)

lemma set_client_twice:
  "set_client (w\<lparr>the_server := srv\<rparr>) i c\<lparr>the_server := srv'\<rparr> = set_client (w\<lparr>the_server := srv'\<rparr>) i c"
  "set_client (set_client w i c) i c' = set_client w i c'"
  by (simp_all add: set_client_def)

text \<open>The world as one connection leaves it.\<close>

definition left_by :: "world \<Rightarrow> nat \<Rightarrow> server \<Rightarrow> client_context \<Rightarrow> world" where
  "left_by w i srv c = set_client (w\<lparr>the_server := srv\<rparr>) i c"

lemma left_by_simps [simp]:
  "the_server (left_by w i srv c) = srv" "clients (left_by w i srv c) i = Some c"
  "left_by (left_by w i srv c) i srv' c' = left_by w i srv' c'"
  by (simp_all add: left_by_def set_client_def)

lemma left_by_same: "clients w i = Some c \<Longrightarrow> left_by w i (the_server w) c = w"
  unfolding left_by_def by (rule set_client_same)

lemma command_steps:
  assumes "clients w i = Some c" "args \<noteq> []" "handle_command rx_open cfg e d (the_server w) c args = Some (srv, c', a)"
  shows "server_steps cfg w (left_by w i srv c')"
  unfolding left_by_def using assms by (intro r_into_rtranclp server_step.command)

lemma drain_buffer_steps:
  assumes "drain_buffer nm rx_open cfg es d n buf srv c out = Some (buf', srv', c', out', st)"
    and "the_server w = srv" "clients w i = Some c"
  shows "server_steps cfg w (left_by w i srv' c')"
proof -
  have "\<forall>w. the_server w = srv \<and> clients w i = Some c \<longrightarrow> server_steps cfg w (left_by w i (fst (snd r)) (fst (snd (snd r))))"
    if "drain_buffer nm rx_open cfg es d n buf srv c out = Some r" for r
  proof (rule drain_buffer.raw_induct [where P = "\<lambda>nm rx_open cfg es d n buf srv c out r. \<forall>w. the_server w = srv \<and> clients w i = Some c \<longrightarrow>
      server_steps cfg w (left_by w i (fst (snd r)) (fst (snd (snd r))))", OF _ that], goal_cases)
    case (1 f nm rx_open cfg es d n buf srv c out r)
    show ?case
    proof (intro allI impI)
      fix w :: world assume w: "the_server w = srv \<and> clients w i = Some c"
      then have same: "left_by w i srv c = w" using left_by_same by blast
      from 1(2) consider "fst (snd r) = srv" "fst (snd (snd r)) = c"
        | args srv1 c1 a where "args \<noteq> []" "handle_command rx_open cfg (es n) d srv c args = Some (srv1, c1, a)"
            "fst (snd r) = srv1" "fst (snd (snd r)) = c1"
        | remaining args srv1 c1 a out1 where "args \<noteq> []" "handle_command rx_open cfg (es n) d srv c args = Some (srv1, c1, a)"
            "f nm rx_open cfg es d (n + 1) remaining srv1 c1 out1 = Some r"
        by (fastforce split: if_splits option.splits iresult.splits action.splits)
      then show "server_steps cfg w (left_by w i (fst (snd r)) (fst (snd (snd r))))"
      proof cases
        case 1
        then show ?thesis using same by simp
      next
        case 2
        then show ?thesis using command_steps w by auto
      next
        case 3
        have "server_steps cfg w (left_by w i srv1 c1)" using command_steps 3(1,2) w by auto
        also have "server_steps cfg (left_by w i srv1 c1) (left_by w i (fst (snd r)) (fst (snd (snd r))))"
          using 1(1) [OF 3(3)] by (metis left_by_simps)
        finally show ?thesis .
      qed
    qed
  qed
  with assms show ?thesis by fastforce
qed

lemma drain_sub_steps:
  assumes "drain_sub nm es d n buf s c out = Some (buf', s', c', out')"
    and "the_store w = s" "clients w i = Some c" "sub_mode c"
  shows "server_steps cfg w (left_by w i ((the_server w)\<lparr>srv_store := s'\<rparr>) c')"
proof -
  have "\<forall>w::world. the_store w = s \<and> clients w i = Some c \<and> sub_mode c \<longrightarrow>
      server_steps cfg w (left_by w i ((the_server w)\<lparr>srv_store := fst (snd r)\<rparr>) (fst (snd (snd r))))"
    if "drain_sub nm es d n buf s c out = Some r" for r
  proof (rule drain_sub.raw_induct [where P = "\<lambda>nm es d n buf s c out r. \<forall>w::world. the_store w = s \<and> clients w i = Some c \<and> sub_mode c \<longrightarrow>
      server_steps cfg w (left_by w i ((the_server w)\<lparr>srv_store := fst (snd r)\<rparr>) (fst (snd (snd r))))", OF _ that], goal_cases)
    case (1 f nm es d n buf s c out r)
    show ?case
    proof (intro allI impI)
      fix w :: world assume w: "the_store w = s \<and> clients w i = Some c \<and> sub_mode c"
      then have same: "left_by w i ((the_server w)\<lparr>srv_store := s\<rparr>) c = w" using left_by_same [of w i c] by auto
      have step: "server_steps cfg w (left_by w i ((the_server w)\<lparr>srv_store := s1\<rparr>) c1)"
        if "dispatch d name (es n) s c args = Some (s1, c1, v)" for name args s1 c1 v
      proof -
        have "server_step cfg w (set_client (with_store w s1) i c1)" using w that by (intro server_step.sub_command) auto
        then show ?thesis by (simp add: left_by_def with_store_def)
      qed
      from 1(2) consider "fst (snd r) = s" "fst (snd (snd r)) = c"
        | name args s1 c1 v where "dispatch d name (es n) s c args = Some (s1, c1, v)" "fst (snd r) = s1" "fst (snd (snd r)) = c1"
        | remaining name args s1 c1 v out1 where "dispatch d name (es n) s c args = Some (s1, c1, v)" "sub_mode c1"
            "f nm es d (n + 1) remaining s1 c1 out1 = Some r"
        by (fastforce simp: Let_def split: if_splits option.splits iresult.splits)
      then show "server_steps cfg w (left_by w i ((the_server w)\<lparr>srv_store := fst (snd r)\<rparr>) (fst (snd (snd r))))"
      proof cases
        case 1
        then show ?thesis using same by simp
      next
        case 2
        then show ?thesis using step by auto
      next
        case 3
        let ?w = "left_by w i ((the_server w)\<lparr>srv_store := s1\<rparr>) c1"
        have "server_steps cfg w ?w" by (rule step [OF 3(1)])
        also have "server_steps cfg ?w (left_by ?w i ((the_server ?w)\<lparr>srv_store := fst (snd r)\<rparr>) (fst (snd (snd r))))"
          by (rule 1(1) [OF 3(3), rule_format]) (use 3(2) in simp)
        finally show ?thesis by simp
      qed
    qed
  qed
  with assms show ?thesis by fastforce
qed

lemma loop_stopped_steps:
  assumes "server_steps cfg w (left_by w i srv c)" "loop_stopped nid ss (buf, srv, c, out, st) = (srv', ss')"
  shows "server_steps cfg w (left_by w i srv' (ss_ctx ss'))"
proof (cases st)
  case (Blocked b)
  then obtain j where b: "block_begin srv b nid = (srv', j)" "ss_ctx ss' = c"
    using assms(2) by (auto simp: loop_stopped_def Let_def split: prod.splits)
  let ?w = "left_by w i srv c"
  have "server_step cfg ?w (?w\<lparr>the_server := fst (block_begin (the_server ?w) b nid)\<rparr>)" by (rule server_step.block)
  moreover have "?w\<lparr>the_server := srv'\<rparr> = left_by w i srv' c" by (simp add: left_by_def set_client_def)
  ultimately have "server_step cfg ?w (left_by w i srv' (ss_ctx ss'))" using b by simp
  with assms(1) show ?thesis by (rule rtranclp.rtrancl_into_rtrancl)
qed (use assms in \<open>auto simp: loop_stopped_def Let_def\<close>)

lemma resume_steps:
  assumes "clients w i = Some c" "block_end e (the_server w) c b j t = (srv1, r)"
    and "map_option (loop_stopped nid ss) (drain_buffer nm rx_open cfg es d n buf srv1 c out) = Some (srv', ss')"
  shows "server_steps cfg w (left_by w i srv' (ss_ctx ss'))"
proof -
  let ?w = "w\<lparr>the_server := fst (block_end e (the_server w) c b j t)\<rparr>"
  obtain buf2 srv2 c2 out2 st where d: "drain_buffer nm rx_open cfg es d n buf srv1 c out = Some (buf2, srv2, c2, out2, st)"
    and stop: "loop_stopped nid ss (buf2, srv2, c2, out2, st) = (srv', ss')" using assms(3) by auto
  have "server_step cfg w ?w" by (rule server_step.unblock [OF assms(1)])
  moreover have "server_steps cfg ?w (left_by ?w i srv2 c2)"
    by (rule drain_buffer_steps [OF d]) (use assms(1,2) in simp_all)
  moreover have "left_by ?w i srv2 c2 = left_by w i srv2 c2" by (simp add: left_by_def)
  ultimately have "server_steps cfg w (left_by w i srv2 c2)" by (metis converse_rtranclp_into_rtranclp)
  then show ?thesis using loop_stopped_steps stop by blast
qed

lemma read_steps:
  assumes "clients w i = Some c"
    and "map_option (loop_stopped nid ss) (on_read nm rx_open cfg es d buf (the_server w) c chunk) = Some (srv', ss')"
  shows "server_steps cfg w (left_by w i srv' (ss_ctx ss'))"
proof -
  obtain buf2 srv2 c2 out2 st where r: "on_read nm rx_open cfg es d buf (the_server w) c chunk = Some (buf2, srv2, c2, out2, st)"
    and stop: "loop_stopped nid ss (buf2, srv2, c2, out2, st) = (srv', ss')" using assms(2) by auto
  have "server_steps cfg w (left_by w i srv2 c2)"
  proof (cases "MAX_QUERY_BUFFER < length (buf @ chunk)")
    case True
    then show ?thesis using r left_by_same [OF assms(1)] by (auto simp: on_read_def)
  next
    case False
    then have "drain_buffer nm rx_open cfg es d 0 (buf @ chunk) (the_server w) c [] = Some (buf2, srv2, c2, out2, st)"
      using r by (simp add: on_read_def)
    then show ?thesis by (rule drain_buffer_steps) (use assms(1) in simp_all)
  qed
  then show ?thesis using loop_stopped_steps stop by blast
qed

lemma session_step_steps:
  assumes "clients w i = Some (ss_ctx ss)"
    and "session_step nm rx_open cfg es d nid ev (the_server w) ss = Some (srv', ss')"
  shows "server_steps cfg w (left_by w i srv' (ss_ctx ss'))"
proof (cases "ss_end ss")
  case Some
  then show ?thesis using assms left_by_same [OF assms(1)] by (auto simp: session_step_def)
next
  case None
  note running = this
  show ?thesis
  proof (cases "ss_wait ss")
    case (Some p)
    obtain b j n mark where p: "p = (b, j, n, mark)" by (cases p)
    show ?thesis
    proof (cases ev)
      case (Resumed t)
      show ?thesis
      proof (cases "may_resume b n mark t (the_server w)")
        case False
        then show ?thesis using assms left_by_same [OF assms(1)] running Some p Resumed by (auto simp: session_step_def)
      next
        case True
        obtain srv1 r where e: "block_end (es 0) (the_server w) (ss_ctx ss) b j t = (srv1, r)" by fastforce
        show ?thesis
          by (rule resume_steps [OF assms(1) e]) (use assms(2) True in \<open>simp add: session_step_def running Some p Resumed e\<close>)
      qed
    qed (use assms left_by_same [OF assms(1)] running Some p in \<open>auto simp: session_step_def\<close>)
  next
    case None
    show ?thesis
    proof (cases ev)
      case (Received chunk)
      show ?thesis
      proof (cases "sub_mode (ss_ctx ss)")
        case True
        then obtain buf s c out where d: "drain_sub nm es d 0 (ss_buf ss @ chunk) (the_store w) (ss_ctx ss) [] = Some (buf, s, c, out)"
          and "srv' = (the_server w)\<lparr>srv_store := s\<rparr>" "ss_ctx ss' = c"
          using assms(2) by (auto simp: session_step_def running None Received)
        then show ?thesis using drain_sub_steps [OF d refl assms(1) True] by simp
      next
        case False
        show ?thesis
          by (rule read_steps [OF assms(1)]) (use assms(2) False in \<open>simp add: session_step_def running None Received\<close>)
      qed
    qed (use assms left_by_same [OF assms(1)] running None in \<open>auto simp: session_step_def\<close>)
  qed
qed

section \<open>Properties\<close>

text \<open>
  C19: A client is answered in order.  However many requests a client puts into one read, and however it groups them, as long as
  no read ends inside a request: the server runs them one after the other, each on what the one before it left, and writes
  exactly one reply for each, in their order.
\<close>

theorem session_answers_in_order:
  assumes "nom_laws nm" "list_all frame_fits (concat gs)" "\<forall>g\<in>set gs. g \<noteq> [] \<and> length (frames g) \<le> MAX_QUERY_BUFFER"
    and "serve rx_open cfg e d (concat gs) srv (connect cfg) = Some (srv', c', out)"
  shows "run_session nm rx_open cfg (\<lambda>_. e) d nid (map (\<lambda>g. Received (frames g)) gs) srv (session_start cfg) =
    Some (srv', (session_start cfg)\<lparr>ss_ctx := c', ss_out := out\<rparr>)"
  using session_frames [OF assms(1-3), of rx_open cfg e d srv "session_start cfg"] assms(4)
  by (simp add: session_start_def connect_def client_context_new_def)

text \<open>
  C20: No client can leave the paths of the server.  Whatever a connection receives, in whatever state the server is: what it does to the
  shared state and to its own is a run of steps of the server's machine, and so keeps everything well formed.
\<close>

theorem session_in_server:
  assumes "server_start nm' es' d' cfg rdb_file aof_file = Some srv0"
    and "server_steps cfg \<lparr>the_server = srv0, clients = (\<lambda>_. None)\<rparr> w" "clients w i = Some (ss_ctx ss)"
    and "session_step nm rx_open cfg es d nid ev (the_server w) ss = Some (srv', ss')"
  shows "server_steps cfg w (left_by w i srv' (ss_ctx ss')) \<and> world_ok cfg (left_by w i srv' (ss_ctx ss'))"
proof
  show steps: "server_steps cfg w (left_by w i srv' (ss_ctx ss'))" by (rule session_step_steps [OF assms(3,4)])
  have "world_ok cfg \<lparr>the_server = srv0, clients = (\<lambda>_. None)\<rparr>" by (rule server_start_ok [OF assms(1)])
  with rtranclp_trans [OF assms(2) steps] show "world_ok cfg (left_by w i srv' (ss_ctx ss'))"
    by (induction rule: rtranclp_induct) (use server_step_ok in blast)+
qed

lemma serve_ping:
  assumes "requirepass cfg = None"
  shows "serve rx_open cfg e (Suc d) (replicate m [''PING'']) srv (connect cfg) =
    Some (srv, connect cfg, concat (replicate m (serialize_response_proto (f64_display e) resp_pong 2)))"
proof -
  have u: "upper ''PING'' = ''PING''" by code_simp
  have c: "connect cfg = client_context_new" using assms by (simp add: connect_def client_context_new_def)
  have ctx: "authenticated client_context_new" "\<not> multi_mode client_context_new" "\<not> sub_mode client_context_new"
    "ctx_block_state client_context_new = None" "protocol client_context_new = 2" by (simp_all add: client_context_new_def)
  have "dispatch (Suc d) ''PING'' e (srv_store srv) client_context_new [] = Some (srv_store srv, client_context_new, resp_pong)"
    by (simp add: dispatch_with_def table_defs is_deny_oom_command_def cmd_ping_def reply_def)
  then have "handle_command rx_open cfg e (Suc d) srv client_context_new [''PING''] = Some (srv, client_context_new, Respond resp_pong)"
    by (simp add: handle_command_def u execute_def log_command_def is_write_command_def ctx del: dispatch.simps)
  then show ?thesis unfolding c by (induction m) (simp_all add: ctx)
qed

lemma ping_frames:
  "frame_fits [''PING'']" "length (frames [[''PING'']]) \<le> MAX_QUERY_BUFFER" "length (frames [[''PING''], [''PING'']]) \<le> MAX_QUERY_BUFFER"
proof -
  have "length (frames [[''PING'']]) \<le> 100" "length (frames [[''PING''], [''PING'']]) \<le> 100" by code_simp+
  then show "frame_fits [''PING'']" "length (frames [[''PING'']]) \<le> MAX_QUERY_BUFFER" "length (frames [[''PING''], [''PING'']]) \<le> MAX_QUERY_BUFFER"
    by (simp_all add: frame_fits_def in_i64_def i64_min_def i64_max_def MAX_QUERY_BUFFER_def)
qed

theorem session_answers_in_order_witness:
  "\<exists>ss. run_session nom_ref (\<lambda>_. True) (default_config None) (\<lambda>_. env0) 1 7
      (map (\<lambda>g. Received (frames g)) [[[''PING''], [''PING'']], [[''PING'']]]) test_server (session_start (default_config None)) =
      Some (test_server, ss) \<and> ss_out ss = ''+PONG'' @ eol @ ''+PONG'' @ eol @ ''+PONG'' @ eol"
proof -
  let ?gs = "[[[''PING''], [''PING'']], [[''PING'']]]" and ?cfg = "default_config None"
  have r: "requirepass ?cfg = None" by (simp add: default_config_def)
  have three: "concat ?gs = replicate 3 [''PING'']" by (simp add: numeral_3_eq_3)
  have pong: "serialize_response_proto (f64_display env0) resp_pong 2 = ''+PONG'' @ eol"
    by (simp add: serialize_response_proto_def resp_pong_def crlf_def eol_def)
  have "serve (\<lambda>_. True) ?cfg env0 (Suc 0) (concat ?gs) test_server (connect ?cfg) =
      Some (test_server, connect ?cfg, concat (replicate 3 (''+PONG'' @ eol)))"
    unfolding three using serve_ping [OF r, of "\<lambda>_. True" env0 0 3 test_server] pong by simp
  from session_answers_in_order [OF nom_laws_ref _ _ this, of 7] ping_frames show ?thesis
    by (simp add: numeral_3_eq_3)
qed

theorem session_in_server_witness:
  "\<exists>srv0 w srv' ss'. server_start nom_ref (\<lambda>_. env0) 1 (default_config None) None None = Some srv0 \<and>
     clients w 0 = Some (ss_ctx (session_start (default_config None))) \<and>
     session_step nom_ref (\<lambda>_. True) (default_config None) (\<lambda>_. env0) 1 7 (Received (frames [[''PING'']])) (the_server w)
       (session_start (default_config None)) = Some (srv', ss') \<and>
     world_ok (default_config None) (left_by w 0 srv' (ss_ctx ss'))"
proof -
  let ?cfg = "default_config None"
  obtain srv where s: "server_start nom_ref (\<lambda>_. env0) 1 ?cfg None None = Some srv"
    by (simp add: server_start_def initial_store_def Let_def)
  let ?start = "\<lparr>the_server = srv, clients = (\<lambda>_. None)\<rparr>" and ?ss = "session_start ?cfg"
  let ?w = "set_client ?start 0 (connect ?cfg)"
  have st: "server_steps ?cfg ?start ?w" by (rule r_into_rtranclp, rule accept) simp
  have c: "clients ?w 0 = Some (ss_ctx ?ss)" by (simp add: set_client_def session_start_def)
  have "requirepass ?cfg = None" by (simp add: default_config_def)
  from serve_ping [OF this, of "\<lambda>_. True" env0 0 1 srv] obtain out where
    v: "serve (\<lambda>_. True) ?cfg env0 (Suc 0) (concat [[[''PING'']]]) srv (ss_ctx ?ss) = Some (srv, connect ?cfg, out)"
    by (simp add: session_start_def del: serve.simps)
  have ss: "ss_buf ?ss = []" "ss_wait ?ss = None" "ss_end ?ss = None" "\<not> sub_mode (ss_ctx ?ss)"
    by (simp_all add: session_start_def connect_def client_context_new_def)
  from session_frames [OF nom_laws_ref _ _ v ss, of 7] ping_frames obtain ss' where
    "session_step nom_ref (\<lambda>_. True) ?cfg (\<lambda>_. env0) 1 7 (Received (frames [[''PING'']])) (the_server ?w) ?ss = Some (srv, ss')"
    by (auto simp: set_client_def bind_eq_Some_conv)
  from session_in_server [OF s st c this] this s c show ?thesis by blast
qed

end
