(* ===== verification/Blocking.thy ===== *)
theory Blocking
  imports Rewrite
begin

text \<open>
  BLPOP and BRPOP across connections: the command that finds nothing (\<open>cmd/list.rs\<close>), the registration and the wait
  (\<open>net/connection.rs\<close>), the push of another client that wakes the waiters (\<open>store/memory.rs\<close>), and the pop of the woken client
  (\<open>unblock_pop\<close>).  Each is a step of its own, and other threads run between them.
\<close>

section \<open>A push to a key that does not exist\<close>

definition pushed :: "store \<Rightarrow> nat \<Rightarrow> bytes \<Rightarrow> bytes \<Rightarrow> store" where
  "pushed s i k x = (put_entry s i k (new_entry (ListV [x])))\<lparr>block_reg := notify (block_reg s) k\<rparr>"

lemma block_reg_put [simp]: "block_reg (put_entry s i k e) = block_reg s"
  by (simp add: put_entry_def set_db_def)

lemma pushed_simps:
  assumes "valid_db s i"
  shows "raw (pushed s i k x) j k' = (if j = i \<and> k' = k then Some (new_entry (ListV [x])) else raw s j k')"
    and "block_reg (pushed s i k x) = notify (block_reg s) k" "valid_db (pushed s i k x) i"
  using stored_put_notify [OF assms, of k "new_entry (ListV [x])"] assms
  by (auto simp: pushed_def stored_def valid_db_def)

lemma dispatch_rpush:
  assumes "ready s c" "raw s (db_index c) k = None"
  shows "dispatch (Suc d) ''RPUSH'' e s c [k, x] = Some (pushed s (db_index c) k x, c, resp_int 1)"
proof (rule dispatch_handler [OF _ rewrite_lookups(2)])
  have "store_rpush s (db_index c) k [x] = (pushed s (db_index c) k x, Inr 1)"
    using fresh_entry [OF assms, of "ListV []"]
    by (simp add: store_rpush_def ready_db [OF assms(1)] Let_def new_entry_def pushed_def)
  then show "cmd_rpush e s c [k, x] = Some (pushed s (db_index c) k x, c, Inr (resp_int 1))"
    by (simp add: cmd_rpush_def args_from_def reply_def)
qed (use assms(1) in \<open>simp_all add: ready_def\<close>)

lemma execute_rpush:
  assumes "ready (srv_store srv) c" "raw (srv_store srv) (db_index c) k = None"
  shows "execute e (Suc d) srv c ''RPUSH'' [k, x] =
    Some (srv\<lparr>srv_store := pushed (srv_store srv) (db_index c) k x\<rparr>, c, Respond (resp_int 1))"
  using dispatch_rpush [OF assms] by (simp add: execute_def del: dispatch.simps)

section \<open>Waiting\<close>

lemma block_begin_store:
  assumes "block_begin srv b n = (srv', i)"
  shows "databases (srv_store srv') = databases (srv_store srv)" "i = next_id (block_reg (srv_store srv))"
    and "block_reg (srv_store srv') = fst (register (block_reg (srv_store srv)) (bs_keys b) n)"
    and "over_memory_limit (srv_store srv') = over_memory_limit (srv_store srv)"
  using assms by (auto simp: block_begin_def register_def Let_def over_memory_limit_def)

lemma raw_databases: "databases s' = databases s \<Longrightarrow> raw s' i k = raw s i k \<and> valid_db s' i = valid_db s i"
  by (simp add: raw_def valid_db_def)

lemma block_begin_ready:
  assumes "block_begin srv b n = (srv', i)"
  shows "ready (srv_store srv') c = ready (srv_store srv) c" "raw (srv_store srv') j k = raw (srv_store srv) j k"
  using block_begin_store [OF assms] raw_databases [of "srv_store srv'" "srv_store srv"] by (simp_all add: ready_def)

text \<open>What a woken client pops: the element of the first of its keys that has one.\<close>

lemma pop_absent:
  assumes "valid_db s i" "raw s i k = None"
  shows "store_lpop_one t s i k = (s, Inr None)" "store_rpop_one t s i k = (s, Inr None)"
  using assms by (simp_all add: store_lpop_one_def store_rpop_one_def entry_mut_def db_valid hm_get_raw)

lemma pop_single:
  assumes "valid_db s i" "raw s i k = Some (new_entry (ListV [x]))"
  shows "store_lpop_one t s i k = (put_entry s i k (new_entry (ListV [])), Inr (Some x))"
    "store_rpop_one t s i k = (put_entry s i k (new_entry (ListV [])), Inr (Some x))"
  using assms by (simp_all add: store_lpop_one_def store_rpop_one_def entry_mut_def db_valid hm_get_raw new_entry_def expired_def)

lemma unblock_pop_single:
  assumes "valid_db s i" "raw s i k = Some (new_entry (ListV [x]))" "k \<in> set ks" "\<forall>k'\<in>set ks. k' \<noteq> k \<longrightarrow> raw s i k' = None"
  shows "unblock_pop t s i ks dir = (put_entry s i k (new_entry (ListV [])), RArray (Some [resp_bulk k, resp_bulk x]))"
  using assms(3,4)
proof (induction ks)
  case (Cons k' ks)
  show ?case
  proof (cases "k' = k")
    case True
    then show ?thesis using pop_single [OF assms(1,2)] by (cases dir) simp_all
  next
    case False
    then show ?thesis using Cons pop_absent [OF assms(1)] by (cases dir) simp_all
  qed
qed simp

lemma unblock_pop_nothing:
  assumes "valid_db s i" "\<forall>k\<in>set ks. raw s i k = None \<or> raw s i k = Some (new_entry (ListV []))"
  shows "unblock_pop t s i ks dir = (s, RArray (Some []))"
  using assms(2)
proof (induction ks)
  case (Cons k ks)
  have "store_lpop_one t s i k = (s, Inr None)" "store_rpop_one t s i k = (s, Inr None)"
    using Cons.prems pop_absent [OF assms(1), of k]
    by (auto simp: store_lpop_one_def store_rpop_one_def entry_mut_def db_valid [OF assms(1)] hm_get_raw [OF assms(1)] new_entry_def expired_def)
  then show ?case using Cons by (cases dir) simp_all
qed simp

section \<open>Properties\<close>

lemma block_end_woken:
  "block_end e srv c b i True =
     (case unblock_pop (now e) ((srv_store srv)\<lparr>block_reg := unregister (block_reg (srv_store srv)) i (bs_keys b)\<rparr>)
        (db_index c) (bs_keys b) (pop_direction b) of (s, r) \<Rightarrow> (srv\<lparr>srv_store := s\<rparr>, r))"
  by (simp add: block_end_def Let_def)

lemma raw_block_reg [simp]: "raw (s\<lparr>block_reg := r\<rparr>) i k = raw s i k" "valid_db (s\<lparr>block_reg := r\<rparr>) i = valid_db s i"
  by (simp_all add: raw_def valid_db_def)

lemma blpop_blocks:
  assumes "ready (srv_store srv) c" "plain c" "raw (srv_store srv) (db_index c) k = None" "arg_i64 t = Some timeout" "timeout \<noteq> 0"
  shows "handle_command rx_open cfg e (Suc d) srv c [''BLPOP'', k, t] =
    Some (srv, c\<lparr>ctx_block_state := None\<rparr>, BlockOn \<lparr>bs_keys = [k], timeout_ms = timeout, pop_direction = PopLeft\<rparr>)"
proof -
  let ?b = "\<lparr>bs_keys = [k], timeout_ms = timeout, pop_direction = PopLeft\<rparr>"
  have u: "upper ''BLPOP'' = ''BLPOP''" by code_simp
  have v: "valid_db (srv_store srv) (db_index c)" using assms(1) by (simp add: ready_def)
  have "cmd_blpop e (srv_store srv) c [k, t] = Some (srv_store srv, c\<lparr>ctx_block_state := Some ?b\<rparr>, Inr resp_ok)"
    using pop_absent [OF v assms(3)] assms(4,5) by (simp add: cmd_blpop_def bpop_def pop_from_def reply_def)
  then have "dispatch (Suc d) ''BLPOP'' e (srv_store srv) c [k, t] = Some (srv_store srv, c\<lparr>ctx_block_state := Some ?b\<rparr>, resp_ok)"
    using assms(1) by (intro dispatch_handler [where a = "- 3" and h = cmd_blpop]) (simp_all add: ready_def table_defs)
  then show ?thesis
    using assms(2) by (simp add: handle_command_def u plain_def execute_def log_command_def is_write_command_def Let_def
        del: dispatch.simps)
qed

lemma pop_empty:
  assumes "list_at t i k s = Some []"
  shows "pop_from dir t s i k = (s, Inr None)"
  using assms
  by (cases dir; cases rule: list_at_Some_cases)
     (auto simp: pop_from_def store_lpop_one_def store_rpop_one_def entry_mut_live)

lemma pop_block_reg: "block_reg (fst (pop_from dir t s i k)) = block_reg s"
  by (cases dir) (auto simp: pop_from_def store_lpop_one_def store_rpop_one_def split: sum.split option.split storage_value.split list.split)

lemma unblock_pop_from: "unblock_pop t s i (key # keys) dir =
     (case pop_from dir t s i key of
        (s', Inr (Some v)) \<Rightarrow> (s', RArray (Some [resp_bulk key, resp_bulk v])) | (s', _) \<Rightarrow> unblock_pop t s' i keys dir)"
  by (induction dir) (simp_all add: pop_from_def)

lemma unblock_pop_first:
  assumes "k \<in> set ks" "\<forall>k'\<in>set ks. k' \<noteq> k \<longrightarrow> list_at t i k' s = Some []" "list_at t i k s = Some xs" "xs \<noteq> []"
  shows "unblock_pop t s i ks dir =
    (fst (pop_from dir t s i k), RArray (Some [resp_bulk k, resp_bulk (case dir of PopLeft \<Rightarrow> hd xs | PopRight \<Rightarrow> last xs)]))"
  using assms(1,2)
proof (induction ks)
  case (Cons k' ks)
  show ?case
  proof (cases "k' = k")
    case True
    obtain s' r where p: "pop_from dir t s i k = (s', r)" by fastforce
    have "r = Inr (Some (case dir of PopLeft \<Rightarrow> hd xs | PopRight \<Rightarrow> last xs))"
      using list_at_lpop(2) [OF assms(3)] list_at_rpop(2) [OF assms(3)] assms(4) p
      by (cases dir) (auto simp: pop_from_def split: list.splits)
    then show ?thesis by (simp add: True unblock_pop_from p del: unblock_pop.simps)
  next
    case False
    then show ?thesis using Cons pop_empty [of t i k' s dir] by (simp add: unblock_pop_from del: unblock_pop.simps)
  qed
qed simp

text \<open>A push of several elements by LPUSH or RPUSH onto a list that a reader sees as empty, whether there is an entry or not.\<close>

lemma execute_push:
  assumes "list_at t (db_index c) k (srv_store srv) = Some []" "\<not> over_memory_limit (srv_store srv)" "name \<in> {''LPUSH'', ''RPUSH''}"
  shows "\<exists>en n. execute e (Suc d) srv c name (k # xs) =
      Some (srv\<lparr>srv_store := (put_entry (srv_store srv) (db_index c) k en)\<lparr>block_reg := notify (block_reg (srv_store srv)) k\<rparr>\<rparr>, c, Respond (resp_int n)) \<and>
    ent_value en = ListV xs \<and> \<not> expired t en"
proof -
  let ?s = "srv_store srv" and ?i = "db_index c"
  let ?e = "(case raw ?s ?i k of Some e \<Rightarrow> e | None \<Rightarrow> new_entry (ListV []))"
  obtain en where en: "ent_value en = ListV xs" "\<not> expired t en"
    "store_lpush ?s ?i k xs = ((put_entry ?s ?i k en)\<lparr>block_reg := notify (block_reg ?s) k\<rparr>, Inr (length xs))"
    "store_rpush ?s ?i k xs = ((put_entry ?s ?i k en)\<lparr>block_reg := notify (block_reg ?s) k\<rparr>, Inr (length xs))"
  proof (rule that [of "?e\<lparr>ent_value := ListV xs\<rparr>"])
    have "valid_db ?s ?i" "ent_value ?e = ListV []" "\<not> expired t ?e"
      using assms(1) by (cases rule: list_at_Some_cases; simp add: new_entry_def expired_def)+
    then show "store_lpush ?s ?i k xs = ((put_entry ?s ?i k (?e\<lparr>ent_value := ListV xs\<rparr>))\<lparr>block_reg := notify (block_reg ?s) k\<rparr>, Inr (length xs))"
      "store_rpush ?s ?i k xs = ((put_entry ?s ?i k (?e\<lparr>ent_value := ListV xs\<rparr>))\<lparr>block_reg := notify (block_reg ?s) k\<rparr>, Inr (length xs))"
      "\<not> expired t (?e\<lparr>ent_value := ListV xs\<rparr>)"
      by (simp_all add: store_lpush_def store_rpush_def db_valid entry_or_insert_raw Let_def foldl_snoc foldl_Cons_rev expired_def)
  qed simp
  let ?h = "if name = ''LPUSH'' then cmd_lpush else cmd_rpush"
  have "map_of (command_table (dispatch d)) ''LPUSH'' = Some (- 3, cmd_lpush)" by (simp add: table_defs)
  then have "map_of (command_table (dispatch d)) name = Some (- 3, ?h)" using assms(3) rewrite_lookups(2) by fastforce
  moreover have "?h e ?s c (k # xs) = Some ((put_entry ?s ?i k en)\<lparr>block_reg := notify (block_reg ?s) k\<rparr>, c, Inr (resp_int (length xs)))"
    using en(3,4) by (simp add: cmd_lpush_def cmd_rpush_def args_from_def reply_def)
  ultimately have "dispatch (Suc d) name e ?s c (k # xs) =
      Some ((put_entry ?s ?i k en)\<lparr>block_reg := notify (block_reg ?s) k\<rparr>, c, resp_int (length xs))"
    using assms(2) by (intro dispatch_handler [where a = "- 3" and h = ?h]) simp_all
  then show ?thesis using en(1,2) assms(3) by (auto simp: execute_def simp del: dispatch.simps)
qed

text \<open>
  C21: A blocked client gets what is pushed.  A client has registered for keys that have no elements, the entries being absent or empty, and listens; then another
  client pushes elements to one of them, from either side.  The client is notified, and when it runs it is answered with the key and the
  element at its end of the list; the other elements stay, and the client is no longer registered for any of its keys.
\<close>

theorem blocked_pop_served:
  assumes "block_begin srv b n = (srv1, i)" "listen srv1 = mark"
    and "\<forall>k'\<in>set (bs_keys b). list_at (now e') (db_index c) k' (srv_store srv1) = Some []" "k \<in> set (bs_keys b)"
    and "db_index c' = db_index c" "\<not> over_memory_limit (srv_store srv1)" "name \<in> {''LPUSH'', ''RPUSH''}" "xs \<noteq> []"
    and "execute e (Suc d) srv1 c' name (k # xs) = Some (srv2, c'', a)"
  shows "notified mark n srv2 \<and>
    (\<exists>srv3. block_end e' srv2 c b i (notified mark n srv2) =
         (srv3, RArray (Some [resp_bulk k, resp_bulk (case pop_direction b of PopLeft \<Rightarrow> hd xs | PopRight \<Rightarrow> last xs)])) \<and>
       list_at (now e') (db_index c) k (srv_store srv3) = Some (case pop_direction b of PopLeft \<Rightarrow> tl xs | PopRight \<Rightarrow> butlast xs) \<and>
       (\<forall>k'\<in>set (bs_keys b). i \<notin> fst ` set (waiters_of (block_reg (srv_store srv3)) k')))"
proof -
  let ?i = "db_index c" and ?s1 = "srv_store srv1" and ?t = "now e'"
  have v: "valid_db ?s1 ?i" using assms(3,4) by (auto simp: list_at_def split: if_splits)
  from execute_push [of ?t c' k srv1 name e d xs] assms(3-7,9) obtain en where
    srv2: "srv2 = srv1\<lparr>srv_store := (put_entry ?s1 ?i k en)\<lparr>block_reg := notify (block_reg ?s1) k\<rparr>\<rparr>" and en: "ent_value en = ListV xs" "\<not> expired ?t en"
    by auto
  have "0 < count_list (bs_keys b) k" using assms(4) by (metis count_list_0_iff neq0_conv)
  then have hit: "notified mark n srv2"
    using block_begin_store(3) [OF assms(1)] assms(2) by (auto simp: srv2 notified_def listen_def woken_notify waiters_of_register)
  define s where "s = (put_entry ?s1 ?i k en)\<lparr>block_reg := unregister (notify (block_reg ?s1) k) i (bs_keys b)\<rparr>"
  have at: "list_at ?t ?i k s = Some xs" "\<forall>k'\<in>set (bs_keys b). k' \<noteq> k \<longrightarrow> list_at ?t ?i k' s = Some []"
    using v en assms(3) by (auto simp: s_def list_at_def lookup_simps valid_db_def)
  have "block_end e' srv2 c b i True = (srv2\<lparr>srv_store := fst (pop_from (pop_direction b) ?t s ?i k)\<rparr>,
      RArray (Some [resp_bulk k, resp_bulk (case pop_direction b of PopLeft \<Rightarrow> hd xs | PopRight \<Rightarrow> last xs)]))"
    unfolding block_end_woken using unblock_pop_first [OF assms(4) at(2,1) assms(8), of "pop_direction b"] by (simp add: srv2 s_def)
  moreover have "list_at ?t ?i k (fst (pop_from (pop_direction b) ?t s ?i k)) = Some (case pop_direction b of PopLeft \<Rightarrow> tl xs | PopRight \<Rightarrow> butlast xs)"
    using list_at_lpop(1) [OF at(1)] list_at_rpop(1) [OF at(1)] by (cases "pop_direction b") (simp_all add: pop_from_def)
  moreover have "\<forall>k'\<in>set (bs_keys b). i \<notin> fst ` set (waiters_of (block_reg (fst (pop_from (pop_direction b) ?t s ?i k))) k')"
    by (auto simp: pop_block_reg s_def waiters_of_unregister)
  ultimately show ?thesis using hit by simp
qed

text \<open>
  A push between the registration and the wait is not heard.  The client is registered but has not called \<open>notified()\<close> when the push comes: the push takes
  it off the registry and wakes nobody, so no later push to the key reaches it, with the elements in the list.
\<close>

theorem unheard_wakeup:
  assumes "block_begin srv b n = (srv1, i)"
    and "list_at t (db_index c') k (srv_store srv1) = Some []" "\<not> over_memory_limit (srv_store srv1)" "name \<in> {''LPUSH'', ''RPUSH''}"
    and "execute e (Suc d) srv1 c' name (k # xs) = Some (srv2, c'', a)"
  shows "\<not> notified (listen srv2) n srv2 \<and> waiters_of (block_reg (srv_store srv2)) k = [] \<and>
    list_at t (db_index c') k (srv_store srv2) = Some xs"
proof -
  have v: "valid_db (srv_store srv1) (db_index c')" using assms(2) by (auto simp: list_at_def split: if_splits)
  from execute_push [OF assms(2-4), of e d xs] assms(5) obtain en where
    "srv2 = srv1\<lparr>srv_store := (put_entry (srv_store srv1) (db_index c') k en)\<lparr>block_reg := notify (block_reg (srv_store srv1)) k\<rparr>\<rparr>"
    "ent_value en = ListV xs" "\<not> expired t en" by auto
  then show ?thesis using v by (auto simp: notified_def listen_def waiters_of_notify list_at_def lookup_simps)
qed

text \<open>
  C33: A push between the check and the registration is missed.  A client runs BLPOP on a key without elements; before its connection registers, another
  client pushes an element.  The push wakes nobody, and the client is registered and waits, with the element it asked for in the list.
\<close>

theorem lost_wakeup:
  assumes "ready (srv_store srv) c" "plain c" "raw (srv_store srv) (db_index c) k = None" "waiters_of (block_reg (srv_store srv)) k = []"
    and "arg_i64 t = Some timeout" "timeout \<noteq> 0" "db_index c' = db_index c"
    and "handle_command rx_open cfg e (Suc d) srv c [''BLPOP'', k, t] = Some (srv1, c1, act)"
    and "execute e (Suc d) srv1 c' ''RPUSH'' [k, x] = Some (srv2, c2, a2)"
    and "block_begin srv2 b n = (srv3, i)" "act = BlockOn b"
  shows "raw (srv_store srv3) (db_index c) k = Some (new_entry (ListV [x])) \<and>
    woken (block_reg (srv_store srv3)) = woken (block_reg (srv_store srv)) \<and> (i, n) \<in> set (waiters_of (block_reg (srv_store srv3)) k)"
proof -
  let ?b = "\<lparr>bs_keys = [k], timeout_ms = timeout, pop_direction = PopLeft\<rparr>" and ?i = "db_index c"
  have v: "valid_db (srv_store srv) ?i" using assms(1) by (simp add: ready_def)
  have h: "srv1 = srv" "act = BlockOn ?b" using blpop_blocks [OF assms(1-3,5,6)] assms(8) by simp_all
  have ready: "ready (srv_store srv) c'" using assms(1,7) by (simp add: ready_def)
  have srv2: "srv2 = srv\<lparr>srv_store := pushed (srv_store srv) ?i k x\<rparr>"
    using execute_rpush [OF ready] assms(3,7,9) h(1) by simp
  note s2 = pushed_simps [OF v, of k x] and beg = block_begin_ready [OF assms(10)] block_begin_store [OF assms(10)]
  have b: "bs_keys b = [k]" using h(2) assms(11) by simp
  have "waiters_of (block_reg (srv_store srv2)) k = []" "woken (block_reg (srv_store srv2)) = woken (block_reg (srv_store srv))"
    using s2(2) assms(4) by (simp_all add: srv2 waiters_of_notify woken_notify)
  then have "(i, n) \<in> set (waiters_of (block_reg (srv_store srv3)) k)" "woken (block_reg (srv_store srv3)) = woken (block_reg (srv_store srv))"
    using beg(4,5) by (simp_all add: b waiters_of_register) (simp add: register_def Let_def)
  then show ?thesis using beg(2) s2(1) by (simp add: srv2)
qed

text \<open>
  One element wakes every waiter.  Two clients wait for the same key and one element is pushed; both are woken.  The one that runs first gets the
  element; the other, which should go on waiting until its time is up, is answered with an empty array at once.
\<close>

theorem second_waiter_sent_away:
  assumes "ready (srv_store srv) c1" "raw (srv_store srv) (db_index c1) k = None" "bs_keys b1 = [k]" "bs_keys b2 = [k]"
    and "db_index c2 = db_index c1" "db_index c' = db_index c1"
    and "block_begin srv b1 n1 = (srv1, i1)" "block_begin srv1 b2 n2 = (srv2, i2)"
    and "execute e (Suc d) srv2 c' ''RPUSH'' [k, x] = Some (srv3, c3, a3)"
    and "block_end e1 srv3 c1 b1 i1 True = (srv4, r1)" "block_end e2 srv4 c2 b2 i2 True = (srv5, r2)"
  shows "{n1, n2} \<subseteq> set (woken (block_reg (srv_store srv3))) \<and>
    r1 = RArray (Some [resp_bulk k, resp_bulk x]) \<and> r2 = RArray (Some [])"
proof -
  let ?i = "db_index c1" and ?s2 = "srv_store srv2"
  note A = block_begin_ready [OF assms(7)] block_begin_store [OF assms(7)]
  note B = block_begin_ready [OF assms(8)] block_begin_store [OF assms(8)]
  have ready: "ready ?s2 c'" using A(1) B(1) assms(1,6) by (simp add: ready_def)
  then have v: "valid_db ?s2 ?i" using assms(6) by (simp add: ready_def)
  have srv3: "srv3 = srv2\<lparr>srv_store := pushed ?s2 ?i k x\<rparr>"
    using execute_rpush [OF ready] A(2) B(2) assms(2,6,9) by simp
  note s3 = pushed_simps [OF v, of k x]
  have "{n1, n2} \<subseteq> set (woken (block_reg (srv_store srv3)))"
    using s3(2) by (auto simp: srv3 woken_notify A(5) B(5) waiters_of_register assms(3,4))
  moreover let ?s = "(pushed ?s2 ?i k x)\<lparr>block_reg := unregister (notify (block_reg ?s2) k) i1 [k]\<rparr>"
  have pop: "unblock_pop (now e1) ?s ?i [k] (pop_direction b1) =
      (put_entry ?s ?i k (new_entry (ListV [])), RArray (Some [resp_bulk k, resp_bulk x]))"
    by (rule unblock_pop_single) (use s3(1,3) in auto)
  have "r1 = RArray (Some [resp_bulk k, resp_bulk x])" and srv4: "srv4 = srv3\<lparr>srv_store := put_entry ?s ?i k (new_entry (ListV []))\<rparr>"
    using assms(10) pop s3(2) unfolding block_end_woken by (simp_all add: srv3 assms(3))
  moreover let ?t = "(put_entry ?s ?i k (new_entry (ListV [])))\<lparr>block_reg := unregister (block_reg (srv_store srv4)) i2 [k]\<rparr>"
  have "unblock_pop (now e2) ?t ?i [k] (pop_direction b2) = (?t, RArray (Some []))"
    by (rule unblock_pop_nothing) (use s3(3) in \<open>simp_all add: lookup_simps\<close>)
  then have "r2 = RArray (Some [])"
    using assms(11) unfolding block_end_woken by (simp add: srv4 assms(4,5))
  ultimately show ?thesis by simp
qed

text \<open>Witnesses: a server with one database, and a client that waits in it.\<close>

lemma waiting_room:
  "ready (srv_store test_server) client_context_new" "raw (srv_store test_server) i k = None"
  "waiters_of (block_reg (srv_store test_server)) k = []" "plain client_context_new"
  by (simp_all add: ready_def test_server_def over_memory_limit_def store_new_def valid_db_def client_context_new_def raw_def
      waiters_of_def block_registry_new_def plain_def)

lemma test_push:
  assumes "databases (srv_store srv) = databases (srv_store test_server)" "\<not> over_memory_limit (srv_store srv)"
  shows "\<exists>srv'. execute env0 (Suc 0) srv client_context_new ''RPUSH'' [k, x] = Some (srv', client_context_new, Respond (resp_int 1))"
proof -
  have "ready (srv_store srv) client_context_new" "raw (srv_store srv) (db_index client_context_new) k = None"
    using assms raw_databases [OF assms(1)] waiting_room(1,2) by (simp_all add: ready_def)
  from execute_rpush [OF this] show ?thesis by blast
qed

theorem blocked_pop_served_witness:
  "\<exists>srv1 i srv2 c'' a srv3. block_begin test_server \<lparr>bs_keys = [''j'', ''k''], timeout_ms = 9, pop_direction = PopRight\<rparr> 5 = (srv1, i) \<and>
     execute env0 1 srv1 client_context_new ''RPUSH'' [''k'', ''x'', ''y''] = Some (srv2, c'', a) \<and>
     notified (listen srv1) 5 srv2 \<and>
     block_end env0 srv2 client_context_new \<lparr>bs_keys = [''j'', ''k''], timeout_ms = 9, pop_direction = PopRight\<rparr> i True =
       (srv3, RArray (Some [resp_bulk ''k'', resp_bulk ''y''])) \<and>
     list_at 1000 0 ''k'' (srv_store srv3) = Some [''x'']"
proof -
  let ?b = "\<lparr>bs_keys = [''j'', ''k''], timeout_ms = 9, pop_direction = PopRight\<rparr>" and ?c = client_context_new
  obtain srv1 i where b: "block_begin test_server ?b 5 = (srv1, i)" by fastforce
  have c: "db_index ?c = 0" "now env0 = 1000" by (simp_all add: client_context_new_def env0_def)
  have mem: "\<not> over_memory_limit (srv_store srv1)" using block_begin_store [OF b] waiting_room(1) by (simp add: ready_def)
  have v: "valid_db (srv_store srv1) 0" using block_begin_ready(1) [OF b, of ?c] waiting_room(1) c by (simp add: ready_def)
  then have at: "list_at t 0 k (srv_store srv1) = Some []" for t k
    using block_begin_ready(2) [OF b] waiting_room(2) by (simp add: list_at_def)
  obtain srv2 n where p: "execute env0 (Suc 0) srv1 ?c ''RPUSH'' [''k'', ''x'', ''y''] = Some (srv2, ?c, n)"
    using execute_push [of 0 ?c "''k''" srv1 "''RPUSH''" env0 0 "[''x'', ''y'']"] at mem c by (auto simp del: dispatch.simps)
  from blocked_pop_served [OF b refl _ _ refl mem _ _ p, of env0] at c b p show ?thesis by (auto simp del: dispatch.simps)
qed

theorem lost_wakeup_witness:
  "\<exists>srv1 c1 b srv2 c2 a2 srv3 i.
     handle_command (\<lambda>_. True) (default_config None) env0 1 test_server client_context_new [''BLPOP'', ''k'', ''9''] = Some (srv1, c1, BlockOn b) \<and>
     execute env0 1 srv1 client_context_new ''RPUSH'' [''k'', ''x''] = Some (srv2, c2, a2) \<and> block_begin srv2 b 5 = (srv3, i) \<and>
     raw (srv_store srv3) 0 ''k'' = Some (new_entry (ListV [''x''])) \<and> woken (block_reg (srv_store srv3)) = []"
proof -
  let ?b = "\<lparr>bs_keys = [''k''], timeout_ms = 9, pop_direction = PopLeft\<rparr>" and ?c = client_context_new
  have t: "arg_i64 ''9'' = Some 9" by code_simp
  have h: "handle_command (\<lambda>_. True) (default_config None) env0 (Suc 0) test_server ?c [''BLPOP'', ''k'', ''9''] =
      Some (test_server, ?c\<lparr>ctx_block_state := None\<rparr>, BlockOn ?b)"
    by (rule blpop_blocks [OF waiting_room(1,4) waiting_room(2) t]) simp
  obtain srv2 a where p: "execute env0 (Suc 0) test_server ?c ''RPUSH'' [''k'', ''x''] = Some (srv2, ?c, a)"
    using test_push [OF refl, of "''k''" "''x''"] waiting_room(1) unfolding ready_def by blast
  obtain srv3 i where b: "block_begin srv2 ?b 5 = (srv3, i)" by fastforce
  have "db_index ?c = 0" "woken (block_reg (srv_store test_server)) = []"
    by (simp_all add: client_context_new_def test_server_def store_new_def block_registry_new_def)
  with lost_wakeup [OF waiting_room(1,4) waiting_room(2,3) t _ refl h p b refl] h p b show ?thesis
    by (auto simp del: dispatch.simps)
qed

theorem second_waiter_sent_away_witness:
  "\<exists>srv1 i1 srv2 i2 srv3 c3 a3 srv4 r1 srv5. block_begin test_server \<lparr>bs_keys = [''k''], timeout_ms = 9, pop_direction = PopLeft\<rparr> 5 = (srv1, i1) \<and>
     block_begin srv1 \<lparr>bs_keys = [''k''], timeout_ms = 9, pop_direction = PopLeft\<rparr> 6 = (srv2, i2) \<and>
     execute env0 1 srv2 client_context_new ''RPUSH'' [''k'', ''x''] = Some (srv3, c3, a3) \<and>
     block_end env0 srv3 client_context_new \<lparr>bs_keys = [''k''], timeout_ms = 9, pop_direction = PopLeft\<rparr> i1 True = (srv4, r1) \<and>
     block_end env0 srv4 client_context_new \<lparr>bs_keys = [''k''], timeout_ms = 9, pop_direction = PopLeft\<rparr> i2 True = (srv5, RArray (Some []))"
proof -
  let ?b = "\<lparr>bs_keys = [''k''], timeout_ms = 9, pop_direction = PopLeft\<rparr>" and ?c = client_context_new
  obtain srv1 i1 where 1: "block_begin test_server ?b 5 = (srv1, i1)" by fastforce
  obtain srv2 i2 where 2: "block_begin srv1 ?b 6 = (srv2, i2)" by fastforce
  have "databases (srv_store srv2) = databases (srv_store test_server)" "\<not> over_memory_limit (srv_store srv2)"
    using block_begin_store [OF 1] block_begin_store [OF 2] waiting_room(1) by (simp_all add: ready_def)
  from test_push [OF this] obtain srv3 a where p: "execute env0 (Suc 0) srv2 ?c ''RPUSH'' [''k'', ''x''] = Some (srv3, ?c, a)" by blast
  obtain srv4 r1 where 4: "block_end env0 srv3 ?c ?b i1 True = (srv4, r1)" by fastforce
  obtain srv5 r2 where 5: "block_end env0 srv4 ?c ?b i2 True = (srv5, r2)" by fastforce
  from second_waiter_sent_away [OF waiting_room(1,2) _ _ refl refl 1 2 p 4 5] 1 2 p 4 5 show ?thesis
    by (simp del: dispatch.simps)
qed

end
