(* ===== verification/Shard.thy ===== *)
theory Shard
  imports Server AofFile
begin

text \<open>
  \<open>shard/mod.rs\<close>, \<open>net/listener.rs\<close> and \<open>net/tls.rs\<close>: how accepted connections reach the threads that serve them, and what each is
  served with.  A shard is the queue of its channel; its thread takes the connections from it in order and
  runs each as a task on its own, so that the steps of the connections interleave as in \<open>Server\<close>.

  \<open>DefaultHasher\<close> is the parameter \<open>hash\<close>; the readers of PEM files and of key pairs are parameters of
  \<open>load_tls_config\<close>.
\<close>

section \<open>Shards\<close>

record 'c shard_handle =
  sh_index :: nat
  sh_queue :: "'c list"

definition sharded_server_new :: "nat \<Rightarrow> 'c shard_handle list" where
  "sharded_server_new num_shards = map (\<lambda>i. \<lparr>sh_index = i, sh_queue = []\<rparr>) [0..<num_shards]"

text \<open>The shard of an address; \<^term>\<open>None\<close> is the panic of a remainder by zero.\<close>

definition shard_idx :: "('a \<Rightarrow> u64) \<Rightarrow> 'a \<Rightarrow> 'c shard_handle list \<Rightarrow> nat option" where
  "shard_idx hash addr shards = (if shards = [] then None else Some (unat (hash addr) mod length shards))"

definition send_to :: "'c \<Rightarrow> 'c shard_handle \<Rightarrow> 'c shard_handle" where
  "send_to x sh = sh\<lparr>sh_queue := sh_queue sh @ [x]\<rparr>"

fun accept_loop ::
  "('a \<Rightarrow> u64) \<Rightarrow> ('s \<times> 'a) list \<Rightarrow> ('s \<times> 'a) shard_handle list \<Rightarrow> ('s \<times> 'a) shard_handle list option" where
  "accept_loop hash [] shards = Some shards"
| "accept_loop hash ((socket, addr) # rest) shards =
     (case shard_idx hash addr shards of
        None \<Rightarrow> None
      | Some i \<Rightarrow> accept_loop hash rest (shards[i := send_to (socket, addr) (shards ! i)]))"

section \<open>What a connection is served with\<close>

text \<open>
  The arguments of \<open>connection::handle\<close>: the store and the backlog are those of the server; the writer of the append-only
  file is passed on by the shards and by the plain listener, and left out by the TLS listener.
\<close>

definition tls_view :: "server \<Rightarrow> server" where
  "tls_view srv = srv\<lparr>srv_aof := None\<rparr>"

text \<open>The TLS listener: a socket whose handshake fails is dropped and the loop goes on.\<close>

fun tls_accept_loop :: "('s \<Rightarrow> 't option) \<Rightarrow> server \<Rightarrow> 's list \<Rightarrow> ('t \<times> server) list" where
  "tls_accept_loop accept srv [] = []"
| "tls_accept_loop accept srv (socket # rest) =
     (case accept socket of
        Some tls_stream \<Rightarrow> (tls_stream, srv) # tls_accept_loop accept srv rest
      | None \<Rightarrow> tls_accept_loop accept srv rest)"

section \<open>Certificates\<close>

datatype tls_error = CertUnreadable | CertUnparsable | NoCertificate | KeyUnreadable | KeyUnparsable | NoKey | InvalidPair

definition load_tls_config ::
  "disk \<Rightarrow> (bytes \<Rightarrow> 'cert list option) \<Rightarrow> (bytes \<Rightarrow> 'key option option) \<Rightarrow> ('cert list \<Rightarrow> 'key \<Rightarrow> 'conf option) \<Rightarrow>
   bytes \<Rightarrow> bytes \<Rightarrow> tls_error + 'conf" where
  "load_tls_config d certs private_key with_single_cert cert_path key_path =
     (case read_file d cert_path of
        None \<Rightarrow> Inl CertUnreadable
      | Some pem \<Rightarrow>
          (case certs pem of
             None \<Rightarrow> Inl CertUnparsable
           | Some [] \<Rightarrow> Inl NoCertificate
           | Some cs \<Rightarrow>
               (case read_file d key_path of
                  None \<Rightarrow> Inl KeyUnreadable
                | Some kpem \<Rightarrow>
                    (case private_key kpem of
                       None \<Rightarrow> Inl KeyUnparsable
                     | Some None \<Rightarrow> Inl NoKey
                     | Some (Some key) \<Rightarrow>
                         (case with_single_cert cs key of None \<Rightarrow> Inl InvalidPair | Some conf \<Rightarrow> Inr conf)))))"

section \<open>Properties\<close>

lemma accept_loop_queues:
  assumes "length shards = n" "0 < n"
  shows "\<exists>shards'. accept_loop hash conns shards = Some shards' \<and> length shards' = n \<and>
     (\<forall>i<n. sh_index (shards' ! i) = sh_index (shards ! i) \<and>
        sh_queue (shards' ! i) = sh_queue (shards ! i) @ filter (\<lambda>c. unat (hash (snd c)) mod n = i) conns)"
  using assms(1)
proof (induction conns arbitrary: shards)
  case (Cons c conns)
  obtain socket addr where c: "c = (socket, addr)" by fastforce
  let ?i = "unat (hash addr) mod n" and ?sh = "shards[unat (hash addr) mod n := send_to c (shards ! (unat (hash addr) mod n))]"
  have i: "?i < n" using assms(2) by simp
  have step: "accept_loop hash (c # conns) shards = accept_loop hash conns ?sh"
    using Cons.prems assms(2) by (auto simp: c shard_idx_def)
  have "length ?sh = n" using Cons.prems by simp
  from Cons.IH [OF this] obtain shards' where s: "accept_loop hash conns ?sh = Some shards'" "length shards' = n"
    "\<forall>j<n. sh_index (shards' ! j) = sh_index (?sh ! j) \<and>
        sh_queue (shards' ! j) = sh_queue (?sh ! j) @ filter (\<lambda>c. unat (hash (snd c)) mod n = j) conns" by blast
  moreover have "sh_index (?sh ! j) = sh_index (shards ! j)"
    "sh_queue (?sh ! j) = sh_queue (shards ! j) @ (if ?i = j then [c] else [])" if "j < n" for j
    using that i Cons.prems by (simp_all add: send_to_def nth_list_update)
  ultimately show ?case unfolding step by (intro exI [of _ shards']) (simp add: c)
qed simp

text \<open>
  Every accepted connection is served by one shard.  With at least one shard the loop never fails, and
  the queue of each shard is, in the order of acceptance, exactly the connections whose address belongs to it; with no
  shards, which \<open>cthreads 0\<close> asks for, the first connection takes the server down.
\<close>

theorem connections_reach_one_shard:
  "(0 < n \<longrightarrow> (\<exists>shards. accept_loop hash conns (sharded_server_new n) = Some shards \<and> length shards = n \<and>
      (\<forall>i<n. sh_index (shards ! i) = i \<and>
         sh_queue (shards ! i) = filter (\<lambda>c. unat (hash (snd c)) mod n = i) conns))) \<and>
   (conns \<noteq> [] \<longrightarrow> accept_loop hash conns (sharded_server_new 0) = None)"
proof (intro conjI impI)
  assume n: "0 < n"
  have "length (sharded_server_new n) = n" by (simp add: sharded_server_new_def)
  from accept_loop_queues [OF this n, of hash conns]
  show "\<exists>shards. accept_loop hash conns (sharded_server_new n) = Some shards \<and> length shards = n \<and>
      (\<forall>i<n. sh_index (shards ! i) = i \<and>
         sh_queue (shards ! i) = filter (\<lambda>c. unat (hash (snd c)) mod n = i) conns)"
    by (simp add: sharded_server_new_def)
next
  assume "conns \<noteq> []"
  then show "accept_loop hash conns (sharded_server_new 0) = None"
    by (cases conns) (auto simp: sharded_server_new_def shard_idx_def)
qed

theorem connections_reach_one_shard_witness:
  "\<exists>shards. accept_loop (\<lambda>a. a) [(''s'', 5), (''t'', 2), (''u'', 7 :: u64)] (sharded_server_new 2) = Some shards \<and>
     sh_queue (shards ! 1) = [(''s'', 5), (''u'', 7)]"
  using connections_reach_one_shard [of 2 "\<lambda>a. a" "[(''s'', 5), (''t'', 2), (''u'', 7 :: u64)]", THEN conjunct1]
  by fastforce

text \<open>
  Writes over TLS are not durable.  Whatever commands a TLS client sends, none is logged: the connection has no file
  to append to, and a rewrite it asks for is refused.
\<close>

lemma log_command_no_aof: "srv_aof srv = None \<Longrightarrow> log_command rx_open srv name args = Some srv' \<Longrightarrow> srv_aof srv' = None"
  by (auto simp: log_command_def Let_def split: if_splits option.splits)

lemma handle_command_no_aof:
  assumes "srv_aof srv = None" "handle_command rx_open cfg e d srv c args = Some (srv', c', a)"
  shows "srv_aof srv' = None"
  using assms(2)
proof (cases rule: handle_command_cases)
  case (run srv1 c1 act)
  have "srv_aof srv1 = None" using run(1) assms(1) by (auto simp: execute_def split: if_splits)
  then show ?thesis using log_command_no_aof run(2) by blast
qed (use assms(1) in simp_all)

lemma tls_served: "(t, s) \<in> set (tls_accept_loop accept srv sockets) \<Longrightarrow> s = srv"
  by (induction sockets) (auto split: option.splits)

theorem tls_writes_not_logged:
  assumes "(t, s) \<in> set (tls_accept_loop accept (tls_view srv) sockets)"
    and "run_commands rx_open cfg es d n cmds s c = Some (srv', c', as)"
  shows "srv_aof srv' = None"
proof -
  have "srv_aof s = None \<Longrightarrow> run_commands rx_open cfg es d n cmds s c = Some (s', c', as) \<Longrightarrow> srv_aof s' = None" for s s' c c' n as
  proof (induction cmds arbitrary: s c n as)
    case (Cons args cmds)
    from Cons.prems(2) obtain s1 c1 a where h: "handle_command rx_open cfg (es n) d s c args = Some (s1, c1, a)"
      by (auto split: option.splits)
    have s1: "srv_aof s1 = None" by (rule handle_command_no_aof [OF Cons.prems(1) h])
    show ?case
    proof (cases "stops a")
      case True
      then show ?thesis using Cons.prems(2) h s1 by simp
    next
      case False
      then obtain as' where "run_commands rx_open cfg es d (n + 1) cmds s1 c1 = Some (s', c', as')"
        using Cons.prems(2) h by auto
      from Cons.IH [OF s1 this] show ?thesis .
    qed
  qed simp
  from this [OF _ assms(2)] tls_served [OF assms(1)] show ?thesis by (simp add: tls_view_def)
qed

end
