(* ===== verification/Startup.thy ===== *)
theory Startup
  imports Shard
begin

text \<open>
  \<open>server.rs\<close>, the function \<open>run\<close>, and \<open>bgsave\<close> of \<open>persist/rdb.rs\<close>: what the server does with its files when it starts and stops, and
  which tasks, threads and listeners it starts.  Sockets are the parameter \<open>bind_ok\<close>, which addresses can be bound; the
  clock that names a database's time of saving is a parameter, as in \<open>Rdb\<close>.
\<close>

section \<open>Files of the server\<close>

definition rdb_path :: "server_config \<Rightarrow> bytes" where
  "rdb_path cfg = cfg_dir cfg @ ''/'' @ dbfilename cfg"

definition aof_path :: "server_config \<Rightarrow> bytes" where
  "aof_path cfg = cfg_dir cfg @ ''/'' @ ''appendonly.aof''"

text \<open>The numbers of temporary files: a counter of the process.\<close>

definition unique_temp_id :: "u64 \<Rightarrow> u64 \<times> u64" where
  "unique_temp_id cnt = (cnt + 1, cnt)"

definition temp_path :: "server_config \<Rightarrow> nat \<Rightarrow> u64 \<Rightarrow> bytes" where
  "temp_path cfg pid uid =
     cfg_dir cfg @ ''/temp-'' @ nat_to_string pid @ ''-'' @ nat_to_string (unat uid) @ ''.rdb''"

text \<open>\<open>bgsave\<close>: the snapshot is written under a temporary name and then renamed.\<close>

definition bgsave :: "io \<Rightarrow> server_config \<Rightarrow> nat \<Rightarrow> u64 \<Rightarrow> (nat \<Rightarrow> u64) \<Rightarrow> store \<Rightarrow> disk \<Rightarrow> disk \<times> bool" where
  "bgsave io cfg pid uid clock s d =
     (case save_rdb clock s (length (databases s)) of
        Inl err \<Rightarrow> (d, False)
      | Inr data \<Rightarrow>
          (if io CreateTmp \<noteq> None then (d, False)
           else case create_file d (temp_path cfg pid uid) of
             (d1, i) \<Rightarrow>
               (case io WriteTmp of
                  Some n \<Rightarrow> (write_all d1 i (take n data), False)
                | None \<Rightarrow>
                    (if io RenameCall \<noteq> None then (write_all d1 i data, False)
                     else (rename_file (write_all d1 i data) (temp_path cfg pid uid) (rdb_path cfg), True)))))"

section \<open>Start\<close>

definition fsync_policy_of :: "server_config \<Rightarrow> fsync_policy" where
  "fsync_policy_of cfg =
     (if appendfsync cfg = ''always'' then Always else if appendfsync cfg = ''no'' then FsyncNo else EverySec)"

text \<open>\<open>replicaof host port\<close>: a port that is missing or does not parse is 6379.\<close>

definition replica_target :: "bytes \<Rightarrow> bytes \<times> nat" where
  "replica_target value =
     (let parts = splitn2 (CHR '' '') value
      in (hd parts, if 1 < length parts then unwrap_or (parse_bounded 65535 (parts ! 1)) 6379 else 6379))"

datatype task =
    FsyncTask
  | InitialSave
  | ExpiryTask
  | MemoryTask
  | AutoSave
  | ReplicaTask bytes nat
  | Shards nat
  | TlsListener bytes
  | ClusterBus bytes

datatype boot_error = AofOpenFailed | BindFailed bytes | TlsFailed tls_error

definition socket_addr :: "server_config \<Rightarrow> nat \<Rightarrow> bytes" where
  "socket_addr cfg p = bind_address cfg @ '':'' @ nat_to_string p"

text \<open>The tasks that are spawned before the port is bound.\<close>

definition early_tasks :: "server_config \<Rightarrow> bool \<Rightarrow> task list" where
  "early_tasks cfg rdb_exists =
     (if appendonly cfg \<and> fsync_policy_of cfg = EverySec then [FsyncTask] else []) @
     (if \<not> appendonly cfg \<and> \<not> rdb_exists then [InitialSave] else []) @
     [ExpiryTask] @
     (if 0 < cfg_maxmemory cfg then [MemoryTask] else []) @
     (if cfg_save cfg \<noteq> [] then [AutoSave] else []) @
     (case replicaof cfg of None \<Rightarrow> [] | Some r \<Rightarrow> [ReplicaTask (fst (replica_target r)) (snd (replica_target r))])"

text \<open>The TLS listener, when there is a port for it: without its files it is only reported missing.\<close>

definition tls_task ::
  "(bytes \<Rightarrow> bool) \<Rightarrow> (bytes \<Rightarrow> bytes \<Rightarrow> tls_error + 'conf) \<Rightarrow> server_config \<Rightarrow> boot_error + task list" where
  "tls_task bind_ok tls cfg =
     (if tls_port cfg = 0 then Inr []
      else case (tls_cert_file cfg, tls_key_file cfg) of
        (Some cert, Some key) \<Rightarrow>
          (case tls cert key of
             Inl err \<Rightarrow> Inl (TlsFailed err)
           | Inr conf \<Rightarrow>
               (let addr = socket_addr cfg (tls_port cfg)
                in if bind_ok addr then Inr [TlsListener addr] else Inl (BindFailed addr)))
      | _ \<Rightarrow> Inr [])"

text \<open>The bus of the cluster listens on the host part of the node's address.\<close>

definition cluster_task :: "server_config \<Rightarrow> task list" where
  "cluster_task cfg =
     (if cluster_enabled cfg
      then [ClusterBus (host_part (socket_addr cfg (cfg_port cfg)) @ '':'' @ nat_to_string (cfg_cluster_port cfg))]
      else [])"

text \<open>
  The bus itself (\<open>start_cluster_service\<close>): the address of its listener, and what it writes on a connection, whatever it reads there.  The cluster
  state is not changed by it.
\<close>

definition bus_addr :: "cluster_state \<Rightarrow> bytes" where
  "bus_addr st = host_part (node_addr st) @ '':'' @ nat_to_string (unat (cluster_port st))"

definition bus_reply :: "bytes option \<Rightarrow> bytes" where
  "bus_reply r = (case r of None \<Rightarrow> [] | Some cmd \<Rightarrow> ''+OK'' @ eol)"

lemma cluster_task_addr:
  assumes "cluster_enabled cfg" "cfg_cluster_port cfg < 65536"
    and "cluster_state_new nid (socket_addr cfg (cfg_port cfg)) (of_nat (cfg_cluster_port cfg)) = Some st"
  shows "cluster_task cfg = [ClusterBus (bus_addr st)]"
proof -
  have "node_addr st = socket_addr cfg (cfg_port cfg)" "cluster_port st = of_nat (cfg_cluster_port cfg)"
    using assms(3) by (auto simp: cluster_state_new_def split: option.splits)
  then show ?thesis using assms(1,2) by (simp add: cluster_task_def bus_addr_def unat_of_nat take_bit_nat_def)
qed

record boot =
  boot_server :: server
  boot_writer :: "aof_writer option"
  boot_disk :: disk
  boot_tasks :: "task list"

definition open_aof :: "io \<Rightarrow> server_config \<Rightarrow> disk \<Rightarrow> boot_error + (disk \<times> aof_writer option)" where
  "open_aof io cfg d =
     (if appendonly cfg then
        (case aof_open io d (aof_path cfg) (fsync_policy_of cfg) of
           (d', None) \<Rightarrow> Inl AofOpenFailed
         | (d', Some w) \<Rightarrow> Inr (d', Some w))
      else Inr (d, None))"

text \<open>\<open>run\<close> up to the accept loop; \<^term>\<open>None\<close> when loading the data panics.\<close>

definition server_boot ::
  "nom \<Rightarrow> (nat \<Rightarrow> env) \<Rightarrow> nat \<Rightarrow> io \<Rightarrow> (bytes \<Rightarrow> bool) \<Rightarrow> (bytes \<Rightarrow> bytes \<Rightarrow> tls_error + 'conf) \<Rightarrow> server_config \<Rightarrow> disk \<Rightarrow>
   (boot_error + boot) option" where
  "server_boot nm es n io bind_ok tls cfg d =
     (let rdb_file = read_file d (rdb_path cfg) in
      case server_start nm es n cfg rdb_file (read_file d (aof_path cfg)) of
        None \<Rightarrow> None
      | Some srv \<Rightarrow> Some
         (bind_res (open_aof io cfg d) (\<lambda>(d', w).
          if \<not> bind_ok (socket_addr cfg (cfg_port cfg)) then Inl (BindFailed (socket_addr cfg (cfg_port cfg)))
          else bind_res (tls_task bind_ok tls cfg) (\<lambda>tls_tasks.
            Inr \<lparr>boot_server = srv, boot_writer = w, boot_disk = d',
                 boot_tasks = early_tasks cfg (rdb_file \<noteq> None) @ [Shards (cthreads cfg)] @ tls_tasks @ cluster_task cfg\<rparr>))))"

text \<open>\<open>main.rs\<close>: the port of the command line replaces the one of the file.\<close>

definition with_port :: "server_config \<Rightarrow> nat option \<Rightarrow> server_config" where
  "with_port cfg port = (case port of None \<Rightarrow> cfg | Some p \<Rightarrow> cfg\<lparr>cfg_port := p\<rparr>)"

section \<open>Properties\<close>

lemma with_extension_aof:
  "with_extension (aof_path cfg) ''aof.rewrite'' = cfg_dir cfg @ ''/'' @ ''appendonly.aof.rewrite''"
proof -
  have r: "rev (aof_path cfg) = ''foa.ylnodneppa'' @ ''/'' @ rev (cfg_dir cfg)" by (simp add: aof_path_def)
  have "takeWhile (\<lambda>c. c \<noteq> CHR ''/'') (rev (aof_path cfg)) = ''foa.ylnodneppa''" unfolding r by simp
  then show ?thesis by (simp add: with_extension_def Let_def aof_path_def)
qed

text \<open>
  Start-up puts the writer on the log.  When the server comes up with an append-only file, its writer has the file that
  the name stands for, and the file holds exactly the log from which the connections go on, so that what
  is logged from now on comes after what was replayed; without the option nothing on the disk has changed.
\<close>

theorem boot_log_in_place:
  assumes "disk_wf d" "server_boot nm es n io bind_ok tls cfg d = Some (Inr b)"
  shows "(appendonly cfg \<longrightarrow> (\<exists>w. boot_writer b = Some w \<and> aw_path w = aof_path cfg \<and> writer_ok (boot_disk b, w) \<and>
      srv_aof (boot_server b) = Some (writer_log (boot_disk b, w)))) \<and>
    (\<not> appendonly cfg \<longrightarrow> boot_writer b = None \<and> boot_disk b = d \<and> srv_aof (boot_server b) = None)"
proof -
  obtain srv d' w where srv: "server_start nm es n cfg (read_file d (rdb_path cfg)) (read_file d (aof_path cfg)) = Some srv"
    and w: "open_aof io cfg d = Inr (d', w)" and b: "boot_server b = srv" "boot_writer b = w" "boot_disk b = d'"
    using assms(2) by (auto simp: server_boot_def Let_def bind_res_Inr_iff split: option.splits if_splits)
  have aof: "srv_aof srv = (if appendonly cfg then Some (case read_file d (aof_path cfg) of None \<Rightarrow> [] | Some x \<Rightarrow> x) else None)"
    using srv by (auto simp: server_start_def)
  show ?thesis
  proof (cases "appendonly cfg")
    case False
    then show ?thesis using w b aof by (simp add: open_aof_def)
  next
    case True
    then obtain v where v: "w = Some v" "aof_open io d (aof_path cfg) (fsync_policy_of cfg) = (d', Some v)"
      using w by (auto simp: open_aof_def split: prod.splits option.splits)
    then obtain i where i: "open_append d (aof_path cfg) = (d', i)" "v = \<lparr>aw_file = i, aw_policy = fsync_policy_of cfg, aw_path = aof_path cfg\<rparr>"
      by (auto simp: aof_open_def Let_def split: if_splits prod.splits)
    have tmp: "rewrite_tmp v \<noteq> aw_path v"
      using with_extension_aof [of cfg] by (simp add: rewrite_tmp_def i(2) aof_path_def)
    have "disk_wf d' \<and> dir_names d' (aof_path cfg) = Some i \<and>
        contents d' i = (case read_file d (aof_path cfg) of None \<Rightarrow> [] | Some x \<Rightarrow> x)"
    proof (cases "dir_names d (aof_path cfg)")
      case None
      then have "create_file d (aof_path cfg) = (d', i)" using i(1) by (simp add: open_append_def)
      from create_tmp [OF assms(1) this] show ?thesis using None by (simp add: read_file_def)
    qed (use i(1) assms(1) in \<open>simp add: open_append_def read_file_def\<close>)
    then show ?thesis
      using True b v(1) i(2) aof tmp by (simp add: writer_ok_def writer_log_def)
  qed
qed

lemma bgsave_cases:
  assumes "disk_wf d" "temp_path cfg pid uid \<noteq> rdb_path cfg"
  shows "case bgsave io cfg pid uid clock s d of (d', ok) \<Rightarrow>
    (if ok then \<exists>data. save_rdb clock s (length (databases s)) = Inr data \<and> read_file d' (rdb_path cfg) = Some data
     else read_file d' (rdb_path cfg) = read_file d (rdb_path cfg))"
proof (cases "save_rdb clock s (length (databases s))")
  case (Inr data)
  obtain d1 i where c: "create_file d (temp_path cfg pid uid) = (d1, i)" by fastforce
  note c1 = create_tmp [OF assms(1) c]
  have same: "read_file (write_all d1 i x) (rdb_path cfg) = read_file d (rdb_path cfg)" for x
    using c1(2) c1(4) [of "rdb_path cfg"] assms(2) by (auto simp: read_file_def write_all_def map_option_case split: option.split)
  have "read_file (rename_file (write_all d1 i data) (temp_path cfg pid uid) (rdb_path cfg)) (rdb_path cfg) = Some data"
    using c1(2,3) by (simp add: read_file_def rename_file_def write_all_def)
  then show ?thesis using same by (simp add: bgsave_def Inr c split: option.split)
qed (simp add: bgsave_def)

text \<open>
  A snapshot survives a restart.  When a save succeeds, a server that starts on the disk it
  leaves has under every key but the empty one the entry that was live when it was saved, with value and expiry, and nothing else;
  when it fails, at whatever call, the previous snapshot is still in place.
\<close>

theorem snapshot_restart:
  assumes "store_wf s" "store_fits s" "length (databases s) \<le> 256" "cfg_databases cfg = length (databases s)"
    and "disk_wf d" "temp_path cfg pid uid \<noteq> rdb_path cfg" "bgsave io cfg pid uid clock s d = (d', ok)"
  shows "(ok \<longrightarrow> (\<exists>srv. server_start nm es n cfg (read_file d' (rdb_path cfg)) (read_file d' (aof_path cfg)) = Some srv \<and>
      (\<forall>i<length (databases s). \<forall>k.
         restored_entry (if k = [] then None else live (clock i) s i k) (raw (srv_store srv) i k)))) \<and>
    (\<not> ok \<longrightarrow> read_file d' (rdb_path cfg) = read_file d (rdb_path cfg))"
proof -
  define t0 where "t0 = configure_memory (store_new (cfg_databases cfg)) (unat (cfg_maxmemory cfg))
      (case eviction_policy_parse (maxmemory_policy cfg) of None \<Rightarrow> NoEviction | Some p \<Rightarrow> p)"
  have "store_wf t0" "length (databases t0) = length (databases s)" "\<forall>i k. raw t0 i k = None"
    using store_wf_new [of "cfg_databases cfg"] assms(4)
    by (simp_all add: t0_def configure_memory_def store_wf_def store_new_def raw_def)
  from rdb_reload [OF assms(1-3) this, of clock] obtain data t m where
    r: "save_rdb clock s (length (databases s)) = Inr data" "load_rdb t0 data = Some (t, Inr m)"
      "\<forall>i<length (databases s). \<forall>k. restored_entry (if k = [] then None else live (clock i) s i k) (raw t i k)" by blast
  have "server_start nm es n cfg (Some data) aof = Some \<lparr>srv_store = t,
      srv_aof = (if appendonly cfg then Some (case aof of None \<Rightarrow> [] | Some x \<Rightarrow> x) else None),
      srv_backlog = Some (repl_backlog_new (repl_backlog_size cfg))\<rparr>" for aof
    using r(2) by (simp add: server_start_def initial_store_def t0_def Let_def)
  then show ?thesis
    using bgsave_cases [OF assms(5,6), where io = io and clock = clock and s = s] assms(7) r(1,3) by (auto split: if_splits)
qed

theorem snapshot_restart_witness:
  "\<exists>d' srv. bgsave io_ok ((default_config None)\<lparr>cfg_databases := 1\<rparr>) 7 0 (\<lambda>_. 5) (put_entry (store_new 1) 0 ''k'' (new_entry (StringV ''v''))) test_disk = (d', True) \<and>
     server_start nom_ref (\<lambda>_. env0) 1 ((default_config None)\<lparr>cfg_databases := 1\<rparr>) (read_file d' (rdb_path ((default_config None)\<lparr>cfg_databases := 1\<rparr>)))
       (read_file d' (aof_path ((default_config None)\<lparr>cfg_databases := 1\<rparr>))) = Some srv \<and> raw (srv_store srv) 0 ''k'' \<noteq> None"
proof -
  let ?s = "put_entry (store_new 1) 0 ''k'' (new_entry (StringV ''v''))" and ?cfg = "(default_config None)\<lparr>cfg_databases := 1\<rparr>"
  have len: "length (databases ?s) = 1" by (simp add: store_new_def put_entry_def set_db_def)
  have s: "store_wf ?s" "store_fits ?s" "length (databases ?s) \<le> 256" "cfg_databases ?cfg = length (databases ?s)"
    using store_wf_put [of "store_new 1" "new_entry (StringV ''v'')" 0 "''k''"] store_wf_new [of 1] len
    by (simp_all add: default_config_def store_new_def valid_db_def new_entry_def store_fits_def put_entry_def set_db_def
        hm_insert_def len_fits_def)
  have d: "disk_wf test_disk" using test_writer_ok by (simp add: writer_ok_def)
  have p: "temp_path ?cfg 7 0 \<noteq> rdb_path ?cfg" by (simp add: temp_path_def rdb_path_def default_config_def)
  obtain d' ok where b: "bgsave io_ok ?cfg 7 0 (\<lambda>_. 5) ?s test_disk = (d', ok)" by fastforce
  note r = snapshot_restart [OF s d p b, of nom_ref "\<lambda>_. env0" 1]
  have live: "live 5 ?s 0 ''k'' = Some (new_entry (StringV ''v''))" by code_simp
  have "\<exists>data. save_rdb (\<lambda>_. 5) ?s (length (databases ?s)) = Inr data"
  proof -
    have "length (databases (store_new 1)) = length (databases ?s)" "\<forall>i k. raw (store_new 1) i k = None"
      using len by (simp_all add: raw_def store_new_def)
    from rdb_reload [OF s(1,2,3) store_wf_new this, of "\<lambda>_. 5"] show ?thesis by blast
  qed
  then have ok using b by (auto simp: bgsave_def io_ok_def split: prod.splits)
  with r obtain srv where srv: "server_start nom_ref (\<lambda>_. env0) 1 ?cfg (read_file d' (rdb_path ?cfg)) (read_file d' (aof_path ?cfg)) = Some srv"
    and all: "\<forall>i<length (databases ?s). \<forall>k. restored_entry (if k = [] then None else live 5 ?s i k) (raw (srv_store srv) i k)"
    by blast
  have "0 < length (databases ?s)" using len by simp
  with all have "restored_entry (if ''k'' = [] then None else live 5 ?s 0 ''k'') (raw (srv_store srv) 0 ''k'')" by blast
  then have "raw (srv_store srv) 0 ''k'' \<noteq> None" unfolding live by (cases "raw (srv_store srv) 0 ''k''") simp_all
  moreover have "bgsave io_ok ?cfg 7 0 (\<lambda>_. 5) ?s test_disk = (d', True)" using b \<open>ok\<close> by simp
  ultimately show ?thesis using srv by blast
qed

theorem boot_log_in_place_witness:
  "\<exists>b w. server_boot nom_ref (\<lambda>_. env0) 1 io_ok (\<lambda>_. True) (\<lambda>_ _. Inl NoKey :: tls_error + unit) ((default_config None)\<lparr>appendonly := True\<rparr>) test_disk =
       Some (Inr b) \<and> boot_writer b = Some w \<and> writer_ok (boot_disk b, w)"
proof -
  let ?cfg = "(default_config None)\<lparr>appendonly := True\<rparr>"
  have d: "disk_wf test_disk" using test_writer_ok by (simp add: writer_ok_def)
  have "rdb_path ?cfg \<noteq> ''./appendonly.aof''" "aof_path ?cfg \<noteq> ''./appendonly.aof''"
    by (simp_all add: aof_path_def rdb_path_def default_config_def)
  then have none: "read_file test_disk (rdb_path ?cfg) = None" "read_file test_disk (aof_path ?cfg) = None"
    by (simp_all add: read_file_def test_disk_def)
  have cfg: "appendonly ?cfg" "tls_port ?cfg = 0" by (simp_all add: default_config_def)
  obtain srv where srv: "server_start nom_ref (\<lambda>_. env0) 1 ?cfg None None = Some srv"
    by (simp add: server_start_def initial_store_def Let_def)
  obtain d' i where o: "open_append test_disk (aof_path ?cfg) = (d', i)" by fastforce
  have "open_aof io_ok ?cfg test_disk =
      Inr (d', Some \<lparr>aw_file = i, aw_policy = fsync_policy_of ?cfg, aw_path = aof_path ?cfg\<rparr>)"
    using o by (simp add: open_aof_def cfg aof_open_def io_ok_def)
  moreover have "tls_task (\<lambda>_. True) (\<lambda>_ _. Inl NoKey :: tls_error + unit) ?cfg = Inr []" using cfg(2) by (simp add: tls_task_def)
  ultimately obtain b where
    b: "server_boot nom_ref (\<lambda>_. env0) 1 io_ok (\<lambda>_. True) (\<lambda>_ _. Inl NoKey :: tls_error + unit) ?cfg test_disk = Some (Inr b)"
    using srv by (simp add: server_boot_def none)
  from boot_log_in_place [OF d b] cfg(1) b show ?thesis by blast
qed

end
