(* ===== verification/Clock.thy ===== *)
theory Clock
  imports Connection
begin

text \<open>
  What the append-only file can restore.  A replay runs the logged commands at another time than the session did.  The clock enters
  a command in three ways: it decides which entries have expired, it is the base of a relative expiry, and it is the identifier of
  XADD with a star.  A write command in which none of these happens (\<open>clockless\<close>) has, on a store without expiries (\<open>timeless\<close>), the same
  effect at any time, and leaves such a store.  SPOP is not among them either: which members it takes is up to the iteration
  order of a hash set, which no other write command depends on.
\<close>

section \<open>Stores without expiries\<close>

named_theorems timeless_intros \<open>stores without expiries\<close>

definition timeless :: "store \<Rightarrow> bool" where
  "timeless s \<longleftrightarrow> (\<forall>i k en. raw s i k = Some en \<longrightarrow> ent_expire_at en = None)"

lemma timelessD: "timeless s \<Longrightarrow> raw s i k = Some en \<Longrightarrow> ent_expire_at en = None"
  by (auto simp: timeless_def)

lemma timeless_new: "timeless (store_new n)"
  by (simp add: timeless_def store_new_def raw_def)

lemma timeless_put [timeless_intros]: "timeless s \<Longrightarrow> ent_expire_at en = None \<Longrightarrow> timeless (put_entry s i k en)"
  by (simp add: timeless_def raw_put_entry)

lemma timeless_remove [timeless_intros]: "timeless s \<Longrightarrow> timeless (remove_entry s i k)"
  by (simp add: timeless_def raw_remove_entry)

lemma timeless_block_reg [timeless_intros]: "timeless s \<Longrightarrow> timeless (s\<lparr>block_reg := r\<rparr>)"
  by (simp add: timeless_def raw_more)

lemma timeless_flush [timeless_intros]:
  "timeless s \<Longrightarrow> timeless (set_db s i [])" "timeless (s\<lparr>databases := map (\<lambda>_. []) (databases s)\<rparr>)"
  by (simp add: timeless_def raw_set_db_empty) (simp add: timeless_def raw_def)

lemma timeless_hm: "timeless s \<Longrightarrow> db s i = Inr d \<Longrightarrow> hm_get d k = Some en \<Longrightarrow> ent_expire_at en = None"
  by (rule timelessD [of s i k]) (auto simp: raw_def db_def split: if_splits)

lemma timeless_insert: "timeless s \<Longrightarrow> db s i = Inr d \<Longrightarrow> ent_expire_at (entry_or_insert d k v) = None"
  using timeless_hm [of s i d k] by (auto simp: entry_or_insert_def new_entry_def split: option.split)

lemma timeless_entry: "timeless s \<Longrightarrow> entry_mut t s i k = Inr (Some en) \<Longrightarrow> ent_expire_at en = None"
  by (rule timelessD [of s i k]) (auto dest!: entry_mut_SomeD live_raw)

text \<open>On such a store nothing depends on the time of a look-up.\<close>

lemma timeless_live: "timeless s \<Longrightarrow> live t s i k = raw s i k"
  by (auto simp: live_def expired_def dest: timelessD split: option.split)

lemma timeless_ref: "timeless s \<Longrightarrow> entry_ref t s i k = entry_ref 0 s i k"
  by (cases "valid_db s i") (simp_all add: entry_live entry_out_of_range timeless_live)

lemma timeless_mut: "timeless s \<Longrightarrow> entry_mut t s i k = entry_mut 0 s i k"
  by (cases "valid_db s i") (simp_all add: entry_mut_entry entry_live entry_out_of_range timeless_live)

section \<open>The operations of the store\<close>

text \<open>The same result at two times, and a store without expiries.\<close>

definition settled_op :: "store \<times> 'a res \<Rightarrow> store \<times> 'a res \<Rightarrow> bool" where
  "settled_op p q \<longleftrightarrow> p = q \<and> timeless (fst p)"

named_theorems settled_intros \<open>operations and outcomes that do not depend on the clock\<close>

lemma settled_reads [settled_intros]:
  assumes "timeless s"
  shows "store_get t s i k = store_get t' s i k" "store_exists t s i k = store_exists t' s i k"
  using timeless_ref [OF assms, of t] timeless_ref [OF assms, of t'] by (simp_all add: store_get_def store_exists_def)

lemma settled_generic [settled_intros]:
  assumes "timeless s"
  shows "settled_op (store_set s i k v None) (store_set s i k v None)" "settled_op (store_del s i k) (store_del s i k)"
    "settled_op (store_rename s i k k') (store_rename s i k k')" "settled_op (remove_expire s i k) (remove_expire s i k)"
    "settled_op (flushdb s i) (flushdb s i)" "settled_op (flushall s) (flushall s)"
  using assms
  by (auto simp: settled_op_def store_set_def store_del_def store_rename_def remove_expire_def flushdb_def flushall_def Let_def
      dest: timeless_hm intro!: timeless_intros split: sum.split option.split)

lemma settled_list [settled_intros]:
  assumes "timeless s"
  shows "settled_op (store_lpush s i k xs) (store_lpush s i k xs)" "settled_op (store_rpush s i k xs) (store_rpush s i k xs)"
    "settled_op (store_lpop_one t s i k) (store_lpop_one t' s i k)" "settled_op (store_rpop_one t s i k) (store_rpop_one t' s i k)"
    "settled_op (store_lset t s i k n v) (store_lset t' s i k n v)" "settled_op (store_ltrim t s i k n m) (store_ltrim t' s i k n m)"
    "settled_op (store_lrem t s i k n v) (store_lrem t' s i k n v)"
  using assms timeless_mut [OF assms, of t] timeless_mut [OF assms, of t']
  by (auto simp: settled_op_def list_op_defs Let_def timeless_insert timeless_entry intro!: timeless_intros
      split: sum.split option.split storage_value.split list.split prod.split)

lemma settled_set [settled_intros]:
  assumes "timeless s"
  shows "settled_op (store_sadd s i k xs) (store_sadd s i k xs)" "settled_op (store_srem t s i k xs) (store_srem t' s i k xs)"
  using assms timeless_mut [OF assms, of t] timeless_mut [OF assms, of t']
  by (auto simp: settled_op_def store_sadd_def store_srem_def Let_def timeless_insert timeless_entry intro!: timeless_intros
      split: sum.split option.split storage_value.split prod.split)

lemma settled_hash [settled_intros]:
  assumes "timeless s"
  shows "settled_op (store_hset s i k ps) (store_hset s i k ps)" "settled_op (store_hdel t s i k xs) (store_hdel t' s i k xs)"
    "settled_op (store_hincrby s i k f n) (store_hincrby s i k f n)"
    "settled_op (store_nhset s i k f g v) (store_nhset s i k f g v)" "settled_op (store_nhdel t s i k f o') (store_nhdel t' s i k f o')"
  using assms timeless_mut [OF assms, of t] timeless_mut [OF assms, of t']
  by (auto simp: settled_op_def store_hset_def store_hdel_def store_hincrby_def store_nhset_def store_nhdel_def Let_def
      timeless_insert timeless_entry intro!: timeless_intros split: sum.split option.split storage_value.split prod.split)

lemma settled_zset [settled_intros]:
  assumes "timeless s"
  shows "settled_op (store_zadd s i k ps) (store_zadd s i k ps)" "settled_op (store_zrem t s i k xs) (store_zrem t' s i k xs)"
  using assms timeless_mut [OF assms, of t] timeless_mut [OF assms, of t']
  by (auto simp: settled_op_def store_zadd_def store_zrem_def Let_def timeless_insert timeless_entry intro!: timeless_intros
      split: sum.split option.split storage_value.split prod.split)

lemma settled_id:
  assumes "timeless s" "utf8_lossy a \<noteq> ''*''"
  shows "generate_stream_id t s i k a = generate_stream_id t' s i k a" "id_too_small t s i k ms sq = id_too_small t' s i k ms sq"
proof -
  note ref = timeless_ref [OF assms(1), of t] timeless_ref [OF assms(1), of t']
  have "get_stream_last_id t s i k = get_stream_last_id t' s i k" by (simp add: get_stream_last_id_def ref)
  then show "generate_stream_id t s i k a = generate_stream_id t' s i k a"
    unfolding generate_stream_id_def using assms(2) by (simp add: Let_def split: list.split option.split)
  show "id_too_small t s i k ms sq = id_too_small t' s i k ms sq" by (simp add: id_too_small_def ref)
qed

lemma settled_xadd [settled_intros]:
  assumes "timeless s" "utf8_lossy a \<noteq> ''*''"
  shows "settled_op (store_xadd t s i k a ps n) (store_xadd t' s i k a ps n)"
  unfolding settled_op_def
proof
  show "store_xadd t s i k a ps n = store_xadd t' s i k a ps n"
    unfolding store_xadd_def settled_id(1) [OF assms, of t _ _ t'] settled_id(2) [OF assms, of t _ _ _ _ t'] ..
  show "timeless (fst (store_xadd t s i k a ps n))"
    using assms(1) by (auto simp: store_xadd_def Let_def timeless_insert intro!: timeless_intros
        split: sum.split option.split storage_value.split prod.split)
qed

lemma settled_stream [settled_intros]:
  assumes "timeless s"
  shows "settled_op (store_xdel t s i k xs) (store_xdel t' s i k xs)" "settled_op (store_xtrim t s i k n) (store_xtrim t' s i k n)"
  using assms timeless_mut [OF assms, of t] timeless_mut [OF assms, of t']
  by (auto simp: settled_op_def store_xdel_def store_xtrim_def Let_def timeless_entry intro!: timeless_intros
      split: sum.split option.split storage_value.split prod.split)

section \<open>The commands\<close>

text \<open>
  Two environments of the same program at two times: they differ in the clock and in what a reader of the clock sees, and in
  the subscribers that are still connected.
\<close>

definition same_program :: "env \<Rightarrow> env \<Rightarrow> bool" where
  "same_program e e' \<longleftrightarrow> f64_parse e = f64_parse e' \<and> f64_display e = f64_display e'"

definition settled :: "outcome \<Rightarrow> outcome \<Rightarrow> bool" where
  "settled x y \<longleftrightarrow> x = y \<and> (\<forall>s c r. x = Some (s, c, r) \<longrightarrow> timeless s)"

lemma settled_reply [settled_intros]: "timeless s \<Longrightarrow> settled (reply s c v) (reply s c v)"
  by (simp add: settled_def reply_def)

lemma settled_fail [settled_intros]: "timeless s \<Longrightarrow> settled (fail s c err) (fail s c err)"
  by (simp add: settled_def fail_def)

lemma settled_None [settled_intros]: "settled None None"
  by (simp add: settled_def)

lemma settled_arg [settled_intros]: "(\<And>a. settled (f a) (g a)) \<Longrightarrow> settled (arg args i f) (arg args i g)"
  by (simp add: arg_def settled_None)

lemma settled_args_from [settled_intros]: "(\<And>a. settled (f a) (g a)) \<Longrightarrow> settled (args_from args n f) (args_from args n g)"
  by (simp add: args_from_def settled_None)

lemma settled_try_read [settled_intros]:
  "timeless s \<Longrightarrow> r = r' \<Longrightarrow> (\<And>a. settled (f a) (g a)) \<Longrightarrow> settled (try_read s c r f) (try_read s c r' g)"
  by (cases r) (auto simp: settled_fail)

lemma settled_try_mut [settled_intros]:
  "settled_op p q \<Longrightarrow> (\<And>s a. timeless s \<Longrightarrow> settled (f s a) (g s a)) \<Longrightarrow> settled (try_mut c p f) (try_mut c q g)"
  by (cases p; cases "snd p") (auto simp: settled_op_def settled_fail)

definition settled_handler :: "handler \<Rightarrow> bool" where
  "settled_handler h \<longleftrightarrow> (\<forall>e e' s c args. same_program e e' \<longrightarrow> timeless s \<longrightarrow> settled (h e s c args) (h e' s c args))"

lemma settled_handlerI:
  "(\<And>e e' s c args. same_program e e' \<Longrightarrow> timeless s \<Longrightarrow> settled (h e s c args) (h e' s c args)) \<Longrightarrow> settled_handler h"
  by (simp add: settled_handler_def)

lemma settled_loops [settled_intros]:
  "timeless s \<Longrightarrow> settled (mset_loop s c ps) (mset_loop s c ps)"
  "timeless s \<Longrightarrow> settled (del_loop s c keys n) (del_loop s c keys n)"
  by (induction s c ps rule: mset_loop.induct; simp add: settled_intros)
    (induction s c keys n rule: del_loop.induct; simp add: settled_intros)

lemma settled_incr [settled_intros]: "timeless s \<Longrightarrow> settled (incr_fn e s c key n) (incr_fn e' s c key n)"
  by (auto simp: incr_fn_def Let_def intro!: settled_intros split: option.splits)

lemma settled_string_writes:
  "settled_handler cmd_setrange" "settled_handler cmd_mset" "settled_handler cmd_incr"
  "settled_handler cmd_incrby" "settled_handler cmd_decr" "settled_handler cmd_decrby" "settled_handler cmd_append"
  "settled_handler cmd_getset"
  by (auto simp: cmd_setrange_def cmd_mset_def cmd_incr_def cmd_incrby_def cmd_decr_def
      cmd_decrby_def cmd_append_def cmd_getset_def Let_def intro!: settled_handlerI settled_intros split: option.splits)

lemma settled_scores [settled_intros]:
  "f64_parse e = f64_parse e' \<Longrightarrow> parse_score_member_pairs e a items = parse_score_member_pairs e' a items"
  by (induction e a items rule: parse_score_member_pairs.induct) (simp_all cong: option.case_cong)

lemma settled_collection_writes:
  "settled_handler cmd_lpush" "settled_handler cmd_rpush" "settled_handler cmd_lpop" "settled_handler cmd_rpop"
  "settled_handler cmd_lset" "settled_handler cmd_ltrim" "settled_handler cmd_lrem"
  "settled_handler cmd_sadd" "settled_handler cmd_srem"
  "settled_handler cmd_hset" "settled_handler cmd_hdel" "settled_handler cmd_hincrby"
  "settled_handler cmd_zadd" "settled_handler cmd_zrem" "settled_handler cmd_nhset" "settled_handler cmd_nhdel"
  "settled_handler cmd_xdel" "settled_handler cmd_xtrim"
  by (auto simp: cmd_lpush_def cmd_rpush_def cmd_lpop_def cmd_rpop_def cmd_lset_def cmd_ltrim_def cmd_lrem_def
      cmd_sadd_def cmd_srem_def cmd_hset_def cmd_hdel_def cmd_hincrby_def cmd_zadd_def cmd_zrem_def
      cmd_nhset_def cmd_nhdel_def cmd_xdel_def cmd_xtrim_def same_program_def Let_def
      intro!: settled_handlerI settled_intros split: option.splits)

lemma settled_generic_writes:
  "settled_handler cmd_del" "settled_handler cmd_rename" "settled_handler cmd_renamenx" "settled_handler cmd_persist"
  "settled_handler cmd_flushdb" "settled_handler cmd_flushall" "settled_handler cmd_select"
  by (auto simp: cmd_del_def cmd_rename_def cmd_renamenx_def cmd_persist_def cmd_flushdb_def cmd_flushall_def cmd_select_def Let_def
      intro!: settled_handlerI settled_intros split: option.splits)

lemmas settled_writes = settled_string_writes settled_collection_writes settled_generic_writes

text \<open>
  The write commands whose effect does not depend on the time: without the expiry commands, SET with an expiry, XADD with a star, and SPOP.
\<close>

definition clockless :: "bytes list \<Rightarrow> bool" where
  "clockless args \<longleftrightarrow>
     is_write_command (upper (hd args)) \<and>
     upper (hd args) \<notin> set [''SPOP'', ''EXPIRE'', ''EXPIREAT'', ''PEXPIRE'', ''PEXPIREAT''] \<and>
     (upper (hd args) = ''SET'' \<longrightarrow> expire_ms (set_flags 0 (drop 3 args) no_set_options) = None) \<and>
     (upper (hd args) = ''XADD'' \<longrightarrow>
        (case fst (xadd_opts (drop 2 args) None) of [] \<Rightarrow> True | i # _ \<Rightarrow> utf8_lossy i \<noteq> ''*''))"

lemma set_flags_expire: "expire_ms opt \<noteq> None \<Longrightarrow> expire_ms (set_flags t as opt) \<noteq> None"
  by (induction t as opt rule: set_flags.induct) (auto simp: Let_def split: list.splits option.splits)

lemma set_flags_time: "expire_ms (set_flags t as opt) = None \<Longrightarrow> set_flags t' as opt = set_flags t as opt"
proof (induction t as opt rule: set_flags.induct)
  case (2 t a as opt)
  show ?case
  proof (cases "upper a \<in> {''EX'', ''PX'', ''EXAT'', ''PXAT''}")
    case True
    show ?thesis
    proof (cases as)
      case (Cons v rest)
      have "arg_i64 v = None"
        using "2.prems" True set_flags_expire [of "opt\<lparr>expire_ms := Some x\<rparr>" t rest for x]
        by (auto simp: Cons Let_def dest: spec split: option.splits) (metis option.distinct(1))+
      then show ?thesis using "2.IH"(1) [OF refl True Cons] "2.prems" True by (simp add: Cons Let_def)
    qed (use True in simp)
  next
    case False
    then show ?thesis using "2.IH"(2-4) [OF refl False] "2.prems" by (cases "upper a = ''NX''"; cases "upper a = ''XX''") (simp_all add: Let_def)
  qed
qed simp

lemma settled_cmd_set:
  assumes "timeless s" "expire_ms (set_flags 0 (drop 2 args) no_set_options) = None"
  shows "settled (cmd_set e s c args) (cmd_set e' s c args)"
proof -
  define opt where "opt = set_flags 0 (drop 2 args) no_set_options"
  have "set_flags t (drop 2 args) no_set_options = opt" for t using set_flags_time [OF assms(2)] by (simp add: opt_def)
  moreover have "expire_ms opt = None" using assms(2) by (simp add: opt_def)
  ultimately show ?thesis
    using assms(1) by (auto simp: cmd_set_def args_from_def Let_def intro!: settled_intros)
qed

lemma settled_cmd_xadd:
  assumes "timeless s" "case fst (xadd_opts (drop 1 args) None) of [] \<Rightarrow> True | i # _ \<Rightarrow> utf8_lossy i \<noteq> ''*''"
  shows "settled (cmd_xadd e s c args) (cmd_xadd e' s c args)"
  using assms by (auto simp: cmd_xadd_def Let_def intro!: settled_intros split: prod.split list.splits)

lemma write_table_settled:
  "list_all (\<lambda>(name, arity, h). is_write_command name \<and> name \<notin> set [''SPOP'', ''EXPIRE'', ''EXPIREAT'', ''PEXPIRE'', ''PEXPIREAT''] \<and>
     name \<noteq> ''SET'' \<and> name \<noteq> ''XADD'' \<longrightarrow> settled_handler h) (command_table disp)"
  by (simp add: table_defs is_write_command_def settled_writes)

lemma settled_dispatch:
  assumes "clockless args" "same_program e e'" "timeless s"
  shows "dispatch d (upper (hd args)) e s c (tl args) = dispatch d (upper (hd args)) e' s c (tl args)"
    and "dispatch d (upper (hd args)) e s c (tl args) = Some (s', c', r) \<Longrightarrow> timeless s'"
proof -
  let ?n = "upper (hd args)"
  have tl: "drop 2 (tl args) = drop 3 args" "drop 1 (tl args) = drop 2 args" by (cases args; simp add: drop_Cons')+
  have look: "map_of (command_table disp) ''SET'' = Some (- 3, cmd_set)" "map_of (command_table disp) ''XADD'' = Some (- 4, cmd_xadd)" for disp
    by (simp_all add: table_defs)
  have h: "settled (h e s c (tl args)) (h e' s c (tl args))" if "map_of (command_table disp) ?n = Some (a, h)" for disp a h
  proof -
    consider "?n = ''SET''" | "?n = ''XADD''" | "?n \<noteq> ''SET''" "?n \<noteq> ''XADD''" by blast
    then show ?thesis
    proof cases
      case 1
      then show ?thesis using that look(1) [of disp] settled_cmd_set [OF assms(3), of "tl args"] assms(1)
        unfolding tl by (simp add: clockless_def)
    next
      case 2
      then show ?thesis using that look(2) [of disp] settled_cmd_xadd [OF assms(3), of "tl args"] assms(1)
        unfolding tl by (simp add: clockless_def)
    next
      case 3
      then have "settled_handler h"
        using write_table_settled [of disp] map_of_SomeD [OF that] assms(1) by (fastforce simp: list_all_iff clockless_def)
      then show ?thesis using assms(2,3) by (simp add: settled_handler_def)
    qed
  qed
  show "dispatch d ?n e s c (tl args) = dispatch d ?n e' s c (tl args)"
  proof (cases d)
    case (Suc n)
    then show ?thesis
      using h [of "dispatch n"] by (cases "map_of (command_table (dispatch n)) ?n") (auto simp: dispatch_with_def settled_def)
  qed simp
  show "dispatch d ?n e s c (tl args) = Some (s', c', r) \<Longrightarrow> timeless s'"
  proof (cases d)
    case (Suc n)
    assume "dispatch d ?n e s c (tl args) = Some (s', c', r)"
    then have "dispatch_with (command_table (dispatch n)) ?n e s c (tl args) = Some (s', c', r)" by (simp add: Suc)
    then show "timeless s'"
    proof (cases rule: dispatch_with_cases)
      case (handled arity h res)
      then show ?thesis using h by (auto simp: settled_def)
    qed (use assms(3) in simp)
  qed simp
qed

section \<open>Replays at another time\<close>

lemma run_log_settled:
  assumes "list_all clockless cmds" "\<forall>n m. same_program (es n) (es' m)" "timeless s"
  shows "run_log es' d cmds s c m = map_option (\<lambda>(s', c', _). (s', c', m + length cmds)) (run_log es d cmds s c n)"
  using assms(1,3)
proof (induction cmds arbitrary: s c n m)
  case (Cons args cmds)
  have args: "clockless args" using Cons.prems(1) by auto
  note same = settled_dispatch(1) [OF args spec [OF spec [OF assms(2)]] Cons.prems(2)]
    settled_dispatch(2) [OF args spec [OF spec [OF assms(2)]] Cons.prems(2)]
  show ?case
  proof (cases "dispatch d (upper (hd args)) (es n) s c (tl args)")
    case None
    then show ?thesis using same(1) [of d n c m] by simp
  next
    case (Some r)
    then obtain s1 c1 v where r: "dispatch d (upper (hd args)) (es n) s c (tl args) = Some (s1, c1, v)" by (cases r) simp
    have r': "dispatch d (upper (hd args)) (es' m) s c (tl args) = Some (s1, c1, v)" using same(1) [of d n c m] r by simp
    have "timeless s1" using same(2) [OF r] .
    from Cons.IH [OF _ this, of c1 "m + 1" "n + 1"] Cons.prems(1) show ?thesis by (simp add: r r')
  qed
qed simp

text \<open>
  C2: The log reproduces a session at another time.  A client on a server without expiries runs write commands whose effect does not depend on the time, each at
  its own time.  The append-only file afterwards, replayed on the store as it was before, at whatever times, gives the store that the session left, and
  the connection state it left.  Commands that set an expiry, XADD with a star and SPOP are left out: their replay is another command.
\<close>

theorem session_log_replays:
  assumes "nom_laws nm" "requirepass cfg = None" "srv_aof srv = Some []" "timeless (srv_store srv)"
    and "list_all frame_fits cmds" "list_all clockless cmds" "\<forall>n m. same_program (es n) (es' m)"
    and "length (concat (map encode_command_for_aof cmds)) \<le> u64_max"
    and "run_commands rx_open cfg es d 0 cmds srv (connect cfg) = Some (srv', c', as)"
  shows "\<exists>log. srv_aof srv' = Some log \<and>
     replay_aof nm es' d (srv_store srv) log = Some (srv_store srv', c', length cmds)"
proof -
  have c: "connect cfg = client_context_new" using assms(2) by (simp add: connect_def client_context_new_def)
  have "plain (connect cfg)" by (simp add: c plain_def client_context_new_def)
  moreover have "list_all (\<lambda>args. is_write_command (upper (hd args))) cmds" using assms(6) by (auto simp: list_all_iff clockless_def)
  ultimately have "srv_aof srv' = Some (concat (map encode_command_for_aof cmds))"
    and run: "run_log es d cmds (srv_store srv) client_context_new 0 = Some (srv_store srv', c', length cmds)"
    using run_writes [OF _ _ assms(3,9)] by (simp_all add: c)
  moreover from run_log_settled [OF assms(6,7,4), of d client_context_new 0 0]
  have "run_log es' d cmds (srv_store srv) client_context_new 0 = Some (srv_store srv', c', length cmds)" by (simp add: run)
  ultimately show ?thesis
    using replay_loop_frames [OF assms(1,5), of "[]" es' d] assms(8) by (simp add: replay_aof_def)
qed

theorem session_log_replays_witness:
  "\<exists>srv' c' as log. run_commands (\<lambda>_. True) (default_config None) (\<lambda>_. env0) 1 0 [[''SET'', ''k'', ''v'']] test_server
        (connect (default_config None)) = Some (srv', c', as) \<and> srv_aof srv' = Some log \<and>
     replay_aof nom_ref (\<lambda>_. env0\<lparr>now := 99999\<rparr>) 1 (store_new 1) log = Some (srv_store srv', c', 1)"
proof -
  let ?cmds = "[[''SET'', ''k'', ''v'']]" and ?cfg = "default_config None" and ?later = "env0\<lparr>now := 99999\<rparr>"
  have u: "upper ''SET'' = ''SET''" by code_simp
  have len: "length (concat (map encode_command_for_aof ?cmds)) = 27" by code_simp
  have "\<exists>srv' c' as. run_commands (\<lambda>_. True) ?cfg (\<lambda>_. env0) 1 0 ?cmds test_server (connect ?cfg) = Some (srv', c', as)"
    by (simp add: handle_command_def u is_auth_exempt_def connect_def default_config_def client_context_new_def
        execute_def dispatch_with_def table_defs cmd_set_def args_from_def no_set_options_def store_set_def db_def
        test_server_def store_new_def reply_def log_command_def is_write_command_def Let_def is_deny_oom_command_def
        over_memory_limit_def stops_def)
  then obtain srv' c' as where
    r: "run_commands (\<lambda>_. True) ?cfg (\<lambda>_. env0) 1 0 ?cmds test_server (connect ?cfg) = Some (srv', c', as)" by blast
  have "timeless (srv_store test_server)" using timeless_new [of 1] by (simp add: test_server_def)
  from session_log_replays [OF nom_laws_ref _ _ this _ _ _ _ r, of "\<lambda>_. ?later"]
  have "\<exists>log. srv_aof srv' = Some log \<and>
     replay_aof nom_ref (\<lambda>_. ?later) 1 (srv_store test_server) log = Some (srv_store srv', c', length ?cmds)"
    using len by (simp add: default_config_def test_server_def frame_fits_def in_i64_def i64_min_def i64_max_def u
        clockless_def no_set_options_def is_write_command_def u64_max_def same_program_def del: run_commands.simps)
  then show ?thesis using r by (auto simp: test_server_def simp del: run_commands.simps)
qed

end
