(* ===== verification/Durability.thy ===== *)
theory Durability
  imports Startup Rewrite Clock
begin

text \<open>
  What the append-only file is for: the server, its writer and its disk together, across a crash.  The first section composes
  start, session, appends and restart.  The second is about what the composition does not cover: a command and its log
  entry are two steps, and between them other threads run commands, log them, or rewrite the file.
\<close>

section \<open>Crashes\<close>

text \<open>The appends of a session on the disk.\<close>

definition append_commands :: "io \<Rightarrow> bytes list list \<Rightarrow> disk \<times> aof_writer \<Rightarrow> disk \<times> aof_writer" where
  "append_commands io cmds dw = fold (\<lambda>args. aof_append io (encode_command_for_aof args)) cmds dw"

lemma append_commands_ok:
  assumes "writer_ok dw"
  shows "writer_ok (append_commands io_ok cmds dw) \<and>
    writer_log (append_commands io_ok cmds dw) = writer_log dw @ concat (map encode_command_for_aof cmds) \<and>
    snd (append_commands io_ok cmds dw) = snd dw \<and> dir_names (fst (append_commands io_ok cmds dw)) = dir_names (fst dw)"
  using assms
proof (induction cmds arbitrary: dw)
  case (Cons args cmds)
  let ?dw = "aof_append io_ok (encode_command_for_aof args) dw"
  have ok: "writer_ok ?dw" "writer_log ?dw = writer_log dw @ encode_command_for_aof args"
    using append_ok [OF Cons.prems, of io_ok "encode_command_for_aof args"] by (simp_all add: io_ok_def)
  have "snd ?dw = snd dw" "dir_names (fst ?dw) = dir_names (fst dw)"
    by (simp_all add: aof_append_def io_ok_def Let_def flush_file_def write_all_def)
  then show ?case using Cons.IH [OF ok(1)] ok(2) by (simp add: append_commands_def)
qed (simp add: append_commands_def)

text \<open>A start that succeeded succeeds again on a disk with the same names, when its files can be loaded.\<close>

lemma boot_again:
  assumes "server_boot nm es n io bind_ok tls cfg d = Some (Inr b)"
    and "server_start nm es' n cfg (read_file d' (rdb_path cfg)) (read_file d' (aof_path cfg)) = Some srv"
  shows "\<exists>b'. server_boot nm es' n io_ok bind_ok tls cfg d' = Some (Inr b') \<and> boot_server b' = srv"
proof -
  have "\<exists>w. open_aof io_ok cfg d' = Inr w"
    by (cases "appendonly cfg") (auto simp: open_aof_def aof_open_def io_ok_def split: prod.split)
  then obtain w where "open_aof io_ok cfg d' = Inr w" by blast
  moreover obtain ts where "tls_task bind_ok tls cfg = Inr ts" "bind_ok (socket_addr cfg (cfg_port cfg))"
    using assms(1) by (auto simp: server_boot_def Let_def bind_res_Inr_iff split: option.splits if_splits)
  ultimately show ?thesis using assms(2) by (cases w) (simp add: server_boot_def)
qed

text \<open>A start makes at most one new name, that of the append-only file.\<close>

lemma boot_names:
  assumes "server_boot nm es n io bind_ok tls cfg d = Some (Inr b)" "q \<noteq> aof_path cfg"
  shows "dir_names (boot_disk b) q = dir_names d q"
proof -
  have "open_aof io cfg d = Inr (d0, w) \<Longrightarrow> dir_names d0 q = dir_names d q" for d0 w
    using assms(2) by (auto simp: open_aof_def aof_open_def open_append_def create_file_def split: if_splits option.splits prod.splits)
  moreover obtain w where "open_aof io cfg d = Inr (boot_disk b, w)"
    using assms(1) by (auto simp: server_boot_def Let_def bind_res_Inr_iff split: option.splits if_splits)
  ultimately show ?thesis by blast
qed

section \<open>Properties\<close>

text \<open>
  C18: What was logged survives a crash.  A server comes up on an empty disk with the append-only file turned on; a client runs a session
  of write commands whose effect does not depend on the time (\<open>clockless\<close>: no expiries, no XADD with a star, no SPOP), each of which the writer appends; then the server
  dies while it appends one more command, after any number of its bytes.  The server that starts on the disk as it was left, at whatever later time,
  comes up and has the store that the session had before the last command.
\<close>

theorem crash_recovery:
  assumes "nom_laws nm" "appendonly cfg" "requirepass cfg = None" "dbfilename cfg \<noteq> ''appendonly.aof''"
    and "disk_wf d" "read_file d (rdb_path cfg) = None" "read_file d (aof_path cfg) = None"
    and "server_boot nm es0 n io bind_ok tls cfg d = Some (Inr b)" "boot_writer b = Some w"
    and "list_all frame_fits cmds" "list_all clockless cmds"
    and "run_commands rx_open cfg es n 0 cmds (boot_server b) (connect cfg) = Some (srv, c, as)"
    and "frame_fits torn" "k < length (encode_command_for_aof torn)" "crash WriteCall = Some k"
    and "length (concat (map encode_command_for_aof cmds) @ take k (encode_command_for_aof torn)) \<le> u64_max"
    and "aof_append crash (encode_command_for_aof torn) (append_commands io_ok cmds (boot_disk b, w)) = (d', w')"
    and "\<forall>i j. same_program (es i) (es' j)"
  shows "\<exists>b'. server_boot nm es' n io_ok bind_ok tls cfg d' = Some (Inr b') \<and> srv_store (boot_server b') = srv_store srv"
proof -
  let ?log = "concat (map encode_command_for_aof cmds)" and ?dw = "append_commands io_ok cmds (boot_disk b, w)"
  let ?s = "configure_memory (store_new (cfg_databases cfg)) (unat (cfg_maxmemory cfg))
      (case eviction_policy_parse (maxmemory_policy cfg) of None \<Rightarrow> NoEviction | Some p \<Rightarrow> p)"
  have store0: "initial_store nm es n cfg None f = (case f of None \<Rightarrow> Some ?s | Some x \<Rightarrow> map_option fst (replay_aof nm es n ?s x))" for es f
    using assms(2) by (simp add: initial_store_def Let_def split: option.split)
  have w: "aw_path w = aof_path cfg" "writer_ok (boot_disk b, w)" "srv_aof (boot_server b) = Some (writer_log (boot_disk b, w))"
    using boot_log_in_place [OF assms(5,8)] assms(2,9) by auto
  have "server_start nm es0 n cfg None None = Some (boot_server b)"
    using assms(6-8) by (auto simp: server_boot_def Let_def bind_res_Inr_iff split: option.splits if_splits)
  then have "boot_server b = \<lparr>srv_store = ?s, srv_aof = Some [], srv_backlog = Some (repl_backlog_new (repl_backlog_size cfg))\<rparr>"
    using store0 [of es0 None] assms(2) by (auto simp: server_start_def)
  then have b: "srv_store (boot_server b) = ?s" "srv_aof (boot_server b) = Some []" by simp_all
  have c: "connect cfg = client_context_new" using assms(3) by (simp add: connect_def client_context_new_def)
  have "plain (connect cfg)" by (simp add: c plain_def client_context_new_def)
  moreover have "list_all (\<lambda>args. is_write_command (upper (hd args))) cmds" using assms(11) by (auto simp: list_all_iff clockless_def)
  ultimately have "run_log es n cmds ?s client_context_new 0 = Some (srv_store srv, c, length cmds)"
    using run_writes [OF _ _ b(2) assms(12)] by (simp add: b(1) c)
  moreover have "timeless ?s" by (simp add: timeless_def configure_memory_def store_new_def raw_def)
  ultimately have run: "run_log es' n cmds ?s client_context_new 0 = Some (srv_store srv, c, length cmds)"
    using run_log_settled [OF assms(11,18), of ?s n client_context_new 0 0] by simp
  note app = append_commands_ok [OF w(2), of cmds]
  have names: "dir_names d' = dir_names (boot_disk b)"
    using app assms(15,17) by (auto simp: aof_append_def write_all_def)
  obtain d1 w1 where dw: "?dw = (d1, w1)" by fastforce
  have w1: "w1 = w" "writer_ok (d1, w1)" "writer_log (d1, w1) = ?log" using app w(3) b(2) dw by auto
  have "\<exists>f. read_file (fst (aof_append crash (encode_command_for_aof torn) (d1, w1))) (aw_path w1) = Some f \<and>
      replay_aof nm es' n ?s f = run_log es' n cmds ?s client_context_new 0"
    by (rule torn_append_recovers [OF assms(1,10,13,14) w1(2)]) (use w1(3) assms(15,16) in simp_all)
  then obtain f where f: "read_file d' (aof_path cfg) = Some f" "replay_aof nm es' n ?s f = Some (srv_store srv, c, length cmds)"
    using assms(17) run w(1) by (auto simp: dw w1(1))
  have "rdb_path cfg \<noteq> aof_path cfg" using assms(4) by (simp add: rdb_path_def aof_path_def)
  from boot_names [OF assms(8) this] have "read_file d' (rdb_path cfg) = None"
    using names assms(6) by (simp add: read_file_def)
  then have "\<exists>srv'. server_start nm es' n cfg (read_file d' (rdb_path cfg)) (read_file d' (aof_path cfg)) = Some srv' \<and>
      srv_store srv' = srv_store srv"
    using store0 [of es' "Some f"] f by (simp add: server_start_def)
  then show ?thesis using boot_again [OF assms(8)] by blast
qed

definition empty_disk :: disk where
  "empty_disk = \<lparr>dir_names = Map.empty, contents = (\<lambda>_. []), synced = (\<lambda>_. []), next_file = 0\<rparr>"

definition aof_config :: server_config where
  "aof_config = (default_config None)\<lparr>appendonly := True, cfg_databases := 1\<rparr>"

lemma aof_config_simps:
  "appendonly aof_config" "requirepass aof_config = None" "cfg_databases aof_config = 1" "tls_port aof_config = 0"
  "dbfilename aof_config = ''dump.rdb''" "repl_backlog_size aof_config = 1048576" "cfg_maxmemory aof_config = 0"
  by (simp_all add: aof_config_def default_config_def)

theorem crash_recovery_witness:
  "\<exists>b w srv c as d' w' b'. server_boot nom_ref (\<lambda>_. env0) 1 io_ok (\<lambda>_. True) (\<lambda>_ _. Inl NoKey :: tls_error + unit) aof_config empty_disk = Some (Inr b) \<and>
     run_commands (\<lambda>_. True) aof_config (\<lambda>_. env0) 1 0 [[''SET'', ''k'', ''v'']] (boot_server b) (connect aof_config) = Some (srv, c, as) \<and>
     aof_append (\<lambda>_. Some 9) (encode_command_for_aof [''SET'', ''k'', ''w''])
       (append_commands io_ok [[''SET'', ''k'', ''v'']] (boot_disk b, w)) = (d', w') \<and>
     server_boot nom_ref (\<lambda>_. env0\<lparr>now := 99999\<rparr>) 1 io_ok (\<lambda>_. True) (\<lambda>_ _. Inl NoKey :: tls_error + unit) aof_config d' = Some (Inr b') \<and>
     srv_store (boot_server b') = srv_store srv"
proof -
  let ?cfg = aof_config and ?set = "[''SET'', ''k'', ''v'']" and ?torn = "[''SET'', ''k'', ''w'']"
  let ?tls = "\<lambda>_ _. Inl NoKey :: tls_error + unit"
  have d: "disk_wf empty_disk" "read_file empty_disk p = None" for p by (simp_all add: empty_disk_def disk_wf_def read_file_def)
  define s where "s = configure_memory (store_new 1) 0
      (case eviction_policy_parse (maxmemory_policy ?cfg) of None \<Rightarrow> NoEviction | Some p \<Rightarrow> p)"
  have start: "server_start nom_ref (\<lambda>_. env0) 1 ?cfg None None =
      Some \<lparr>srv_store = s, srv_aof = Some [], srv_backlog = Some (repl_backlog_new 1048576)\<rparr>"
    by (simp add: server_start_def initial_store_def s_def aof_config_simps Let_def)
  have "\<exists>x. open_aof io_ok ?cfg empty_disk = Inr (fst x, Some (snd x))"
    by (auto simp: open_aof_def aof_open_def io_ok_def aof_config_simps split: prod.split)
  then obtain d0 w where o: "open_aof io_ok ?cfg empty_disk = Inr (d0, Some w)" by auto
  have "tls_task (\<lambda>_. True) ?tls ?cfg = Inr []" by (simp add: tls_task_def aof_config_simps)
  then obtain b where b: "server_boot nom_ref (\<lambda>_. env0) 1 io_ok (\<lambda>_. True) ?tls ?cfg empty_disk = Some (Inr b)"
    "boot_server b = \<lparr>srv_store = s, srv_aof = Some [], srv_backlog = Some (repl_backlog_new 1048576)\<rparr>" "boot_writer b = Some w"
    using start o by (auto simp: server_boot_def d(2))
  have u: "upper ''SET'' = ''SET''" by code_simp
  have len: "length (encode_command_for_aof ?set) = 27" "length (encode_command_for_aof ?torn) = 27" by code_simp+
  have "ring_holds 1048576 (repl_backlog_new 1048576) []" by (rule ring_holds_new) simp_all
  from push_holds [OF this, of "encode_command_for_aof ?set" "\<lambda>_. True"] len(1)
  obtain p where p: "backlog_push (\<lambda>_. True) (repl_backlog_new 1048576) (encode_command_for_aof ?set) = Some p" by auto
  have "\<exists>srv c as. run_commands (\<lambda>_. True) ?cfg (\<lambda>_. env0) 1 0 [?set] (boot_server b) (connect ?cfg) = Some (srv, c, as)"
    unfolding b(2)
    by (simp add: handle_command_def u is_auth_exempt_def connect_def aof_config_simps client_context_new_def
        execute_def dispatch_with_def table_defs cmd_set_def args_from_def no_set_options_def store_set_def db_def
        s_def configure_memory_def store_new_def reply_def log_command_def is_write_command_def Let_def is_deny_oom_command_def
        over_memory_limit_def stops_def p split: prod.split)
  then obtain srv c as where r: "run_commands (\<lambda>_. True) ?cfg (\<lambda>_. env0) 1 0 [?set] (boot_server b) (connect ?cfg) = Some (srv, c, as)" by blast
  obtain d' w' where a: "aof_append (\<lambda>_. Some 9) (encode_command_for_aof ?torn) (append_commands io_ok [?set] (boot_disk b, w)) = (d', w')"
    by fastforce
  have "\<exists>b'. server_boot nom_ref (\<lambda>_. env0\<lparr>now := 99999\<rparr>) 1 io_ok (\<lambda>_. True) ?tls ?cfg d' = Some (Inr b') \<and> srv_store (boot_server b') = srv_store srv"
    by (rule crash_recovery [OF nom_laws_ref aof_config_simps(1,2) _ d(1) d(2) d(2) b(1,3) _ _ r _ _ _ _ a])
       (use len in \<open>simp_all add: aof_config_simps frame_fits_def in_i64_def i64_min_def i64_max_def u is_write_command_def clockless_def
          no_set_options_def same_program_def u64_max_def\<close>)
  then show ?thesis using b(1) r a by blast
qed

section \<open>Between a command and its log entry\<close>

text \<open>
  The store of the threads is one, but nothing is locked between the run of a command (\<open>execute\<close>) and the append of its log
  entry (\<open>log_command\<close>).
\<close>

lemma execute_set:
  assumes "ready (srv_store srv) c" "execute e (Suc d) srv c ''SET'' [k, v] = Some (srv', c', a)"
  shows "\<exists>en. stored (srv_store srv) (db_index c) k en (srv_store srv') \<and> ent_value en = StringV v \<and> srv_aof srv' = srv_aof srv \<and>
    srv_backlog srv' = srv_backlog srv"
proof -
  obtain en where en: "rebuilds (\<lambda>_. e) (Suc d) [[''SET'', k, v]] (srv_store srv) c k en" "ent_value en = StringV v"
    using rebuild_string [OF assms(1)] by blast
  then obtain s' where s': "run_log (\<lambda>_. e) (Suc d) [[''SET'', k, v]] (srv_store srv) c 0 = Some (s', c, 0 + length [[''SET'', k, v]])"
    "stored (srv_store srv) (db_index c) k en s'" unfolding rebuilds_def by blast
  then obtain r where "dispatch (Suc d) ''SET'' e (srv_store srv) c [k, v] = Some (s', c, r)"
    by (auto simp: rewrite_names simp del: dispatch.simps split: option.splits)
  then have "srv_store srv' = s'" "srv_aof srv' = srv_aof srv" "srv_backlog srv' = srv_backlog srv"
    using assms(2) by (auto simp: execute_def simp del: dispatch.simps)
  then show ?thesis using s'(2) en(2) by blast
qed

text \<open>
  C40: The log can have two commands in another order than the store.  Two threads set the same key; the first runs its command, the second
  runs its own and logs it, and then the first logs.  The store has the value of the second, and so does every client
  who asks; after a restart from the log the key has the value of the first.
\<close>

theorem log_order_race:
  assumes "nom_laws nm" "ready (srv_store srv) client_context_new" "srv_aof srv = Some []"
    and "int (length (frames [[''SET'', k, v2], [''SET'', k, v1]])) \<le> i64_max"
    and "execute e (Suc d) srv client_context_new ''SET'' [k, v1] = Some (srv1, c1, a1)"
    and "execute e (Suc d) srv1 client_context_new ''SET'' [k, v2] = Some (srv2, c2, a2)"
    and "log_command rx_open srv2 ''SET'' [''SET'', k, v2] = Some srv3"
    and "log_command rx_open srv3 ''SET'' [''SET'', k, v1] = Some srv4"
  shows "\<exists>log s c n en en'. srv_aof srv4 = Some log \<and> raw (srv_store srv4) 0 k = Some en \<and> ent_value en = StringV v2 \<and>
     replay_aof nm (\<lambda>_. e) (Suc d) (srv_store srv) log = Some (s, c, n) \<and> raw s 0 k = Some en' \<and> ent_value en' = StringV v1"
proof -
  let ?c = client_context_new and ?s = "srv_store srv" and ?a = "[''SET'', k, v1]" and ?b = "[''SET'', k, v2]"
  have db: "db_index ?c = 0" by (simp add: client_context_new_def)
  obtain en1 where s1: "stored ?s 0 k en1 (srv_store srv1)" "srv_aof srv1 = Some []"
    using execute_set [OF assms(2,5)] assms(3) db by auto
  have "ready (srv_store srv1) ?c" using stored_ready [OF s1(1) assms(2)] .
  from execute_set [OF this assms(6)] s1(2) db obtain en2 where
    s2: "stored (srv_store srv1) 0 k en2 (srv_store srv2)" "ent_value en2 = StringV v2" "srv_aof srv2 = Some []" by auto
  have w: "is_write_command ''SET''" by (simp add: is_write_command_def)
  have log: "srv_aof srv4 = Some (frames [?b, ?a])" "srv_store srv4 = srv_store srv2"
    using log_command_aof [OF w assms(7)] log_command_aof [OF w assms(8)] s2(3) by (simp_all add: frames_def)
  obtain en where b: "rebuilds (\<lambda>_. e) (Suc d) [?b] ?s ?c k en" using rebuild_string [OF assms(2)] by blast
  then obtain t where t: "run_log (\<lambda>_. e) (Suc d) [?b] ?s ?c 0 = Some (t, ?c, 0 + length [?b])" "stored ?s 0 k en t"
    unfolding rebuilds_def db by blast
  have "ready t ?c" using stored_ready [OF t(2) assms(2)] .
  then obtain en' where a: "rebuilds (\<lambda>_. e) (Suc d) [?a] t ?c k en'" "ent_value en' = StringV v1" using rebuild_string by blast
  then obtain t' where t': "run_log (\<lambda>_. e) (Suc d) [?a] t ?c (0 + length [?b]) = Some (t', ?c, 0 + length [?b] + length [?a])"
    "stored t 0 k en' t'" unfolding rebuilds_def db by blast
  have run: "run_log (\<lambda>_. e) (Suc d) ([?b] @ [?a]) ?s ?c 0 = Some (t', ?c, 0 + length [?b] + length [?a])"
    unfolding run_log_append t(1) using t'(1) by (simp del: run_log.simps)
  have "replay_aof nm (\<lambda>_. e) (Suc d) ?s (frames ([?b] @ [?a])) = Some (t', ?c, 0 + length [?b] + length [?a])"
    using replay_frames [OF assms(1), of "[?b] @ [?a]" "\<lambda>_. e" "Suc d" ?s] assms(4) run by simp
  then show ?thesis using log s2(2) storedD(1) [OF s2(1)] storedD(1) [OF t'(2)] a(2) by auto
qed

lemma test_server_ready: "ready (srv_store test_server) client_context_new" "srv_aof test_server = Some []"
  by (simp_all add: ready_def test_server_def over_memory_limit_def store_new_def valid_db_def client_context_new_def)

theorem log_order_race_witness:
  "\<exists>srv1 c1 a1 srv2 c2 a2 srv3 srv4 log s c n en en'.
     execute env0 1 test_server client_context_new ''SET'' [''k'', ''x''] = Some (srv1, c1, a1) \<and>
     execute env0 1 srv1 client_context_new ''SET'' [''k'', ''y''] = Some (srv2, c2, a2) \<and>
     log_command (\<lambda>_. True) srv2 ''SET'' [''SET'', ''k'', ''y''] = Some srv3 \<and>
     log_command (\<lambda>_. True) srv3 ''SET'' [''SET'', ''k'', ''x''] = Some srv4 \<and> srv_aof srv4 = Some log \<and>
     raw (srv_store srv4) 0 ''k'' = Some en \<and> ent_value en = StringV ''y'' \<and>
     replay_aof nom_ref (\<lambda>_. env0) 1 (store_new 1) log = Some (s, c, n) \<and> raw s 0 ''k'' = Some en' \<and> ent_value en' = StringV ''x''"
proof -
  let ?a = "[''SET'', ''k'', ''x'']" and ?b = "[''SET'', ''k'', ''y'']" and ?c = client_context_new
  have ex: "\<exists>srv' a. execute env0 1 srv ?c ''SET'' [''k'', v] = Some (srv', ?c, a) \<and> srv_backlog srv' = srv_backlog srv" for srv v
    by (simp add: execute_def dispatch_with_def table_defs cmd_set_def args_from_def no_set_options_def store_set_def db_def
        reply_def fail_def Let_def is_deny_oom_command_def split: sum.split)
  obtain srv1 a1 where 1: "execute env0 1 test_server ?c ''SET'' [''k'', ''x''] = Some (srv1, ?c, a1)" "srv_backlog srv1 = None"
    using ex [of test_server "''x''"] by (auto simp: test_server_def)
  obtain srv2 a2 where 2: "execute env0 1 srv1 ?c ''SET'' [''k'', ''y''] = Some (srv2, ?c, a2)" "srv_backlog srv2 = None"
    using ex [of srv1 "''y''"] 1(2) by auto
  have lg: "srv_backlog s = None \<Longrightarrow> \<exists>s'. log_command (\<lambda>_. True) s ''SET'' x = Some s' \<and> srv_backlog s' = None" for s x
    by (simp add: log_command_def is_write_command_def Let_def)
  obtain srv3 where 3: "log_command (\<lambda>_. True) srv2 ''SET'' ?b = Some srv3" "srv_backlog srv3 = None" using lg [OF 2(2)] by blast
  obtain srv4 where 4: "log_command (\<lambda>_. True) srv3 ''SET'' ?a = Some srv4" using lg [OF 3(2)] by blast
  have "length (frames [?b, ?a]) \<le> 100" by code_simp
  then have small: "int (length (frames [?b, ?a])) \<le> i64_max" by (simp add: i64_max_def)
  from log_order_race [OF nom_laws_ref test_server_ready small 1(1) [unfolded One_nat_def] 2(1) [unfolded One_nat_def] 3(1) 4]
  obtain log s c n en en' where "srv_aof srv4 = Some log" "raw (srv_store srv4) 0 ''k'' = Some en" "ent_value en = StringV ''y''"
    "replay_aof nom_ref (\<lambda>_. env0) 1 (store_new 1) log = Some (s, c, n)" "raw s 0 ''k'' = Some en'" "ent_value en' = StringV ''x''"
    by (auto simp: test_server_def)
  then show ?thesis using 1(1) 2(1) 3(1) 4 by blast
qed

lemma push_again:
  assumes "ready s c" "raw s (db_index c) k = Some (new_entry (ListV l0))"
  shows "rebuilds es (Suc d) [''RPUSH'' # k # l] s c k (new_entry (ListV (l0 @ l)))"
proof (rule rebuilds_handler [OF assms(1) rewrite_lookups(2)])
  let ?s = "put_entry s (db_index c) k (new_entry (ListV (l0 @ l)))"
  have "foldl (\<lambda>l v. l @ [v]) l0 l = l0 @ l" by (induction l arbitrary: l0) simp_all
  moreover have "entry_or_insert (databases s ! db_index c) k (ListV []) = new_entry (ListV l0)"
    using assms by (simp add: entry_or_insert_def hm_get_raw ready_def)
  ultimately have "store_rpush s (db_index c) k l = (?s\<lparr>block_reg := notify (block_reg ?s) k\<rparr>, Inr (length (l0 @ l)))"
    by (simp add: store_rpush_def ready_db [OF assms(1)] Let_def new_entry_def)
  then show "\<exists>s' r. cmd_rpush (es n) s c (k # l) = Some (s', c, Inr r) \<and>
      stored s (db_index c) k (new_entry (ListV (l0 @ l))) s'" for n
    using stored_put_notify assms(1) by (auto simp: cmd_rpush_def args_from_def reply_def ready_def)
qed (simp_all add: rewrite_names)

text \<open>
  C39: A rewrite can make a command count twice.  A thread pushes to a list; before it logs the push, a rewrite replaces the
  file by one that already has the element.  The push is then appended, and after a restart the element is in the list twice.
\<close>

theorem rewrite_repeats_push:
  assumes "nom_laws nm" "srv_store srv = store_new 1" "srv_aof srv = Some log0"
    and "int (length (frames [[''RPUSH'', k, x], [''RPUSH'', k, x]])) \<le> i64_max"
    and "execute e (Suc d) srv client_context_new ''RPUSH'' [k, x] = Some (srv1, c1, a1)"
    and "log_command rx_open (aof_rewrite e clock srv1) ''RPUSH'' [''RPUSH'', k, x] = Some srv2"
  shows "\<exists>log s c n. raw (srv_store srv2) 0 k = Some (new_entry (ListV [x])) \<and> srv_aof srv2 = Some log \<and>
     replay_aof nm (\<lambda>_. e) (Suc d) (store_new 1) log = Some (s, c, n) \<and> raw s 0 k = Some (new_entry (ListV [x, x]))"
proof -
  let ?c = client_context_new and ?s = "store_new 1" and ?p = "[''RPUSH'', k, x]"
  have db: "db_index ?c = 0" by (simp add: client_context_new_def)
  have ready: "ready ?s ?c" using test_server_ready(1) by (simp add: test_server_def)
  have none: "raw ?s 0 k = None" by (simp add: store_new_def raw_def)
  obtain t1 where t1: "run_log (\<lambda>_. e) (Suc d) [?p] ?s ?c 0 = Some (t1, ?c, 0 + length [?p])" "stored ?s 0 k (new_entry (ListV [x])) t1"
    using rebuild_list [OF ready, of k "\<lambda>_. e" d "[x]"] none unfolding rebuilds_def db by blast
  have "raw t1 0 k = Some (new_entry (ListV [x]))" using storedD(1) [OF t1(2)] .
  then obtain t2 where t2: "run_log (\<lambda>_. e) (Suc d) [?p] t1 ?c (0 + length [?p]) = Some (t2, ?c, 0 + length [?p] + length [?p])"
    "stored t1 0 k (new_entry (ListV ([x] @ [x]))) t2"
    using push_again [OF stored_ready [OF t1(2) ready], of k "[x]" "\<lambda>_. e" d "[x]"] unfolding rebuilds_def db by blast
  have run: "run_log (\<lambda>_. e) (Suc d) ([?p] @ [?p]) ?s ?c 0 = Some (t2, ?c, 0 + length [?p] + length [?p])"
    unfolding run_log_append t1(1) using t2(1) by (simp del: run_log.simps)
  have replay: "replay_aof nm (\<lambda>_. e) (Suc d) ?s (frames ([?p] @ [?p])) = Some (t2, ?c, 0 + length [?p] + length [?p])"
    using replay_frames [OF assms(1), of "[?p] @ [?p]" "\<lambda>_. e" "Suc d" ?s] assms(4) run by simp
  have srv1: "srv_store srv1 = t1" "srv_aof srv1 = Some log0"
    using assms(2,3,5) t1(1) by (auto simp: execute_def rewrite_names simp del: dispatch.simps split: option.splits)
  have "\<exists>t r. dispatch (Suc d) ''RPUSH'' e ?s ?c [k, x] = Some (t, ?c, r) \<and> databases t = [[(k, new_entry (ListV [x]))]]"
    by (simp add: dispatch_with_def table_defs is_deny_oom_command_def over_memory_limit_def cmd_rpush_def args_from_def
        store_rpush_def db_def reply_def store_new_def put_entry_def set_db_def hm_insert_def entry_or_insert_def new_entry_def
        client_context_new_def)
  then have t1_is: "databases t1 = [[(k, new_entry (ListV [x]))]]"
    using t1(1) by (auto simp: rewrite_names simp del: dispatch.simps)
  have "write_dataset (f64_display e) clock t1 = encode_command_for_aof ?p"
    by (simp add: write_dataset_def commands_for_db_def iterate_db_def db_def t1_is expired_def new_entry_def commands_for_entry_def frames_def)
  then have "srv_aof srv2 = Some (frames ([?p] @ [?p]))" "srv_store srv2 = t1"
    using log_command_aof [OF _ assms(6)] srv1 by (simp_all add: is_write_command_def aof_rewrite_def frames_def)
  then show ?thesis using replay storedD(1) [OF t1(2)] storedD(1) [OF t2(2)] by auto
qed

theorem rewrite_repeats_push_witness:
  "\<exists>srv1 c1 a1 srv2 log s c n. execute env0 1 test_server client_context_new ''RPUSH'' [''k'', ''x''] = Some (srv1, c1, a1) \<and>
     log_command (\<lambda>_. True) (aof_rewrite env0 (\<lambda>_. 0) srv1) ''RPUSH'' [''RPUSH'', ''k'', ''x''] = Some srv2 \<and>
     raw (srv_store srv2) 0 ''k'' = Some (new_entry (ListV [''x''])) \<and> srv_aof srv2 = Some log \<and>
     replay_aof nom_ref (\<lambda>_. env0) 1 (store_new 1) log = Some (s, c, n) \<and> raw s 0 ''k'' = Some (new_entry (ListV [''x'', ''x'']))"
proof -
  let ?p = "[''RPUSH'', ''k'', ''x'']"
  have "\<exists>srv' c a. execute env0 1 test_server client_context_new ''RPUSH'' [''k'', ''x''] = Some (srv', c, a) \<and> srv_backlog srv' = None"
    by (simp add: execute_def dispatch_with_def table_defs is_deny_oom_command_def over_memory_limit_def cmd_rpush_def args_from_def
        store_rpush_def db_def reply_def test_server_def store_new_def entry_or_insert_def new_entry_def client_context_new_def Let_def)
  then obtain srv1 c1 a1 where 1: "execute env0 1 test_server client_context_new ''RPUSH'' [''k'', ''x''] = Some (srv1, c1, a1)"
    "srv_backlog srv1 = None" by blast
  obtain srv2 where 2: "log_command (\<lambda>_. True) (aof_rewrite env0 (\<lambda>_. 0) srv1) ''RPUSH'' ?p = Some srv2"
    using 1(2) by (simp add: log_command_def is_write_command_def aof_rewrite_def Let_def)
  have "length (frames [?p, ?p]) \<le> 100" by code_simp
  then have small: "int (length (frames [?p, ?p])) \<le> i64_max" by (simp add: i64_max_def)
  have s: "srv_store test_server = store_new 1" by (simp add: test_server_def)
  from rewrite_repeats_push [OF nom_laws_ref s test_server_ready(2) small 1(1) [unfolded One_nat_def] 2] 1(1) 2 show ?thesis
    unfolding One_nat_def by blast
qed

end
