(* ===== verification/Entry.thy ===== *)
theory Entry
  imports Startup
begin

text \<open>
  \<open>main.rs\<close> and \<open>net/listener.rs\<close>: from the command line to the running server, and the listener of the library, which serves each
  connection on the runtime it is called from.  The arguments, as \<open>clap\<close> reads them, are the path of the
  settings and the port; the contents of the file are \<open>None\<close> when there is none.
\<close>

section \<open>The program\<close>

text \<open>A file of settings that cannot be read, or a start that fails, ends the program.\<close>

datatype main_error = SettingsRefused config_error | StartFailed boot_error

definition server_main ::
  "nom \<Rightarrow> (nat \<Rightarrow> env) \<Rightarrow> nat \<Rightarrow> io \<Rightarrow> (bytes \<Rightarrow> bool) \<Rightarrow> (bytes \<Rightarrow> bytes \<Rightarrow> tls_error + 'conf) \<Rightarrow> nat option \<Rightarrow> bytes \<Rightarrow> nat option \<Rightarrow>
   disk \<Rightarrow> (main_error + server_config \<times> boot) option" where
  "server_main nm es n io bind_ok tls cpus path port d =
     (case config_load cpus (read_file d path) of
        Inl err \<Rightarrow> Some (Inl (SettingsRefused err))
      | Inr cfg \<Rightarrow>
          (case server_boot nm es n io bind_ok tls (with_port cfg port) d of
             None \<Rightarrow> None
           | Some (Inl err) \<Rightarrow> Some (Inl (StartFailed err))
           | Some (Inr b) \<Rightarrow> Some (Inr (with_port cfg port, b))))"

text \<open>
  The end of \<open>run\<close>: a signal stops the accept loop and a last snapshot is written, its failure ignored; an error of the loop
  ends the program without one.
\<close>

datatype run_stop = AcceptFailed | Interrupted

definition server_shutdown ::
  "io \<Rightarrow> server_config \<Rightarrow> nat \<Rightarrow> u64 \<Rightarrow> (nat \<Rightarrow> u64) \<Rightarrow> run_stop \<Rightarrow> store \<Rightarrow> disk \<Rightarrow> disk" where
  "server_shutdown io cfg pid uid clock stop s d =
     (case stop of AcceptFailed \<Rightarrow> d | Interrupted \<Rightarrow> fst (bgsave io cfg pid uid clock s d))"

section \<open>The listener of the library\<close>

record server_handle =
  hd_addr :: bytes
  hd_server :: server
  hd_config :: server_config
  hd_replid :: bytes

definition server_handle_new :: "(bytes \<Rightarrow> bool) \<Rightarrow> server_config \<Rightarrow> server \<Rightarrow> bytes \<Rightarrow> boot_error + server_handle" where
  "server_handle_new bind_ok cfg srv replid =
     (let addr = socket_addr cfg (cfg_port cfg)
      in if bind_ok addr then Inr \<lparr>hd_addr = addr, hd_server = srv, hd_config = cfg, hd_replid = replid\<rparr>
         else Inl (BindFailed addr))"

text \<open>
  The loop: what \<open>accept\<close> returns, one after the other, an error being \<open>None\<close>.  The result are the connections that are
  started, with what each is served with, and whether an error ended the loop.
\<close>

fun handle_accept_loop :: "server_handle \<Rightarrow> 's option list \<Rightarrow> ('s \<times> server \<times> server_config \<times> bytes) list \<times> bool" where
  "handle_accept_loop h [] = ([], False)"
| "handle_accept_loop h (None # rest) = ([], True)"
| "handle_accept_loop h (Some socket # rest) =
     (case handle_accept_loop h rest of
        (served, failed) \<Rightarrow> ((socket, hd_server h, hd_config h, hd_replid h) # served, failed))"

section \<open>Properties\<close>

text \<open>Every socket that is accepted before the first error is served, in order, with the state and the settings of the server.\<close>

lemma handle_accept_loop_served:
  "handle_accept_loop h results =
     (map (\<lambda>r. (the r, hd_server h, hd_config h, hd_replid h)) (takeWhile (\<lambda>r. r \<noteq> None) results), None \<in> set results)"
  by (induction h results rule: handle_accept_loop.induct) auto

lemma server_main_Inr_iff:
  "server_main nm es n io bind_ok tls cpus path port d = Some (Inr (cfg, b)) \<longleftrightarrow>
     (\<exists>cfg0. config_load cpus (read_file d path) = Inr cfg0 \<and> cfg = with_port cfg0 port \<and>
        server_boot nm es n io bind_ok tls cfg d = Some (Inr b))"
  by (auto simp: server_main_def split: sum.splits option.splits)

text \<open>
  The port of the command line has the last word.  A program that comes up with a port argument could bind that port on the address of
  the settings, whatever port the file names, and everything else is as the file says.
\<close>

theorem command_line_port:
  assumes "server_main nm es n io bind_ok tls cpus path (Some p) d = Some (Inr (cfg, b))"
  shows "bind_ok (socket_addr cfg p) \<and> cfg_port cfg = p \<and>
    (\<exists>cfg0. config_load cpus (read_file d path) = Inr cfg0 \<and> cfg = cfg0\<lparr>cfg_port := p\<rparr>)"
proof -
  obtain cfg0 where "config_load cpus (read_file d path) = Inr cfg0" "cfg = cfg0\<lparr>cfg_port := p\<rparr>"
    and b: "server_boot nm es n io bind_ok tls cfg d = Some (Inr b)"
    using assms by (auto simp: server_main_Inr_iff with_port_def)
  moreover have "bind_ok (socket_addr cfg (cfg_port cfg))"
    using b by (auto simp: server_boot_def Let_def bind_res_Inr_iff split: option.splits if_splits)
  ultimately show ?thesis by auto
qed

text \<open>
  No settings turn the cluster on: whatever the file and the command line say, the program that comes up has no cluster bus among its tasks.
\<close>

theorem main_no_cluster_bus:
  assumes "server_main nm es n io bind_ok tls cpus path port d = Some (Inr (cfg, b))"
  shows "ClusterBus addr \<notin> set (boot_tasks b)"
proof -
  obtain cfg0 where c: "config_load cpus (read_file d path) = Inr cfg0" "cfg = with_port cfg0 port"
    and b: "server_boot nm es n io bind_ok tls cfg d = Some (Inr b)"
    using assms by (auto simp: server_main_Inr_iff)
  have "\<not> cluster_enabled cfg" using cluster_never_enabled(1) [OF c(1)] by (simp add: c(2) with_port_def split: option.split)
  moreover have "ClusterBus addr \<notin> set tasks" if "tls_task bind_ok tls cfg = Inr tasks" for tasks
    using that by (auto simp: tls_task_def Let_def split: if_splits option.splits sum.splits)
  ultimately show ?thesis
    using b by (auto simp: server_boot_def Let_def bind_res_Inr_iff early_tasks_def cluster_task_def split: option.splits if_splits)
qed

text \<open>
  C17: A server that is stopped and started again has its data.  After an interrupt, when the calls that write the last snapshot succeed, the program,
  started again on that disk with the same settings, does not panic, and when it comes up it has under every key
  but the empty one the entry that was live when the snapshot was written, with value and expiry, and nothing else.
\<close>

theorem clean_restart:
  assumes "store_wf s" "store_fits s" "length (databases s) \<le> 256" "cfg_databases cfg = length (databases s)"
    and "disk_wf d" "temp_path cfg pid uid \<noteq> rdb_path cfg" "io CreateTmp = None" "io WriteTmp = None" "io RenameCall = None"
    and "server_shutdown io cfg pid uid clock Interrupted s d = d'"
    and "config_load cpus (read_file d' path) = Inr cfg0" "with_port cfg0 port = cfg"
  shows "\<exists>r. server_main nm es n io' bind_ok tls cpus path port d' = Some r \<and>
    (\<forall>cfg' b. r = Inr (cfg', b) \<longrightarrow> cfg' = cfg \<and> (\<forall>i<length (databases s). \<forall>k.
       restored_entry (if k = [] then None else live (clock i) s i k) (raw (srv_store (boot_server b)) i k)))"
proof -
  obtain d1 i where c: "create_file d (temp_path cfg pid uid) = (d1, i)" by fastforce
  have "length (databases (store_new (length (databases s)))) = length (databases s)"
    "\<forall>i k. raw (store_new (length (databases s))) i k = None"
    by (simp_all add: store_new_def raw_def)
  from rdb_reload [OF assms(1-3) store_wf_new this, of clock]
  obtain data where "save_rdb clock s (length (databases s)) = Inr data" by blast
  then have ok: "bgsave io cfg pid uid clock s d = (d', True)"
    using assms(7-10) c by (auto simp: bgsave_def server_shutdown_def)
  from snapshot_restart [OF assms(1-6) ok, of nm es n] obtain srv where
    srv: "server_start nm es n cfg (read_file d' (rdb_path cfg)) (read_file d' (aof_path cfg)) = Some srv"
    and all: "\<forall>i<length (databases s). \<forall>k. restored_entry (if k = [] then None else live (clock i) s i k) (raw (srv_store srv) i k)"
    by blast
  obtain r where r: "server_boot nm es n io' bind_ok tls cfg d' = Some r" by (simp add: server_boot_def srv)
  have "boot_server b = srv" if "r = Inr b" for b
    using r that srv by (auto simp: server_boot_def Let_def bind_res_Inr_iff split: if_splits)
  then show ?thesis
    using r all assms(11,12) by (cases r) (auto simp: server_main_def)
qed

text \<open>When the accept loop fails nothing is saved: the next start finds the files as they are.\<close>

lemma accept_error_saves_nothing: "server_shutdown io cfg pid uid clock AcceptFailed s d = d"
  by (simp add: server_shutdown_def)

theorem clean_restart_witness:
  "\<exists>cfg d' b. cfg = with_port (default_config None) (Some 7000) \<and>
     server_shutdown io_ok cfg 7 0 (\<lambda>_. 5) Interrupted (put_entry (store_new 16) 0 ''k'' (new_entry (StringV ''v''))) test_disk = d' \<and>
     server_main nom_ref (\<lambda>_. env0) 1 io_ok (\<lambda>_. True) (\<lambda>_ _. Inl NoKey :: tls_error + unit) None ''velodb.conf'' (Some 7000) d' =
       Some (Inr (cfg, b)) \<and> raw (srv_store (boot_server b)) 0 ''k'' \<noteq> None"
proof -
  let ?s = "put_entry (store_new 16) 0 ''k'' (new_entry (StringV ''v''))" and ?cfg = "with_port (default_config None) (Some 7000)"
  have len: "length (databases ?s) = 16" by (simp add: store_new_def put_entry_def set_db_def)
  have "set (databases ?s) \<subseteq> insert [(''k'', new_entry (StringV ''v''))] {[]}"
    using set_update_subset_insert [of "replicate 16 []" 0 "[(''k'', new_entry (StringV ''v''))]"]
    by (auto simp: store_new_def put_entry_def set_db_def hm_insert_def)
  then have fits: "store_fits ?s" by (auto simp: store_fits_def list_all_iff new_entry_def len_fits_def)
  have s: "store_wf ?s" "length (databases ?s) \<le> 256" "cfg_databases ?cfg = length (databases ?s)"
    using store_wf_put [of "store_new 16" "new_entry (StringV ''v'')" 0 "''k''"] store_wf_new [of 16] len
    by (simp_all add: default_config_def with_port_def valid_db_def store_new_def new_entry_def)
  have disk: "disk_wf test_disk" using test_writer_ok by (simp add: writer_ok_def)
  have paths: "temp_path ?cfg 7 0 \<noteq> rdb_path ?cfg" "rdb_path ?cfg \<noteq> ''velodb.conf''" "temp_path ?cfg 7 0 \<noteq> ''velodb.conf''"
    by (simp_all add: temp_path_def rdb_path_def default_config_def with_port_def)
  obtain d' where d': "server_shutdown io_ok ?cfg 7 0 (\<lambda>_. 5) Interrupted ?s test_disk = d'" by simp
  have "dir_names d' ''velodb.conf'' = None"
    using paths by (auto simp: d' [symmetric] server_shutdown_def bgsave_def io_ok_def create_file_def test_disk_def rename_file_def
        write_all_def Let_def split: sum.split)
  then have none: "config_load None (read_file d' ''velodb.conf'') = Inr (default_config None)"
    by (simp add: read_file_def config_load_def)
  obtain r where r: "server_main nom_ref (\<lambda>_. env0) 1 io_ok (\<lambda>_. True) (\<lambda>_ _. Inl NoKey :: tls_error + unit) None ''velodb.conf'' (Some 7000) d' = Some r"
    and all: "\<forall>cfg' b. r = Inr (cfg', b) \<longrightarrow> cfg' = ?cfg \<and> (\<forall>i<length (databases ?s). \<forall>k.
       restored_entry (if k = [] then None else live 5 ?s i k) (raw (srv_store (boot_server b)) i k))"
    using clean_restart [OF s(1) fits s(2,3) disk paths(1) _ _ _ d' none refl] by (fastforce simp: io_ok_def)
  have "tls_task (\<lambda>_. True) (\<lambda>_ _. Inl NoKey :: tls_error + unit) ?cfg = Inr []" "\<not> appendonly ?cfg"
    by (simp_all add: tls_task_def default_config_def with_port_def)
  then obtain b where b: "r = Inr (?cfg, b)"
    using r by (auto simp: server_main_def none server_boot_def open_aof_def Let_def split: option.splits sum.splits)
  with all len have "restored_entry (if ''k'' = [] then None else live 5 ?s 0 ''k'') (raw (srv_store (boot_server b)) 0 ''k'')"
    by (metis zero_less_numeral)
  moreover have "live 5 ?s 0 ''k'' = Some (new_entry (StringV ''v''))" by code_simp
  ultimately have "raw (srv_store (boot_server b)) 0 ''k'' \<noteq> None" by (cases "raw (srv_store (boot_server b)) 0 ''k''") simp_all
  with r b d' show ?thesis by blast
qed

end
