(* ===== verification/Cli.thy ===== *)
theory Cli
  imports Connection
begin

text \<open>
  \<open>bin/cli.rs\<close>: the command-line client.  \<open>split_words\<close> cuts a line into words, \<open>encode_command\<close> makes the request,
  \<open>print_response\<close> the lines printed for the bytes read.  The client works on characters, the model on the bytes of
  their UTF-8 encoding: the characters it looks for are ASCII and never part of another.  The loop over the
  lines typed by the user has for each line what the one attempt to read from the
  socket returns.
\<close>

section \<open>Requests\<close>

definition quote :: char where "quote = CHR 0x22"
definition tab :: char where "tab = CHR 0x09"

fun split_loop :: "bytes \<Rightarrow> bytes list \<Rightarrow> bytes \<Rightarrow> bool \<Rightarrow> bytes list" where
  "split_loop [] ws cur in_quotes = (if cur \<noteq> [] then ws @ [cur] else ws)"
| "split_loop (ch # chs) ws cur in_quotes =
     (if ch = quote then split_loop chs ws cur (\<not> in_quotes)
      else if (ch = CHR '' '' \<or> ch = tab) \<and> \<not> in_quotes then
        split_loop chs (if cur \<noteq> [] then ws @ [cur] else ws) [] in_quotes
      else split_loop chs ws (cur @ [ch]) in_quotes)"

definition split_words :: "bytes \<Rightarrow> bytes list" where
  "split_words input = split_loop input [] [] False"

definition encode_command :: "bytes \<Rightarrow> bytes" where
  "encode_command cmd =
     (let args = split_words cmd
      in ''*'' @ nat_to_string (length args) @ crlf @
         concat (map (\<lambda>a. ''$'' @ nat_to_string (length a) @ crlf @ a @ crlf) args))"

section \<open>Answers\<close>

definition print_line :: "bytes \<Rightarrow> bytes list" where
  "print_line l =
     (let line = trim l in
      if line = [] then []
      else if hd line = CHR ''+'' then [tl line]
      else if hd line = CHR ''-'' then [''(error) '' @ tl line]
      else if hd line = CHR '':'' then [''(integer) '' @ tl line]
      else if line = ''$-1'' then [''(nil)'']
      else if hd line \<noteq> CHR ''*'' \<and> hd line \<noteq> CHR ''$'' then [[quote] @ line @ [quote]]
      else [])"

definition print_response :: "bytes \<Rightarrow> bytes list" where
  "print_response data = concat (map print_line (lines (utf8_lossy data)))"

section \<open>Sessions\<close>

datatype read_attempt = ReadBytes bytes | WouldBlock | ReadError

text \<open>One command: a failed attempt to read counts as nothing read.\<close>

definition execute_command :: "bytes \<Rightarrow> read_attempt \<Rightarrow> bytes \<times> bytes list" where
  "execute_command cmd r =
     (encode_command cmd, print_response (case r of ReadBytes bs \<Rightarrow> take 4096 bs | _ \<Rightarrow> []))"

definition wants_exit :: "bytes \<Rightarrow> bool" where
  "wants_exit cmd \<longleftrightarrow> to_lowercase cmd = ''exit'' \<or> to_lowercase cmd = ''quit''"

text \<open>
  The loop over the lines of the user, each with whether the write succeeds and what the attempt to read gives
  (no bytes when the server has closed the connection): what is sent and what is printed, without the greeting and the
  prompts, an error as one line.
\<close>

fun interactive_loop :: "(bytes \<times> bool \<times> read_attempt) list \<Rightarrow> bytes \<times> bytes list" where
  "interactive_loop [] = ([], [])"
| "interactive_loop ((line, written, r) # rest) =
     (let cmd = trim line in
      if cmd = [] then interactive_loop rest
      else if wants_exit cmd then ([], [])
      else if \<not> written then ([], [''err''])
      else let req = encode_command cmd in
        (case r of
           ReadBytes [] \<Rightarrow> (req, [''closed.''])
         | ReadBytes bs \<Rightarrow>
             (let (sent, shown) = interactive_loop rest in (req @ sent, print_response (take 65536 bs) @ shown))
         | WouldBlock \<Rightarrow> (let (sent, shown) = interactive_loop rest in (req @ sent, shown))
         | ReadError \<Rightarrow> (req, [''err''])))"

text \<open>
  \<open>main\<close>: one command from the command line, or the loop; \<open>None\<close> when the server cannot be reached or the one command cannot be
  written.
\<close>

definition cli_main ::
  "(bytes \<Rightarrow> bool) \<Rightarrow> bytes \<Rightarrow> nat \<Rightarrow> bytes option \<Rightarrow> bool \<Rightarrow> read_attempt \<Rightarrow> (bytes \<times> bool \<times> read_attempt) list \<Rightarrow>
   (bytes \<times> bytes list) option" where
  "cli_main reachable host port command written r typed =
     (if \<not> reachable (host @ '':'' @ nat_to_string port) then None
      else case command of
        Some cmd \<Rightarrow> if written then Some (execute_command cmd r) else None
      | None \<Rightarrow> Some (interactive_loop typed))"

section \<open>Words\<close>

text \<open>A line with every word in quotation marks.\<close>

definition quoted :: "bytes list \<Rightarrow> bytes" where
  "quoted ws = concat (map (\<lambda>w. CHR '' '' # quote # w @ [quote]) ws)"

lemma split_quoted_word:
  "quote \<notin> set w \<Longrightarrow> split_loop (w @ chs) ws cur True = split_loop chs ws (cur @ w) True"
  by (induction w arbitrary: cur) auto

lemma split_quoted:
  assumes "\<forall>w\<in>set vs. w \<noteq> [] \<and> quote \<notin> set w"
  shows "split_loop (quoted vs) ws cur False = (if cur \<noteq> [] then ws @ [cur] else ws) @ vs"
  using assms
proof (induction vs arbitrary: ws cur)
  case (Cons v vs)
  have q: "quote \<noteq> CHR '' ''" by (simp add: quote_def)
  have "split_loop (quoted (v # vs)) ws cur False =
      split_loop (quoted vs) (if cur \<noteq> [] then ws @ [cur] else ws) v False"
    using split_quoted_word [of v] Cons.prems q by (simp add: quoted_def)
  then show ?case using Cons by simp
qed (simp add: quoted_def)

lemma split_plain_word:
  assumes "quote \<notin> set w" "CHR '' '' \<notin> set w" "tab \<notin> set w"
  shows "split_loop (w @ chs) ws cur False = split_loop chs ws (cur @ w) False"
  using assms by (induction w arbitrary: cur) auto

section \<open>Properties\<close>

text \<open>
  The client sends what the user means.  A line in which every word is in quotation marks, whatever blanks the words
  contain, is sent as a request that the server parses to exactly those words.
\<close>

theorem cli_request_parsed:
  assumes "nom_laws nm" "\<forall>w\<in>set ws. w \<noteq> [] \<and> quote \<notin> set w" "frame_fits ws" "length (encode_command (quoted ws)) \<le> u64_max"
  shows "parse_command nm (encode_command (quoted ws)) = IOk [] ws"
proof -
  have "split_words (quoted ws) = ws" using split_quoted [OF assms(2), of "[]" "[]"] by (simp add: split_words_def)
  then have e: "encode_command (quoted ws) = encode_command_for_aof ws"
    by (simp add: encode_command_def encode_command_for_aof_def encode_arg_def [abs_def])
  show ?thesis using parse_encoded [OF assms(1,3), of "[]"] assms(4) unfolding e by simp
qed

theorem cli_request_parsed_witness:
  "parse_command nom_ref (encode_command (quoted [''SET'', ''a key'', ''v''])) = IOk [] [''SET'', ''a key'', ''v'']"
proof (rule cli_request_parsed [OF nom_laws_ref])
  have "length (encode_command (quoted [''SET'', ''a key'', ''v''])) = 31" by code_simp
  then show "length (encode_command (quoted [''SET'', ''a key'', ''v''])) \<le> u64_max" by (simp add: u64_max_def)
qed (auto simp: quote_def frame_fits_def in_i64_def i64_min_def i64_max_def)

text \<open>
  The client cannot send an empty argument: a pair of quotation marks with nothing between them is no word.
\<close>

theorem cli_drops_empty_word:
  assumes "w \<noteq> []" "quote \<notin> set w" "CHR '' '' \<notin> set w" "tab \<notin> set w"
  shows "split_words (w @ '' '' @ [quote, quote]) = [w]"
proof -
  have "quote \<noteq> CHR '' ''" by (simp add: quote_def)
  then show ?thesis using split_plain_word [OF assms(2-4)] assms(1) by (simp add: split_words_def)
qed

end
