(* ===== verification/Spec2Isabelle.thy ===== *)
theory Spec2Isabelle
  imports Session Blocking Durability Entry Cli
begin

text \<open>
  VeloDB: an in-memory key-value server with the protocol and most of the commands of Redis.

  \<open>Parts and theories.\<close>  The order is the order in which the theories build on each other.

  \<^item> \<open>Prelude\<close>, \<open>RustStd\<close>: types, collections of rules; the parts of Rust's library the sources use (decimal
    numbers, UTF-8 with replacement, case mapping, splitting, machine integers).
  \<^item> \<open>Containers\<close>, \<open>OrderedMap\<close>: \<open>HashMap\<close> and \<open>HashSet\<close> as association lists in the order of their iteration,
    \<open>BTreeMap\<close> as a list in the order of its keys; \<open>f64\<close> by its bits, with the comparison of \<open>OrderedF64\<close>.
    The contracts the store relies on are locales (finite maps, finite sets, ordered keys), interpreted on
    these lists.
  \<^item> \<open>Errors\<close> (\<open>error.rs\<close>), \<open>Glob\<close> (the matcher of KEYS, SCAN, PSUBSCRIBE), \<open>Registry\<close> (blocked clients and
    subscriptions), \<open>Store\<close>, \<open>StoreList\<close>, \<open>StoreSet\<close>, \<open>StoreHash\<close>, \<open>StoreZSet\<close>, \<open>StoreStream\<close>, \<open>StoreGroup\<close>, \<open>StoreScan\<close>,
    \<open>StoreMemory\<close> (\<open>store/memory.rs\<close>): the keyspace and one theory for each kind of value; the cursors of SCAN; the estimate of
    memory, eviction and active expiry.  \<open>Store::foo\<close> is \<open>store_foo\<close>; an operation that changes the store
    returns it; the clock is an argument.
  \<^item> \<open>Steps\<close>: every operation that changes a store is a rule of \<open>store_step\<close>; the well-formedness of the
    containers and the number of databases are invariants, by rule induction.
  \<^item> \<open>Resp\<close> (\<open>resp/\<close>): values, serialization for versions 2 and 3, the request parser.
  \<^item> \<open>Cluster\<close> (\<open>cluster/\<close>, \<open>shard/router.rs\<close>): hash tags, slots, the slot map, redirects.
  \<^item> \<open>Command\<close>, \<open>CmdString\<close>, \<open>CmdGeneric\<close>, \<open>CmdCollections\<close>, \<open>CmdStream\<close>, \<open>CmdServer\<close> (\<open>cmd/\<close>): a handler takes the environment of
    a command, the store, the connection's context and the arguments and returns an outcome.  Shared
    rules prove for every handler of every table that it only makes steps of the store, that it returns when
    it has the arguments it declares, and that it keeps the session.
  \<^item> \<open>Dispatch\<close> (\<open>cmd/mod.rs\<close>, \<open>cmd/transaction.rs\<close>, \<open>cmd/lua.rs\<close>): transactions, scripts, the table, the check of the memory
    limit and of the arity.  EXEC and EVAL call the dispatcher again; the contract they rely on is a
    locale, interpreted on every depth of nesting.
  \<^item> \<open>Backlog\<close> (\<open>replication/backlog.rs\<close>, \<open>replication/master.rs\<close>): the ring buffer as an instance of the locale of stream
    logs, and PSYNC.
  \<^item> \<open>Rdb\<close> (\<open>persist/rdb.rs\<close>): the snapshot format; writers and their readers as instances of a locale of codecs.
  \<^item> \<open>Aof\<close> (\<open>persist/aof.rs\<close>, \<open>persist/aof_rewrite.rs\<close>, \<open>replay_aof\<close> of \<open>server.rs\<close>): the encoding of commands, the replay, and what the
    parser makes of a command that is cut off anywhere.
  \<^item> \<open>Config\<close> (\<open>config.rs\<close>), \<open>Connection\<close> (\<open>net/connection.rs\<close>), \<open>Replica\<close> (\<open>replication/replica.rs\<close>, on the bytes received so far).
  \<^item> \<open>Clock\<close>: which logged commands have the same effect when they are replayed at another time.
  \<^item> \<open>AofFile\<close> (\<open>AofWriter\<close> of \<open>persist/aof.rs\<close>): the writer on a file system with names, files and handles, in which any call may fail.
    The contract of a log is a locale, interpreted on the log of the connections and on the writer.
  \<^item> \<open>Server\<close> (\<open>server.rs\<close>): start, background tasks, and the whole server as the step relation \<open>server_step\<close>, in
    which the steps of all connections and tasks interleave.
  \<^item> \<open>Shard\<close> (\<open>shard/mod.rs\<close>, \<open>net/tls.rs\<close>): the queues of the shards, the accept loops, the certificate files.
  \<^item> \<open>Startup\<close> (\<open>run\<close> of \<open>server.rs\<close>, \<open>bgsave\<close> of \<open>persist/rdb.rs\<close>, the bus of \<open>cluster/slots.rs\<close>): files, tasks and listeners of a start.
  \<^item> \<open>Entry\<close> (\<open>main.rs\<close>, \<open>net/listener.rs\<close>): the program from its arguments on, and the listener of the library.
  \<^item> \<open>Rewrite\<close>: the command stream of a rewrite, replayed, rebuilds the dataset.
  \<^item> \<open>Durability\<close>: start, session, appends, crash and restart composed; what happens when other threads run between a command and its log entry.
  \<^item> \<open>Link\<close> (\<open>ReplicationState\<close> of \<open>replication/backlog.rs\<close>, the live loop of \<open>replication/master.rs\<close>, \<open>connect_to_master\<close> and
    \<open>stream_commands\<close> of \<open>replication/replica.rs\<close>): both ends of a replication link, on sockets that deliver their bytes in any pieces.
  \<^item> \<open>Session\<close> (\<open>handle\<close> of \<open>net/connection.rs\<close> as a whole): a connection from its first read to its end, on the events it waits for; each of
    its steps is a run of \<open>server_step\<close>.
  \<^item> \<open>Blocking\<close>: BLPOP and BRPOP across connections, the check, the registration, the push that wakes and the pop of the woken client as separate steps.
  \<^item> \<open>Cli\<close> (\<open>bin/cli.rs\<close>): the command-line client.

  \<open>What is shown.\<close>  Each kind of value refines the mathematical object it stands for (list, set, finite map,
  scored set, ordered log), with the exact result of every query and the integers kept at their width.
  Expiry, eviction and scans are shown not to lose or repeat what they must not.  Snapshots, the append-only
  file and its rewrite, the protocol and the backlog round-trip; the append-only file of a session
  of write commands that set no expiry and take no identifier from the clock reproduces its store at any later time (SPOP is left out too), and the file on disk holds that log across rewrites, restarts and failing calls.
  After such a session a server that dies while it appends comes up again with the store before that command.  One that is interrupted
  and started again has every live entry of its last snapshot.
  A replica that connects copies the master, and applies once more what is written while it is sent the snapshot; one that reconnects catches up, when no read ends inside a command.  A client is answered request by request, in the order in which it sent them, and one that blocks is
  served by the next push once it listens.  A client without the password changes nothing unless it sends PSYNC.  Every command outside a
  named list of exceptions returns, and every state the server can reach is well formed.  Where the code does something else
  than it means to, a theorem states what it does.

  \<open>Conventions.\<close>  \<open>None\<close> in an option type is a panic or a loop that does not end; an error is the left side of a sum.  Arithmetic wraps around as in a release
  build.  A hash map or set is a list in the order of its iteration, which is one of the orders the randomly seeded hashes of the code can give.  A loop over a buffer with a parser that is a parameter is a partial function; the theorems
  about such loops show that they return.

  \<open>Bounds.\<close>  \<open>dispatch n\<close> allows \<open>n\<close> nested calls; a command other than EXEC, EVAL and EVALSHA needs one, and a
  transaction without these needs two (\<open>dispatch_depth\<close>); the theorems hold for every \<open>n\<close>.  The parser's
  recursion is bounded by one more than the length of its input, which suffices because every nested
  array has a byte of its own.

  \<open>Parameters.\<close>  The combinators of nom with their documented laws (\<open>nom_laws\<close>, which the record \<open>nom_ref\<close> satisfies), the
  CRC of the slot router, SHA-1, the parsing and display of a double, the Lua interpreter (\<open>lua_load\<close>
  says what a script does), the clock, random numbers, the hash of an address, the readers of certificates and keys, the senders that are still
  connected, which calls of the file system fail, which addresses can be bound, and what the reads of a socket return.

  \<open>Not modelled.\<close>  The scheduling of threads and tasks beyond the interleaving of \<open>server_step\<close>, in which a command and its log entry are one step
  (\<open>Durability\<close> shows what their separation does) and so is each operation of the store, timers and signals, the TLS protocol,
  argument parsing by clap, logging, writes to a socket that fail.  That data survives a loss of power is not claimed: \<open>AofFile\<close> keeps what is on the disk apart from what a reader sees, and the
  code never asks for an append to reach the disk.
\<close>

end
